(* ===== verification/Grin_Prelude.thy ===== *)
theory Grin_Prelude
  imports Main "HOL-Library.Word" "HOL-Library.Multiset"
begin

text \<open>
  Shared vocabulary of the development: the machine types of the Rust sources, the
  \<open>Result\<close> type with its question-mark operator, the adjacent-pairs view behind
  \<open>slice::windows(2)\<close>, and the binary arithmetic (number of one bits, number of trailing
  one bits, bit length) on which the Merkle mountain range positions rest.
\<close>

section \<open>Types and theorem collections\<close>

type_synonym u8 = "8 word"
type_synonym u16 = "16 word"
type_synonym u32 = "32 word"
type_synonym u64 = "64 word"
type_synonym bytes = "u8 list"

named_theorems result_simps \<open>rewriting of the Result combinators\<close>
named_theorems mmr_arith \<open>arithmetic of Merkle mountain range positions\<close>

section \<open>Results and the question-mark operator\<close>

text \<open>
  \<open>Result<T, E>\<close> is the sum \<open>'e + 'a\<close>, with \<open>Inl\<close> for \<open>Err\<close> and \<open>Inr\<close> for \<open>Ok\<close>.
  \<open>rbind\<close> is the question-mark operator, \<open>map_err\<close> and \<open>ok_or\<close> are the standard
  library's methods of those names.
\<close>

definition rbind :: "'e + 'a \<Rightarrow> ('a \<Rightarrow> 'e + 'b) \<Rightarrow> 'e + 'b" where
  "rbind r f = (case r of Inl e \<Rightarrow> Inl e | Inr x \<Rightarrow> f x)"

definition map_err :: "('e \<Rightarrow> 'f) \<Rightarrow> 'e + 'a \<Rightarrow> 'f + 'a" where
  "map_err g r = (case r of Inl e \<Rightarrow> Inl (g e) | Inr x \<Rightarrow> Inr x)"

definition ok_or :: "'e \<Rightarrow> 'a option \<Rightarrow> 'e + 'a" where
  "ok_or e v = (case v of None \<Rightarrow> Inl e | Some x \<Rightarrow> Inr x)"

definition is_ok :: "'e + 'a \<Rightarrow> bool" where
  "is_ok r = (case r of Inl _ \<Rightarrow> False | Inr _ \<Rightarrow> True)"

definition ensure :: "bool \<Rightarrow> 'e \<Rightarrow> 'e + unit" where
  "ensure b e = (if b then Inr () else Inl e)"

lemma rbind_simps [simp, result_simps]:
  "rbind (Inl e) f = Inl e" "rbind (Inr x) f = f x"
  by (simp_all add: rbind_def)

lemma rbind_Inr_iff [result_simps]:
  "rbind r f = Inr y \<longleftrightarrow> (\<exists>x. r = Inr x \<and> f x = Inr y)"
  by (cases r) auto

lemma rbind_Inl_iff:
  "rbind r f = Inl e \<longleftrightarrow> r = Inl e \<or> (\<exists>x. r = Inr x \<and> f x = Inl e)"
  by (cases r) auto

lemma rbind_cong [fundef_cong]:
  "r = r' \<Longrightarrow> (\<And>x. r' = Inr x \<Longrightarrow> f x = g x) \<Longrightarrow> rbind r f = rbind r' g"
  by (cases r') auto

lemma map_err_simps [simp, result_simps]:
  "map_err g (Inl e) = Inl (g e)" "map_err g (Inr x) = Inr x"
  by (simp_all add: map_err_def)

lemma map_err_Inr_iff [simp, result_simps]: "map_err g r = Inr x \<longleftrightarrow> r = Inr x"
  by (cases r) auto

lemma ok_or_simps [simp, result_simps]:
  "ok_or e None = Inl e" "ok_or e (Some x) = Inr x"
  by (simp_all add: ok_or_def)

lemma ok_or_Inr_iff [simp, result_simps]: "ok_or e v = Inr x \<longleftrightarrow> v = Some x"
  by (cases v) auto

lemma is_ok_simps [simp, result_simps]: "\<not> is_ok (Inl e)" "is_ok (Inr x)"
  by (simp_all add: is_ok_def)

lemma is_ok_projr: "is_ok r \<Longrightarrow> r = Inr (projr r)"
  by (cases r) auto

lemma rbind_ok: "is_ok r \<Longrightarrow> rbind r f = f (projr r)"
  by (cases r) auto

lemma ensure_Inr_iff [simp, result_simps]: "ensure b e = Inr u \<longleftrightarrow> b"
  by (simp add: ensure_def)

lemma ensure_Inl_iff [simp, result_simps]: "ensure b e = Inl e' \<longleftrightarrow> \<not> b \<and> e' = e"
  by (auto simp: ensure_def)

text \<open>A \<open>for\<close> loop whose body may return an error early.\<close>

fun try_fold :: "('a \<Rightarrow> 's \<Rightarrow> 'e + 's) \<Rightarrow> 'a list \<Rightarrow> 's \<Rightarrow> 'e + 's" where
  "try_fold f [] s = Inr s"
| "try_fold f (x # xs) s = rbind (f x s) (try_fold f xs)"

lemma try_fold_append: "try_fold f (xs @ ys) s = rbind (try_fold f xs s) (try_fold f ys)"
  by (induction xs arbitrary: s) (auto simp: rbind_def split: sum.splits)

text \<open>The loop over \<open>0..<n\<close>: what each pass keeps, the whole loop keeps.\<close>

lemma try_fold_upt:
  assumes "try_fold f [0..<n] s = Inr t" "P 0 s"
    and "\<And>m s t. m < n \<Longrightarrow> P m s \<Longrightarrow> f m s = Inr t \<Longrightarrow> P (Suc m) t"
  shows "P n t"
  using assms
proof (induction n arbitrary: t)
  case (Suc n)
  then obtain u where "try_fold f [0..<n] s = Inr u" "f n u = Inr t"
    by (auto simp: try_fold_append rbind_Inr_iff)
  with Suc show ?case by (meson less_Suc_eq)
qed simp

section \<open>Adjacent pairs\<close>

text \<open>\<open>windows2 xs\<close> is the sequence of pairs \<open>slice::windows(2)\<close> iterates over.\<close>

fun windows2 :: "'a list \<Rightarrow> ('a \<times> 'a) list" where
  "windows2 (x # y # zs) = (x, y) # windows2 (y # zs)"
| "windows2 _ = []"

lemma windows2_sorted_wrt:
  assumes "transp R"
  shows "(\<forall>(x, y) \<in> set (windows2 xs). R x y) \<longleftrightarrow> sorted_wrt R xs"
  by (induction xs rule: windows2.induct) (use assms in \<open>auto dest: transpD\<close>)

lemma windows2_map: "windows2 (map f xs) = map (map_prod f f) (windows2 xs)"
  by (induction xs rule: windows2.induct) auto

lemma windows2_sorted_distinct:
  fixes xs :: "'a :: linorder list"
  assumes "sorted xs"
  shows "(\<exists>(x, y) \<in> set (windows2 xs). x = y) \<longleftrightarrow> \<not> distinct xs"
  using assms by (induction xs rule: windows2.induct) (auto simp: order.antisym)

section \<open>Filtering maps\<close>

lemma map_filter_all:
  "(\<And>x. x \<in> set xs \<Longrightarrow> f x = Some (g x)) \<Longrightarrow> List.map_filter f xs = map g xs"
  by (induction xs) (auto simp: List.map_filter_simps)

section \<open>Saturating arithmetic\<close>

text \<open>Saturating operations of \<open>u64\<close>: they stop at the type's bounds instead of wrapping.\<close>

definition sat_add :: "u64 \<Rightarrow> u64 \<Rightarrow> u64" where
  "sat_add a b = (if unat a + unat b < 2 ^ 64 then a + b else - 1)"

definition sat_sub :: "u64 \<Rightarrow> u64 \<Rightarrow> u64" where
  "sat_sub a b = (if b \<le> a then a - b else 0)"

definition sat_mul :: "u64 \<Rightarrow> u64 \<Rightarrow> u64" where
  "sat_mul a b = (if unat a * unat b < 2 ^ 64 then a * b else - 1)"

lemma unat_minus_one_u64: "unat (- 1 :: u64) = 2 ^ 64 - 1"
  by (simp add: unsigned_minus_1_eq_mask mask_eq_exp_minus_1)

lemma unat_sat_add: "unat (sat_add a b) = min (unat a + unat b) (2 ^ 64 - 1)"
  by (simp add: sat_add_def unat_word_ariths unat_minus_one_u64 min_def)

lemma unat_sat_mul: "unat (sat_mul a b) = min (unat a * unat b) (2 ^ 64 - 1)"
  by (simp add: sat_mul_def unat_word_ariths unat_minus_one_u64 min_def)

lemma unat_sat_sub: "unat (sat_sub a b) = unat a - unat b"
  by (simp add: sat_sub_def unat_sub word_le_nat_alt)

section \<open>Binary arithmetic\<close>

text \<open>
  \<open>u64::count_ones\<close>, the length of the binary representation
  (\<open>64 - leading_zeros\<close>) and the number of trailing one bits, on natural numbers.
\<close>

fun count_ones :: "nat \<Rightarrow> nat" where
  "count_ones n = (if n = 0 then 0 else n mod 2 + count_ones (n div 2))"

fun bit_len :: "nat \<Rightarrow> nat" where
  "bit_len n = (if n = 0 then 0 else Suc (bit_len (n div 2)))"

function trailing_ones :: "nat \<Rightarrow> nat" where
  "trailing_ones n = (if odd n then Suc (trailing_ones (n div 2)) else 0)"
  by pat_completeness auto
termination
  by (relation "measure id") (auto elim: oddE)

declare count_ones.simps [simp del] bit_len.simps [simp del] trailing_ones.simps [simp del]

lemma count_ones_0 [simp]: "count_ones 0 = 0"
  by (simp add: count_ones.simps)

lemma count_ones_double [simp]: "count_ones (2 * n) = count_ones n"
  by (subst count_ones.simps) simp

lemma count_ones_Suc_double [simp]: "count_ones (Suc (2 * n)) = Suc (count_ones n)"
  by (subst count_ones.simps) simp

lemma trailing_ones_even [simp]: "even n \<Longrightarrow> trailing_ones n = 0"
  by (simp add: trailing_ones.simps)

lemma trailing_ones_Suc_double [simp]: "trailing_ones (Suc (2 * n)) = Suc (trailing_ones n)"
  by (subst trailing_ones.simps) simp

lemma nat_parity_induct [case_names zero even odd]:
  assumes "P 0" and "\<And>n. 0 < n \<Longrightarrow> P n \<Longrightarrow> P (2 * n)" and "\<And>n. P n \<Longrightarrow> P (Suc (2 * n))"
  shows "P (n :: nat)"
proof (induction n rule: less_induct)
  case (less n)
  show ?case
  proof (cases "n = 0")
    case True
    then show ?thesis using assms(1) by simp
  next
    case False
    then have IH: "P (n div 2)" using less by simp
    show ?thesis
    proof (cases "even n")
      case True
      with False have "0 < n div 2" by auto
      then have "P (2 * (n div 2))" using IH by (rule assms(2))
      with True show ?thesis by simp
    next
      case odd: False
      from IH have "P (Suc (2 * (n div 2)))" by (rule assms(3))
      with odd show ?thesis by (simp add: odd_two_times_div_two_succ)
    qed
  qed
qed

lemma count_ones_le: "count_ones n \<le> n"
  by (induction n rule: nat_parity_induct) auto

lemma count_ones_Suc: "count_ones (Suc n) + trailing_ones n = Suc (count_ones n)"
proof (induction n rule: nat_parity_induct)
  case zero
  show ?case using count_ones_Suc_double [of 0] by simp
next
  case (even n)
  then show ?case by simp
next
  case (odd n)
  have "Suc (Suc (2 * n)) = 2 * Suc n" by simp
  then have "count_ones (Suc (Suc (2 * n))) = count_ones (Suc n)"
    by (metis count_ones_double)
  with odd show ?case by simp
qed

lemma count_ones_add_pow2:
  "n < 2 ^ k \<Longrightarrow> count_ones (2 ^ k + n) = Suc (count_ones n)"
proof (induction k arbitrary: n)
  case 0
  then show ?case using count_ones_Suc_double [of 0] by simp
next
  case (Suc k)
  have "n div 2 < 2 ^ k" using Suc.prems by simp
  then have IH: "count_ones (2 ^ k + n div 2) = Suc (count_ones (n div 2))"
    by (rule Suc.IH)
  show ?case
  proof (cases "even n")
    case True
    then have n: "n = 2 * (n div 2)" by simp
    have "2 ^ Suc k + n = 2 * (2 ^ k + n div 2)" using n by simp
    then show ?thesis using IH n by (metis count_ones_double)
  next
    case False
    then have n: "n = Suc (2 * (n div 2))" by simp
    have "2 ^ Suc k + n = Suc (2 * (2 ^ k + n div 2))" using n by simp
    then show ?thesis using IH n by (metis count_ones_Suc_double)
  qed
qed

lemma bit_len_bound: "n < 2 ^ bit_len n"
proof (induction n rule: bit_len.induct)
  case (1 n)
  show ?case
  proof (cases "n = 0")
    case False
    with 1 have "n div 2 < 2 ^ bit_len (n div 2)" by simp
    then have "n < 2 * 2 ^ bit_len (n div 2)" by linarith
    with False show ?thesis by (subst bit_len.simps) simp
  qed (simp add: bit_len.simps)
qed

lemma bit_len_lower: "0 < n \<Longrightarrow> 2 ^ (bit_len n - 1) \<le> n"
proof (induction n rule: bit_len.induct)
  case (1 n)
  show ?case
  proof (cases "n div 2 = 0")
    case True
    with 1 have "n = 1" by simp
    then show ?thesis by (simp add: bit_len.simps)
  next
    case False
    with 1 have IH: "2 ^ (bit_len (n div 2) - 1) \<le> n div 2" by simp
    from False have "0 < bit_len (n div 2)" by (subst bit_len.simps) simp
    then have "2 ^ bit_len (n div 2) = 2 * (2 :: nat) ^ (bit_len (n div 2) - 1)"
      by (simp add: power_eq_if)
    also have "\<dots> \<le> n" using IH by linarith
    finally show ?thesis using 1 by (subst bit_len.simps) simp
  qed
qed

lemma trailing_ones_ge_iff: "h \<le> trailing_ones n \<longleftrightarrow> 2 ^ h dvd Suc n"
proof (induction h arbitrary: n)
  case 0
  then show ?case by simp
next
  case (Suc h)
  show ?case
  proof (cases "even n")
    case True
    then have "odd (Suc n)" by simp
    then have "\<not> 2 ^ Suc h dvd Suc n"
      by (metis dvd_trans dvd_triv_left power_Suc)
    with True show ?thesis by simp
  next
    case False
    then obtain m where m: "n = Suc (2 * m)" by (auto elim: oddE)
    have "2 ^ Suc h dvd Suc n \<longleftrightarrow> 2 * 2 ^ h dvd 2 * Suc m" by (simp add: m)
    also have "\<dots> \<longleftrightarrow> 2 ^ h dvd Suc m" by (simp only: nat_mult_dvd_cancel_disj) simp
    finally show ?thesis using Suc.IH [of m] by (simp add: m)
  qed
qed

end
