(* ===== verification/Pmmr_Pos.thy ===== *)
theory Pmmr_Pos
  imports Grin_Prelude
begin

text \<open>
  Position arithmetic of the prunable Merkle mountain range
  (\<open>core/src/core/pmmr/pmmr.rs\<close>, the free functions at its end). Positions are the 0-based
  postorder indices of the nodes. The functions are stated on natural numbers: the sizes of
  the ranges of a chain are far below the bounds of \<open>u64\<close>.

  Every position is, in exactly one way, \<open>insertion_to_pmmr_index n + h\<close> with
  \<open>h \<le> trailing_ones n\<close>: the node of height \<open>h\<close> whose rightmost leaf is leaf number \<open>n\<close>.
  That is what \<open>peak_map_height\<close> computes, and the other functions are read off from it.
\<close>

section \<open>The functions of the source\<close>

function peak_map_height_loop :: "nat \<Rightarrow> nat \<Rightarrow> nat \<Rightarrow> nat \<times> nat" where
  "peak_map_height_loop peak_size sz peak_map =
     (if peak_size = 0 then (peak_map, sz)
      else if peak_size \<le> sz
        then peak_map_height_loop (peak_size div 2) (sz - peak_size) (2 * peak_map + 1)
        else peak_map_height_loop (peak_size div 2) sz (2 * peak_map))"
  by pat_completeness auto
termination
  by (relation "measure (\<lambda>(p, s, m). p)") auto

definition peak_map_height :: "nat \<Rightarrow> nat \<times> nat" where
  "peak_map_height sz =
     (if sz = 0 then (0, 0) else peak_map_height_loop (2 ^ bit_len sz - 1) sz 0)"

function peak_sizes_height_loop :: "nat \<Rightarrow> nat \<Rightarrow> nat list \<Rightarrow> nat list \<times> nat" where
  "peak_sizes_height_loop peak_size sz peak_sizes =
     (if peak_size = 0 then (peak_sizes, sz)
      else if peak_size \<le> sz
        then peak_sizes_height_loop (peak_size div 2) (sz - peak_size) (peak_sizes @ [peak_size])
        else peak_sizes_height_loop (peak_size div 2) sz peak_sizes)"
  by pat_completeness auto
termination
  by (relation "measure (\<lambda>(p, s, m). p)") auto

definition peak_sizes_height :: "nat \<Rightarrow> nat list \<times> nat" where
  "peak_sizes_height sz =
     (if sz = 0 then ([], 0) else peak_sizes_height_loop (2 ^ bit_len sz - 1) sz [])"

fun scan_add :: "nat \<Rightarrow> nat list \<Rightarrow> nat list" where
  "scan_add acc [] = []"
| "scan_add acc (x # xs) = (acc + x) # scan_add (acc + x) xs"

definition peaks :: "nat \<Rightarrow> nat list" where
  "peaks sz =
     (let (peak_sizes, height) = peak_sizes_height sz
      in if height = 0 then map (\<lambda>x. x - 1) (scan_add 0 peak_sizes) else [])"

definition n_leaves :: "nat \<Rightarrow> nat" where
  "n_leaves sz =
     (let (peak_map, height) = peak_map_height sz
      in if height = 0 then peak_map else peak_map + 1)"

definition insertion_to_pmmr_index :: "nat \<Rightarrow> nat" where
  "insertion_to_pmmr_index nleaf0 = 2 * nleaf0 - count_ones nleaf0"

definition round_up_to_leaf_pos :: "nat \<Rightarrow> nat" where
  "round_up_to_leaf_pos pos0 =
     (let (insert_idx, height) = peak_map_height pos0;
          leaf_idx = (if height = 0 then insert_idx else insert_idx + 1)
      in insertion_to_pmmr_index leaf_idx)"

definition pmmr_leaf_to_insertion_index :: "nat \<Rightarrow> nat option" where
  "pmmr_leaf_to_insertion_index pos0 =
     (let (insert_idx, height) = peak_map_height pos0
      in if height = 0 then Some insert_idx else None)"

definition bintree_postorder_height :: "nat \<Rightarrow> nat" where
  "bintree_postorder_height pos0 = snd (peak_map_height pos0)"

definition is_leaf :: "nat \<Rightarrow> bool" where
  "is_leaf pos0 \<longleftrightarrow> bintree_postorder_height pos0 = 0"

definition family :: "nat \<Rightarrow> nat \<times> nat" where
  "family pos0 =
     (let (peak_map, height) = peak_map_height pos0; peak = 2 ^ height
      in if bit peak_map height then (pos0 + 1, pos0 + 1 - 2 * peak)
         else (pos0 + 2 * peak, pos0 + 2 * peak - 1))"

definition is_left_sibling :: "nat \<Rightarrow> bool" where
  "is_left_sibling pos0 =
     (let (peak_map, height) = peak_map_height pos0 in \<not> bit peak_map height)"

text \<open>
  The loop of \<open>family_branch\<close> tests \<open>peak_map & peak\<close> with \<open>peak\<close> a power of two that
  doubles each round; the model carries the exponent.
\<close>

function family_branch_loop ::
    "nat \<Rightarrow> nat \<Rightarrow> nat \<Rightarrow> nat \<Rightarrow> (nat \<times> nat) list \<Rightarrow> (nat \<times> nat) list" where
  "family_branch_loop sz peak_map k current branch =
     (if current + 1 < sz then
        (let (current', sibling) =
           (if bit peak_map k then (current + 1, current + 1 - 2 * 2 ^ k)
            else (current + 2 * 2 ^ k, current + 2 * 2 ^ k - 1))
         in if sz \<le> current' then branch
            else family_branch_loop sz peak_map (Suc k) current' (branch @ [(current', sibling)]))
      else branch)"
  by pat_completeness auto
termination
  by (relation "measure (\<lambda>(sz, m, k, c, b). sz - c)")
    (auto split: if_splits intro!: diff_less_mono2)

definition family_branch :: "nat \<Rightarrow> nat \<Rightarrow> (nat \<times> nat) list" where
  "family_branch pos0 sz =
     (let (peak_map, height) = peak_map_height pos0
      in family_branch_loop sz peak_map height pos0 [])"

definition bintree_rightmost :: "nat \<Rightarrow> nat" where
  "bintree_rightmost pos0 = pos0 - bintree_postorder_height pos0"

definition bintree_leftmost :: "nat \<Rightarrow> nat" where
  "bintree_leftmost pos0 = pos0 + 2 - 2 * 2 ^ bintree_postorder_height pos0"

definition bintree_leaf_pos_iter :: "nat \<Rightarrow> nat list" where
  "bintree_leaf_pos_iter pos0 =
     (case pmmr_leaf_to_insertion_index (bintree_leftmost pos0) of
        None \<Rightarrow> []
      | Some leaf_start \<Rightarrow>
          (case pmmr_leaf_to_insertion_index (bintree_rightmost pos0) of
             None \<Rightarrow> []
           | Some leaf_end \<Rightarrow> map insertion_to_pmmr_index [leaf_start..<leaf_end + 1]))"

definition bintree_pos_iter :: "nat \<Rightarrow> nat list" where
  "bintree_pos_iter pos0 = [bintree_leftmost pos0..<pos0 + 1]"

text \<open>A \<open>Range<u64>\<close> is the pair of its inclusive start and exclusive end.\<close>

definition bintree_range :: "nat \<Rightarrow> nat \<times> nat" where
  "bintree_range pos0 =
     (let height = bintree_postorder_height pos0
      in (pos0 + 2 - 2 * 2 ^ height, pos0 + 1))"

declare peak_map_height_loop.simps [simp del] peak_sizes_height_loop.simps [simp del]
  family_branch_loop.simps [simp del]

section \<open>Nodes as (rightmost leaf, height)\<close>

abbreviation node_pos :: "nat \<Rightarrow> nat \<Rightarrow> nat" where
  "node_pos n h \<equiv> insertion_to_pmmr_index n + h"

text \<open>\<open>node_ok n h\<close>: a node of height \<open>h\<close> has leaf \<open>n\<close> as its rightmost leaf.\<close>

definition node_ok :: "nat \<Rightarrow> nat \<Rightarrow> bool" where
  "node_ok n h \<longleftrightarrow> 2 ^ h dvd Suc n"

lemma node_ok_iff_trailing: "node_ok n h \<longleftrightarrow> h \<le> trailing_ones n"
  by (simp add: node_ok_def trailing_ones_ge_iff)

lemma node_ok_0 [simp]: "node_ok n 0"
  by (simp add: node_ok_def)

lemma node_ok_mono: "node_ok n h \<Longrightarrow> h' \<le> h \<Longrightarrow> node_ok n h'"
  by (simp add: node_ok_iff_trailing)

lemma insertion_0 [simp]: "insertion_to_pmmr_index 0 = 0"
  by (simp add: insertion_to_pmmr_index_def)

lemma insertion_Suc:
  "insertion_to_pmmr_index (Suc n) = Suc (insertion_to_pmmr_index n + trailing_ones n)"
proof -
  have "count_ones n \<le> 2 * n" using count_ones_le [of n] by simp
  moreover have "count_ones (Suc n) \<le> 2 * Suc n" using count_ones_le [of "Suc n"] by simp
  ultimately show ?thesis
    using count_ones_Suc [of n] by (simp add: insertion_to_pmmr_index_def)
qed

lemma insertion_strict_mono: "m < n \<Longrightarrow> insertion_to_pmmr_index m < insertion_to_pmmr_index n"
  by (induction n) (auto simp: insertion_Suc less_Suc_eq)

lemma insertion_mono: "m \<le> n \<Longrightarrow> insertion_to_pmmr_index m \<le> insertion_to_pmmr_index n"
  using insertion_strict_mono [of m n] by (cases "m = n") auto

lemma insertion_le_iff [simp]:
  "insertion_to_pmmr_index m \<le> insertion_to_pmmr_index n \<longleftrightarrow> m \<le> n"
  using insertion_mono insertion_strict_mono by (meson linorder_not_le)

lemma insertion_less_iff [simp]:
  "insertion_to_pmmr_index m < insertion_to_pmmr_index n \<longleftrightarrow> m < n"
  by (meson insertion_le_iff linorder_not_le)

lemma insertion_eq_iff [simp]:
  "insertion_to_pmmr_index m = insertion_to_pmmr_index n \<longleftrightarrow> m = n"
  by (simp add: order_eq_iff)

lemma insertion_ge: "n \<le> insertion_to_pmmr_index n"
  using count_ones_le [of n] by (simp add: insertion_to_pmmr_index_def)

lemma insertion_add_pow2:
  assumes "n < 2 ^ k"
  shows "insertion_to_pmmr_index (2 ^ k + n) = 2 * 2 ^ k - 1 + insertion_to_pmmr_index n"
proof -
  have "count_ones n \<le> 2 * n" using count_ones_le [of n] by simp
  then show ?thesis
    using count_ones_add_pow2 [OF assms] by (simp add: insertion_to_pmmr_index_def)
qed

lemma insertion_pow2: "insertion_to_pmmr_index (2 ^ k) = 2 * 2 ^ k - 1"
  using insertion_add_pow2 [of 0 k] by simp

text \<open>The next leaf comes right after the parents the current leaf completes.\<close>

lemma node_pos_less_next: "node_ok n h \<Longrightarrow> node_pos n h < insertion_to_pmmr_index (Suc n)"
  by (simp add: insertion_Suc node_ok_iff_trailing)

lemma node_pos_unique:
  assumes "node_ok n h" and "node_ok n' h'" and "node_pos n h = node_pos n' h'"
  shows "n = n' \<and> h = h'"
proof -
  have "\<not> n < n'"
  proof
    assume "n < n'"
    then have "insertion_to_pmmr_index (Suc n) \<le> insertion_to_pmmr_index n'" by simp
    with node_pos_less_next [OF assms(1)] assms(3) show False by linarith
  qed
  moreover have "\<not> n' < n"
  proof
    assume "n' < n"
    then have "insertion_to_pmmr_index (Suc n') \<le> insertion_to_pmmr_index n" by simp
    with node_pos_less_next [OF assms(2)] assms(3) show False by linarith
  qed
  ultimately show ?thesis using assms(3) by simp
qed

lemma node_pos_exists: "\<exists>n h. node_ok n h \<and> pos = node_pos n h"
proof (induction pos)
  case 0
  show ?case by (rule exI [of _ 0], rule exI [of _ 0]) simp
next
  case (Suc pos)
  then obtain n h where nh: "node_ok n h" "pos = node_pos n h" by blast
  show ?case
  proof (cases "h < trailing_ones n")
    case True
    then have "node_ok n (Suc h)" by (simp add: node_ok_iff_trailing)
    with nh(2) show ?thesis by (metis add_Suc_right)
  next
    case False
    with nh(1) have "h = trailing_ones n" by (simp add: node_ok_iff_trailing)
    with nh(2) have "Suc pos = node_pos (Suc n) 0" by (simp add: insertion_Suc)
    then show ?thesis using node_ok_0 by blast
  qed
qed

section \<open>What \<open>peak_map_height\<close> computes\<close>

lemma pow2_pred_div2: "(2 ^ Suc k - 1) div 2 = (2 ^ k - 1 :: nat)"
  by (induction k) auto

lemma peak_map_height_loop_Suc:
  "peak_map_height_loop (2 ^ Suc k - 1) sz m =
     (if 2 ^ Suc k - 1 \<le> sz
      then peak_map_height_loop (2 ^ k - 1) (sz - (2 ^ Suc k - 1)) (2 * m + 1)
      else peak_map_height_loop (2 ^ k - 1) sz (2 * m))"
proof -
  have "2 \<le> 2 * (2 :: nat) ^ k" by simp
  then have "(2 :: nat) ^ Suc k - 1 \<noteq> 0" unfolding power_Suc by linarith
  then show ?thesis by (subst peak_map_height_loop.simps) (simp only: pow2_pred_div2 if_False)
qed

lemma peak_map_height_loop_spec:
  assumes "n < 2 ^ k" and "node_ok n h \<or> n = 2 ^ k - 1"
  shows "peak_map_height_loop (2 ^ k - 1) (node_pos n h) m = (2 ^ k * m + n, h)"
  using assms
proof (induction k arbitrary: n m)
  case 0
  then show ?case by (simp add: peak_map_height_loop.simps)
next
  case (Suc k)
  show ?case
  proof (cases "2 ^ k \<le> n")
    case True
    then obtain n' where n: "n = 2 ^ k + n'" using le_Suc_ex by blast
    with Suc.prems(1) have n': "n' < 2 ^ k" by simp
    have pos: "node_pos n h = (2 ^ Suc k - 1) + node_pos n' h"
      using insertion_add_pow2 [OF n'] n by (simp add: Suc_le_eq)
    have ok: "node_ok n' h \<or> n' = 2 ^ k - 1"
    proof (rule disjCI)
      assume ne: "n' \<noteq> 2 ^ k - 1"
      with Suc.prems(2) n have "node_ok n h" by auto
      then have d: "2 ^ h dvd 2 ^ k + Suc n'" by (simp add: node_ok_def n)
      have "h \<le> k"
      proof (rule ccontr)
        assume "\<not> h \<le> k"
        then have "(2 :: nat) ^ Suc k \<le> 2 ^ h" by (intro power_increasing) auto
        also have "\<dots> \<le> 2 ^ k + Suc n'" using d by (intro dvd_imp_le) auto
        finally have "2 ^ k \<le> Suc n'" by simp
        with n' ne show False by simp
      qed
      then have "(2 :: nat) ^ h dvd 2 ^ k" by (simp add: le_imp_power_dvd)
      with d have "2 ^ h dvd Suc n'" by (metis dvd_add_right_iff)
      then show "node_ok n' h" by (simp add: node_ok_def)
    qed
    have "peak_map_height_loop (2 ^ Suc k - 1) (node_pos n h) m =
        peak_map_height_loop (2 ^ k - 1) (node_pos n' h) (2 * m + 1)"
      unfolding peak_map_height_loop_Suc pos by (simp only: le_add1 if_True diff_add_inverse)
    also have "\<dots> = (2 ^ k * (2 * m + 1) + n', h)"
      using n' ok by (rule Suc.IH)
    finally show ?thesis by (simp add: n algebra_simps)
  next
    case False
    then have n: "n < 2 ^ k" by simp
    with Suc.prems have ok: "node_ok n h" by auto
    have "insertion_to_pmmr_index (Suc n) \<le> insertion_to_pmmr_index (2 ^ k)"
      using n by simp
    then have "node_pos n h < 2 ^ Suc k - 1"
      using node_pos_less_next [OF ok] by (simp add: insertion_pow2)
    then have "peak_map_height_loop (2 ^ Suc k - 1) (node_pos n h) m =
        peak_map_height_loop (2 ^ k - 1) (node_pos n h) (2 * m)"
      unfolding peak_map_height_loop_Suc by simp
    also have "\<dots> = (2 ^ k * (2 * m) + n, h)"
      using n ok by (intro Suc.IH) auto
    finally show ?thesis by simp
  qed
qed

lemma peak_map_height_node [simp, mmr_arith]:
  assumes "node_ok n h"
  shows "peak_map_height (node_pos n h) = (n, h)"
proof (cases "node_pos n h = 0")
  case True
  then have "n = 0 \<and> h = 0" using insertion_ge [of n] by simp
  then show ?thesis by (simp add: peak_map_height_def)
next
  case False
  let ?k = "bit_len (node_pos n h)"
  have "n < 2 ^ ?k" using insertion_ge [of n] bit_len_bound [of "node_pos n h"] by linarith
  from peak_map_height_loop_spec [OF this, of h 0] assms False
  show ?thesis by (auto simp: peak_map_height_def)
qed

lemma peak_map_heightE:
  obtains n h where "node_ok n h" "pos = node_pos n h" "peak_map_height pos = (n, h)"
proof -
  obtain n h where "node_ok n h" "pos = node_pos n h" using node_pos_exists by blast
  then show thesis using that [of n h] by simp
qed

section \<open>Children, siblings and parents\<close>

lemma node_okE:
  assumes "node_ok n h"
  obtains q where "n = 2 ^ h * q + (2 ^ h - 1)" and "n div 2 ^ h = q"
proof -
  from assms obtain r where r: "Suc n = 2 ^ h * r" by (auto simp: node_ok_def)
  then obtain q where q: "r = Suc q" by (cases r) auto
  have n: "n = 2 ^ h * q + (2 ^ h - 1)" using r q by simp
  then have "2 ^ h * q \<le> n" by linarith
  moreover have "n < 2 ^ h * Suc q" using r q by (metis lessI)
  ultimately have "n div 2 ^ h = q" by (rule div_nat_eqI)
  with n show thesis by (rule that)
qed

lemma node_ok_Suc_iff: "node_ok n h \<Longrightarrow> node_ok n (Suc h) \<longleftrightarrow> bit n h"
proof -
  assume "node_ok n h"
  then obtain q where n: "n = 2 ^ h * q + (2 ^ h - 1)" and "n div 2 ^ h = q" by (rule node_okE)
  have Sn: "Suc n = 2 ^ h * Suc q" using n by simp
  have "bit n h \<longleftrightarrow> odd q" using \<open>n div 2 ^ h = q\<close> by (simp add: bit_iff_odd)
  moreover have "node_ok n (Suc h) \<longleftrightarrow> even (Suc q)"
    unfolding node_ok_def Sn power_Suc2 by (simp only: nat_mult_dvd_cancel_disj) simp
  ultimately show ?thesis by simp
qed

lemma count_ones_clear_bit: "bit n h \<Longrightarrow> 2 ^ h \<le> n \<and> count_ones n = Suc (count_ones (n - 2 ^ h))"
proof (induction h arbitrary: n)
  case 0
  then obtain m where "n = Suc (2 * m)" by (auto simp: bit_0 elim: oddE)
  then show ?case by simp
next
  case (Suc h)
  then have "bit (n div 2) h" by (simp add: bit_Suc)
  from Suc.IH [OF this]
  have le: "2 ^ h \<le> n div 2" and c: "count_ones (n div 2) = Suc (count_ones (n div 2 - 2 ^ h))"
    by auto
  show ?case
  proof (cases "even n")
    case True
    then have n: "n = 2 * (n div 2)" by simp
    have "n - 2 ^ Suc h = 2 * (n div 2 - 2 ^ h)" using n by (simp add: diff_mult_distrib2)
    then show ?thesis using c le n by (metis count_ones_double mult_le_mono2 power_Suc)
  next
    case False
    then have n: "n = Suc (2 * (n div 2))" by simp
    have "n - 2 ^ Suc h = Suc (2 * (n div 2 - 2 ^ h))" using n le by (simp add: diff_mult_distrib2)
    then have "count_ones (n - 2 ^ Suc h) = Suc (count_ones (n div 2 - 2 ^ h))" by simp
    moreover have "count_ones n = Suc (count_ones (n div 2))" using n by (metis count_ones_Suc_double)
    moreover have "2 ^ Suc h \<le> n" using n le unfolding power_Suc by linarith
    ultimately show ?thesis using c by simp
  qed
qed

lemma bit_clear_sub: "bit (n :: nat) h \<Longrightarrow> \<not> bit (n - 2 ^ h) h"
proof -
  assume b: "bit n h"
  then have "2 ^ h \<le> n" using count_ones_clear_bit by simp
  then obtain m where m: "n = m + 2 ^ h" by (metis le_add_diff_inverse2)
  then have "n div 2 ^ h = Suc (m div 2 ^ h)" using div_add_self2 [of "2 ^ h" m] by simp
  with b m show ?thesis by (simp add: bit_iff_odd)
qed

lemma insertion_clear_bit:
  assumes "bit n h"
  shows "insertion_to_pmmr_index n = insertion_to_pmmr_index (n - 2 ^ h) + (2 * 2 ^ h - 1)"
proof -
  have a: "2 ^ h \<le> n" "count_ones n = Suc (count_ones (n - 2 ^ h))"
    using count_ones_clear_bit [OF assms] by auto
  have "count_ones (n - 2 ^ h) \<le> n - 2 ^ h" by (rule count_ones_le)
  with a show ?thesis by (simp add: insertion_to_pmmr_index_def diff_mult_distrib2)
qed

lemma node_ok_left_child: "node_ok n (Suc h) \<Longrightarrow> node_ok (n - 2 ^ h) h \<and> bit n h"
proof -
  assume a: "node_ok n (Suc h)"
  then have ok: "node_ok n h" and b: "bit n h"
    using node_ok_mono [OF a, of h] node_ok_Suc_iff [of n h] by auto
  have "2 ^ h \<le> n" using count_ones_clear_bit [OF b] by simp
  then have "Suc (n - 2 ^ h) = Suc n - 2 ^ h" by simp
  then have "node_ok (n - 2 ^ h) h"
    using ok by (simp add: node_ok_def dvd_diff_nat)
  with b show ?thesis by simp
qed

lemma node_pos_left_child:
  assumes "node_ok n (Suc h)"
  shows "node_pos n (Suc h) = node_pos (n - 2 ^ h) h + 2 * 2 ^ h"
  using insertion_clear_bit [of n h] node_ok_left_child [OF assms] by (simp add: Suc_le_eq)

lemma not_bit_sibling:
  assumes "node_ok n h" and "\<not> bit n h"
  shows "node_ok (n + 2 ^ h) (Suc h)" and "bit (n + 2 ^ h) h"
proof -
  obtain q where n: "n = 2 ^ h * q + (2 ^ h - 1)" and "n div 2 ^ h = q"
    using assms(1) by (rule node_okE)
  with assms(2) have "even q" by (simp add: bit_iff_odd)
  moreover have "Suc (n + 2 ^ h) = 2 ^ h * (q + 2)" using n by (simp add: algebra_simps)
  ultimately show ok: "node_ok (n + 2 ^ h) (Suc h)"
    unfolding node_ok_def by (simp only: power_Suc2) auto
  show "bit (n + 2 ^ h) h" using node_ok_left_child [OF ok] by simp
qed

lemma family_right [mmr_arith]:
  assumes "node_ok n h" and "bit n h"
  shows "family (node_pos n h) = (node_pos n (Suc h), node_pos (n - 2 ^ h) h)"
proof -
  have "node_ok n (Suc h)" using assms node_ok_Suc_iff by simp
  from node_pos_left_child [OF this] show ?thesis
    using assms by (simp add: family_def)
qed

lemma family_left [mmr_arith]:
  assumes "node_ok n h" and "\<not> bit n h"
  shows "family (node_pos n h) = (node_pos (n + 2 ^ h) (Suc h), node_pos (n + 2 ^ h) h)"
  using node_pos_left_child [OF not_bit_sibling(1) [OF assms]] assms
  by (simp add: family_def Let_def)

lemma is_left_sibling_node [simp]: "node_ok n h \<Longrightarrow> is_left_sibling (node_pos n h) \<longleftrightarrow> \<not> bit n h"
  by (simp add: is_left_sibling_def)

lemma height_node [simp]: "node_ok n h \<Longrightarrow> bintree_postorder_height (node_pos n h) = h"
  by (simp add: bintree_postorder_height_def)

lemma is_leaf_node [simp]: "node_ok n h \<Longrightarrow> is_leaf (node_pos n h) \<longleftrightarrow> h = 0"
  by (simp add: is_leaf_def)

lemma is_leaf_insertion [simp]: "is_leaf (insertion_to_pmmr_index n)"
  using is_leaf_node [of n 0] by simp

lemma is_leafE:
  assumes "is_leaf pos"
  obtains n where "pos = insertion_to_pmmr_index n"
  by (rule peak_map_heightE [of pos]) (use assms that in auto)

section \<open>Counting leaves\<close>

lemma n_leaves_node [simp]:
  "node_ok n h \<Longrightarrow> n_leaves (node_pos n h) = (if h = 0 then n else Suc n)"
  by (simp add: n_leaves_def)

lemma n_leaves_insertion [simp]: "n_leaves (insertion_to_pmmr_index n) = n"
  using n_leaves_node [of n 0] by simp

lemma round_up_node [simp]:
  "node_ok n h \<Longrightarrow>
     round_up_to_leaf_pos (node_pos n h) = insertion_to_pmmr_index (if h = 0 then n else Suc n)"
  by (simp add: round_up_to_leaf_pos_def)

lemma n_leaves_le_iff: "n_leaves sz \<le> n \<longleftrightarrow> sz \<le> insertion_to_pmmr_index n"
proof (rule peak_map_heightE [of sz])
  fix m h
  assume m: "node_ok m h" "sz = node_pos m h"
  show ?thesis
  proof (cases "h = 0")
    case False
    have "node_pos m h \<le> insertion_to_pmmr_index n \<longleftrightarrow> Suc m \<le> n"
    proof
      assume a: "node_pos m h \<le> insertion_to_pmmr_index n"
      with False have "insertion_to_pmmr_index m < insertion_to_pmmr_index n" by linarith
      then show "Suc m \<le> n" by simp
    next
      assume "Suc m \<le> n"
      then have "insertion_to_pmmr_index (Suc m) \<le> insertion_to_pmmr_index n" by simp
      with node_pos_less_next [OF m(1)] show "node_pos m h \<le> insertion_to_pmmr_index n" by linarith
    qed
    with m False show ?thesis by simp
  qed (use m in simp)
qed

section \<open>Subtrees\<close>

lemma count_ones_mult_pow2: "count_ones (2 ^ h * q) = count_ones q"
proof (induction h)
  case (Suc h)
  have "2 ^ Suc h * q = 2 * (2 ^ h * q)" by simp
  then show ?case using Suc by (simp only: count_ones_double)
qed simp

lemma count_ones_mult_pow2_ones: "count_ones (2 ^ h * q + (2 ^ h - 1)) = count_ones q + h"
proof (induction h)
  case (Suc h)
  have "2 ^ Suc h * q + (2 ^ Suc h - 1) = Suc (2 * (2 ^ h * q + (2 ^ h - 1)))"
    by (cases "2 ^ h :: nat") auto
  then show ?case using Suc by (simp only: count_ones_Suc_double)
qed simp

lemma leftmost_leaf_le: "node_ok n h \<Longrightarrow> 2 ^ h \<le> Suc n"
  by (auto simp: node_ok_def dest: dvd_imp_le)

lemma bintree_leftmost_node:
  assumes "node_ok n h"
  shows "bintree_leftmost (node_pos n h) = insertion_to_pmmr_index (Suc n - 2 ^ h)"
    and "node_pos n h + 2 = insertion_to_pmmr_index (Suc n - 2 ^ h) + 2 * 2 ^ h"
proof -
  obtain q where n: "n = 2 ^ h * q + (2 ^ h - 1)" using assms by (rule node_okE)
  have l: "Suc n - 2 ^ h = 2 ^ h * q" using n by simp
  have "count_ones q \<le> q" by (rule count_ones_le)
  also have "q \<le> 2 ^ h * q" by simp
  finally have c: "count_ones q \<le> 2 ^ h * q" .
  have h: "h < 2 ^ h" by simp
  have "insertion_to_pmmr_index n = 2 * n - (count_ones q + h)"
    unfolding insertion_to_pmmr_index_def using count_ones_mult_pow2_ones [of h q] n by simp
  moreover have "insertion_to_pmmr_index (2 ^ h * q) = 2 * (2 ^ h * q) - count_ones q"
    by (simp add: insertion_to_pmmr_index_def count_ones_mult_pow2)
  ultimately show eq: "node_pos n h + 2 = insertion_to_pmmr_index (Suc n - 2 ^ h) + 2 * 2 ^ h"
    using n c h unfolding l by linarith
  then show "bintree_leftmost (node_pos n h) = insertion_to_pmmr_index (Suc n - 2 ^ h)"
    using assms by (simp add: bintree_leftmost_def)
qed

lemma bintree_rightmost_node [simp]:
  "node_ok n h \<Longrightarrow> bintree_rightmost (node_pos n h) = insertion_to_pmmr_index n"
  by (simp add: bintree_rightmost_def)

lemma pmmr_leaf_to_insertion_insertion [simp]:
  "pmmr_leaf_to_insertion_index (insertion_to_pmmr_index n) = Some n"
  using peak_map_height_node [of n 0] by (simp add: pmmr_leaf_to_insertion_index_def)

lemma bintree_leaf_pos_iter_node:
  "node_ok n h \<Longrightarrow>
     bintree_leaf_pos_iter (node_pos n h) = map insertion_to_pmmr_index [Suc n - 2 ^ h..<Suc n]"
  by (simp add: bintree_leaf_pos_iter_def bintree_leftmost_node)

lemma bintree_range_eq: "bintree_range pos = (bintree_leftmost pos, pos + 1)"
  by (simp add: bintree_range_def bintree_leftmost_def Let_def)

text \<open>\<open>in_subtree p r\<close>: position \<open>p\<close> lies in the subtree rooted at \<open>r\<close>.\<close>

definition in_subtree :: "nat \<Rightarrow> nat \<Rightarrow> bool" where
  "in_subtree p r \<longleftrightarrow> bintree_leftmost r \<le> p \<and> p \<le> r"

lemma bintree_leftmost_le: "bintree_leftmost pos \<le> pos"
proof -
  have "2 \<le> 2 * (2 :: nat) ^ bintree_postorder_height pos" by simp
  then show ?thesis unfolding bintree_leftmost_def by linarith
qed

lemma in_subtree_refl [simp]: "in_subtree p p"
  by (simp add: in_subtree_def bintree_leftmost_le)

lemma in_subtree_node:
  assumes "node_ok n h" and "node_ok m k"
  shows "in_subtree (node_pos m k) (node_pos n h) \<longleftrightarrow> k \<le> h \<and> Suc n - 2 ^ h \<le> Suc m - 2 ^ k \<and> m \<le> n"
proof
  assume "in_subtree (node_pos m k) (node_pos n h)"
  then have lo: "insertion_to_pmmr_index (Suc n - 2 ^ h) \<le> node_pos m k"
    and hi: "node_pos m k \<le> node_pos n h"
    using assms by (auto simp: in_subtree_def bintree_leftmost_node)
  have "insertion_to_pmmr_index (Suc n - 2 ^ h) < insertion_to_pmmr_index (Suc m)"
    using lo node_pos_less_next [OF assms(2)] by linarith
  then have m1: "Suc n - 2 ^ h < Suc m" by simp
  have "insertion_to_pmmr_index m < insertion_to_pmmr_index (Suc n)"
    using hi node_pos_less_next [OF assms(1)] by linarith
  then have m2: "m \<le> n" by simp
  obtain q where q: "n = 2 ^ h * q + (2 ^ h - 1)" using assms(1) by (rule node_okE)
  then have l: "Suc n - 2 ^ h = 2 ^ h * q" by simp
  have kh: "k \<le> h"
  proof (rule ccontr)
    assume kh: "\<not> k \<le> h"
    then have "node_ok m h" using assms(2) node_ok_mono by (metis nat_le_linear)
    then obtain r where r: "m = 2 ^ h * r + (2 ^ h - 1)" by (rule node_okE)
    have "2 ^ h * q < 2 ^ h * Suc r" using m1 r unfolding l by simp
    then have "q < Suc r" by (simp only: nat_mult_less_cancel_disj)
    then have "q \<le> r" by simp
    moreover have "2 ^ h * r \<le> 2 ^ h * q" using m2 q r by linarith
    then have "r \<le> q" by simp
    ultimately have "m = n" using q r by simp
    with hi kh show False by simp
  qed
  have "2 ^ k dvd Suc m" using assms(2) by (simp add: node_ok_def)
  moreover have "2 ^ k dvd Suc n - 2 ^ h"
    using kh unfolding l by (meson dvd_mult2 le_imp_power_dvd)
  ultimately have "2 ^ k dvd Suc m - (Suc n - 2 ^ h)" by (rule dvd_diff_nat)
  then have "2 ^ k \<le> Suc m - (Suc n - 2 ^ h)" using m1 by (intro dvd_imp_le) auto
  then have "Suc n - 2 ^ h \<le> Suc m - 2 ^ k" using m1 by linarith
  with kh m2 show "k \<le> h \<and> Suc n - 2 ^ h \<le> Suc m - 2 ^ k \<and> m \<le> n" by simp
next
  assume a: "k \<le> h \<and> Suc n - 2 ^ h \<le> Suc m - 2 ^ k \<and> m \<le> n"
  have "0 < (2 :: nat) ^ k" by simp
  then have "Suc m - 2 ^ k \<le> m" by linarith
  with a have "Suc n - 2 ^ h \<le> m" by linarith
  then have "insertion_to_pmmr_index (Suc n - 2 ^ h) \<le> node_pos m k"
    using insertion_mono trans_le_add1 by blast
  moreover have "node_pos m k \<le> node_pos n h"
    using a insertion_mono [of m n] by (simp add: add_mono)
  ultimately show "in_subtree (node_pos m k) (node_pos n h)"
    using assms by (simp add: in_subtree_def bintree_leftmost_node)
qed

lemma in_subtree_trans: "in_subtree a b \<Longrightarrow> in_subtree b c \<Longrightarrow> in_subtree a c"
proof -
  assume ab: "in_subtree a b" and bc: "in_subtree b c"
  obtain x i where a: "node_ok x i" "a = node_pos x i" by (rule peak_map_heightE [of a])
  obtain y j where b: "node_ok y j" "b = node_pos y j" by (rule peak_map_heightE [of b])
  obtain z k where c: "node_ok z k" "c = node_pos z k" by (rule peak_map_heightE [of c])
  show ?thesis using ab bc a b c by (simp add: in_subtree_node)
qed

text \<open>Subtrees are nested or disjoint.\<close>

lemma in_subtree_laminar: "in_subtree p r \<Longrightarrow> in_subtree p s \<Longrightarrow> in_subtree r s \<or> in_subtree s r"
proof -
  have *: "in_subtree p r \<Longrightarrow> in_subtree p s \<Longrightarrow> r \<le> s \<Longrightarrow> in_subtree r s" for r s
    by (auto simp: in_subtree_def)
  assume "in_subtree p r" "in_subtree p s"
  then show ?thesis using * [of r s] * [of s r] nat_le_linear [of r s] by blast
qed

lemma family_pair:
  assumes "node_ok n (Suc h)"
  shows "family (node_pos n h) = (node_pos n (Suc h), node_pos (n - 2 ^ h) h)"
    and "family (node_pos (n - 2 ^ h) h) = (node_pos n (Suc h), node_pos n h)"
    and "is_left_sibling (node_pos (n - 2 ^ h) h)" and "\<not> is_left_sibling (node_pos n h)"
    and "bintree_postorder_height (node_pos n h) = h"
    and "bintree_postorder_height (node_pos (n - 2 ^ h) h) = h"
    and "bintree_postorder_height (node_pos n (Suc h)) = Suc h"
    and "set (bintree_pos_iter (node_pos n (Suc h))) = insert (node_pos n (Suc h))
      (set (bintree_pos_iter (node_pos (n - 2 ^ h) h)) \<union> set (bintree_pos_iter (node_pos n h)))"
proof -
  have ok: "node_ok n h" using assms node_ok_mono by (meson le_SucI order_refl)
  have l: "node_ok (n - 2 ^ h) h" and b: "bit n h" using node_ok_left_child [OF assms] by auto
  have le: "2 ^ h \<le> n" using count_ones_clear_bit [OF b] by simp
  have nb: "\<not> bit (n - 2 ^ h) h"
    using bit_clear_sub [OF b] by simp
  show "family (node_pos n h) = (node_pos n (Suc h), node_pos (n - 2 ^ h) h)"
    by (rule family_right [OF ok b])
  show "family (node_pos (n - 2 ^ h) h) = (node_pos n (Suc h), node_pos n h)"
    using family_left [OF l nb] le by simp
  show "is_left_sibling (node_pos (n - 2 ^ h) h)" "\<not> is_left_sibling (node_pos n h)"
    "bintree_postorder_height (node_pos n h) = h"
    "bintree_postorder_height (node_pos (n - 2 ^ h) h) = h"
    using l nb ok b by simp_all
  show "bintree_postorder_height (node_pos n (Suc h)) = Suc h" by (rule height_node [OF assms])
  have q: "bintree_leftmost (node_pos n (Suc h)) = bintree_leftmost (node_pos (n - 2 ^ h) h)"
    using le leftmost_leaf_le [OF assms]
    by (simp only: bintree_leftmost_node(1) [OF assms] bintree_leftmost_node(1) [OF l]) simp
  have "bintree_leftmost (node_pos n h) = node_pos (n - 2 ^ h) h + 1"
    using node_pos_left_child [OF assms] bintree_leftmost_node(2) [OF ok] bintree_leftmost_node(1) [OF ok]
    by linarith
  then show "set (bintree_pos_iter (node_pos n (Suc h))) = insert (node_pos n (Suc h))
      (set (bintree_pos_iter (node_pos (n - 2 ^ h) h)) \<union> set (bintree_pos_iter (node_pos n h)))"
    using q bintree_leftmost_le [of "node_pos (n - 2 ^ h) h"] bintree_leftmost_le [of "node_pos n h"]
    by (auto simp: bintree_pos_iter_def)
qed

lemma in_subtree_parent: "in_subtree pos (fst (family pos))"
proof -
  obtain n h where n: "node_ok n h" "pos = node_pos n h" by (rule peak_map_heightE [of pos])
  define m where "m = (if bit n h then n else n + 2 ^ h)"
  have m: "node_ok m (Suc h)" using n(1) not_bit_sibling(1) node_ok_Suc_iff by (auto simp: m_def)
  have "in_subtree p (node_pos m (Suc h)) \<longleftrightarrow> p \<in> set (bintree_pos_iter (node_pos m (Suc h)))" for p
    by (auto simp: in_subtree_def bintree_pos_iter_def)
  moreover have "node_pos k h \<in> set (bintree_pos_iter (node_pos k h))" for k
    using bintree_leftmost_le by (simp add: bintree_pos_iter_def)
  moreover have "fst (family pos) = node_pos m (Suc h)"
    using n family_right [of n h] family_left [of n h] by (auto simp: m_def)
  ultimately show ?thesis
    using family_pair(8) [OF m] n(2) by (auto simp: m_def split: if_splits)
qed

section \<open>Peaks\<close>

text \<open>
  \<open>peak_leaves n\<close> lists, for an MMR of \<open>n\<close> leaves, the number of leaves up to and
  including each peak, from left to right: the last peak covers as many leaves as the lowest
  set bit of \<open>n\<close> says.
\<close>

function peak_leaves :: "nat \<Rightarrow> nat list" where
  "peak_leaves n = (if n = 0 then [] else peak_leaves (n - 2 ^ trailing_ones (n - 1)) @ [n])"
  by pat_completeness auto
termination
  by (relation "measure id") auto

declare peak_leaves.simps [simp del]

lemma peak_leaves_0 [simp]: "peak_leaves 0 = []"
  by (simp add: peak_leaves.simps)

lemma trailing_ones_pred_add:
  assumes "0 < n" and "n < 2 ^ k"
  shows "trailing_ones (2 ^ k + n - 1) = trailing_ones (n - 1)"
proof -
  have "h \<le> trailing_ones (2 ^ k + n - 1) \<longleftrightarrow> h \<le> trailing_ones (n - 1)" for h
  proof -
    have eq: "Suc (2 ^ k + n - 1) = 2 ^ k + n" "Suc (n - 1) = n" using assms(1) by auto
    show ?thesis
    proof (cases "h \<le> k")
      case True
      then have "(2 :: nat) ^ h dvd 2 ^ k" by (simp add: le_imp_power_dvd)
      then show ?thesis by (simp only: trailing_ones_ge_iff eq dvd_add_right_iff)
    next
      case False
      then have "(2 :: nat) ^ Suc k \<le> 2 ^ h" by (intro power_increasing) auto
      then have lt: "2 ^ k + n < 2 ^ h" using assms(2) by simp
      have "\<not> 2 ^ h dvd n" using lt assms(1) by (auto dest: dvd_imp_le)
      moreover have "\<not> 2 ^ h dvd 2 ^ k + n" using lt assms(1) by (auto dest: dvd_imp_le)
      ultimately show ?thesis by (simp only: trailing_ones_ge_iff eq)
    qed
  qed
  then show ?thesis by (meson order_antisym order_refl)
qed

lemma trailing_ones_pow2_pred: "trailing_ones (2 ^ k - Suc 0) = k"
proof -
  have "h \<le> trailing_ones (2 ^ k - Suc 0) \<longleftrightarrow> h \<le> k" for h
    by (simp add: trailing_ones_ge_iff dvd_power_iff_le)
  then show ?thesis by (meson order_antisym order_refl)
qed

lemma low_bit_le: "0 < n \<Longrightarrow> 2 ^ trailing_ones (n - 1) \<le> (n :: nat)"
  using trailing_ones_ge_iff [of "trailing_ones (n - 1)" "n - 1"] by (auto dest: dvd_imp_le)

lemma low_bit_cleared:
  assumes "0 < n"
  shows "2 ^ Suc (trailing_ones (n - 1)) dvd n - 2 ^ trailing_ones (n - 1)"
proof -
  let ?j = "trailing_ones (n - 1)"
  have ok: "node_ok (n - 1) ?j" by (simp add: node_ok_iff_trailing)
  have "\<not> node_ok (n - 1) (Suc ?j)" by (simp add: node_ok_iff_trailing)
  with node_ok_Suc_iff [OF ok] have nb: "\<not> bit (n - 1) ?j" by simp
  obtain q where q: "n - 1 = 2 ^ ?j * q + (2 ^ ?j - 1)" "(n - 1) div 2 ^ ?j = q"
    using ok by (rule node_okE)
  then have "even q" using nb by (simp add: bit_iff_odd)
  moreover have "(0 :: nat) < 2 ^ ?j" by simp
  with q(1) assms have "n - 2 ^ ?j = 2 ^ ?j * q" by linarith
  ultimately show ?thesis by (simp add: mult.commute)
qed

lemma mult_le_cancel1_pow2: "2 ^ k * a \<le> 2 ^ k * b \<longleftrightarrow> a \<le> (b :: nat)"
  by simp

lemma mult_le_add_half: "2 ^ Suc k * a \<le> 2 ^ Suc k * b + 2 ^ k \<longleftrightarrow> a \<le> (b :: nat)"
proof
  assume "2 ^ Suc k * a \<le> 2 ^ Suc k * b + 2 ^ k"
  moreover have "(2 :: nat) ^ k < 2 ^ Suc k" by simp
  ultimately have "2 ^ Suc k * a < 2 ^ Suc k * Suc b" unfolding mult_Suc_right by linarith
  then have "a < Suc b" by (simp only: nat_mult_less_cancel_disj)
  then show "a \<le> b" by simp
next
  assume "a \<le> b"
  then show "2 ^ Suc k * a \<le> 2 ^ Suc k * b + 2 ^ k"
    using mult_le_mono2 [of a b "2 ^ Suc k"] by linarith
qed

lemma peak_leaves_top:
  assumes "n < 2 ^ k"
  shows "peak_leaves (2 ^ k + n) = 2 ^ k # map ((+) (2 ^ k)) (peak_leaves n)"
  using assms
proof (induction n rule: less_induct)
  case (less n)
  show ?case
  proof (cases "n = 0")
    case True
    then show ?thesis
      by (subst peak_leaves.simps) (simp add: trailing_ones_pow2_pred)
  next
    case False
    let ?b = "2 ^ trailing_ones (n - 1) :: nat"
    have b: "0 < ?b" "?b \<le> n" using low_bit_le [of n] False by auto
    have "peak_leaves (2 ^ k + (n - ?b)) = 2 ^ k # map ((+) (2 ^ k)) (peak_leaves (n - ?b))"
      using b less.prems False by (intro less.IH) auto
    moreover have "2 ^ k + n - ?b = 2 ^ k + (n - ?b)" using b by simp
    moreover have "peak_leaves n = peak_leaves (n - ?b) @ [n]"
      using False peak_leaves.simps [of n] by simp
    moreover have "trailing_ones (2 ^ k + n - 1) = trailing_ones (n - 1)"
      using trailing_ones_pred_add [of n k] False less.prems by simp
    then have "peak_leaves (2 ^ k + n) = peak_leaves (2 ^ k + n - ?b) @ [2 ^ k + n]"
      using False peak_leaves.simps [of "2 ^ k + n"] by simp
    ultimately show ?thesis by (simp only: list.map map_append append_Cons)
  qed
qed

text \<open>The sizes of the peaks that the bits of a peak map stand for.\<close>

fun peak_sizes_of :: "nat \<Rightarrow> nat \<Rightarrow> nat list" where
  "peak_sizes_of 0 m = []"
| "peak_sizes_of (Suc k) m =
     (if 2 ^ k \<le> m then (2 ^ Suc k - 1) # peak_sizes_of k (m - 2 ^ k) else peak_sizes_of k m)"

lemma peak_sizes_height_loop_Suc:
  "peak_sizes_height_loop (2 ^ Suc k - 1) sz ps =
     (if 2 ^ Suc k - 1 \<le> sz
      then peak_sizes_height_loop (2 ^ k - 1) (sz - (2 ^ Suc k - 1)) (ps @ [2 ^ Suc k - 1])
      else peak_sizes_height_loop (2 ^ k - 1) sz ps)"
proof -
  have "2 \<le> 2 * (2 :: nat) ^ k" by simp
  then have "(2 :: nat) ^ Suc k - 1 \<noteq> 0" unfolding power_Suc by linarith
  then show ?thesis by (subst peak_sizes_height_loop.simps) (simp only: pow2_pred_div2 if_False)
qed

lemma peak_map_height_loop_acc:
  "\<exists>a h. a < 2 ^ k \<and> (\<forall>m. peak_map_height_loop (2 ^ k - 1) sz m = (2 ^ k * m + a, h))"
proof (induction k arbitrary: sz)
  case 0
  show ?case by (simp add: peak_map_height_loop.simps)
next
  case (Suc k)
  let ?s = "if 2 ^ Suc k - 1 \<le> sz then sz - (2 ^ Suc k - 1) else sz"
  obtain a h where a: "a < 2 ^ k" "\<And>m. peak_map_height_loop (2 ^ k - 1) ?s m = (2 ^ k * m + a, h)"
    using Suc.IH [of ?s] by blast
  let ?a = "if 2 ^ Suc k - 1 \<le> sz then 2 ^ k + a else a"
  have "?a < 2 ^ Suc k" using a(1) by simp
  moreover have "peak_map_height_loop (2 ^ Suc k - 1) sz m = (2 ^ Suc k * m + ?a, h)" for m
    unfolding peak_map_height_loop_Suc using a(2) [of "2 * m + 1"] a(2) [of "2 * m"]
    by (simp add: algebra_simps split: if_splits)
  ultimately show ?case by blast
qed

lemma peak_sizes_height_loop_map:
  "peak_sizes_height_loop (2 ^ k - 1) sz ps =
     (ps @ peak_sizes_of k (fst (peak_map_height_loop (2 ^ k - 1) sz 0)),
      snd (peak_map_height_loop (2 ^ k - 1) sz 0))"
proof (induction k arbitrary: sz ps)
  case 0
  show ?case by (simp add: peak_map_height_loop.simps peak_sizes_height_loop.simps)
next
  case (Suc k)
  show ?case
  proof (cases "2 ^ Suc k - 1 \<le> sz")
    case True
    let ?s = "sz - (2 ^ Suc k - 1)"
    obtain a h where a: "a < 2 ^ k" "\<And>m. peak_map_height_loop (2 ^ k - 1) ?s m = (2 ^ k * m + a, h)"
      using peak_map_height_loop_acc [of k ?s] by blast
    then have "peak_map_height_loop (2 ^ Suc k - 1) sz 0 = (2 ^ k + a, h)"
      unfolding peak_map_height_loop_Suc using True a(2) [of 1] by simp
    moreover have "peak_sizes_height_loop (2 ^ Suc k - 1) sz ps =
        (ps @ [2 ^ Suc k - 1] @ peak_sizes_of k a, h)"
      unfolding peak_sizes_height_loop_Suc using True Suc.IH [of ?s] a(2) [of 0] by simp
    ultimately show ?thesis by simp
  next
    case False
    obtain a h where a: "a < 2 ^ k" "\<And>m. peak_map_height_loop (2 ^ k - 1) sz m = (2 ^ k * m + a, h)"
      using peak_map_height_loop_acc [of k sz] by blast
    then have "peak_map_height_loop (2 ^ Suc k - 1) sz 0 = (a, h)"
      unfolding peak_map_height_loop_Suc using False a(2) [of 0] by simp
    moreover have "peak_sizes_height_loop (2 ^ Suc k - 1) sz ps = (ps @ peak_sizes_of k a, h)"
      unfolding peak_sizes_height_loop_Suc using False Suc.IH [of sz] a(2) [of 0] by simp
    ultimately show ?thesis using a(1) by simp
  qed
qed

lemma scan_add_peak_sizes:
  assumes "m < 2 ^ k" and "2 ^ k dvd b"
  shows "scan_add (insertion_to_pmmr_index b) (peak_sizes_of k m) =
    map (\<lambda>x. insertion_to_pmmr_index (b + x)) (peak_leaves m)"
  using assms
proof (induction k arbitrary: m b)
  case 0
  then show ?case by simp
next
  case (Suc k)
  then have b: "2 ^ k dvd b" by (meson dvd_trans le_imp_power_dvd lessI less_imp_le)
  show ?case
  proof (cases "2 ^ k \<le> m")
    case True
    then obtain m' where m: "m = 2 ^ k + m'" using le_Suc_ex by blast
    then have m': "m' < 2 ^ k" using Suc.prems(1) by simp
    have "bit (b + 2 ^ k) k"
    proof -
      from Suc.prems(2) obtain c where "b = 2 ^ Suc k * c" by auto
      then have "(b + 2 ^ k) div 2 ^ k = 2 * c + 1"
        by (simp add: mult.assoc)
      then show ?thesis by (simp add: bit_iff_odd)
    qed
    from insertion_clear_bit [OF this]
    have I: "insertion_to_pmmr_index (b + 2 ^ k) = insertion_to_pmmr_index b + (2 ^ Suc k - 1)"
      by simp
    have "scan_add (insertion_to_pmmr_index (b + 2 ^ k)) (peak_sizes_of k m') =
        map (\<lambda>x. insertion_to_pmmr_index (b + 2 ^ k + x)) (peak_leaves m')"
      using m' b by (intro Suc.IH) auto
    then show ?thesis
      using True m peak_leaves_top [OF m'] I by (simp add: add.assoc)
  next
    case False
    then show ?thesis using Suc.IH [of m b] b by simp
  qed
qed

lemma peaks_insertion:
  "peaks (insertion_to_pmmr_index n) = map (\<lambda>m. insertion_to_pmmr_index m - 1) (peak_leaves n)"
proof (cases "n = 0")
  case True
  then show ?thesis by (simp add: peaks_def peak_sizes_height_def)
next
  case False
  let ?s = "insertion_to_pmmr_index n"
  have s: "?s \<noteq> 0" using False insertion_ge [of n] by linarith
  have "peak_map_height ?s = (n, 0)" using peak_map_height_node [of n 0] by simp
  then have "peak_map_height_loop (2 ^ bit_len ?s - 1) ?s 0 = (n, 0)"
    using s by (simp add: peak_map_height_def)
  then have "peak_sizes_height ?s = (peak_sizes_of (bit_len ?s) n, 0)"
    using s peak_sizes_height_loop_map [of "bit_len ?s" ?s "[]"] by (simp add: peak_sizes_height_def)
  moreover have "n < 2 ^ bit_len ?s"
    using insertion_ge [of n] bit_len_bound [of ?s] by linarith
  from scan_add_peak_sizes [OF this, of 0]
  have "scan_add 0 (peak_sizes_of (bit_len ?s) n) = map insertion_to_pmmr_index (peak_leaves n)"
    by simp
  ultimately show ?thesis by (simp add: peaks_def)
qed

lemma peaks_not_size:
  assumes "peak_map_height sz = (n, h)" and "h \<noteq> 0"
  shows "peaks sz = []"
proof -
  have "sz \<noteq> 0" using assms by (intro notI) (simp add: peak_map_height_def)
  then have "snd (peak_sizes_height sz) = h"
    using assms(1) peak_sizes_height_loop_map [of "bit_len sz" sz "[]"]
    by (simp add: peak_sizes_height_def peak_map_height_def)
  then show ?thesis using assms(2) by (auto simp: peaks_def split: prod.split)
qed

text \<open>Which leaf counts end a peak: those from which less than their lowest bit is missing.\<close>

lemma set_peak_leaves:
  "m \<in> set (peak_leaves n) \<longleftrightarrow> 0 < m \<and> m \<le> n \<and> n < m + 2 ^ trailing_ones (m - 1)"
proof (induction n rule: peak_leaves.induct)
  case (1 n)
  show ?case
  proof (cases "n = 0")
    case False
    let ?j = "trailing_ones (n - 1)" and ?i = "trailing_ones (m - 1)"
    let ?n' = "n - 2 ^ ?j"
    have j: "(2 :: nat) ^ ?j \<le> n" using low_bit_le False by simp
    have IH: "m \<in> set (peak_leaves ?n') \<longleftrightarrow> 0 < m \<and> m \<le> ?n' \<and> ?n' < m + 2 ^ ?i"
      using False by (rule 1)
    have d: "2 ^ Suc ?j dvd ?n'" using low_bit_cleared False by simp
    have "0 < m \<Longrightarrow> m \<noteq> n \<Longrightarrow>
        (m \<le> ?n' \<and> ?n' < m + 2 ^ ?i) \<longleftrightarrow> (m \<le> n \<and> n < m + 2 ^ ?i)"
    proof -
      assume m: "0 < m" "m \<noteq> n"
      have dm: "2 ^ ?i dvd m" using trailing_ones_ge_iff [of ?i "m - 1"] m by simp
      show ?thesis
      proof (cases "?i \<le> ?j")
        case True
        have "(2 :: nat) ^ ?i dvd 2 ^ ?j" using True by (simp add: le_imp_power_dvd)
        moreover have "(2 :: nat) ^ ?i dvd 2 ^ Suc ?j" using True by (simp add: le_imp_power_dvd)
        then have n': "2 ^ ?i dvd ?n'" using d by (rule dvd_trans)
        ultimately have "2 ^ ?i dvd ?n' + 2 ^ ?j" by (rule dvd_add [rotated])
        then have n: "2 ^ ?i dvd n" using j by simp
        have *: "x \<le> y \<Longrightarrow> y < x + 2 ^ ?i \<Longrightarrow> 2 ^ ?i dvd x \<Longrightarrow> 2 ^ ?i dvd y \<Longrightarrow> x = y" for x y :: nat
          using dvd_diff_nat [of "2 ^ ?i" y x] dvd_imp_le [of "2 ^ ?i" "y - x"] by linarith
        have "m = ?n' \<Longrightarrow> False"
        proof -
          assume "m = ?n'"
          with d m(1) have "2 ^ Suc ?j dvd Suc (m - 1)" by (simp only: Suc_diff_1)
          then have "Suc ?j \<le> ?i" by (simp only: trailing_ones_ge_iff)
          with True show False by simp
        qed
        then show ?thesis using * [of m ?n'] * [of m n] dm n n' m(2) by blast
      next
        case False
        then have "(2 :: nat) ^ Suc ?j dvd 2 ^ ?i" by (intro le_imp_power_dvd) simp
        then obtain c where c: "(2 :: nat) ^ ?i = 2 ^ Suc ?j * c" by (rule dvdE)
        with dm obtain x where x: "m = 2 ^ Suc ?j * x" by (metis dvdE mult.assoc)
        from d obtain y where y: "?n' = 2 ^ Suc ?j * y" by (rule dvdE)
        have n: "n = 2 ^ Suc ?j * y + 2 ^ ?j" using y j by linarith
        have lo: "m \<le> n \<longleftrightarrow> m \<le> ?n'"
        proof -
          have "2 ^ Suc ?j * x \<le> 2 ^ Suc ?j * y + 2 ^ ?j \<longleftrightarrow> x \<le> y"
            by (rule mult_le_add_half)
          then show ?thesis using x y n by (simp only: mult_le_cancel1_pow2)
        qed
        have hi: "n < m + 2 ^ ?i \<longleftrightarrow> ?n' < m + 2 ^ ?i"
        proof -
          have "m + 2 ^ ?i = 2 ^ Suc ?j * (x + c)" using x c by (simp only: distrib_left)
          moreover have "2 ^ Suc ?j * (x + c) \<le> 2 ^ Suc ?j * y + 2 ^ ?j \<longleftrightarrow> x + c \<le> y"
            by (rule mult_le_add_half)
          ultimately show ?thesis
            using y n by (simp only: mult_le_cancel1_pow2 not_le [symmetric])
        qed
        show ?thesis using lo hi by simp
      qed
    qed
    moreover have "peak_leaves n = peak_leaves ?n' @ [n]" using False peak_leaves.simps [of n] by simp
    ultimately show ?thesis using IH False by (cases "m = n") auto
  qed auto
qed

text \<open>
  A node of an MMR with \<open>n\<close> leaves is a peak exactly when its parent is not in the MMR.
\<close>

lemma node_less_iff: "node_ok m h \<Longrightarrow> node_pos m h < insertion_to_pmmr_index n \<longleftrightarrow> m < n"
  using node_pos_less_next [of m h] insertion_mono [of "Suc m" n]
  by (metis Suc_leI insertion_less_iff le_add1 le_less_trans less_le_trans)

lemma insertion_pred: "0 < m \<Longrightarrow> insertion_to_pmmr_index m - 1 = node_pos (m - 1) (trailing_ones (m - 1))"
  using insertion_Suc [of "m - 1"] by simp

lemma family_fst_less_iff:
  assumes "node_ok m h"
  shows "fst (family (node_pos m h)) < insertion_to_pmmr_index n \<longleftrightarrow>
    (if bit m h then m else m + 2 ^ h) < n"
proof (cases "bit m h")
  case True
  then show ?thesis
    using assms family_right [OF assms True] node_ok_Suc_iff [OF assms]
    by (simp only: fst_conv if_True node_less_iff)
next
  case False
  then show ?thesis
    using family_left [OF assms False] not_bit_sibling(1) [OF assms False]
    by (simp only: fst_conv if_False node_less_iff)
qed

lemma set_peaks_node:
  assumes "node_ok m h"
  shows "node_pos m h \<in> set (peaks (insertion_to_pmmr_index n)) \<longleftrightarrow>
    \<not> bit m h \<and> m < n \<and> n \<le> m + 2 ^ h"
proof -
  have "node_pos m h \<in> set (peaks (insertion_to_pmmr_index n)) \<longleftrightarrow>
      (\<exists>l. l \<in> set (peak_leaves n) \<and> node_pos m h = insertion_to_pmmr_index l - 1)"
    by (auto simp: peaks_insertion)
  also have "\<dots> \<longleftrightarrow> (\<exists>l. l \<in> set (peak_leaves n) \<and> l = Suc m \<and> h = trailing_ones m)"
  proof (intro iff_exI conj_cong refl)
    fix l
    assume "l \<in> set (peak_leaves n)"
    then have l: "0 < l" by (simp add: set_peak_leaves)
    have ok: "node_ok (l - 1) (trailing_ones (l - 1))" by (simp add: node_ok_iff_trailing)
    show "node_pos m h = insertion_to_pmmr_index l - 1 \<longleftrightarrow> l = Suc m \<and> h = trailing_ones m"
      unfolding insertion_pred [OF l] using node_pos_unique [OF assms ok] l by auto
  qed
  also have "\<dots> \<longleftrightarrow> h = trailing_ones m \<and> m < n \<and> n \<le> m + 2 ^ h"
    by (auto simp: set_peak_leaves)
  also have "h = trailing_ones m \<longleftrightarrow> \<not> bit m h"
    using assms node_ok_Suc_iff [OF assms] by (auto simp: node_ok_iff_trailing)
  finally show ?thesis .
qed

lemma set_peaks_insertion:
  "set (peaks (insertion_to_pmmr_index n)) =
     {p. p < insertion_to_pmmr_index n \<and> insertion_to_pmmr_index n \<le> fst (family p)}"
proof (rule set_eqI)
  fix p
  obtain m h where p: "node_ok m h" "p = node_pos m h" by (rule peak_map_heightE)
  show "p \<in> set (peaks (insertion_to_pmmr_index n)) \<longleftrightarrow>
      p \<in> {p. p < insertion_to_pmmr_index n \<and> insertion_to_pmmr_index n \<le> fst (family p)}"
    using p(1) family_fst_less_iff [OF p(1), of n]
    by (auto simp: p(2) set_peaks_node node_less_iff not_less [symmetric])
qed

lemma peak_leaves_sorted: "sorted_wrt (<) (peak_leaves n)"
proof (induction n rule: peak_leaves.induct)
  case (1 n)
  show ?case
  proof (cases "n = 0")
    case False
    then have "peak_leaves n = peak_leaves (n - 2 ^ trailing_ones (n - 1)) @ [n]"
      using peak_leaves.simps [of n] by simp
    moreover have "m \<in> set (peak_leaves (n - 2 ^ trailing_ones (n - 1))) \<Longrightarrow> m < n" for m
      using False set_peak_leaves [of m "n - 2 ^ trailing_ones (n - 1)"] by (auto intro: le_less_trans)
    ultimately show ?thesis using 1 False by (simp add: sorted_wrt_append)
  qed simp
qed

lemma peaks_sorted: "sorted_wrt (<) (peaks sz)"
proof (rule peak_map_heightE [of sz])
  fix n h
  assume n: "node_ok n h" "sz = node_pos n h" "peak_map_height sz = (n, h)"
  show ?thesis
  proof (cases "h = 0")
    case True
    have "insertion_to_pmmr_index a - 1 < insertion_to_pmmr_index b - 1"
      if "0 < a" "a < b" for a b
    proof -
      have "insertion_to_pmmr_index a < insertion_to_pmmr_index b" using that by simp
      then show ?thesis using that insertion_ge [of a] by linarith
    qed
    then have "sorted_wrt (\<lambda>a b. insertion_to_pmmr_index a - 1 < insertion_to_pmmr_index b - 1) (peak_leaves n)"
      by (intro sorted_wrt_mono_rel [OF _ peak_leaves_sorted]) (auto simp: set_peak_leaves)
    then show ?thesis using True n(2) by (simp add: peaks_insertion sorted_wrt_map)
  next
    case False
    then show ?thesis using n by (simp add: peaks_not_size)
  qed
qed

section \<open>The branch of a position\<close>

text \<open>The reference the loop of \<open>family_branch\<close> is compared with: follow \<open>family\<close> upwards.\<close>

lemma family_fst_gt: "pos < fst (family pos)"
  by (auto simp: family_def Let_def split: prod.split)

function up_chain :: "nat \<Rightarrow> nat \<Rightarrow> (nat \<times> nat) list" where
  "up_chain sz pos =
     (if fst (family pos) < sz then family pos # up_chain sz (fst (family pos)) else [])"
  by pat_completeness auto
termination
  by (relation "measure (\<lambda>(sz, pos). sz - pos)") (auto intro!: diff_less_mono2 family_fst_gt
      intro: less_trans [OF family_fst_gt])

declare up_chain.simps [simp del]

lemma up_chain_induct [case_names step]:
  assumes "\<And>pos. (fst (family pos) < sz \<Longrightarrow> P (fst (family pos))) \<Longrightarrow> P pos"
  shows "P pos"
  using assms by (induction sz pos rule: up_chain.induct) blast

lemma family_branch_loop_up_chain:
  assumes "node_ok n k" and "m div 2 ^ k = n div 2 ^ k"
  shows "family_branch_loop sz m k (node_pos n k) branch = branch @ up_chain sz (node_pos n k)"
  using assms
proof (induction "sz - node_pos n k" arbitrary: n k branch rule: less_induct)
  case less
  have bit: "bit m k \<longleftrightarrow> bit n k" using less.prems(2) by (simp add: bit_iff_odd)
  define n' where "n' = (if bit n k then n else n + 2 ^ k)"
  have ok: "node_ok n' (Suc k)"
    using less.prems(1) not_bit_sibling(1) node_ok_Suc_iff by (auto simp: n'_def)
  have fam: "(if bit m k then (node_pos n k + 1, node_pos n k + 1 - 2 * 2 ^ k)
      else (node_pos n k + 2 * 2 ^ k, node_pos n k + 2 * 2 ^ k - 1)) = family (node_pos n k)"
    using less.prems(1) bit by (simp add: family_def Let_def)
  have parent: "fst (family (node_pos n k)) = node_pos n' (Suc k)"
    using less.prems(1) family_right family_left by (auto simp: n'_def)
  obtain s where s: "family (node_pos n k) = (node_pos n' (Suc k), s)"
    using parent by (metis prod.collapse)
  have gt: "node_pos n k < node_pos n' (Suc k)" using family_fst_gt [of "node_pos n k"] parent by simp
  show ?case
  proof (cases "node_pos n' (Suc k) < sz")
    case True
    have "m div 2 ^ Suc k = n' div 2 ^ Suc k"
    proof -
      have "m div 2 ^ Suc k = n div 2 ^ k div 2"
        using less.prems(2) by (metis div_mult2_eq power_Suc2)
      also have "\<dots> = n' div 2 ^ k div 2"
        using div_add_self2 [of "2 ^ k" n] by (auto simp: n'_def bit_iff_odd)
      finally show ?thesis by (metis div_mult2_eq power_Suc2)
    qed
    then have "family_branch_loop sz m (Suc k) (node_pos n' (Suc k)) (branch @ [(node_pos n' (Suc k), s)]) =
        (branch @ [(node_pos n' (Suc k), s)]) @ up_chain sz (node_pos n' (Suc k))"
      using gt True ok by (intro less.hyps diff_less_mono2) auto
    then show ?thesis
      using True gt s by (subst family_branch_loop.simps, subst up_chain.simps)
        (simp only: fam s fst_conv if_True prod.case append_assoc append_Cons append_Nil not_less [symmetric], simp)
  next
    case False
    then show ?thesis
      using s by (subst family_branch_loop.simps, subst up_chain.simps) (simp only: fam s, simp)
  qed
qed

lemma family_branch_up_chain: "family_branch pos sz = up_chain sz pos"
proof (rule peak_map_heightE [of pos])
  fix n h
  assume "node_ok n h" "pos = node_pos n h" "peak_map_height pos = (n, h)"
  then show ?thesis
    using family_branch_loop_up_chain [of n h n sz "[]"] by (simp add: family_branch_def)
qed

lemma last_up_chain:
  "pos < sz \<Longrightarrow>
     (let r = last (pos # map fst (up_chain sz pos)) in r < sz \<and> sz \<le> fst (family r) \<and> in_subtree pos r)"
proof (induction pos rule: up_chain_induct [of sz])
  case (step pos)
  show ?case
  proof (cases "fst (family pos) < sz")
    case True
    let ?r = "last (fst (family pos) # map fst (up_chain sz (fst (family pos))))"
    have "?r < sz \<and> sz \<le> fst (family ?r) \<and> in_subtree (fst (family pos)) ?r"
      using step.IH [OF True True] by (simp add: Let_def)
    moreover have "last (pos # map fst (up_chain sz pos)) = ?r"
      by (subst up_chain.simps) (simp add: True)
    ultimately show ?thesis
      using in_subtree_trans [OF in_subtree_parent] by (simp add: Let_def)
  next
    case False
    then have "up_chain sz pos = []" by (simp add: up_chain.simps)
    then show ?thesis using False step.prems by simp
  qed
qed

lemma family_siblings_less:
  assumes "fst (family pos) < sz"
  shows "snd (family pos) < sz"
proof -
  obtain n h where n: "node_ok n h" "pos = node_pos n h" by (rule peak_map_heightE [of pos])
  show ?thesis
  proof (cases "bit n h")
    case True
    then have ok: "node_ok n (Suc h)" using n node_ok_Suc_iff by simp
    show ?thesis using family_pair(1) [OF ok] node_pos_left_child [OF ok] assms n(2) by simp
  next
    case False
    have "node_ok (n + 2 ^ h) (Suc h)" by (rule not_bit_sibling(1) [OF n(1) False])
    from family_pair(2) [OF this] assms n(2) show ?thesis by simp
  qed
qed

lemma up_chain_siblings: "x \<in> set (up_chain sz pos) \<Longrightarrow> snd x < sz"
proof (induction pos rule: up_chain_induct [of sz])
  case (step pos)
  show ?case
  proof (cases "fst (family pos) < sz")
    case True
    then have "up_chain sz pos = family pos # up_chain sz (fst (family pos))"
      by (subst up_chain.simps) simp
    then show ?thesis using step True family_siblings_less [OF True] by auto
  next
    case False
    then have "up_chain sz pos = []" by (subst up_chain.simps) simp
    then show ?thesis using step.prems by simp
  qed
qed

section \<open>Properties\<close>

text \<open>C5: \<open>peak_map_height\<close> is the decomposition of postorder positions: it answers
  \<open>(n, h)\<close> exactly when the position is the node of height \<open>h\<close> whose rightmost leaf is the
  leaf with insertion index \<open>n\<close>, for every position.\<close>

theorem peak_map_height_correct:
  "peak_map_height pos = (n, h) \<longleftrightarrow> 2 ^ h dvd Suc n \<and> pos = insertion_to_pmmr_index n + h"
proof -
  obtain m k where m: "node_ok m k" "pos = node_pos m k" "peak_map_height pos = (m, k)"
    by (rule peak_map_heightE)
  show ?thesis
    using m node_pos_unique [of n h m k] by (auto simp: node_ok_def)
qed

text \<open>C6: \<open>family\<close> pairs siblings: the sibling of the sibling is the node itself, with the same
  parent, siblings have the same height and opposite sides, the parent is one higher, and the
  subtree of the parent is the parent on top of the two siblings' subtrees.\<close>

theorem family_correct:
  "let (parent, sibling) = family pos in
     family sibling = (parent, pos) \<and>
     bintree_postorder_height sibling = bintree_postorder_height pos \<and>
     bintree_postorder_height parent = Suc (bintree_postorder_height pos) \<and>
     is_left_sibling sibling = (\<not> is_left_sibling pos) \<and>
     set (bintree_pos_iter parent) =
       insert parent (set (bintree_pos_iter pos) \<union> set (bintree_pos_iter sibling))"
proof -
  obtain n h where n: "node_ok n h" "pos = node_pos n h" by (rule peak_map_heightE [of pos])
  show ?thesis
  proof (cases "bit n h")
    case True
    then show ?thesis
      using family_pair [of n h] n family_right [OF n(1) True] node_ok_Suc_iff [OF n(1)]
      by (simp only: Let_def prod.case) (simp add: Un_commute)
  next
    case False
    have ok: "node_ok (n + 2 ^ h) (Suc h)" by (rule not_bit_sibling(1) [OF n(1) False])
    then show ?thesis
      using family_pair [of "n + 2 ^ h" h] n family_left [OF n(1) False]
      by (simp only: Let_def prod.case) simp
  qed
qed

text \<open>C7: \<open>peaks\<close> answers, in ascending order, exactly the nodes of an MMR of the given size that
  have no parent inside it, and nothing when the size is not the size of an MMR.\<close>

theorem peaks_correct:
  "sorted_wrt (<) (peaks sz) \<and>
   set (peaks sz) = (if is_leaf sz then {p. p < sz \<and> sz \<le> fst (family p)} else {})"
proof -
  obtain n h where n: "node_ok n h" "sz = node_pos n h" "peak_map_height sz = (n, h)"
    by (rule peak_map_heightE [of sz])
  show ?thesis
    using n peaks_sorted set_peaks_insertion [of n] by (cases "h = 0") (auto simp: peaks_not_size)
qed

text \<open>C8: \<open>family_branch\<close> answers what following \<open>family\<close> upwards inside the MMR gives, and
  the node it ends at is the peak above the position it started from.\<close>

theorem family_branch_correct:
  assumes "is_leaf sz" and "pos < sz"
  shows "family_branch pos sz = up_chain sz pos \<and>
    last (pos # map fst (family_branch pos sz)) \<in> set (peaks sz) \<and>
    in_subtree pos (last (pos # map fst (family_branch pos sz)))"
proof -
  obtain n where n: "sz = insertion_to_pmmr_index n" using assms(1) by (rule is_leafE)
  show ?thesis
    using last_up_chain [OF assms(2)] set_peaks_insertion [of n]
    by (simp add: family_branch_up_chain Let_def n)
qed

lemma family_branch_correct_witness:
  "family_branch 3 10 = up_chain 10 3 \<and> last (3 # map fst (family_branch 3 10)) = 6 \<and> 6 \<in> set (peaks 10)"
proof -
  have 1: "is_leaf 10" by code_simp
  have 2: "last (3 # map fst (family_branch 3 10)) = 6" by code_simp
  show ?thesis using family_branch_correct [of 10 3, unfolded 2] 1 2 by linarith
qed

text \<open>\<open>n_leaves\<close> counts the leaves below a size, and \<open>round_up_to_leaf_pos\<close> is the least
  leaf position that is not smaller than the given position.\<close>

theorem leaf_counting_correct:
  "n_leaves sz = card {p. p < sz \<and> is_leaf p} \<and>
   is_leaf (round_up_to_leaf_pos sz) \<and> sz \<le> round_up_to_leaf_pos sz \<and>
   {p. sz \<le> p \<and> p < round_up_to_leaf_pos sz \<and> is_leaf p} = {}"
proof -
  have less: "insertion_to_pmmr_index m < sz \<longleftrightarrow> m < n_leaves sz" for m
    using n_leaves_le_iff [of sz m] by linarith
  have leaf: "is_leaf p \<longleftrightarrow> p \<in> range insertion_to_pmmr_index" for p
    by (auto elim: is_leafE)
  have "{p. p < sz \<and> is_leaf p} = insertion_to_pmmr_index ` {..<n_leaves sz}"
    unfolding leaf using less by blast
  moreover have "inj_on insertion_to_pmmr_index {..<n_leaves sz}" by (simp add: inj_on_def)
  ultimately have card: "card {p. p < sz \<and> is_leaf p} = n_leaves sz"
    by (simp only: card_image card_lessThan)
  have r: "round_up_to_leaf_pos sz = insertion_to_pmmr_index (n_leaves sz)"
    by (simp add: round_up_to_leaf_pos_def n_leaves_def Let_def split: prod.split)
  have "{p. sz \<le> p \<and> p < round_up_to_leaf_pos sz \<and> is_leaf p} = {}"
  proof (rule equals0I)
    fix p
    assume "p \<in> {p. sz \<le> p \<and> p < round_up_to_leaf_pos sz \<and> is_leaf p}"
    then have p: "sz \<le> p" "p < insertion_to_pmmr_index (n_leaves sz)" "is_leaf p" by (auto simp: r)
    then obtain m where "p = insertion_to_pmmr_index m" by (auto elim: is_leafE)
    with p less [of m] show False by simp
  qed
  moreover have "sz \<le> round_up_to_leaf_pos sz" using n_leaves_le_iff [of sz "n_leaves sz"] r by simp
  moreover have "is_leaf (round_up_to_leaf_pos sz)" by (simp add: r)
  ultimately show ?thesis using card by simp
qed

text \<open>the leaves iterated below a subtree root are exactly the leaf positions among the
  positions of the subtree, in order, and there are two to the height of them.\<close>

theorem bintree_leaf_pos_iter_correct:
  "bintree_leaf_pos_iter pos = filter is_leaf (bintree_pos_iter pos) \<and>
   length (bintree_leaf_pos_iter pos) = 2 ^ bintree_postorder_height pos"
proof -
  obtain n h where n: "node_ok n h" "pos = node_pos n h" by (rule peak_map_heightE [of pos])
  have l: "2 ^ h \<le> Suc n" by (rule leftmost_leaf_le [OF n(1)])
  have iter: "bintree_leaf_pos_iter pos = map insertion_to_pmmr_index [Suc n - 2 ^ h..<Suc n]"
    using bintree_leaf_pos_iter_node [OF n(1)] n(2) by simp
  have "sorted_wrt (<) (bintree_leaf_pos_iter pos)"
    by (simp add: iter sorted_wrt_map strict_sorted_iff del: upt_Suc)
  moreover have "sorted_wrt (<) (filter is_leaf (bintree_pos_iter pos))"
    by (simp add: bintree_pos_iter_def sorted_wrt_filter del: upt_Suc)
  moreover have "p \<in> set (bintree_leaf_pos_iter pos) \<longleftrightarrow> p \<in> set (filter is_leaf (bintree_pos_iter pos))" for p
  proof (cases "is_leaf p")
    case True
    then obtain m where m: "p = insertion_to_pmmr_index m" by (rule is_leafE)
    have "p \<in> set (bintree_leaf_pos_iter pos) \<longleftrightarrow> Suc n - 2 ^ h \<le> m \<and> m \<le> n"
      by (auto simp: iter m less_Suc_eq_le simp del: upt_Suc)
    moreover have "m \<le> n \<longleftrightarrow> p \<le> pos"
      using node_less_iff [OF n(1), of m] by (simp only: n(2) m not_less [symmetric])
    moreover have "Suc n - 2 ^ h \<le> m \<longleftrightarrow> bintree_leftmost pos \<le> p"
      by (simp only: n(2) bintree_leftmost_node(1) [OF n(1)] m insertion_le_iff)
    ultimately show ?thesis using True by (simp add: bintree_pos_iter_def less_Suc_eq_le del: upt_Suc)
  qed (auto simp: iter simp del: upt_Suc)
  then have "set (bintree_leaf_pos_iter pos) = set (filter is_leaf (bintree_pos_iter pos))" by blast
  ultimately have "bintree_leaf_pos_iter pos = filter is_leaf (bintree_pos_iter pos)"
    using strict_sorted_equal by metis
  moreover have "length (bintree_leaf_pos_iter pos) = 2 ^ bintree_postorder_height pos"
    unfolding iter using l height_node [OF n(1)] n(2) by (simp del: upt_Suc)
  ultimately show ?thesis by simp
qed

end
