(* ===== verification/Pmmr.thy ===== *)
theory Pmmr
  imports Pmmr_Pos
begin

text \<open>
  The prunable Merkle mountain range over an abstract storage backend
  (\<open>core/src/core/pmmr/pmmr.rs\<close>, \<open>backend.rs\<close>, \<open>readonly_pmmr.rs\<close>,
  \<open>rewindable_pmmr.rs\<close>) and the in-memory backend of \<open>vec_backend.rs\<close>.

  The trait \<open>Backend\<close> is the record \<open>backend_ops\<close> of its methods, the trait
  \<open>ReadablePMMR\<close> the record \<open>readable\<close> of what its methods answer for one receiver. The hash
  functions are arguments: \<open>hl t i\<close> is \<open>t.hash_with_index(i)\<close> for a leaf element and
  \<open>hn (l, r) i\<close> the same for a pair of hashes.

  The locale \<open>mmr_backend\<close> states what the range relies on, the theorems about \<open>push\<close>,
  \<open>root\<close>, \<open>rewind\<close>, \<open>prune\<close> and \<open>validate\<close> are proved in it once, and it is interpreted
  for the in-memory backend.
\<close>

section \<open>The backend trait\<close>

text \<open>
  The messages of the \<open>String\<close> errors are the constructors; \<open>Unimplemented\<close> is the panic of a
  method whose body is \<open>unimplemented!()\<close>.
\<close>

datatype pmmr_error =
    BadMmrSize nat
  | MissingLeftSibling
  | NotALeaf nat
  | NoElement nat
  | NoRoot
  | InvalidParent nat
  | Unimplemented
  | BackendError string

record ('b, 't, 'e, 'h) backend_ops =
  b_append :: "'b \<Rightarrow> 't \<Rightarrow> 'h list \<Rightarrow> pmmr_error + 'b"
  b_append_pruned_subtree :: "'b \<Rightarrow> 'h \<Rightarrow> nat \<Rightarrow> pmmr_error + 'b"
  b_append_hash :: "'b \<Rightarrow> 'h \<Rightarrow> pmmr_error + 'b"
  b_rewind :: "'b \<Rightarrow> nat \<Rightarrow> nat set \<Rightarrow> pmmr_error + 'b"
  b_get_hash :: "'b \<Rightarrow> nat \<Rightarrow> 'h option"
  b_get_data :: "'b \<Rightarrow> nat \<Rightarrow> 'e option"
  b_get_from_file :: "'b \<Rightarrow> nat \<Rightarrow> 'h option"
  b_get_peak_from_file :: "'b \<Rightarrow> nat \<Rightarrow> 'h option"
  b_get_data_from_file :: "'b \<Rightarrow> nat \<Rightarrow> 'e option"
  b_leaf_pos_iter :: "'b \<Rightarrow> nat list"
  b_n_unpruned_leaves :: "'b \<Rightarrow> pmmr_error + nat"
  b_n_unpruned_leaves_to_index :: "'b \<Rightarrow> nat \<Rightarrow> pmmr_error + nat"
  b_leaf_idx_iter :: "'b \<Rightarrow> nat \<Rightarrow> nat list"
  b_remove :: "'b \<Rightarrow> nat \<Rightarrow> pmmr_error + 'b"
  b_remove_from_leaf_set :: "'b \<Rightarrow> nat \<Rightarrow> pmmr_error + 'b"
  b_reset_prune_list :: "'b \<Rightarrow> pmmr_error + 'b"

section \<open>The in-memory backend\<close>

record ('t, 'h) vec_backend =
  vb_data :: "'t list option"
  vb_hashes :: "'h list"
  vb_removed :: "nat set"

text \<open>\<open>slice::get\<close>: the element at an index, if there is one.\<close>

definition nth_opt :: "'a list \<Rightarrow> nat \<Rightarrow> 'a option" where
  "nth_opt xs i = (if i < length xs then Some (xs ! i) else None)"

definition vec_new :: "('t, 'h) vec_backend" where
  "vec_new = \<lparr> vb_data = Some [], vb_hashes = [], vb_removed = {} \<rparr>"

definition vec_new_hash_only :: "('t, 'h) vec_backend" where
  "vec_new_hash_only = \<lparr> vb_data = None, vb_hashes = [], vb_removed = {} \<rparr>"

definition vec_size :: "('t, 'h) vec_backend \<Rightarrow> nat" where
  "vec_size b = length (vb_hashes b)"

definition vec_append :: "('t, 'h) vec_backend \<Rightarrow> 't \<Rightarrow> 'h list \<Rightarrow> pmmr_error + ('t, 'h) vec_backend" where
  "vec_append b elmt hs =
     Inr (b \<lparr> vb_data := map_option (\<lambda>d. d @ [elmt]) (vb_data b), vb_hashes := vb_hashes b @ hs \<rparr>)"

definition vec_append_pruned_subtree ::
    "('t, 'h) vec_backend \<Rightarrow> 'h \<Rightarrow> nat \<Rightarrow> pmmr_error + ('t, 'h) vec_backend" where
  "vec_append_pruned_subtree b h pos0 = Inl Unimplemented"

definition vec_append_hash :: "('t, 'h) vec_backend \<Rightarrow> 'h \<Rightarrow> pmmr_error + ('t, 'h) vec_backend" where
  "vec_append_hash b h = Inl Unimplemented"

definition vec_get_from_file :: "('t, 'h) vec_backend \<Rightarrow> nat \<Rightarrow> 'h option" where
  "vec_get_from_file b pos0 = nth_opt (vb_hashes b) pos0"

definition vec_get_peak_from_file :: "('t, 'h) vec_backend \<Rightarrow> nat \<Rightarrow> 'h option" where
  "vec_get_peak_from_file b pos0 = vec_get_from_file b pos0"

definition vec_get_hash :: "('t, 'h) vec_backend \<Rightarrow> nat \<Rightarrow> 'h option" where
  "vec_get_hash b pos0 = (if pos0 \<in> vb_removed b then None else vec_get_from_file b pos0)"

definition vec_get_data_from_file :: "('t \<Rightarrow> 'e) \<Rightarrow> ('t, 'h) vec_backend \<Rightarrow> nat \<Rightarrow> 'e option" where
  "vec_get_data_from_file as_elmt b pos0 =
     (case vb_data b of
        None \<Rightarrow> None
      | Some data \<Rightarrow> map_option as_elmt (nth_opt data (n_leaves (1 + pos0) - 1)))"

definition vec_get_data :: "('t \<Rightarrow> 'e) \<Rightarrow> ('t, 'h) vec_backend \<Rightarrow> nat \<Rightarrow> 'e option" where
  "vec_get_data as_elmt b pos0 =
     (if pos0 \<in> vb_removed b then None else vec_get_data_from_file as_elmt b pos0)"

definition vec_n_unpruned_leaves :: "('t, 'h) vec_backend \<Rightarrow> pmmr_error + nat" where
  "vec_n_unpruned_leaves b = Inl Unimplemented"

definition vec_n_unpruned_leaves_to_index :: "('t, 'h) vec_backend \<Rightarrow> nat \<Rightarrow> pmmr_error + nat" where
  "vec_n_unpruned_leaves_to_index b to_index = Inl Unimplemented"

definition vec_leaf_pos_iter :: "('t, 'h) vec_backend \<Rightarrow> nat list" where
  "vec_leaf_pos_iter b =
     filter (\<lambda>x. is_leaf x \<and> x \<notin> vb_removed b) [0..<length (vb_hashes b)]"

definition vec_leaf_idx_iter :: "('t, 'h) vec_backend \<Rightarrow> nat \<Rightarrow> nat list" where
  "vec_leaf_idx_iter b from_idx =
     (let from_pos = insertion_to_pmmr_index from_idx
      in map (\<lambda>x. n_leaves (x + 1) - 1) (dropWhile (\<lambda>x. x < from_pos) (vec_leaf_pos_iter b)))"

definition vec_remove :: "('t, 'h) vec_backend \<Rightarrow> nat \<Rightarrow> pmmr_error + ('t, 'h) vec_backend" where
  "vec_remove b pos0 = Inr (b \<lparr> vb_removed := insert pos0 (vb_removed b) \<rparr>)"

definition vec_remove_from_leaf_set ::
    "('t, 'h) vec_backend \<Rightarrow> nat \<Rightarrow> pmmr_error + ('t, 'h) vec_backend" where
  "vec_remove_from_leaf_set b pos0 = Inl Unimplemented"

definition vec_reset_prune_list :: "('t, 'h) vec_backend \<Rightarrow> pmmr_error + ('t, 'h) vec_backend" where
  "vec_reset_prune_list b = Inl Unimplemented"

definition vec_rewind ::
    "('t, 'h) vec_backend \<Rightarrow> nat \<Rightarrow> nat set \<Rightarrow> pmmr_error + ('t, 'h) vec_backend" where
  "vec_rewind b position rewind_rm_pos =
     Inr (b \<lparr> vb_data := map_option (take (n_leaves position)) (vb_data b),
             vb_hashes := take position (vb_hashes b) \<rparr>)"

definition vec_ops :: "('t \<Rightarrow> 'e) \<Rightarrow> (('t, 'h) vec_backend, 't, 'e, 'h) backend_ops" where
  "vec_ops as_elmt =
     \<lparr> b_append = vec_append, b_append_pruned_subtree = vec_append_pruned_subtree,
       b_append_hash = vec_append_hash, b_rewind = vec_rewind, b_get_hash = vec_get_hash,
       b_get_data = vec_get_data as_elmt, b_get_from_file = vec_get_from_file,
       b_get_peak_from_file = vec_get_peak_from_file,
       b_get_data_from_file = vec_get_data_from_file as_elmt,
       b_leaf_pos_iter = vec_leaf_pos_iter, b_n_unpruned_leaves = vec_n_unpruned_leaves,
       b_n_unpruned_leaves_to_index = vec_n_unpruned_leaves_to_index,
       b_leaf_idx_iter = vec_leaf_idx_iter, b_remove = vec_remove,
       b_remove_from_leaf_set = vec_remove_from_leaf_set,
       b_reset_prune_list = vec_reset_prune_list \<rparr>"

section \<open>The readable trait\<close>

record ('e, 'h) readable =
  get_hash :: "nat \<Rightarrow> 'h option"
  get_data :: "nat \<Rightarrow> 'e option"
  get_from_file :: "nat \<Rightarrow> 'h option"
  get_peak_from_file :: "nat \<Rightarrow> 'h option"
  get_data_from_file :: "nat \<Rightarrow> 'e option"
  unpruned_size :: nat
  leaf_pos_iter :: "nat list"
  leaf_idx_iter :: "nat \<Rightarrow> nat list"
  n_unpruned_leaves :: "pmmr_error + nat"
  n_unpruned_leaves_to_index :: "nat \<Rightarrow> pmmr_error + nat"

definition is_empty :: "('e, 'h) readable \<Rightarrow> bool" where
  "is_empty r \<longleftrightarrow> unpruned_size r = 0"

text \<open>The accumulation loop shared by \<open>bag_the_rhs\<close> and \<open>root\<close>, over the reversed peaks.\<close>

fun bag_loop :: "('h \<times> 'h \<Rightarrow> nat \<Rightarrow> 'h) \<Rightarrow> nat \<Rightarrow> 'h option \<Rightarrow> 'h list \<Rightarrow> 'h option" where
  "bag_loop hn sz res [] = res"
| "bag_loop hn sz res (peak # rest) =
     bag_loop hn sz
       (case res of None \<Rightarrow> Some peak | Some rhash \<Rightarrow> Some (hn (peak, rhash) sz)) rest"

definition bag_the_rhs :: "('h \<times> 'h \<Rightarrow> nat \<Rightarrow> 'h) \<Rightarrow> ('e, 'h) readable \<Rightarrow> nat \<Rightarrow> 'h option" where
  "bag_the_rhs hn r peak_pos0 =
     (let sz = unpruned_size r;
          rhs = List.map_filter (get_from_file r) (filter (\<lambda>x. peak_pos0 < x) (peaks sz))
      in bag_loop hn sz None (rev rhs))"

definition readable_peaks :: "('e, 'h) readable \<Rightarrow> 'h list" where
  "readable_peaks r = List.map_filter (get_peak_from_file r) (peaks (unpruned_size r))"

definition peak_path :: "('h \<times> 'h \<Rightarrow> nat \<Rightarrow> 'h) \<Rightarrow> ('e, 'h) readable \<Rightarrow> nat \<Rightarrow> 'h list" where
  "peak_path hn r peak_pos0 =
     (let rhs = bag_the_rhs hn r peak_pos0;
          res = List.map_filter (get_peak_from_file r)
                  (filter (\<lambda>x. x < peak_pos0) (peaks (unpruned_size r)));
          res = (case rhs of None \<Rightarrow> res | Some h \<Rightarrow> res @ [h])
      in rev res)"

definition root :: "'h \<Rightarrow> ('h \<times> 'h \<Rightarrow> nat \<Rightarrow> 'h) \<Rightarrow> ('e, 'h) readable \<Rightarrow> pmmr_error + 'h" where
  "root zero_hash hn r =
     (if is_empty r then Inr zero_hash
      else ok_or NoRoot (bag_loop hn (unpruned_size r) None (rev (readable_peaks r))))"

record 'h merkle_proof =
  mmr_size :: nat
  path :: "'h list"

definition merkle_proof ::
    "('h \<times> 'h \<Rightarrow> nat \<Rightarrow> 'h) \<Rightarrow> ('e, 'h) readable \<Rightarrow> nat \<Rightarrow> pmmr_error + 'h merkle_proof" where
  "merkle_proof hn r pos0 =
     (if \<not> is_leaf pos0 then Inl (NotALeaf pos0)
      else rbind (ok_or (NoElement pos0) (get_hash r pos0)) (\<lambda>_.
        let branch = family_branch pos0 (unpruned_size r);
            siblings = List.map_filter (\<lambda>x. get_from_file r (snd x)) branch;
            peak_pos = (if branch = [] then pos0 else fst (last branch))
        in Inr \<lparr> mmr_size = unpruned_size r, path = siblings @ peak_path hn r peak_pos \<rparr>))"

section \<open>The range\<close>

record 'b pmmr =
  pmmr_size :: nat
  pmmr_backend :: 'b

definition pmmr_new :: "'b \<Rightarrow> 'b pmmr" where
  "pmmr_new b = \<lparr> pmmr_size = 0, pmmr_backend = b \<rparr>"

definition pmmr_at :: "'b \<Rightarrow> nat \<Rightarrow> 'b pmmr" where
  "pmmr_at b sz = \<lparr> pmmr_size = sz, pmmr_backend = b \<rparr>"

text \<open>\<open>impl ReadablePMMR for PMMR\<close>.\<close>

definition pmmr_get_hash :: "('b, 't, 'e, 'h) backend_ops \<Rightarrow> 'b pmmr \<Rightarrow> nat \<Rightarrow> 'h option" where
  "pmmr_get_hash ops p pos0 =
     (if pmmr_size p \<le> pos0 then None
      else if is_leaf pos0 then b_get_hash ops (pmmr_backend p) pos0
      else b_get_from_file ops (pmmr_backend p) pos0)"

definition pmmr_get_data :: "('b, 't, 'e, 'h) backend_ops \<Rightarrow> 'b pmmr \<Rightarrow> nat \<Rightarrow> 'e option" where
  "pmmr_get_data ops p pos0 =
     (if pmmr_size p \<le> pos0 then None
      else if is_leaf pos0 then b_get_data ops (pmmr_backend p) pos0
      else None)"

definition pmmr_get_from_file :: "('b, 't, 'e, 'h) backend_ops \<Rightarrow> 'b pmmr \<Rightarrow> nat \<Rightarrow> 'h option" where
  "pmmr_get_from_file ops p pos0 =
     (if pmmr_size p \<le> pos0 then None else b_get_from_file ops (pmmr_backend p) pos0)"

definition pmmr_get_peak_from_file ::
    "('b, 't, 'e, 'h) backend_ops \<Rightarrow> 'b pmmr \<Rightarrow> nat \<Rightarrow> 'h option" where
  "pmmr_get_peak_from_file ops p pos0 =
     (if pmmr_size p \<le> pos0 then None else b_get_peak_from_file ops (pmmr_backend p) pos0)"

definition pmmr_get_data_from_file ::
    "('b, 't, 'e, 'h) backend_ops \<Rightarrow> 'b pmmr \<Rightarrow> nat \<Rightarrow> 'e option" where
  "pmmr_get_data_from_file ops p pos0 =
     (if pmmr_size p \<le> pos0 then None else b_get_data_from_file ops (pmmr_backend p) pos0)"

definition pmmr_readable :: "('b, 't, 'e, 'h) backend_ops \<Rightarrow> 'b pmmr \<Rightarrow> ('e, 'h) readable" where
  "pmmr_readable ops p =
     \<lparr> get_hash = pmmr_get_hash ops p, get_data = pmmr_get_data ops p,
       get_from_file = pmmr_get_from_file ops p,
       get_peak_from_file = pmmr_get_peak_from_file ops p,
       get_data_from_file = pmmr_get_data_from_file ops p,
       unpruned_size = pmmr_size p,
       leaf_pos_iter = b_leaf_pos_iter ops (pmmr_backend p),
       leaf_idx_iter = b_leaf_idx_iter ops (pmmr_backend p),
       n_unpruned_leaves = b_n_unpruned_leaves ops (pmmr_backend p),
       n_unpruned_leaves_to_index = b_n_unpruned_leaves_to_index ops (pmmr_backend p) \<rparr>"

text \<open>
  \<open>push\<close>: the loop hashes the new node with each peak that immediately precedes it. The source
  keeps \<open>peak = 2 ^ k\<close>.
\<close>

lemma bit_less_self: "bit n k \<Longrightarrow> k < (n :: nat)"
  using count_ones_clear_bit [of n k] less_exp [of k] by linarith

function push_loop ::
    "('h \<times> 'h \<Rightarrow> nat \<Rightarrow> 'h) \<Rightarrow> (nat \<Rightarrow> 'h option) \<Rightarrow> nat \<Rightarrow> nat \<Rightarrow> nat \<Rightarrow> 'h \<Rightarrow> 'h list \<Rightarrow>
     pmmr_error + 'h list \<times> nat" where
  "push_loop hn get_peak peak_map k pos current_hash hashes =
     (if bit peak_map k then
        rbind (ok_or MissingLeftSibling (get_peak (pos + 1 - 2 * 2 ^ k))) (\<lambda>left_hash.
          let current_hash = hn (left_hash, current_hash) (pos + 1)
          in push_loop hn get_peak peak_map (Suc k) (pos + 1) current_hash (hashes @ [current_hash]))
      else Inr (hashes, pos))"
  by pat_completeness auto
termination
  by (relation "measure (\<lambda>(hn, g, m, k, p, c, h). m - k)")
    (auto intro!: diff_less_mono2 dest: bit_less_self)

definition push ::
    "('t \<Rightarrow> nat \<Rightarrow> 'h) \<Rightarrow> ('h \<times> 'h \<Rightarrow> nat \<Rightarrow> 'h) \<Rightarrow> ('b, 't, 'e, 'h) backend_ops \<Rightarrow>
     'b pmmr \<Rightarrow> 't \<Rightarrow> pmmr_error + nat \<times> 'b pmmr" where
  "push hl hn ops p leaf =
     (let leaf_pos = pmmr_size p;
          current_hash = hl leaf leaf_pos;
          (peak_map, height) = peak_map_height leaf_pos
      in if height \<noteq> 0 then Inl (BadMmrSize leaf_pos)
         else rbind (push_loop hn (b_get_peak_from_file ops (pmmr_backend p)) peak_map 0 leaf_pos
                       current_hash [current_hash]) (\<lambda>(hashes, pos).
           rbind (b_append ops (pmmr_backend p) leaf hashes) (\<lambda>backend.
             Inr (leaf_pos, p \<lparr> pmmr_size := pos + 1, pmmr_backend := backend \<rparr>))))"

function push_pruned_loop ::
    "('h \<times> 'h \<Rightarrow> nat \<Rightarrow> 'h) \<Rightarrow> ('b, 't, 'e, 'h) backend_ops \<Rightarrow> nat \<Rightarrow> nat \<Rightarrow> nat \<Rightarrow> 'h \<Rightarrow> 'b \<Rightarrow>
     pmmr_error + nat \<times> 'b" where
  "push_pruned_loop hn ops peak_map k pos current_hash backend =
     (if bit peak_map k then
        (let (parent, sibling) = family pos
         in if pos < sibling then push_pruned_loop hn ops peak_map (Suc k) pos current_hash backend
            else rbind (ok_or MissingLeftSibling (b_get_hash ops backend sibling)) (\<lambda>left_hash.
              let current_hash = hn (left_hash, current_hash) parent
              in rbind (b_append_hash ops backend current_hash) (\<lambda>backend.
                   push_pruned_loop hn ops peak_map (Suc k) parent current_hash backend)))
      else Inr (pos, backend))"
  by pat_completeness auto
termination
  by (relation "measure (\<lambda>(hn, ops, m, k, p, c, b). m - k)")
    (auto intro!: diff_less_mono2 dest: bit_less_self)

declare push_loop.simps [simp del] push_pruned_loop.simps [simp del]

definition push_pruned_subtree ::
    "('h \<times> 'h \<Rightarrow> nat \<Rightarrow> 'h) \<Rightarrow> ('b, 't, 'e, 'h) backend_ops \<Rightarrow> 'b pmmr \<Rightarrow> 'h \<Rightarrow> nat \<Rightarrow>
     pmmr_error + 'b pmmr" where
  "push_pruned_subtree hn ops p hash pos0 =
     rbind (b_append_pruned_subtree ops (pmmr_backend p) hash pos0) (\<lambda>backend.
       let (peak_map, _) = peak_map_height pos0
       in rbind (push_pruned_loop hn ops peak_map 0 pos0 hash backend) (\<lambda>(pos, backend).
            Inr \<lparr> pmmr_size = round_up_to_leaf_pos pos, pmmr_backend = backend \<rparr>))"

definition pmmr_reset_prune_list ::
    "('b, 't, 'e, 'h) backend_ops \<Rightarrow> 'b pmmr \<Rightarrow> pmmr_error + 'b pmmr" where
  "pmmr_reset_prune_list ops p =
     rbind (b_reset_prune_list ops (pmmr_backend p)) (\<lambda>b. Inr (p \<lparr> pmmr_backend := b \<rparr>))"

definition pmmr_remove_from_leaf_set ::
    "('b, 't, 'e, 'h) backend_ops \<Rightarrow> 'b pmmr \<Rightarrow> nat \<Rightarrow> pmmr_error + 'b pmmr" where
  "pmmr_remove_from_leaf_set ops p pos0 =
     rbind (b_remove_from_leaf_set ops (pmmr_backend p) pos0) (\<lambda>b. Inr (p \<lparr> pmmr_backend := b \<rparr>))"

definition rewind ::
    "('b, 't, 'e, 'h) backend_ops \<Rightarrow> 'b pmmr \<Rightarrow> nat \<Rightarrow> nat set \<Rightarrow> pmmr_error + 'b pmmr" where
  "rewind ops p position rewind_rm_pos =
     (let leaf_pos = round_up_to_leaf_pos position
      in rbind (b_rewind ops (pmmr_backend p) leaf_pos rewind_rm_pos) (\<lambda>backend.
           Inr (p \<lparr> pmmr_backend := backend, pmmr_size := leaf_pos \<rparr>)))"

definition prune ::
    "('b, 't, 'e, 'h) backend_ops \<Rightarrow> 'b pmmr \<Rightarrow> nat \<Rightarrow> pmmr_error + bool \<times> 'b pmmr" where
  "prune ops p pos0 =
     (if \<not> is_leaf pos0 then Inl (NotALeaf pos0)
      else if b_get_hash ops (pmmr_backend p) pos0 = None then Inr (False, p)
      else rbind (b_remove ops (pmmr_backend p) pos0) (\<lambda>backend.
             Inr (True, p \<lparr> pmmr_backend := backend \<rparr>)))"

definition validate_at :: "('h \<times> 'h \<Rightarrow> nat \<Rightarrow> 'h) \<Rightarrow> ('e, 'h) readable \<Rightarrow> nat \<Rightarrow> bool" where
  "validate_at hn r n =
     (let height = bintree_postorder_height n
      in if 0 < height then
           (case get_hash r n of
              None \<Rightarrow> True
            | Some hash \<Rightarrow>
                (case get_from_file r (n - 2 ^ height) of
                   None \<Rightarrow> True
                 | Some left_child_hs \<Rightarrow>
                     (case get_from_file r (n - 1) of
                        None \<Rightarrow> True
                      | Some right_child_hs \<Rightarrow> hn (left_child_hs, right_child_hs) n = hash)))
         else True)"

fun validate_from ::
    "('h \<times> 'h \<Rightarrow> nat \<Rightarrow> 'h) \<Rightarrow> ('e, 'h) readable \<Rightarrow> nat list \<Rightarrow> pmmr_error + unit" where
  "validate_from hn r [] = Inr ()"
| "validate_from hn r (n # ns) =
     (if validate_at hn r n then validate_from hn r ns else Inl (InvalidParent (n + 1)))"

definition validate ::
    "('h \<times> 'h \<Rightarrow> nat \<Rightarrow> 'h) \<Rightarrow> ('b, 't, 'e, 'h) backend_ops \<Rightarrow> 'b pmmr \<Rightarrow> pmmr_error + unit" where
  "validate hn ops p = validate_from hn (pmmr_readable ops p) [0..<pmmr_size p]"

section \<open>Read-only and rewindable views\<close>

text \<open>
  \<open>ReadonlyPMMR\<close> and \<open>RewindablePMMR\<close> have the fields of \<open>PMMR\<close>, and \<open>ReadonlyPMMR\<close>
  implements \<open>ReadablePMMR\<close> with the same bodies, so \<open>pmmr_readable\<close> serves for both.
\<close>

definition readonly_pmmr :: "'b pmmr \<Rightarrow> 'b pmmr" where
  "readonly_pmmr p = pmmr_at (pmmr_backend p) (pmmr_size p)"

definition rewindable_rewind :: "'b pmmr \<Rightarrow> nat \<Rightarrow> 'b pmmr" where
  "rewindable_rewind p position = p \<lparr> pmmr_size := round_up_to_leaf_pos position \<rparr>"

definition as_readonly :: "'b pmmr \<Rightarrow> 'b pmmr" where
  "as_readonly p = pmmr_at (pmmr_backend p) (pmmr_size p)"

function elements_loop ::
    "(nat \<Rightarrow> 'e option) \<Rightarrow> nat \<Rightarrow> nat \<Rightarrow> nat \<Rightarrow> 'e list \<Rightarrow> nat \<times> 'e list" where
  "elements_loop get max_count sz pmmr_index return_vec =
     (if length return_vec < max_count \<and> pmmr_index < sz
      then elements_loop get max_count sz (pmmr_index + 1)
             (case get pmmr_index of Some t \<Rightarrow> return_vec @ [t] | None \<Rightarrow> return_vec)
      else (pmmr_index, return_vec))"
  by pat_completeness auto
termination
  by (relation "measure (\<lambda>(g, m, sz, i, v). sz - i)") auto

definition elements_from_pmmr_index ::
    "('b, 't, 'e, 'h) backend_ops \<Rightarrow> 'b pmmr \<Rightarrow> nat \<Rightarrow> nat \<Rightarrow> nat option \<Rightarrow> nat \<times> 'e list" where
  "elements_from_pmmr_index ops p pmmr_index1 max_count max_pmmr_pos1 =
     elements_loop (pmmr_get_data ops p) max_count
       (case max_pmmr_pos1 of Some s \<Rightarrow> s | None \<Rightarrow> pmmr_size p) (pmmr_index1 - 1) []"

function last_n_loop ::
    "(nat \<Rightarrow> 'h option) \<Rightarrow> (nat \<Rightarrow> 'e option) \<Rightarrow> nat \<Rightarrow> nat \<Rightarrow> ('h \<times> 'e) list \<Rightarrow> ('h \<times> 'e) list" where
  "last_n_loop ghash gdata n last_leaf return_vec =
     (if length return_vec < n \<and> 0 < last_leaf then
        (let last_leaf = bintree_rightmost (last_leaf - 1)
         in last_n_loop ghash gdata n last_leaf
              (case ghash last_leaf of
                 None \<Rightarrow> return_vec
               | Some hash \<Rightarrow>
                   (case gdata last_leaf of None \<Rightarrow> return_vec | Some data \<Rightarrow> return_vec @ [(hash, data)])))
      else return_vec)"
  by pat_completeness auto
termination
  by (relation "measure (\<lambda>(g, d, n, l, v). l)") (auto simp: bintree_rightmost_def)

declare elements_loop.simps [simp del] last_n_loop.simps [simp del]

definition get_last_n_insertions ::
    "('b, 't, 'e, 'h) backend_ops \<Rightarrow> 'b pmmr \<Rightarrow> nat \<Rightarrow> ('h \<times> 'e) list" where
  "get_last_n_insertions ops p n =
     last_n_loop (b_get_hash ops (pmmr_backend p)) (b_get_data ops (pmmr_backend p)) n (pmmr_size p) []"

section \<open>What the range stands for\<close>

text \<open>
  The contents of a range is the list \<open>xs\<close> of leaves pushed so far. \<open>node_hash\<close> is the hash of
  the node of height \<open>h\<close> whose rightmost leaf is \<open>n\<close>, by recursion on the perfect binary tree
  below it; \<open>mmr_hashes\<close> lays the hashes of all nodes out in postorder; \<open>mmr_root\<close> bags the
  peaks from right to left.
\<close>

primrec node_hash ::
    "('t \<Rightarrow> nat \<Rightarrow> 'h) \<Rightarrow> ('h \<times> 'h \<Rightarrow> nat \<Rightarrow> 'h) \<Rightarrow> 't list \<Rightarrow> nat \<Rightarrow> nat \<Rightarrow> 'h" where
  "node_hash hl hn xs n 0 = hl (xs ! n) (insertion_to_pmmr_index n)"
| "node_hash hl hn xs n (Suc h) =
     hn (node_hash hl hn xs (n - 2 ^ h) h, node_hash hl hn xs n h) (node_pos n (Suc h))"

definition mmr_hash ::
    "('t \<Rightarrow> nat \<Rightarrow> 'h) \<Rightarrow> ('h \<times> 'h \<Rightarrow> nat \<Rightarrow> 'h) \<Rightarrow> 't list \<Rightarrow> nat \<Rightarrow> 'h" where
  "mmr_hash hl hn xs pos = (let (n, h) = peak_map_height pos in node_hash hl hn xs n h)"

definition mmr_hashes ::
    "('t \<Rightarrow> nat \<Rightarrow> 'h) \<Rightarrow> ('h \<times> 'h \<Rightarrow> nat \<Rightarrow> 'h) \<Rightarrow> 't list \<Rightarrow> 'h list" where
  "mmr_hashes hl hn xs = map (mmr_hash hl hn xs) [0..<insertion_to_pmmr_index (length xs)]"

fun bag :: "('h \<times> 'h \<Rightarrow> nat \<Rightarrow> 'h) \<Rightarrow> nat \<Rightarrow> 'h list \<Rightarrow> 'h option" where
  "bag hn sz [] = None"
| "bag hn sz [x] = Some x"
| "bag hn sz (x # xs) = map_option (\<lambda>r. hn (x, r) sz) (bag hn sz xs)"

definition mmr_peaks ::
    "('t \<Rightarrow> nat \<Rightarrow> 'h) \<Rightarrow> ('h \<times> 'h \<Rightarrow> nat \<Rightarrow> 'h) \<Rightarrow> 't list \<Rightarrow> 'h list" where
  "mmr_peaks hl hn xs =
     map (\<lambda>m. node_hash hl hn xs (m - 1) (trailing_ones (m - 1))) (peak_leaves (length xs))"

definition mmr_root ::
    "'h \<Rightarrow> ('t \<Rightarrow> nat \<Rightarrow> 'h) \<Rightarrow> ('h \<times> 'h \<Rightarrow> nat \<Rightarrow> 'h) \<Rightarrow> 't list \<Rightarrow> 'h" where
  "mmr_root zero_hash hl hn xs =
     (case bag hn (insertion_to_pmmr_index (length xs)) (mmr_peaks hl hn xs) of
        None \<Rightarrow> zero_hash | Some r \<Rightarrow> r)"

lemma mmr_hash_node [simp]: "node_ok n h \<Longrightarrow> mmr_hash hl hn xs (node_pos n h) = node_hash hl hn xs n h"
  by (simp add: mmr_hash_def)

lemma mmr_hash_leaf [simp]:
  "mmr_hash hl hn xs (insertion_to_pmmr_index n) = hl (xs ! n) (insertion_to_pmmr_index n)"
  using mmr_hash_node [of n 0] by simp

lemma length_mmr_hashes [simp]: "length (mmr_hashes hl hn xs) = insertion_to_pmmr_index (length xs)"
  by (simp add: mmr_hashes_def)

lemma mmr_hashes_nth [simp]:
  "pos < insertion_to_pmmr_index (length xs) \<Longrightarrow> mmr_hashes hl hn xs ! pos = mmr_hash hl hn xs pos"
  by (simp add: mmr_hashes_def)

lemma node_hash_prefix: "n < length xs \<Longrightarrow> node_hash hl hn (xs @ ys) n h = node_hash hl hn xs n h"
  by (induction h arbitrary: n) (auto simp: nth_append)

lemma mmr_hash_prefix:
  assumes "pos < insertion_to_pmmr_index (length xs)"
  shows "mmr_hash hl hn (xs @ ys) pos = mmr_hash hl hn xs pos"
proof -
  obtain n h where "node_ok n h" "pos = node_pos n h" by (rule peak_map_heightE [of pos])
  with assms show ?thesis by (simp add: node_less_iff node_hash_prefix)
qed

lemma mmr_hashes_prefix:
  "mmr_hashes hl hn (xs @ ys) = mmr_hashes hl hn xs @
     map (mmr_hash hl hn (xs @ ys))
       [insertion_to_pmmr_index (length xs)..<insertion_to_pmmr_index (length xs + length ys)]"
proof -
  have "[0..<insertion_to_pmmr_index (length xs + length ys)] =
      [0..<insertion_to_pmmr_index (length xs)] @
      [insertion_to_pmmr_index (length xs)..<insertion_to_pmmr_index (length xs + length ys)]"
    using upt_add_eq_append [of 0 "insertion_to_pmmr_index (length xs)"
        "insertion_to_pmmr_index (length xs + length ys) - insertion_to_pmmr_index (length xs)"] by simp
  then show ?thesis by (simp add: mmr_hashes_def mmr_hash_prefix)
qed

lemma mmr_hashes_take:
  "n \<le> length xs \<Longrightarrow>
     take (insertion_to_pmmr_index n) (mmr_hashes hl hn xs) = mmr_hashes hl hn (take n xs)"
  using mmr_hashes_prefix [of hl hn "take n xs" "drop n xs"] by simp

lemma mmr_hashes_snoc:
  "mmr_hashes hl hn (xs @ [x]) = mmr_hashes hl hn xs @
     map (node_hash hl hn (xs @ [x]) (length xs)) [0..<Suc (trailing_ones (length xs))]"
proof -
  let ?n = "length xs"
  have "map (mmr_hash hl hn (xs @ [x])) [insertion_to_pmmr_index ?n..<insertion_to_pmmr_index (Suc ?n)] =
      map (node_hash hl hn (xs @ [x]) ?n) [0..<Suc (trailing_ones ?n)]"
  proof (rule nth_equalityI)
    fix i
    assume "i < length (map (mmr_hash hl hn (xs @ [x])) [insertion_to_pmmr_index ?n..<insertion_to_pmmr_index (Suc ?n)])"
    then have "i \<le> trailing_ones ?n" by (simp add: insertion_Suc)
    then show "map (mmr_hash hl hn (xs @ [x])) [insertion_to_pmmr_index ?n..<insertion_to_pmmr_index (Suc ?n)] ! i =
        map (node_hash hl hn (xs @ [x]) ?n) [0..<Suc (trailing_ones ?n)] ! i"
      by (simp add: insertion_Suc node_ok_iff_trailing del: upt_Suc)
  qed (simp add: insertion_Suc)
  then show ?thesis using mmr_hashes_prefix [of hl hn xs "[x]"] by simp
qed

lemma map_mmr_hash_peaks:
  "map (mmr_hash hl hn xs) (peaks (insertion_to_pmmr_index (length xs))) = mmr_peaks hl hn xs"
proof -
  have "mmr_hash hl hn xs (insertion_to_pmmr_index m - 1) = node_hash hl hn xs (m - 1) (trailing_ones (m - 1))"
    if "0 < m" for m
    using insertion_pred [OF that] by (simp add: node_ok_iff_trailing)
  then show ?thesis by (auto simp: peaks_insertion mmr_peaks_def set_peak_leaves)
qed

lemma bag_loop_snoc:
  "bag_loop hn sz res (xs @ [x]) =
     (case bag_loop hn sz res xs of None \<Rightarrow> Some x | Some r \<Rightarrow> Some (hn (x, r) sz))"
  by (induction xs arbitrary: res) auto

lemma bag_loop_rev: "bag_loop hn sz None (rev xs) = bag hn sz xs"
proof (induction xs)
  case (Cons x xs)
  have "bag hn sz xs \<noteq> None" if "xs \<noteq> []"
    using that by (induction hn sz xs rule: bag.induct) auto
  moreover have "bag_loop hn sz None (rev (x # xs)) =
      (case bag hn sz xs of None \<Rightarrow> Some x | Some r \<Rightarrow> Some (hn (x, r) sz))"
    by (simp add: bag_loop_snoc Cons)
  ultimately show ?case by (cases xs) (auto split: option.splits)
qed simp

lemma peaks_eq_Nil_iff: "peaks (insertion_to_pmmr_index n) = [] \<longleftrightarrow> n = 0"
  by (auto simp: peaks_insertion peak_leaves.simps [of n])

lemma peaks_less: "pos \<in> set (peaks (insertion_to_pmmr_index n)) \<Longrightarrow> pos < insertion_to_pmmr_index n"
  by (simp add: set_peaks_insertion)

lemma insertion_eq_0_iff [simp]: "insertion_to_pmmr_index n = 0 \<longleftrightarrow> n = 0"
  using insertion_eq_iff [of n 0] by simp

lemma bag_eq_None_iff: "bag hn sz xs = None \<longleftrightarrow> xs = []"
  by (induction hn sz xs rule: bag.induct) auto

lemma peak_leaves_eq_Nil_iff: "peak_leaves n = [] \<longleftrightarrow> n = 0"
  by (auto simp: peak_leaves.simps [of n])

lemma validate_from_ok_iff: "validate_from hn r ns = Inr () \<longleftrightarrow> (\<forall>n \<in> set ns. validate_at hn r n)"
  by (induction ns) auto

section \<open>Ranges over any backend\<close>

text \<open>
  What the range relies on: \<open>rep b hs\<close> says that backend \<open>b\<close> stores a range whose node hashes,
  in postorder, are \<open>hs\<close>. A backend may have pruned some of them, but it answers for peaks, what
  it answers is right, appending extends the hashes, rewinding to a leaf position cuts them off,
  and removing a leaf hides that leaf alone.
\<close>

locale mmr_backend =
  fixes ops :: "('b, 't, 'e, 'h) backend_ops"
    and rep :: "'b \<Rightarrow> 'h list \<Rightarrow> bool"
  assumes get_peak: "\<And>b hs pos. rep b hs \<Longrightarrow> pos \<in> set (peaks (length hs)) \<Longrightarrow>
      b_get_peak_from_file ops b pos = Some (hs ! pos)"
    and get_file: "\<And>b hs pos h. rep b hs \<Longrightarrow> b_get_from_file ops b pos = Some h \<Longrightarrow>
      pos < length hs \<and> h = hs ! pos"
    and get_leaf: "\<And>b hs pos h. rep b hs \<Longrightarrow> b_get_hash ops b pos = Some h \<Longrightarrow>
      pos < length hs \<and> h = hs ! pos"
    and append: "\<And>b hs x new. rep b hs \<Longrightarrow>
      \<exists>b'. b_append ops b x new = Inr b' \<and> rep b' (hs @ new)"
    and rewind_to: "\<And>b hs pos rm. rep b hs \<Longrightarrow> is_leaf pos \<Longrightarrow> pos \<le> length hs \<Longrightarrow>
      \<exists>b'. b_rewind ops b pos rm = Inr b' \<and> rep b' (take pos hs)"
    and remove: "\<And>b hs pos h. rep b hs \<Longrightarrow> b_get_hash ops b pos = Some h \<Longrightarrow>
      \<exists>b'. b_remove ops b pos = Inr b' \<and> rep b' hs \<and>
        b_get_hash ops b' = (b_get_hash ops b)(pos := None)"

text \<open>A range of the given leaves.\<close>

definition mmr_state ::
    "('b \<Rightarrow> 'h list \<Rightarrow> bool) \<Rightarrow> ('t \<Rightarrow> nat \<Rightarrow> 'h) \<Rightarrow> ('h \<times> 'h \<Rightarrow> nat \<Rightarrow> 'h) \<Rightarrow> 'b pmmr \<Rightarrow> 't list \<Rightarrow> bool" where
  "mmr_state rep hl hn p xs \<longleftrightarrow>
     rep (pmmr_backend p) (mmr_hashes hl hn xs) \<and> pmmr_size p = insertion_to_pmmr_index (length xs)"

text \<open>The peaks the new leaf is hashed with, one height after the other.\<close>

lemma push_loop_correct:
  assumes peak: "\<And>pos. pos \<in> set (peaks (insertion_to_pmmr_index n)) \<Longrightarrow>
      get_peak pos = Some (mmr_hash hl hn (xs @ [x]) pos)"
    and "k \<le> trailing_ones n"
  shows "push_loop hn get_peak n k (node_pos n k) (node_hash hl hn (xs @ [x]) n k) hashes =
    Inr (hashes @ map (node_hash hl hn (xs @ [x]) n) [Suc k..<Suc (trailing_ones n)],
         node_pos n (trailing_ones n))"
  using assms(2)
proof (induction "trailing_ones n - k" arbitrary: k hashes)
  case 0
  then have k: "k = trailing_ones n" by simp
  then have "\<not> bit n k"
    using node_ok_Suc_iff [of n k] by (simp add: node_ok_iff_trailing)
  then show ?case using k by (subst push_loop.simps) simp
next
  case (Suc d)
  then have ok: "node_ok n (Suc k)" by (simp add: node_ok_iff_trailing)
  have okk: "node_ok n k" using Suc.prems by (simp add: node_ok_iff_trailing)
  have b: "bit n k" and okl: "node_ok (n - 2 ^ k) k" using node_ok_left_child [OF ok] by auto
  have le: "2 ^ k \<le> n" "0 < (2 :: nat) ^ k" using count_ones_clear_bit [OF b] by simp_all
  then have "n - 2 ^ k < n" by linarith
  have left: "node_pos n k + 1 - 2 * 2 ^ k = node_pos (n - 2 ^ k) k"
    using node_pos_left_child [OF ok] by simp
  have "node_pos (n - 2 ^ k) k \<in> set (peaks (insertion_to_pmmr_index n))"
    using okl le \<open>n - 2 ^ k < n\<close> bit_clear_sub [OF b] by (simp add: set_peaks_node)
  with peak have "get_peak (node_pos n k + 1 - 2 * 2 ^ k) = Some (node_hash hl hn (xs @ [x]) (n - 2 ^ k) k)"
    using okl by (simp only: left mmr_hash_node)
  moreover have "push_loop hn get_peak n (Suc k) (node_pos n (Suc k)) (node_hash hl hn (xs @ [x]) n (Suc k))
        (hashes @ [node_hash hl hn (xs @ [x]) n (Suc k)]) =
      Inr ((hashes @ [node_hash hl hn (xs @ [x]) n (Suc k)]) @
          map (node_hash hl hn (xs @ [x]) n) [Suc (Suc k)..<Suc (trailing_ones n)],
        node_pos n (trailing_ones n))"
    using Suc.hyps(2) Suc.prems by (intro Suc.hyps(1)) auto
  moreover have "[Suc k..<Suc (trailing_ones n)] = Suc k # [Suc (Suc k)..<Suc (trailing_ones n)]"
    using Suc.hyps(2) by (intro upt_conv_Cons) simp
  ultimately show ?case using b by (subst push_loop.simps) (simp del: upt_Suc)
qed

text \<open>
  Histories of a range. The abstract effect of an operation is on the list of leaves: \<open>prune\<close>
  has none, \<open>rewind\<close> keeps the leaves before the position it is given.
\<close>

datatype 't mmr_op = Push 't | Prune nat | Rewind nat "nat set"

fun run_ops ::
    "('t \<Rightarrow> nat \<Rightarrow> 'h) \<Rightarrow> ('h \<times> 'h \<Rightarrow> nat \<Rightarrow> 'h) \<Rightarrow> ('b, 't, 'e, 'h) backend_ops \<Rightarrow>
     't mmr_op list \<Rightarrow> 'b pmmr \<Rightarrow> pmmr_error + 'b pmmr" where
  "run_ops hl hn ops [] p = Inr p"
| "run_ops hl hn ops (Push x # os) p =
     rbind (push hl hn ops p x) (\<lambda>(_, p). run_ops hl hn ops os p)"
| "run_ops hl hn ops (Prune pos # os) p =
     rbind (prune ops p pos) (\<lambda>(_, p). run_ops hl hn ops os p)"
| "run_ops hl hn ops (Rewind pos rm # os) p =
     rbind (rewind ops p pos rm) (run_ops hl hn ops os)"

fun leaves_after :: "'t mmr_op list \<Rightarrow> 't list \<Rightarrow> 't list option" where
  "leaves_after [] xs = Some xs"
| "leaves_after (Push x # os) xs = leaves_after os (xs @ [x])"
| "leaves_after (Prune pos # os) xs = (if is_leaf pos then leaves_after os xs else None)"
| "leaves_after (Rewind pos rm # os) xs =
     (if pos \<le> insertion_to_pmmr_index (length xs)
      then leaves_after os (take (n_leaves pos) xs) else None)"

context mmr_backend
begin

lemma peak_hash:
  assumes "mmr_state rep hl hn p xs" and "pos \<in> set (peaks (pmmr_size p))"
  shows "b_get_peak_from_file ops (pmmr_backend p) pos = Some (mmr_hash hl hn xs pos)"
    and "pos < pmmr_size p"
  using assms get_peak [of "pmmr_backend p" "mmr_hashes hl hn xs" pos] peaks_less
  by (auto simp: mmr_state_def)

lemma push_correct:
  assumes "mmr_state rep hl hn p xs"
  obtains p' where "push hl hn ops p x = Inr (insertion_to_pmmr_index (length xs), p')"
    and "mmr_state rep hl hn p' (xs @ [x])"
proof -
  let ?n = "length xs"
  have sz: "pmmr_size p = insertion_to_pmmr_index ?n" using assms by (simp add: mmr_state_def)
  have pm: "peak_map_height (insertion_to_pmmr_index ?n) = (?n, 0)"
    using peak_map_height_node [of ?n 0] by simp
  have peak: "b_get_peak_from_file ops (pmmr_backend p) pos = Some (mmr_hash hl hn (xs @ [x]) pos)"
    if "pos \<in> set (peaks (insertion_to_pmmr_index ?n))" for pos
    using peak_hash [OF assms] that peaks_less [OF that] by (simp add: sz mmr_hash_prefix)
  let ?new = "map (node_hash hl hn (xs @ [x]) ?n) [0..<Suc (trailing_ones ?n)]"
  have new: "?new = hl x (insertion_to_pmmr_index ?n) # map (node_hash hl hn (xs @ [x]) ?n) [Suc 0..<Suc (trailing_ones ?n)]"
    using upt_conv_Cons [of 0 "Suc (trailing_ones ?n)"] by (simp del: upt_Suc)
  from push_loop_correct [where get_peak = "b_get_peak_from_file ops (pmmr_backend p)"
      and n = ?n and k = 0, OF peak, of "[hl x (insertion_to_pmmr_index ?n)]"]
  have loop: "push_loop hn (b_get_peak_from_file ops (pmmr_backend p)) ?n 0 (insertion_to_pmmr_index ?n)
      (hl x (insertion_to_pmmr_index ?n)) [hl x (insertion_to_pmmr_index ?n)] =
      Inr (?new, node_pos ?n (trailing_ones ?n))"
    unfolding new by (simp del: upt_Suc)
  obtain b' where b': "b_append ops (pmmr_backend p) x ?new = Inr b'"
      "rep b' (mmr_hashes hl hn xs @ ?new)"
    using append [of "pmmr_backend p" "mmr_hashes hl hn xs" x ?new] assms by (auto simp: mmr_state_def)
  let ?p = "p \<lparr> pmmr_size := node_pos ?n (trailing_ones ?n) + 1, pmmr_backend := b' \<rparr>"
  have "push hl hn ops p x = Inr (insertion_to_pmmr_index ?n, ?p)"
    using b'(1) loop pm by (simp add: push_def sz Let_def del: upt_Suc)
  moreover have "mmr_state rep hl hn ?p (xs @ [x])"
    using b'(2) by (simp add: mmr_state_def mmr_hashes_snoc insertion_Suc del: upt_Suc)
  ultimately show thesis by (rule that)
qed

lemma root_correct:
  assumes "mmr_state rep hl hn p xs"
  shows "root zero_hash hn (pmmr_readable ops p) = Inr (mmr_root zero_hash hl hn xs)"
proof -
  have sz: "pmmr_size p = insertion_to_pmmr_index (length xs)" using assms by (simp add: mmr_state_def)
  have "List.map_filter (pmmr_get_peak_from_file ops p) (peaks (pmmr_size p)) =
      map (mmr_hash hl hn xs) (peaks (pmmr_size p))"
    using peak_hash [OF assms]
    by (intro map_filter_all) (simp add: pmmr_get_peak_from_file_def not_le)
  then have "readable_peaks (pmmr_readable ops p) = mmr_peaks hl hn xs"
    by (simp add: readable_peaks_def pmmr_readable_def sz map_mmr_hash_peaks)
  moreover have "bag hn (pmmr_size p) (mmr_peaks hl hn xs) \<noteq> None" if "xs \<noteq> []"
    using that by (simp add: bag_eq_None_iff mmr_peaks_def peak_leaves_eq_Nil_iff)
  moreover have "unpruned_size (pmmr_readable ops p) = pmmr_size p" by (simp add: pmmr_readable_def)
  moreover have "mmr_peaks hl hn [] = []" by (simp add: mmr_peaks_def)
  ultimately show ?thesis
    by (cases "xs = []") (auto simp: root_def is_empty_def bag_loop_rev mmr_root_def sz)
qed

lemma rewind_correct:
  assumes "mmr_state rep hl hn p xs" and "position \<le> pmmr_size p"
  obtains p' where "rewind ops p position rm = Inr p'"
    and "mmr_state rep hl hn p' (take (n_leaves position) xs)"
proof -
  have sz: "pmmr_size p = insertion_to_pmmr_index (length xs)" using assms by (simp add: mmr_state_def)
  then have n: "n_leaves position \<le> length xs" using assms(2) by (simp add: n_leaves_le_iff)
  have r: "round_up_to_leaf_pos position = insertion_to_pmmr_index (n_leaves position)"
    by (simp add: round_up_to_leaf_pos_def n_leaves_def Let_def split: prod.split)
  obtain b' where "b_rewind ops (pmmr_backend p) (insertion_to_pmmr_index (n_leaves position)) rm = Inr b'"
      "rep b' (take (insertion_to_pmmr_index (n_leaves position)) (mmr_hashes hl hn xs))"
    using rewind_to [of "pmmr_backend p" "mmr_hashes hl hn xs" "insertion_to_pmmr_index (n_leaves position)" rm]
      assms(1) n by (auto simp: mmr_state_def)
  then show thesis
    using that n by (simp add: rewind_def r mmr_state_def mmr_hashes_take)
qed

lemma prune_correct:
  assumes "mmr_state rep hl hn p xs" and "is_leaf pos"
  obtains p' where
      "prune ops p pos = Inr (b_get_hash ops (pmmr_backend p) pos \<noteq> None, p')"
    and "mmr_state rep hl hn p' xs"
    and "b_get_hash ops (pmmr_backend p') = (b_get_hash ops (pmmr_backend p))(pos := None)"
proof (cases "b_get_hash ops (pmmr_backend p) pos")
  case None
  then show thesis using assms that [of p] by (simp add: prune_def fun_upd_idem)
next
  case (Some h)
  then obtain b' where "b_remove ops (pmmr_backend p) pos = Inr b'" "rep b' (mmr_hashes hl hn xs)"
      "b_get_hash ops b' = (b_get_hash ops (pmmr_backend p))(pos := None)"
    using remove [of "pmmr_backend p" "mmr_hashes hl hn xs" pos h] assms by (auto simp: mmr_state_def)
  then show thesis
    using assms Some that [of "p \<lparr> pmmr_backend := b' \<rparr>"] by (auto simp: prune_def mmr_state_def)
qed

lemma validate_correct:
  assumes "mmr_state rep hl hn p xs"
  shows "validate hn ops p = Inr ()"
proof -
  have sz: "pmmr_size p = insertion_to_pmmr_index (length xs)"
    and rep: "rep (pmmr_backend p) (mmr_hashes hl hn xs)" using assms by (auto simp: mmr_state_def)
  have "validate_at hn (pmmr_readable ops p) pos" if "pos < pmmr_size p" for pos
  proof -
    have fl: "b_get_from_file ops (pmmr_backend p) q = Some h \<Longrightarrow> h = mmr_hash hl hn xs q"
      if "q < pmmr_size p" for q h
      using get_file [OF rep, of q h] that by (simp add: sz)
    obtain n h where n: "node_ok n h" "pos = node_pos n h" by (rule peak_map_heightE [of pos])
    show ?thesis
    proof (cases h)
      case (Suc k)
      have ok: "node_ok n (Suc k)" using n Suc by simp
      have okk: "node_ok n k" using node_ok_mono [OF ok] by simp
      have l: "node_ok (n - 2 ^ k) k" using node_ok_left_child [OF ok] by simp
      have nl: "\<not> is_leaf pos" using is_leaf_node [OF n(1)] n(2) Suc by simp
      have left: "pos - 2 ^ h = node_pos (n - 2 ^ k) k"
        using node_pos_left_child [OF ok] n Suc by simp
      have right: "pos - 1 = node_pos n k" using n Suc by simp
      have hh: "bintree_postorder_height pos = h" using n by simp
      have "mmr_hash hl hn xs pos = hn (mmr_hash hl hn xs (pos - 2 ^ h), mmr_hash hl hn xs (pos - 1)) pos"
        unfolding left right using okk l ok n(2) Suc mmr_hash_node [OF ok, of hl hn xs]
        by (simp only: mmr_hash_node node_hash.simps)
      moreover have "pos - 2 ^ h < pmmr_size p" "pos - 1 < pmmr_size p" using that by auto
      ultimately show ?thesis
        using fl [of pos] fl [of "pos - 2 ^ h"] fl [of "pos - 1"] that nl
        by (auto simp: validate_at_def hh pmmr_readable_def pmmr_get_hash_def pmmr_get_from_file_def
            Let_def split: option.splits)
    qed (use n height_node [OF n(1)] in \<open>simp add: validate_at_def Let_def\<close>)
  qed
  then show ?thesis by (simp add: validate_def validate_from_ok_iff)
qed

lemma run_ops_correct:
  assumes "mmr_state rep hl hn p xs" and "leaves_after os xs = Some ys"
  shows "\<exists>p'. run_ops hl hn ops os p = Inr p' \<and> mmr_state rep hl hn p' ys"
  using assms
proof (induction os arbitrary: p xs)
  case (Cons a os)
  show ?case
  proof (cases a)
    case (Push x)
    obtain p' where "push hl hn ops p x = Inr (insertion_to_pmmr_index (length xs), p')"
        "mmr_state rep hl hn p' (xs @ [x])"
      using push_correct [OF Cons.prems(1)] .
    then show ?thesis using Cons.IH [of p' "xs @ [x]"] Cons.prems(2) Push by simp
  next
    case (Prune pos)
    with Cons.prems(2) have leaf: "is_leaf pos" by (simp split: if_splits)
    obtain p' where "prune ops p pos = Inr (b_get_hash ops (pmmr_backend p) pos \<noteq> None, p')"
        "mmr_state rep hl hn p' xs"
      using prune_correct [OF Cons.prems(1) leaf] by metis
    then show ?thesis using Cons.IH [of p' xs] Cons.prems(2) Prune leaf by simp
  next
    case (Rewind pos rm)
    with Cons.prems(2) have le: "pos \<le> insertion_to_pmmr_index (length xs)" by (simp split: if_splits)
    then have "pos \<le> pmmr_size p" using Cons.prems(1) by (simp add: mmr_state_def)
    then obtain p' where "rewind ops p pos rm = Inr p'" "mmr_state rep hl hn p' (take (n_leaves pos) xs)"
      using rewind_correct [OF Cons.prems(1)] by metis
    then show ?thesis using Cons.IH [of p' "take (n_leaves pos) xs"] Cons.prems(2) Rewind le by simp
  qed
qed simp

end

section \<open>The in-memory backend keeps the contract\<close>

definition vec_rep :: "('t, 'h) vec_backend \<Rightarrow> 'h list \<Rightarrow> bool" where
  "vec_rep b hs \<longleftrightarrow> vb_hashes b = hs"

lemma vec_ops_simps [simp]:
  "b_append (vec_ops e) = vec_append" "b_rewind (vec_ops e) = vec_rewind"
  "b_get_hash (vec_ops e) = vec_get_hash" "b_get_data (vec_ops e) = vec_get_data e"
  "b_get_from_file (vec_ops e) = vec_get_from_file"
  "b_get_peak_from_file (vec_ops e) = vec_get_peak_from_file"
  "b_get_data_from_file (vec_ops e) = vec_get_data_from_file e" "b_remove (vec_ops e) = vec_remove"
  by (simp_all add: vec_ops_def)

lemma nth_opt_Some_iff [simp]: "nth_opt xs i = Some x \<longleftrightarrow> i < length xs \<and> xs ! i = x"
  by (auto simp: nth_opt_def)

lemma peaks_less_size: "pos \<in> set (peaks sz) \<Longrightarrow> pos < sz"
proof (rule peak_map_heightE [of sz])
  fix n h
  assume "node_ok n h" "sz = node_pos n h" "peak_map_height sz = (n, h)" "pos \<in> set (peaks sz)"
  then show "pos < sz" using peaks_less [of pos n] peaks_not_size [of sz n h] by (cases "h = 0") auto
qed

lemma vec_get_hash_remove: "vec_get_hash (b \<lparr> vb_removed := insert pos (vb_removed b) \<rparr>) = (vec_get_hash b)(pos := None)"
  by (rule ext) (simp add: vec_get_hash_def vec_get_from_file_def)

interpretation vec: mmr_backend "vec_ops as_elmt" vec_rep for as_elmt
  by unfold_locales
    (auto simp: vec_rep_def vec_append_def vec_rewind_def vec_remove_def vec_get_peak_from_file_def
      vec_get_from_file_def vec_get_hash_remove peaks_less_size,
     auto simp: vec_get_hash_def vec_get_from_file_def split: if_splits)

lemma vec_new_state: "mmr_state vec_rep hl hn (pmmr_new vec_new) []"
  by (simp add: mmr_state_def vec_rep_def pmmr_new_def vec_new_def mmr_hashes_def)

lemma vec_push_data:
  assumes "push hl hn (vec_ops e) p x = Inr (l, p')"
  shows "vb_data (pmmr_backend p') = map_option (\<lambda>d. d @ [x]) (vb_data (pmmr_backend p)) \<and>
    vb_removed (pmmr_backend p') = vb_removed (pmmr_backend p)"
  using assms
  by (auto simp: push_def Let_def rbind_Inr_iff vec_append_def split: prod.splits if_splits)

lemma run_ops_append:
  "run_ops hl hn ops (os @ os') p = rbind (run_ops hl hn ops os p) (run_ops hl hn ops os')"
proof (induction os arbitrary: p)
  case (Cons a os)
  show ?case
  proof (cases a)
    case (Push x)
    then show ?thesis using Cons by (cases "push hl hn ops p x") (auto split: prod.split)
  next
    case (Prune pos)
    then show ?thesis using Cons by (cases "prune ops p pos") (auto split: prod.split)
  next
    case (Rewind pos rm)
    then show ?thesis using Cons by (cases "rewind ops p pos rm") auto
  qed
qed simp

lemma vec_pushes:
  "run_ops hl hn (vec_ops e) (map Push xs) (pmmr_new vec_new) =
     Inr (pmmr_at \<lparr> vb_data = Some xs, vb_hashes = mmr_hashes hl hn xs, vb_removed = {} \<rparr>
       (insertion_to_pmmr_index (length xs)))"
proof (induction xs rule: rev_induct)
  case Nil
  show ?case by (simp add: pmmr_new_def pmmr_at_def vec_new_def mmr_hashes_def)
next
  case (snoc x xs)
  let ?b = "\<lparr> vb_data = Some xs, vb_hashes = mmr_hashes hl hn xs, vb_removed = {} \<rparr>"
  let ?p = "pmmr_at ?b (insertion_to_pmmr_index (length xs))"
  have "mmr_state vec_rep hl hn ?p xs" by (simp add: mmr_state_def vec_rep_def pmmr_at_def)
  from vec.push_correct [where x = x and as_elmt = e, OF this] obtain p' where
    p': "push hl hn (vec_ops e) ?p x = Inr (insertion_to_pmmr_index (length xs), p')"
    "mmr_state vec_rep hl hn p' (xs @ [x])" .
  have "p' = pmmr_at \<lparr> vb_data = Some (xs @ [x]), vb_hashes = mmr_hashes hl hn (xs @ [x]), vb_removed = {} \<rparr>
      (insertion_to_pmmr_index (length (xs @ [x])))"
    using vec_push_data [OF p'(1)] p'(2)
    by (auto simp: mmr_state_def vec_rep_def pmmr_at_def intro!: pmmr.equality vec_backend.equality)
  then show ?case using p'(1) snoc by (simp add: run_ops_append)
qed

lemma n_leaves_Suc_insertion: "n_leaves (Suc (insertion_to_pmmr_index i)) = Suc i"
proof -
  have "n_leaves (Suc (insertion_to_pmmr_index i)) \<le> Suc i"
    by (simp add: n_leaves_le_iff insertion_Suc)
  moreover have "\<not> n_leaves (Suc (insertion_to_pmmr_index i)) \<le> i" by (simp add: n_leaves_le_iff)
  ultimately show ?thesis by simp
qed

lemma validate_from_sound:
  assumes ok: "validate hn (vec_ops e) (pmmr_at b (insertion_to_pmmr_index (length xs))) = Inr ()"
    and len: "length (vb_hashes b) = insertion_to_pmmr_index (length xs)"
    and leaves: "\<And>i. i < length xs \<Longrightarrow>
      vb_hashes b ! insertion_to_pmmr_index i = hl (xs ! i) (insertion_to_pmmr_index i)"
    and "node_ok n h" and "n < length xs"
  shows "vb_hashes b ! node_pos n h = node_hash hl hn xs n h"
  using assms(4,5)
proof (induction h arbitrary: n)
  case 0
  then show ?case by (simp add: leaves)
next
  case (Suc h)
  let ?pos = "node_pos n (Suc h)" and ?r = "pmmr_readable (vec_ops e) (pmmr_at b (insertion_to_pmmr_index (length xs)))"
  have l: "node_ok (n - 2 ^ h) h" using node_ok_left_child [OF Suc.prems(1)] by simp
  have okh: "node_ok n h" using node_ok_mono [OF Suc.prems(1)] by simp
  have lt: "?pos < insertion_to_pmmr_index (length xs)"
    using node_less_iff [OF Suc.prems(1)] Suc.prems(2) by blast
  have hh: "bintree_postorder_height ?pos = Suc h" by (rule height_node [OF Suc.prems(1)])
  have left: "?pos - 2 ^ Suc h = node_pos (n - 2 ^ h) h"
    using node_pos_left_child [OF Suc.prems(1)] by simp
  have "validate_at hn ?r ?pos"
    using ok lt by (simp add: validate_def validate_from_ok_iff pmmr_at_def)
  moreover have "\<not> is_leaf ?pos" using is_leaf_node [OF Suc.prems(1)] by simp
  moreover have "get_from_file ?r q = Some (vb_hashes b ! q)" if "q < insertion_to_pmmr_index (length xs)" for q
    using that len by (simp add: pmmr_readable_def pmmr_get_from_file_def pmmr_at_def vec_get_from_file_def)
  ultimately have "vb_hashes b ! ?pos = hn (vb_hashes b ! (?pos - 2 ^ Suc h), vb_hashes b ! (?pos - 1)) ?pos"
    using lt hh len by (simp add: validate_at_def Let_def pmmr_readable_def pmmr_get_hash_def
        vec_get_from_file_def nth_opt_def pmmr_at_def split: if_splits)
  then show ?case
    using Suc.IH [OF l] Suc.IH [OF okh] Suc.prems(2) by (simp add: left [simplified])
qed

section \<open>Properties\<close>

text \<open>C1: every history of pushes, prunes and rewinds on a fresh in-memory range whose prunes are
  on leaf positions and whose rewinds are within the range succeeds, and ends in a range that
  stores the node hashes of the leaves the history leaves behind, passes its own validation and
  has the root that the recursive definition gives those leaves.\<close>

theorem vec_mmr_refines:
  assumes "leaves_after os [] = Some xs"
  shows "\<exists>p. run_ops hl hn (vec_ops as_elmt) os (pmmr_new vec_new) = Inr p \<and>
    vb_hashes (pmmr_backend p) = mmr_hashes hl hn xs \<and>
    pmmr_size p = insertion_to_pmmr_index (length xs) \<and>
    root zero_hash hn (pmmr_readable (vec_ops as_elmt) p) = Inr (mmr_root zero_hash hl hn xs) \<and>
    validate hn (vec_ops as_elmt) p = Inr ()"
proof -
  obtain p where "run_ops hl hn (vec_ops as_elmt) os (pmmr_new vec_new) = Inr p"
      and "mmr_state vec_rep hl hn p xs"
    using vec.run_ops_correct [OF vec_new_state assms] by blast
  then show ?thesis
    using vec.root_correct [of hl hn p xs zero_hash as_elmt] vec.validate_correct [of hl hn p xs as_elmt]
    by (auto simp: mmr_state_def vec_rep_def)
qed

lemma vec_mmr_refines_witness:
  "\<exists>p. run_ops (\<lambda>x i. x + i) (\<lambda>(l, r) i. 3 * l + 5 * r + i) (vec_ops id)
        [Push 10, Push 20, Push 30, Prune 1, Rewind 1 {}, Push (40 :: nat)] (pmmr_new vec_new) = Inr p \<and>
    root 0 (\<lambda>(l, r) i. 3 * l + 5 * r + i) (pmmr_readable (vec_ops id) p) = Inr (237 :: nat)"
proof -
  have "leaves_after [Push 10, Push 20, Push 30, Prune 1, Rewind 1 {}, Push 40] [] = Some [10 :: nat, 40]"
    by code_simp
  moreover have "mmr_root 0 (\<lambda>x i. x + i) (\<lambda>(l, r) i. 3 * l + 5 * r + i) [10, 40] = (237 :: nat)"
    by code_simp
  ultimately show ?thesis
    using vec_mmr_refines [of "[Push 10, Push 20, Push 30, Prune 1, Rewind 1 {}, Push 40]" "[10, 40]"
        "\<lambda>x i. x + i" "\<lambda>(l, r) i. 3 * l + 5 * r + i" id 0] by auto
qed

text \<open>after pushing a list of elements onto a fresh in-memory range, \<open>get_data\<close> answers at the
  position of the i-th leaf the i-th element and nothing at every other position, and \<open>get_hash\<close>
  answers the node hash at every position of the range and nothing beyond it.\<close>

theorem vec_pushes_read_back:
  "\<exists>p. run_ops hl hn (vec_ops as_elmt) (map Push xs) (pmmr_new vec_new) = Inr p \<and>
     pmmr_get_data (vec_ops as_elmt) p =
       (\<lambda>pos. Option.bind (pmmr_leaf_to_insertion_index pos) (\<lambda>i. map_option as_elmt (nth_opt xs i))) \<and>
     pmmr_get_hash (vec_ops as_elmt) p = nth_opt (mmr_hashes hl hn xs)"
proof -
  let ?p = "pmmr_at \<lparr> vb_data = Some xs, vb_hashes = mmr_hashes hl hn xs, vb_removed = {} \<rparr>
      (insertion_to_pmmr_index (length xs))"
  have "pmmr_get_data (vec_ops as_elmt) ?p pos =
      Option.bind (pmmr_leaf_to_insertion_index pos) (\<lambda>i. map_option as_elmt (nth_opt xs i))" for pos
  proof -
    obtain n h where n: "node_ok n h" "pos = node_pos n h" by (rule peak_map_heightE [of pos])
    show ?thesis
    proof (cases "h = 0")
      case True
      then show ?thesis
        using n by (simp add: pmmr_get_data_def pmmr_at_def vec_get_data_def vec_get_data_from_file_def
            n_leaves_Suc_insertion nth_opt_def)
    next
      case False
      then show ?thesis
        using n by (simp add: pmmr_get_data_def pmmr_leaf_to_insertion_index_def)
    qed
  qed
  moreover have "pmmr_get_hash (vec_ops as_elmt) ?p pos = nth_opt (mmr_hashes hl hn xs) pos" for pos
    by (auto simp: pmmr_get_hash_def pmmr_at_def vec_get_hash_def vec_get_from_file_def nth_opt_def)
  ultimately show ?thesis using vec_pushes [of hl hn as_elmt xs] by blast
qed

text \<open>C9: validation is complete: an in-memory range of the right size that passes \<open>validate\<close> and
  has the hashes of the given elements at its leaf positions stores the right hash at every
  position.\<close>

theorem validate_sound:
  assumes "validate hn (vec_ops as_elmt) (pmmr_at b (insertion_to_pmmr_index (length xs))) = Inr ()"
    and "length (vb_hashes b) = insertion_to_pmmr_index (length xs)"
    and "\<And>i. i < length xs \<Longrightarrow>
      vb_hashes b ! insertion_to_pmmr_index i = hl (xs ! i) (insertion_to_pmmr_index i)"
  shows "vb_hashes b = mmr_hashes hl hn xs"
proof (rule nth_equalityI)
  fix pos
  assume "pos < length (vb_hashes b)"
  then have lt: "pos < insertion_to_pmmr_index (length xs)" by (simp add: assms(2))
  obtain n h where n: "node_ok n h" "pos = node_pos n h" by (rule peak_map_heightE [of pos])
  with lt have "n < length xs" using node_less_iff by blast
  from validate_from_sound [OF assms n(1) this] show "vb_hashes b ! pos = mmr_hashes hl hn xs ! pos"
    using n lt by simp
qed (simp add: assms(2))

lemma validate_sound_witness:
  "vb_hashes \<lparr> vb_data = None :: nat list option, vb_hashes = [10, 41, 237], vb_removed = {} \<rparr> =
     mmr_hashes (\<lambda>x i. x + i) (\<lambda>(l, r) i. 3 * l + 5 * r + i) [10 :: nat, 40]"
proof (rule validate_sound [where as_elmt = id])
  show "validate (\<lambda>(l, r) i. 3 * l + 5 * r + i) (vec_ops id)
      (pmmr_at \<lparr> vb_data = None, vb_hashes = [10, 41, 237 :: nat], vb_removed = {} \<rparr>
        (insertion_to_pmmr_index (length [10 :: nat, 40]))) = Inr ()"
    by code_simp
next
  show "length (vb_hashes \<lparr> vb_data = None :: nat list option, vb_hashes = [10, 41, 237 :: nat], vb_removed = {} \<rparr>) =
      insertion_to_pmmr_index (length [10 :: nat, 40])"
    by code_simp
next
  fix i
  assume "i < length [10 :: nat, 40]"
  then consider "i = 0" | "i = 1" by (auto simp: less_Suc_eq)
  then show "vb_hashes \<lparr> vb_data = None :: nat list option, vb_hashes = [10, 41, 237 :: nat], vb_removed = {} \<rparr> !
      insertion_to_pmmr_index i = [10, 40] ! i + insertion_to_pmmr_index i"
    using insertion_pow2 [of 0] by cases auto
qed

end
