(* ===== verification/Merkle_Proof.thy ===== *)
theory Merkle_Proof
  imports Pmmr
begin

text \<open>
  Merkle proofs of the range (\<open>core/src/core/merkle_proof.rs\<close>): verification, that the proofs
  built by \<open>merkle_proof\<close> verify against the root, and that a proof that verifies shows either
  the element stored at the position or two different inputs of the hash function, one hashed
  by the verifier and one hashed for the range, with the same hash.

  An element is what \<open>&dyn PMMRIndexHashable\<close> offers: the function from an index to its hash.
\<close>

datatype merkle_proof_error = RootMismatch

text \<open>
  \<open>slice::binary_search\<close> on a slice without duplicates, which the peaks are: the index of the
  element if it is there.
\<close>

fun binary_search :: "nat list \<Rightarrow> nat \<Rightarrow> nat option" where
  "binary_search [] v = None"
| "binary_search (x # xs) v = (if x = v then Some 0 else map_option Suc (binary_search xs v))"

fun verify_consume ::
    "('h \<times> 'h \<Rightarrow> nat \<Rightarrow> 'h) \<Rightarrow> nat \<Rightarrow> 'h list \<Rightarrow> 'h \<Rightarrow> (nat \<Rightarrow> 'h) \<Rightarrow> nat \<Rightarrow> nat list \<Rightarrow>
     merkle_proof_error + unit" where
  "verify_consume hn sz [] rt element node_pos0 peaks_pos0 =
     (let node_hash = (if sz \<le> node_pos0 then element sz else element node_pos0)
      in if rt = node_hash then Inr () else Inl RootMismatch)"
| "verify_consume hn sz (sibling # rest) rt element node_pos0 peaks_pos0 =
     (let node_hash = (if sz \<le> node_pos0 then element sz else element node_pos0);
          (parent_pos0, sibling_pos0) = family node_pos0
      in case binary_search peaks_pos0 node_pos0 of
           Some x \<Rightarrow>
             (let parent = (if x = length peaks_pos0 - 1 then (sibling, node_hash)
                            else (node_hash, sibling))
              in verify_consume hn sz rest rt (hn parent) parent_pos0 (peaks sz))
         | None \<Rightarrow>
             if sz \<le> parent_pos0
             then verify_consume hn sz rest rt (hn (sibling, node_hash)) parent_pos0 (peaks sz)
             else
               (let parent = (if is_left_sibling sibling_pos0 then (sibling, node_hash)
                              else (node_hash, sibling))
                in verify_consume hn sz rest rt (hn parent) parent_pos0 (peaks sz)))"

definition verify ::
    "('h \<times> 'h \<Rightarrow> nat \<Rightarrow> 'h) \<Rightarrow> 'h merkle_proof \<Rightarrow> 'h \<Rightarrow> (nat \<Rightarrow> 'h) \<Rightarrow> nat \<Rightarrow>
     merkle_proof_error + unit" where
  "verify hn pr rt element node_pos0 =
     verify_consume hn (mmr_size pr) (path pr) rt element node_pos0 (peaks (mmr_size pr))"

definition merkle_proof_empty :: "'h merkle_proof" where
  "merkle_proof_empty = \<lparr> mmr_size = 0, path = [] \<rparr>"

section \<open>Verification as a computation on hashes\<close>

text \<open>\<open>hash_idx\<close> is the index a node is hashed with, \<open>parent_pair\<close> the pair its parent hashes.\<close>

definition hash_idx :: "nat \<Rightarrow> nat \<Rightarrow> nat" where
  "hash_idx sz pos = (if sz \<le> pos then sz else pos)"

definition parent_pair :: "nat \<Rightarrow> nat \<Rightarrow> 'h \<Rightarrow> 'h \<Rightarrow> 'h \<times> 'h" where
  "parent_pair sz pos sibling node =
     (if pos \<in> set (peaks sz) then (if pos = last (peaks sz) then (sibling, node) else (node, sibling))
      else if sz \<le> fst (family pos) then (sibling, node)
      else if is_left_sibling (snd (family pos)) then (sibling, node) else (node, sibling))"

fun climb :: "('h \<times> 'h \<Rightarrow> nat \<Rightarrow> 'h) \<Rightarrow> nat \<Rightarrow> 'h list \<Rightarrow> 'h \<Rightarrow> nat \<Rightarrow> 'h" where
  "climb hn sz [] node pos = node"
| "climb hn sz (s # rest) node pos =
     climb hn sz rest (hn (parent_pair sz pos s node) (hash_idx sz (fst (family pos)))) (fst (family pos))"

lemma binary_search_None: "binary_search xs v = None \<longleftrightarrow> v \<notin> set xs"
  by (induction xs) auto

lemma binary_search_Some:
  "distinct xs \<Longrightarrow> binary_search xs v = Some i \<Longrightarrow> v \<in> set xs \<and> (i = length xs - 1 \<longleftrightarrow> v = last xs)"
proof (induction xs arbitrary: i)
  case (Cons x xs)
  show ?case
  proof (cases "x = v")
    case True
    then show ?thesis using Cons.prems by (cases xs) auto
  next
    case False
    with Cons.prems obtain j where j: "binary_search xs v = Some j" "i = Suc j" by auto
    with Cons have "v \<in> set xs \<and> (j = length xs - 1 \<longleftrightarrow> v = last xs)" by simp
    with j show ?thesis by (cases xs) auto
  qed
qed simp

lemma verify_consume_climb:
  "verify_consume hn sz rest rt element pos (peaks sz) =
     (if climb hn sz rest (element (hash_idx sz pos)) pos = rt then Inr () else Inl RootMismatch)"
proof (induction rest arbitrary: element pos)
  case Nil
  then show ?case by (auto simp: hash_idx_def)
next
  case (Cons s rest)
  have d: "distinct (peaks sz)" using peaks_sorted by (simp add: strict_sorted_iff)
  obtain parent sib where fam: "family pos = (parent, sib)" by fastforce
  let ?node = "element (hash_idx sz pos)"
  have "verify_consume hn sz (s # rest) rt element pos (peaks sz) =
      verify_consume hn sz rest rt (hn (parent_pair sz pos s ?node)) parent (peaks sz)"
  proof (cases "binary_search (peaks sz) pos")
    case None
    moreover from None have "pos \<notin> set (peaks sz)" by (simp add: binary_search_None)
    ultimately show ?thesis by (simp add: fam Let_def parent_pair_def hash_idx_def)
  next
    case (Some x)
    then show ?thesis
      using binary_search_Some [OF d Some] by (simp add: fam Let_def parent_pair_def hash_idx_def)
  qed
  then show ?case using Cons by (simp add: fam)
qed

lemma verify_iff:
  "verify hn pr rt element pos = Inr () \<longleftrightarrow>
     climb hn (mmr_size pr) (path pr) (element (hash_idx (mmr_size pr) pos)) pos = rt"
  by (simp add: verify_def verify_consume_climb)

section \<open>Proofs of the range verify\<close>

lemma mmr_hash_family:
  assumes "family pos = (parent, sib)"
  shows "mmr_hash hl hn xs parent =
    hn (if is_left_sibling sib then (mmr_hash hl hn xs sib, mmr_hash hl hn xs pos)
        else (mmr_hash hl hn xs pos, mmr_hash hl hn xs sib)) parent"
proof -
  obtain n h where n: "node_ok n h" "pos = node_pos n h" by (rule peak_map_heightE [of pos])
  have key: "mmr_hash hl hn xs (node_pos m (Suc h)) =
      hn (mmr_hash hl hn xs (node_pos (m - 2 ^ h) h), mmr_hash hl hn xs (node_pos m h)) (node_pos m (Suc h))"
    if "node_ok m (Suc h)" for m
    using mmr_hash_node [OF that, of hl hn xs] mmr_hash_node [OF node_ok_mono [OF that, of h], of hl hn xs]
      mmr_hash_node [of "m - 2 ^ h" h hl hn xs] node_ok_left_child [OF that] by simp
  show ?thesis
  proof (cases "bit n h")
    case True
    then have ok: "node_ok n (Suc h)" using n node_ok_Suc_iff by simp
    from family_pair(1,3,4) [OF ok] key [OF ok] assms n(2) show ?thesis by simp
  next
    case False
    have ok: "node_ok (n + 2 ^ h) (Suc h)" by (rule not_bit_sibling(1) [OF n(1) False])
    from family_pair(2,3,4) [OF ok] key [OF ok] assms n(2) show ?thesis by auto
  qed
qed

lemma climb_up_chain:
  assumes "sz = insertion_to_pmmr_index (length xs)" and "pos < sz"
  shows "climb hn sz (map (\<lambda>x. mmr_hash hl hn xs (snd x)) (up_chain sz pos) @ rest) (mmr_hash hl hn xs pos) pos =
    (let r = last (pos # map fst (up_chain sz pos)) in climb hn sz rest (mmr_hash hl hn xs r) r)"
  using assms(2)
proof (induction pos rule: up_chain_induct [of sz])
  case (step pos)
  obtain parent sib where fam: "family pos = (parent, sib)" by fastforce
  show ?case
  proof (cases "parent < sz")
    case True
    then have "pos \<notin> set (peaks sz)" using fam by (simp add: assms(1) set_peaks_insertion)
    then have "hn (parent_pair sz pos (mmr_hash hl hn xs sib) (mmr_hash hl hn xs pos)) (hash_idx sz parent) =
        mmr_hash hl hn xs parent"
      using True mmr_hash_family [OF fam, of hl hn xs] by (auto simp: parent_pair_def fam hash_idx_def)
    moreover have "up_chain sz pos = (parent, sib) # up_chain sz parent"
      using True fam by (subst up_chain.simps) simp
    ultimately show ?thesis using step.IH True fam by (simp add: Let_def)
  next
    case False
    then have "up_chain sz pos = []" using fam by (subst up_chain.simps) simp
    then show ?thesis by simp
  qed
qed

text \<open>Beyond the size of the range every sibling is hashed in from the left.\<close>

lemma climb_beyond:
  assumes "sz \<le> pos"
  shows "climb hn sz (rev ls) node pos = foldr (\<lambda>l r. hn (l, r) sz) ls node"
  using assms
proof (induction ls arbitrary: node pos rule: rev_induct)
  case (snoc l ls)
  have "sz \<le> fst (family pos)" using family_fst_gt [of pos] snoc.prems by linarith
  moreover have "pos \<notin> set (peaks sz)" using snoc.prems peaks_less_size [of pos sz] by linarith
  ultimately show ?case using snoc.IH by (simp add: parent_pair_def hash_idx_def)
qed simp

lemma bag_append:
  "ys \<noteq> [] \<Longrightarrow> bag hn sz (xs @ ys) = map_option (foldr (\<lambda>l r. hn (l, r) sz) xs) (bag hn sz ys)"
proof (induction xs)
  case Nil
  then show ?case by (simp add: id_def [symmetric] option.map_id)
next
  case (Cons x xs)
  obtain z zs where "xs @ ys = z # zs" using Cons.prems by (cases "xs @ ys") auto
  then show ?case using Cons by (simp add: option.map_comp comp_def)
qed

lemma filter_split_sorted:
  fixes q :: nat
  assumes "sorted_wrt (<) (ls @ q # rs)"
  shows "filter (\<lambda>x. x < q) (ls @ q # rs) = ls" and "filter (\<lambda>x. q < x) (ls @ q # rs) = rs"
  using assms by (auto simp: sorted_wrt_append filter_id_conv filter_empty_conv
      intro!: arg_cong2 [where f = "(@)"] dest: less_imp_not_less)

text \<open>What a reader of an unpruned range of the given leaves answers.\<close>

definition reads_mmr ::
    "('t \<Rightarrow> nat \<Rightarrow> 'h) \<Rightarrow> ('h \<times> 'h \<Rightarrow> nat \<Rightarrow> 'h) \<Rightarrow> 't list \<Rightarrow> ('e, 'h) readable \<Rightarrow> bool" where
  "reads_mmr hl hn xs r \<longleftrightarrow>
     unpruned_size r = insertion_to_pmmr_index (length xs) \<and>
     (\<forall>pos < unpruned_size r. get_from_file r pos = Some (mmr_hash hl hn xs pos)) \<and>
     (\<forall>pos \<in> set (peaks (unpruned_size r)). get_peak_from_file r pos = Some (mmr_hash hl hn xs pos))"

lemma climb_peak_path:
  assumes r: "reads_mmr hl hn xs r" and q: "q \<in> set (peaks (unpruned_size r))"
  shows "climb hn (unpruned_size r) (peak_path hn r q) (mmr_hash hl hn xs q) q = mmr_root zero_hash hl hn xs"
proof -
  let ?sz = "unpruned_size r" and ?h = "mmr_hash hl hn xs" and ?f = "\<lambda>a b. hn (a, b) (unpruned_size r)"
  have sz: "?sz = insertion_to_pmmr_index (length xs)" using r by (simp add: reads_mmr_def)
  obtain ls rs where P: "peaks ?sz = ls @ q # rs" using q by (meson split_list)
  have less: "x < ?sz" if "x \<in> set (peaks ?sz)" for x using that by (rule peaks_less_size)
  have L: "filter (\<lambda>x. x < q) (peaks ?sz) = ls" and R: "filter (\<lambda>x. q < x) (peaks ?sz) = rs"
    using filter_split_sorted [of ls q rs] peaks_sorted [of ?sz] by (simp_all add: P)
  have "List.map_filter (get_from_file r) rs = map ?h rs"
    using r less P by (intro map_filter_all) (auto simp: reads_mmr_def)
  then have bag: "bag_the_rhs hn r q = bag hn ?sz (map ?h rs)"
    by (simp add: bag_the_rhs_def R Let_def bag_loop_rev)
  have "List.map_filter (get_peak_from_file r) ls = map ?h ls"
    using r less P by (intro map_filter_all) (auto simp: reads_mmr_def)
  then have pp: "peak_path hn r q =
      (case bag hn ?sz (map ?h rs) of None \<Rightarrow> rev (map ?h ls) | Some h \<Rightarrow> h # rev (map ?h ls))"
    by (simp add: peak_path_def bag L Let_def split: option.split)
  have "bag hn ?sz (map ?h ls @ map ?h (q # rs)) = Some (mmr_root zero_hash hl hn xs)"
  proof -
    have "mmr_peaks hl hn xs = map ?h ls @ map ?h (q # rs)"
      using map_mmr_hash_peaks [of hl hn xs] P by (simp add: sz)
    moreover from this have "bag hn ?sz (mmr_peaks hl hn xs) \<noteq> None" by (simp add: bag_eq_None_iff)
    ultimately show ?thesis by (auto simp: mmr_root_def sz [symmetric] split: option.splits)
  qed
  then have rt: "map_option (foldr ?f (map ?h ls)) (bag hn ?sz (map ?h (q # rs))) =
      Some (mmr_root zero_hash hl hn xs)"
    by (subst (asm) bag_append) auto
  have par: "?sz \<le> fst (family q)" using q by (simp add: sz set_peaks_insertion)
  show ?thesis
  proof (cases "rs = []")
    case True
    then have last: "q = last (peaks ?sz)" using P by simp
    show ?thesis
    proof (cases ls rule: rev_cases)
      case Nil
      then show ?thesis using pp rt True by simp
    next
      case (snoc ls' l)
      then have "climb hn ?sz (peak_path hn r q) (?h q) q = foldr ?f (map ?h ls') (?f (?h l) (?h q))"
        using pp True par q last climb_beyond [OF par, of hn "map ?h ls'"]
        by (simp add: parent_pair_def hash_idx_def)
      then show ?thesis using rt True snoc by simp
    qed
  next
    case False
    then have "q \<noteq> last (peaks ?sz)"
      using P peaks_sorted [of ?sz] by (auto simp: sorted_wrt_append)
    moreover obtain h where h: "bag hn ?sz (map ?h rs) = Some h"
      using False by (cases "bag hn ?sz (map ?h rs)") (auto simp: bag_eq_None_iff)
    moreover have "bag hn ?sz (map ?h (q # rs)) = Some (?f (?h q) h)"
      using h False by (cases rs) auto
    ultimately show ?thesis
      using pp par q rt climb_beyond [OF par, of hn "map ?h ls"]
      by (simp add: parent_pair_def hash_idx_def)
  qed
qed

lemma merkle_proof_verifies:
  assumes r: "reads_mmr hl hn xs r" and i: "i < length xs"
    and hash: "get_hash r (insertion_to_pmmr_index i) \<noteq> None"
  shows "\<exists>pr. merkle_proof hn r (insertion_to_pmmr_index i) = Inr pr \<and>
    verify hn pr (mmr_root zero_hash hl hn xs) (hl (xs ! i)) (insertion_to_pmmr_index i) = Inr ()"
proof -
  let ?sz = "unpruned_size r" and ?pos = "insertion_to_pmmr_index i"
  have sz: "?sz = insertion_to_pmmr_index (length xs)" using r by (simp add: reads_mmr_def)
  have lt: "?pos < ?sz" using i by (simp add: sz)
  let ?ch = "up_chain ?sz ?pos"
  let ?q = "last (?pos # map fst ?ch)"
  have sib: "snd x < ?sz" if "x \<in> set ?ch" for x using up_chain_siblings [OF that] .
  have "List.map_filter (\<lambda>x. get_from_file r (snd x)) ?ch = map (\<lambda>x. mmr_hash hl hn xs (snd x)) ?ch"
    using r sib by (intro map_filter_all) (auto simp: reads_mmr_def)
  then have "merkle_proof hn r ?pos = Inr \<lparr> mmr_size = ?sz,
      path = map (\<lambda>x. mmr_hash hl hn xs (snd x)) ?ch @ peak_path hn r ?q \<rparr>"
    using hash by (auto simp: merkle_proof_def family_branch_up_chain Let_def last_map)
  moreover have "?q \<in> set (peaks ?sz)"
    using last_up_chain [OF lt] by (simp add: sz set_peaks_insertion Let_def)
  then have "climb hn ?sz (map (\<lambda>x. mmr_hash hl hn xs (snd x)) ?ch @ peak_path hn r ?q) (mmr_hash hl hn xs ?pos) ?pos =
      mmr_root zero_hash hl hn xs"
    using climb_up_chain [OF sz lt, of hn hl "peak_path hn r ?q"] climb_peak_path [OF r]
    by (simp add: Let_def)
  ultimately show ?thesis using lt by (simp add: verify_iff hash_idx_def)
qed

section \<open>Proofs that verify are right up to collisions\<close>

text \<open>
  An input of the hash function is an element or a pair of hashes, with an index. \<open>tree_inputs\<close>
  are the inputs hashed to build a range of the given leaves and its root, \<open>climb_inputs\<close> those
  the verifier hashes, the element at the position first.
\<close>

datatype ('t, 'h) hash_input = Elem 't | Pair 'h 'h

fun input_hash ::
    "('t \<Rightarrow> nat \<Rightarrow> 'h) \<Rightarrow> ('h \<times> 'h \<Rightarrow> nat \<Rightarrow> 'h) \<Rightarrow> ('t, 'h) hash_input \<times> nat \<Rightarrow> 'h" where
  "input_hash hl hn (Elem t, i) = hl t i"
| "input_hash hl hn (Pair l r, i) = hn (l, r) i"

fun node_input ::
    "('t \<Rightarrow> nat \<Rightarrow> 'h) \<Rightarrow> ('h \<times> 'h \<Rightarrow> nat \<Rightarrow> 'h) \<Rightarrow> 't list \<Rightarrow> nat \<Rightarrow> nat \<Rightarrow> ('t, 'h) hash_input" where
  "node_input hl hn xs n 0 = Elem (xs ! n)"
| "node_input hl hn xs n (Suc h) = Pair (node_hash hl hn xs (n - 2 ^ h) h) (node_hash hl hn xs n h)"

definition pos_input ::
    "('t \<Rightarrow> nat \<Rightarrow> 'h) \<Rightarrow> ('h \<times> 'h \<Rightarrow> nat \<Rightarrow> 'h) \<Rightarrow> 't list \<Rightarrow> nat \<Rightarrow> ('t, 'h) hash_input" where
  "pos_input hl hn xs pos = (let (n, h) = peak_map_height pos in node_input hl hn xs n h)"

fun bag_inputs :: "('h \<times> 'h \<Rightarrow> nat \<Rightarrow> 'h) \<Rightarrow> nat \<Rightarrow> 'h list \<Rightarrow> (('t, 'h) hash_input \<times> nat) list" where
  "bag_inputs hn sz (x # y # zs) =
     (Pair x (the (bag hn sz (y # zs))), sz) # bag_inputs hn sz (y # zs)"
| "bag_inputs hn sz _ = []"

definition tree_inputs ::
    "('t \<Rightarrow> nat \<Rightarrow> 'h) \<Rightarrow> ('h \<times> 'h \<Rightarrow> nat \<Rightarrow> 'h) \<Rightarrow> 't list \<Rightarrow> (('t, 'h) hash_input \<times> nat) list" where
  "tree_inputs hl hn xs =
     map (\<lambda>pos. (pos_input hl hn xs pos, pos)) [0..<insertion_to_pmmr_index (length xs)] @
     bag_inputs hn (insertion_to_pmmr_index (length xs)) (mmr_peaks hl hn xs)"

fun climb_inputs ::
    "('t \<Rightarrow> nat \<Rightarrow> 'h) \<Rightarrow> ('h \<times> 'h \<Rightarrow> nat \<Rightarrow> 'h) \<Rightarrow> nat \<Rightarrow> 'h list \<Rightarrow> ('t, 'h) hash_input \<Rightarrow> nat \<Rightarrow>
     (('t, 'h) hash_input \<times> nat) list" where
  "climb_inputs hl hn sz [] a pos = [(a, hash_idx sz pos)]"
| "climb_inputs hl hn sz (s # rest) a pos =
     (a, hash_idx sz pos) #
     (let (l, r) = parent_pair sz pos s (input_hash hl hn (a, hash_idx sz pos))
      in climb_inputs hl hn sz rest (Pair l r) (fst (family pos)))"

definition collision ::
    "('t \<Rightarrow> nat \<Rightarrow> 'h) \<Rightarrow> ('h \<times> 'h \<Rightarrow> nat \<Rightarrow> 'h) \<Rightarrow>
     (('t, 'h) hash_input \<times> nat) list \<Rightarrow> (('t, 'h) hash_input \<times> nat) list \<Rightarrow> bool" where
  "collision hl hn as bs \<longleftrightarrow> (\<exists>a \<in> set as. \<exists>b \<in> set bs. a \<noteq> b \<and> input_hash hl hn a = input_hash hl hn b)"

lemma collision_Cons:
  "collision hl hn (a # as) bs \<longleftrightarrow>
     (\<exists>b \<in> set bs. a \<noteq> b \<and> input_hash hl hn a = input_hash hl hn b) \<or> collision hl hn as bs"
  by (auto simp: collision_def)

lemma pos_input_node [simp]: "node_ok n h \<Longrightarrow> pos_input hl hn xs (node_pos n h) = node_input hl hn xs n h"
  by (simp add: pos_input_def)

lemma input_hash_pos_input: "input_hash hl hn (pos_input hl hn xs pos, pos) = mmr_hash hl hn xs pos"
proof -
  obtain n h where n: "node_ok n h" "pos = node_pos n h" by (rule peak_map_heightE [of pos])
  then have "input_hash hl hn (node_input hl hn xs n h, pos) = node_hash hl hn xs n h" by (cases h) simp_all
  then show ?thesis using n by simp
qed

lemma pos_input_family:
  assumes "family pos = (parent, sib)"
  shows "pos_input hl hn xs parent =
    (if is_left_sibling sib then Pair (mmr_hash hl hn xs sib) (mmr_hash hl hn xs pos)
     else Pair (mmr_hash hl hn xs pos) (mmr_hash hl hn xs sib))"
proof -
  obtain n h where n: "node_ok n h" "pos = node_pos n h" by (rule peak_map_heightE [of pos])
  have key: "pos_input hl hn xs (node_pos m (Suc h)) =
      Pair (mmr_hash hl hn xs (node_pos (m - 2 ^ h) h)) (mmr_hash hl hn xs (node_pos m h))"
    if "node_ok m (Suc h)" for m
    using pos_input_node [OF that, of hl hn xs] mmr_hash_node [OF node_ok_mono [OF that, of h], of hl hn xs]
      mmr_hash_node [of "m - 2 ^ h" h hl hn xs] node_ok_left_child [OF that] by simp
  show ?thesis
  proof (cases "bit n h")
    case True
    then have ok: "node_ok n (Suc h)" using n node_ok_Suc_iff by simp
    from family_pair(1,3,4) [OF ok] key [OF ok] assms n(2) show ?thesis by auto
  next
    case False
    have ok: "node_ok (n + 2 ^ h) (Suc h)" by (rule not_bit_sibling(1) [OF n(1) False])
    from family_pair(2,3,4) [OF ok] key [OF ok] assms n(2) show ?thesis by auto
  qed
qed

lemma bag_inputs_idx: "(a, i) \<in> set (bag_inputs hn sz ps) \<Longrightarrow> i = sz"
  by (induction hn sz ps rule: bag_inputs.induct) auto

lemma bag_root_input:
  "bag hn sz ps = Some r \<Longrightarrow> ps = [r] \<or> (\<exists>b \<in> set (bag_inputs hn sz ps). input_hash hl hn b = r)"
  by (induction hn sz ps rule: bag_inputs.induct) (auto simp: bag_eq_None_iff)

lemma bag_inputs_parts:
  "(Pair l r, i) \<in> set (bag_inputs hn sz ps) \<Longrightarrow>
     l \<in> set ps \<and> (r = last ps \<or> (\<exists>b \<in> set (bag_inputs hn sz ps). input_hash hl hn b = r))"
proof (induction hn sz ps rule: bag_inputs.induct)
  case (1 hn sz x y zs)
  obtain v where v: "bag hn sz (y # zs) = Some v" by (cases "bag hn sz (y # zs)") (auto simp: bag_eq_None_iff)
  from bag_root_input [OF v, of hl] 1 v show ?case by (auto simp del: bag.simps)
qed auto

lemma tree_input_pos:
  "pos < insertion_to_pmmr_index (length xs) \<Longrightarrow> (pos_input hl hn xs pos, pos) \<in> set (tree_inputs hl hn xs)"
  by (auto simp: tree_inputs_def)

lemma tree_input_bag:
  "b \<in> set (bag_inputs hn (insertion_to_pmmr_index (length xs)) (mmr_peaks hl hn xs)) \<Longrightarrow>
     b \<in> set (tree_inputs hl hn xs)"
  by (simp add: tree_inputs_def)

lemma peak_input:
  assumes "h \<in> set (mmr_peaks hl hn xs)"
  shows "\<exists>q \<in> set (peaks (insertion_to_pmmr_index (length xs))). input_hash hl hn (pos_input hl hn xs q, q) = h"
  using assms by (auto simp: map_mmr_hash_peaks [symmetric] input_hash_pos_input)

lemma last_peak_input:
  assumes "xs \<noteq> []"
  shows "last (mmr_peaks hl hn xs) = mmr_hash hl hn xs (last (peaks (insertion_to_pmmr_index (length xs))))"
    and "last (peaks (insertion_to_pmmr_index (length xs))) \<in> set (peaks (insertion_to_pmmr_index (length xs)))"
  using assms by (auto simp: map_mmr_hash_peaks [symmetric] last_map peaks_eq_Nil_iff)

lemma no_collision_eq:
  "\<not> collision hl hn as (tree_inputs hl hn xs) \<Longrightarrow> a \<in> set as \<Longrightarrow> b \<in> set (tree_inputs hl hn xs) \<Longrightarrow>
     input_hash hl hn a = input_hash hl hn b \<Longrightarrow> a = b"
  by (auto simp: collision_def)

lemma root_input:
  assumes "xs \<noteq> []"
  shows "(\<exists>b \<in> set (bag_inputs hn (insertion_to_pmmr_index (length xs)) (mmr_peaks hl hn xs)).
      input_hash hl hn b = mmr_root zero_hash hl hn xs) \<or>
    mmr_peaks hl hn xs = [mmr_root zero_hash hl hn xs]"
proof -
  obtain r where "bag hn (insertion_to_pmmr_index (length xs)) (mmr_peaks hl hn xs) = Some r"
    using assms by (cases "bag hn (insertion_to_pmmr_index (length xs)) (mmr_peaks hl hn xs)")
      (auto simp: bag_eq_None_iff mmr_peaks_def peak_leaves_eq_Nil_iff)
  with bag_root_input [OF this, of hl] show ?thesis by (auto simp: mmr_root_def)
qed

text \<open>
  The two halves of soundness: a pair hashed with the size of the range is one of those hashed for
  its root, and an input hashed with the position of a node is the input hashed for that node.
\<close>

lemma first_climb_input: "(a, hash_idx sz pos) \<in> set (climb_inputs hl hn sz rest a pos)"
  by (cases rest) auto

lemma climb_beyond_sound:
  fixes xs :: "'t list" and hn :: "'h \<times> 'h \<Rightarrow> nat \<Rightarrow> 'h"
  assumes sz: "sz = insertion_to_pmmr_index (length xs)" and ne: "xs \<noteq> []"
    and "sz \<le> pos"
    and "climb hn sz rest (hn (l, r) sz) pos = mmr_root zero_hash hl hn xs"
    and "\<not> collision hl hn (climb_inputs hl hn sz rest (Pair l r) pos) (tree_inputs hl hn xs)"
  shows "(Pair l r :: ('t, 'h) hash_input, sz) \<in> set (bag_inputs hn sz (mmr_peaks hl hn xs))"
  using assms(3-5)
proof (induction rest arbitrary: l r pos)
  case Nil
  have me: "(Pair l r, sz) \<in> set (climb_inputs hl hn sz [] (Pair l r) pos)"
    using Nil.prems(1) by (simp add: hash_idx_def)
  have h: "input_hash hl hn (Pair l r, sz) = mmr_root zero_hash hl hn xs" using Nil.prems(2) by simp
  from root_input [OF ne, of hn hl zero_hash] show ?case
  proof
    assume "\<exists>b \<in> set (bag_inputs hn (insertion_to_pmmr_index (length xs)) (mmr_peaks hl hn xs)).
      input_hash hl hn b = mmr_root zero_hash hl hn xs"
    then obtain b where b: "b \<in> set (bag_inputs hn sz (mmr_peaks hl hn xs))"
        "input_hash hl hn b = mmr_root zero_hash hl hn xs" by (auto simp: sz)
    then have "b \<in> set (tree_inputs hl hn xs)" by (simp add: sz tree_input_bag)
    with no_collision_eq [OF Nil.prems(3) me, of b] h b show ?thesis by simp
  next
    assume "mmr_peaks hl hn xs = [mmr_root zero_hash hl hn xs]"
    then obtain q where q: "q \<in> set (peaks sz)" "input_hash hl hn (pos_input hl hn xs q, q) = mmr_root zero_hash hl hn xs"
      using peak_input [of "mmr_root zero_hash hl hn xs" hl hn xs] by (auto simp: sz)
    have "q < sz" using q(1) by (rule peaks_less_size)
    with no_collision_eq [OF Nil.prems(3) me, of "(pos_input hl hn xs q, q)"] h q(2) tree_input_pos [of q xs hl hn]
    show ?thesis by (simp add: sz)
  qed
next
  case (Cons s rest)
  have fam: "sz \<le> fst (family pos)" using family_fst_gt [of pos] Cons.prems(1) by linarith
  have "pos \<notin> set (peaks sz)" using Cons.prems(1) peaks_less_size [of pos sz] by linarith
  then have pp: "parent_pair sz pos s c = (s, c)" for c :: 'h using fam by (simp add: parent_pair_def)
  let ?c = "hn (l, r) sz"
  have idx: "hash_idx sz pos = sz" "hash_idx sz (fst (family pos)) = sz"
    using Cons.prems(1) fam by (auto simp: hash_idx_def)
  have nc: "\<not> collision hl hn (climb_inputs hl hn sz rest (Pair s ?c) (fst (family pos))) (tree_inputs hl hn xs)"
    using Cons.prems(3) by (simp add: idx pp collision_Cons)
  have "(Pair s ?c :: ('t, 'h) hash_input, sz) \<in> set (bag_inputs hn sz (mmr_peaks hl hn xs))"
    using Cons.prems(2) nc fam by (intro Cons.IH) (simp_all add: idx pp)
  from bag_inputs_parts [OF this, of hl]
  have "?c = last (mmr_peaks hl hn xs) \<or> (\<exists>b \<in> set (bag_inputs hn sz (mmr_peaks hl hn xs)). input_hash hl hn b = ?c)"
    by simp
  moreover have me: "(Pair l r, sz) \<in> set (climb_inputs hl hn sz (s # rest) (Pair l r) pos)" by (simp add: idx)
  moreover have "?c \<noteq> last (mmr_peaks hl hn xs)"
  proof
    let ?q = "last (peaks sz)"
    assume "?c = last (mmr_peaks hl hn xs)"
    then have "input_hash hl hn (Pair l r, sz) = input_hash hl hn (pos_input hl hn xs ?q, ?q)"
      using last_peak_input(1) [OF ne, of hl hn] by (simp add: sz input_hash_pos_input)
    moreover have "?q < sz" using last_peak_input(2) [OF ne] peaks_less_size by (simp add: sz)
    ultimately show False
      using no_collision_eq [OF Cons.prems(3) me, of "(pos_input hl hn xs ?q, ?q)"] tree_input_pos [of ?q xs hl hn]
      by (simp add: sz)
  qed
  ultimately obtain b where b: "b \<in> set (bag_inputs hn sz (mmr_peaks hl hn xs))" "input_hash hl hn b = ?c" by blast
  then have "b \<in> set (tree_inputs hl hn xs)" by (simp add: sz tree_input_bag)
  with no_collision_eq [OF Cons.prems(3) me, of b] b show ?case by simp
qed

lemma climb_sound:
  fixes xs :: "'t list" and hn :: "'h \<times> 'h \<Rightarrow> nat \<Rightarrow> 'h"
  assumes sz: "sz = insertion_to_pmmr_index (length xs)" and ne: "xs \<noteq> []"
    and "pos < sz"
    and "climb hn sz rest (input_hash hl hn (a, pos)) pos = mmr_root zero_hash hl hn xs"
    and "\<not> collision hl hn (climb_inputs hl hn sz rest a pos) (tree_inputs hl hn xs)"
  shows "a = pos_input hl hn xs pos"
  using assms(3-5)
proof (induction rest arbitrary: a pos)
  case Nil
  have me: "(a, pos) \<in> set (climb_inputs hl hn sz [] a pos)"
    using Nil.prems(1) by (simp add: hash_idx_def)
  have h: "input_hash hl hn (a, pos) = mmr_root zero_hash hl hn xs" using Nil.prems(2) by simp
  have "b \<notin> set (bag_inputs hn sz (mmr_peaks hl hn xs))" if "input_hash hl hn b = mmr_root zero_hash hl hn xs" for b
  proof
    assume b: "b \<in> set (bag_inputs hn sz (mmr_peaks hl hn xs))"
    then have "b \<in> set (tree_inputs hl hn xs)" by (simp add: sz tree_input_bag)
    with no_collision_eq [OF Nil.prems(3) me, of b] h that have "(a, pos) = b" by simp
    with b bag_inputs_idx [of a pos] Nil.prems(1) show False by blast
  qed
  with root_input [OF ne, of hn hl zero_hash] have "mmr_peaks hl hn xs = [mmr_root zero_hash hl hn xs]"
    by (auto simp: sz)
  then obtain q where q: "q \<in> set (peaks sz)" "input_hash hl hn (pos_input hl hn xs q, q) = mmr_root zero_hash hl hn xs"
    using peak_input [of "mmr_root zero_hash hl hn xs" hl hn xs] by (auto simp: sz)
  have "q < sz" using q(1) by (rule peaks_less_size)
  with no_collision_eq [OF Nil.prems(3) me, of "(pos_input hl hn xs q, q)"] h q(2) tree_input_pos [of q xs hl hn]
  show ?case by (simp add: sz)
next
  case (Cons s rest)
  let ?c = "input_hash hl hn (a, pos)"
  obtain par sib where fam: "family pos = (par, sib)" by fastforce
  have idx: "hash_idx sz pos = pos" using Cons.prems(1) by (simp add: hash_idx_def)
  obtain l r where lr: "parent_pair sz pos s ?c = (l, r)" by fastforce
  have me: "(a, pos) \<in> set (climb_inputs hl hn sz (s # rest) a pos)" by (simp add: idx)
  have nc: "\<not> collision hl hn (climb_inputs hl hn sz rest (Pair l r) par) (tree_inputs hl hn xs)"
    using Cons.prems(3) by (simp add: idx lr collision_Cons fam)
  have eq_node: "a = pos_input hl hn xs pos" if "q < sz" "?c = mmr_hash hl hn xs q" for q
    using no_collision_eq [OF Cons.prems(3) me, of "(pos_input hl hn xs q, q)"] tree_input_pos [of q xs hl hn] that
    by (simp add: sz input_hash_pos_input)
  show ?case
  proof (cases "par < sz")
    case False
    then have peak: "pos \<in> set (peaks sz)" using Cons.prems(1) by (simp add: sz set_peaks_insertion fam)
    have "climb hn sz rest (hn (l, r) sz) par = mmr_root zero_hash hl hn xs"
      using Cons.prems(2) False by (simp add: lr hash_idx_def fam)
    then have "(Pair l r :: ('t, 'h) hash_input, sz) \<in> set (bag_inputs hn sz (mmr_peaks hl hn xs))"
      using False nc by (intro climb_beyond_sound [OF sz ne, where pos = par]) simp_all
    note parts = bag_inputs_parts [OF this, of hl]
    show ?thesis
    proof (cases "pos = last (peaks sz)")
      case True
      then have r: "r = ?c" using lr peak by (simp add: parent_pair_def)
      have "input_hash hl hn b \<noteq> ?c" if b: "b \<in> set (bag_inputs hn sz (mmr_peaks hl hn xs))" for b
      proof
        assume e: "input_hash hl hn b = ?c"
        have "b \<in> set (tree_inputs hl hn xs)" using b by (simp add: sz tree_input_bag)
        with no_collision_eq [OF Cons.prems(3) me, of b] e have "(a, pos) = b" by simp
        with b bag_inputs_idx [of a pos] Cons.prems(1) show False by blast
      qed
      with parts r have "?c = last (mmr_peaks hl hn xs)" by auto
      then show ?thesis
        using eq_node [of "last (peaks sz)"] last_peak_input(1) [OF ne, of hl hn] last_peak_input(2) [OF ne] peaks_less_size by (simp add: sz)
    next
      case False
      then have "l = ?c" using lr peak by (simp add: parent_pair_def)
      with parts have "?c \<in> set (mmr_peaks hl hn xs)" by simp
      then obtain q where q: "q \<in> set (peaks sz)" "input_hash hl hn (pos_input hl hn xs q, q) = ?c"
        using peak_input [of ?c hl hn xs] by (auto simp: sz)
      then show ?thesis using eq_node [of q] peaks_less_size [of q sz] by (simp add: input_hash_pos_input)
    qed
  next
    case True
    have npeak: "pos \<notin> set (peaks sz)" using True by (simp add: sz set_peaks_insertion fam)
    have "climb hn sz rest (input_hash hl hn (Pair l r, par)) par = mmr_root zero_hash hl hn xs"
      using Cons.prems(2) True by (simp add: lr hash_idx_def fam)
    from Cons.IH [OF True this nc] have pair: "Pair l r = pos_input hl hn xs par" .
    have "?c = mmr_hash hl hn xs pos"
      using pos_input_family [OF fam, of hl hn xs] lr npeak True
      by (auto simp: parent_pair_def pair [symmetric] fam split: if_splits)
    then show ?thesis using eq_node [of pos] Cons.prems(1) by simp
  qed
qed

section \<open>Proofs over an unpruned backend\<close>

locale unpruned_backend = mmr_backend ops rep
  for ops :: "('b, 't, 'e, 'h) backend_ops" and rep :: "'b \<Rightarrow> 'h list \<Rightarrow> bool" +
  assumes get_file_all: "\<And>b hs pos. rep b hs \<Longrightarrow> pos < length hs \<Longrightarrow>
      b_get_from_file ops b pos = Some (hs ! pos)"
begin

lemma reads_state:
  assumes "mmr_state rep hl hn p xs"
  shows "reads_mmr hl hn xs (pmmr_readable ops p)"
  using assms peak_hash [OF assms] get_file_all [of "pmmr_backend p" "mmr_hashes hl hn xs"]
  by (auto simp: reads_mmr_def pmmr_readable_def mmr_state_def pmmr_get_from_file_def
      pmmr_get_peak_from_file_def dest: peaks_less)

lemma proof_complete:
  assumes "mmr_state rep hl hn p xs" and "i < length xs"
    and "b_get_hash ops (pmmr_backend p) (insertion_to_pmmr_index i) \<noteq> None"
  shows "\<exists>pr. merkle_proof hn (pmmr_readable ops p) (insertion_to_pmmr_index i) = Inr pr \<and>
    verify hn pr (mmr_root zero_hash hl hn xs) (hl (xs ! i)) (insertion_to_pmmr_index i) = Inr ()"
  using assms by (intro merkle_proof_verifies reads_state)
    (auto simp: pmmr_readable_def pmmr_get_hash_def mmr_state_def)

end

interpretation vec: unpruned_backend "vec_ops as_elmt" vec_rep for as_elmt
  by unfold_locales (simp add: vec_rep_def vec_get_from_file_def)

section \<open>Properties\<close>

text \<open>C4: completeness of Merkle proofs: after any history of an in-memory range, a proof can be
  built for every leaf of the range that is not pruned, and it verifies against the root of the
  range, at the position of that leaf and for its element.\<close>

theorem merkle_proof_complete:
  assumes "leaves_after os [] = Some xs"
    and "run_ops hl hn (vec_ops as_elmt) os (pmmr_new vec_new) = Inr p"
    and "i < length xs" and "insertion_to_pmmr_index i \<notin> vb_removed (pmmr_backend p)"
  shows "\<exists>pr. merkle_proof hn (pmmr_readable (vec_ops as_elmt) p) (insertion_to_pmmr_index i) = Inr pr \<and>
    verify hn pr (mmr_root zero_hash hl hn xs) (hl (xs ! i)) (insertion_to_pmmr_index i) = Inr ()"
proof -
  have st: "mmr_state vec_rep hl hn p xs"
    using vec.run_ops_correct [OF vec_new_state assms(1), of hl hn as_elmt] assms(2) by auto
  then have "vec_get_hash (pmmr_backend p) (insertion_to_pmmr_index i) \<noteq> None"
    using assms(3,4) by (auto simp: mmr_state_def vec_rep_def vec_get_hash_def vec_get_from_file_def)
  with vec.proof_complete [OF st assms(3), of as_elmt] show ?thesis by simp
qed

lemma merkle_proof_complete_witness:
  "\<exists>p pr. run_ops (\<lambda>x i. x + i) (\<lambda>(l, r) i. 3 * l + 5 * r + i) (vec_ops id)
      (map Push [10, 20, 30, 40, 50 :: nat]) (pmmr_new vec_new) = Inr p \<and>
    merkle_proof (\<lambda>(l, r) i. 3 * l + 5 * r + i) (pmmr_readable (vec_ops id) p) 1 = Inr pr \<and>
    verify (\<lambda>(l, r) i. 3 * l + 5 * r + i) pr
      (mmr_root 0 (\<lambda>x i. x + i) (\<lambda>(l, r) i. 3 * l + 5 * r + i) [10, 20, 30, 40, 50 :: nat]) (\<lambda>i. 20 + i) 1 = Inr ()"
proof -
  let ?hl = "\<lambda>x i. x + i :: nat" and ?hn = "\<lambda>(l, r) i. 3 * l + 5 * r + i :: nat"
    and ?xs = "[10, 20, 30, 40, 50 :: nat]"
  have 1: "leaves_after (map Push ?xs) [] = Some ?xs" by code_simp
  have 2: "insertion_to_pmmr_index (Suc 0) = Suc 0" by code_simp
  note run = vec_pushes [of ?hl ?hn id ?xs]
  show ?thesis
    using merkle_proof_complete [OF 1 run, of 1 0] run by (auto simp: 2 pmmr_at_def)
qed

text \<open>C3: soundness of Merkle proofs: if a proof for the size of a range verifies against its root
  for some element at the position of a leaf, then either that element is the one pushed there,
  or one of the inputs hashed by the verifier differs from one of the inputs hashed to build the
  range and has the same hash.\<close>

theorem merkle_proof_sound:
  assumes "i < length xs" and "mmr_size pr = insertion_to_pmmr_index (length xs)"
    and "verify hn pr (mmr_root zero_hash hl hn xs) (hl t) (insertion_to_pmmr_index i) = Inr ()"
  shows "t = xs ! i \<or>
    collision hl hn (climb_inputs hl hn (mmr_size pr) (path pr) (Elem t) (insertion_to_pmmr_index i))
      (tree_inputs hl hn xs)"
proof (rule disjCI)
  let ?pos = "insertion_to_pmmr_index i"
  assume nc: "\<not> collision hl hn (climb_inputs hl hn (mmr_size pr) (path pr) (Elem t) ?pos) (tree_inputs hl hn xs)"
  have lt: "?pos < mmr_size pr" using assms(1,2) by simp
  have "climb hn (mmr_size pr) (path pr) (input_hash hl hn (Elem t, ?pos)) ?pos = mmr_root zero_hash hl hn xs"
    using assms(3) lt by (simp add: verify_iff hash_idx_def)
  then have "Elem t = pos_input hl hn xs ?pos"
    using assms(1) lt nc by (intro climb_sound [OF assms(2)]) auto
  then show "t = xs ! i" using pos_input_node [of i 0 hl hn xs] by simp
qed

lemma merkle_proof_sound_witness:
  "(\<exists>t. verify (\<lambda>(l, r) i. 3 * l + 5 * r + i) \<lparr> mmr_size = 3, path = [41] \<rparr> (237 :: nat) (\<lambda>i. t + i) 0 = Inr ()) \<and>
   (10 = [10, 40] ! (0 :: nat) \<or>
    collision (\<lambda>x i. x + i) (\<lambda>(l, r) i. 3 * l + 5 * r + i)
      (climb_inputs (\<lambda>x i. x + i) (\<lambda>(l, r) i. 3 * l + 5 * r + i) 3 [41] (Elem (10 :: nat)) 0)
      (tree_inputs (\<lambda>x i. x + i) (\<lambda>(l, r) i. 3 * l + 5 * r + i) [10, 40]))"
proof -
  let ?hl = "\<lambda>x i. x + i :: nat" and ?hn = "\<lambda>(l, r) i. 3 * l + 5 * r + i :: nat"
    and ?pr = "\<lparr> mmr_size = 3, path = [41 :: nat] \<rparr>"
  have 1: "mmr_size ?pr = insertion_to_pmmr_index (length [10, 40 :: nat])" by code_simp
  have 2: "verify ?hn ?pr (mmr_root 0 ?hl ?hn [10, 40]) (?hl 10) (insertion_to_pmmr_index 0) = Inr ()" by code_simp
  have 3: "mmr_root 0 ?hl ?hn [10, 40] = 237" by code_simp
  from merkle_proof_sound [OF _ 1 2] 2 3 show ?thesis by auto
qed

end
