(* ===== verification/Ser.thy ===== *)
theory Ser
  imports Grin_Prelude
begin

text \<open>
  The binary serialization layer (\<open>core/src/ser.rs\<close>) and the hash type
  (\<open>core/src/core/hash.rs\<close>).

  A reader is the record of its kind (\<open>BinReader\<close>, \<open>StreamingReader\<close>, \<open>BufReader\<close>), the
  bytes that are left, the protocol version, the mode and the number of bytes it counted; a
  reading method is a function from a reader to an error or a value and the reader afterwards.
  A writing method answers the bytes it writes; the sinks are in-memory vectors and the hash
  writer, which never fail, so the errors are those the code raises itself.

  Sizes of cryptographic objects and their parsing belong to the \<open>secp\<close> library: they are
  fields of the parameter \<open>secp_sizes\<close> and function arguments.

  The locale \<open>codec\<close> is the contract between a \<open>Writeable\<close> and a \<open>Readable\<close>: what is written
  can be read back and exactly the written bytes are consumed. The combinators (pairs, counted
  lists) are proved against it.
\<close>

section \<open>Errors\<close>

datatype error_kind =
    NotFound | PermissionDenied | ConnectionRefused | ConnectionReset | ConnectionAborted
  | NotConnected | AddrInUse | AddrNotAvailable | BrokenPipe | AlreadyExists | WouldBlock
  | InvalidInput | InvalidData | TimedOut | WriteZero | Interrupted | Other | UnexpectedEof
  | Unlisted string

text \<open>The message of an \<open>IOErr\<close> is determined by its kind and left out.\<close>

datatype ser_error =
    IOErr error_kind
  | UnexpectedData bytes bytes
  | CorruptedData
  | CountError
  | TooLargeReadErr
  | HexError string
  | SortError
  | DuplicateError
  | InvalidBlockVersion
  | UnsupportedProtocolVersion

text \<open>
  The serde representation of \<open>io::ErrorKind\<close>: the arms of the matches, in the order of the
  source, are the entries of \<open>error_kind_arms\<close>; an arm's index is its position. Kinds that are
  not listed are written as \<open>Other\<close>.
\<close>

definition error_kind_arms :: "(error_kind \<times> string) list" where
  "error_kind_arms =
     [(NotFound, ''NotFound''), (PermissionDenied, ''PermissionDenied''),
      (ConnectionRefused, ''ConnectionRefused''), (ConnectionReset, ''ConnectionReset''),
      (ConnectionAborted, ''ConnectionAborted''), (NotConnected, ''NotConnected''),
      (AddrInUse, ''AddrInUse''), (AddrNotAvailable, ''AddrNotAvailable''),
      (BrokenPipe, ''BrokenPipe''), (AlreadyExists, ''AlreadyExists''),
      (WouldBlock, ''WouldBlock''), (InvalidInput, ''InvalidInput''),
      (InvalidData, ''InvalidData''), (TimedOut, ''TimedOut''), (WriteZero, ''WriteZero''),
      (Interrupted, ''Interrupted''), (Other, ''Other''), (UnexpectedEof, ''UnexpectedEof'')]"

fun arm_index :: "('a \<Rightarrow> bool) \<Rightarrow> 'a list \<Rightarrow> nat option" where
  "arm_index P [] = None"
| "arm_index P (x # xs) = (if P x then Some 0 else map_option Suc (arm_index P xs))"

definition serialize_error_kind :: "error_kind \<Rightarrow> nat \<times> string" where
  "serialize_error_kind kind =
     (case arm_index (\<lambda>a. fst a = kind) error_kind_arms of
        Some i \<Rightarrow> (i, snd (error_kind_arms ! i))
      | None \<Rightarrow> (16, ''Other''))"

definition visit_u64 :: "u64 \<Rightarrow> nat option" where
  "visit_u64 value = (if unat value < 18 then Some (unat value) else None)"

definition visit_str :: "string \<Rightarrow> nat option" where
  "visit_str value = arm_index (\<lambda>a. snd a = value) error_kind_arms"

definition visit_enum :: "nat option \<Rightarrow> error_kind option" where
  "visit_enum field = map_option (\<lambda>i. fst (error_kind_arms ! i)) field"

section \<open>Modes and versions\<close>

datatype serialization_mode = SerFull | SerHash

definition is_hash_mode :: "serialization_mode \<Rightarrow> bool" where
  "is_hash_mode m \<longleftrightarrow> m = SerHash"

datatype deserialization_mode = DeserFull | SkipPow

type_synonym protocol_version = u32

definition local_version :: protocol_version where
  "local_version = 1000"

definition local_db_version :: protocol_version where
  "local_db_version = 1"

section \<open>Writing\<close>

record writer_ctx =
  wr_version :: protocol_version
  wr_mode :: serialization_mode

type_synonym 'a writeable = "writer_ctx \<Rightarrow> 'a \<Rightarrow> ser_error + bytes"

text \<open>The big-endian representation of a number on a given number of bytes.\<close>

fun be_bytes :: "nat \<Rightarrow> nat \<Rightarrow> bytes" where
  "be_bytes 0 v = []"
| "be_bytes (Suc n) v = be_bytes n (v div 256) @ [of_nat v]"

definition be_val :: "bytes \<Rightarrow> nat" where
  "be_val bs = foldl (\<lambda>a b. a * 256 + unat b) 0 bs"

definition write_fixed_bytes :: "bytes \<Rightarrow> bytes" where
  "write_fixed_bytes bs = bs"

definition write_u8 :: "u8 \<Rightarrow> bytes" where
  "write_u8 n = write_fixed_bytes [n]"

definition write_u16 :: "u16 \<Rightarrow> bytes" where
  "write_u16 n = write_fixed_bytes (be_bytes 2 (unat n))"

definition write_u32 :: "u32 \<Rightarrow> bytes" where
  "write_u32 n = write_fixed_bytes (be_bytes 4 (unat n))"

definition write_u64 :: "u64 \<Rightarrow> bytes" where
  "write_u64 n = write_fixed_bytes (be_bytes 8 (unat n))"

text \<open>Signed integers are kept as their two's complement words; \<open>sint\<close> is the number.\<close>

definition write_i32 :: "u32 \<Rightarrow> bytes" where
  "write_i32 n = write_fixed_bytes (be_bytes 4 (unat n))"

definition write_i64 :: "u64 \<Rightarrow> bytes" where
  "write_i64 n = write_fixed_bytes (be_bytes 8 (unat n))"

definition write_bytes :: "bytes \<Rightarrow> bytes" where
  "write_bytes bs = write_u64 (of_nat (length bs)) @ write_fixed_bytes bs"

definition write_empty_bytes :: "nat \<Rightarrow> bytes" where
  "write_empty_bytes n = write_fixed_bytes (replicate n 0)"

section \<open>Reading\<close>

datatype reader_kind = BinReader | StreamingReader | BufReader

record reader =
  rd_kind :: reader_kind
  rd_input :: bytes
  rd_version :: protocol_version
  rd_mode :: deserialization_mode
  rd_count :: nat

type_synonym 'a readable_fn = "reader \<Rightarrow> ser_error + 'a \<times> reader"

definition max_read_size :: nat where
  "max_read_size = 100000"

text \<open>\<open>BinReader\<close> over a byte source: \<open>read_exact\<close> fails when not enough bytes are left.\<close>

definition bin_new :: "bytes \<Rightarrow> protocol_version \<Rightarrow> deserialization_mode \<Rightarrow> reader" where
  "bin_new source version mode =
     \<lparr> rd_kind = BinReader, rd_input = source, rd_version = version, rd_mode = mode, rd_count = 0 \<rparr>"

definition read_exact :: "nat \<Rightarrow> bytes readable_fn" where
  "read_exact n r =
     (if n \<le> length (rd_input r)
      then Inr (take n (rd_input r), r \<lparr> rd_input := drop n (rd_input r) \<rparr>)
      else Inl (IOErr UnexpectedEof))"

definition bin_read_fixed_bytes :: "nat \<Rightarrow> bytes readable_fn" where
  "bin_read_fixed_bytes len r = (if max_read_size < len then Inl TooLargeReadErr else read_exact len r)"

text \<open>\<open>StreamingReader\<close>: no limit, and the bytes read are counted.\<close>

definition streaming_new :: "bytes \<Rightarrow> protocol_version \<Rightarrow> reader" where
  "streaming_new stream version =
     \<lparr> rd_kind = StreamingReader, rd_input = stream, rd_version = version, rd_mode = DeserFull, rd_count = 0 \<rparr>"

definition streaming_read_fixed_bytes :: "nat \<Rightarrow> bytes readable_fn" where
  "streaming_read_fixed_bytes len r =
     rbind (read_exact len r) (\<lambda>(buf, r). Inr (buf, r \<lparr> rd_count := rd_count r + len \<rparr>))"

text \<open>\<open>BufReader\<close>: the count is advanced by the check that enough bytes remain.\<close>

definition buf_new :: "bytes \<Rightarrow> protocol_version \<Rightarrow> reader" where
  "buf_new buf version =
     \<lparr> rd_kind = BufReader, rd_input = buf, rd_version = version, rd_mode = DeserFull, rd_count = 0 \<rparr>"

definition has_remaining :: "nat \<Rightarrow> unit readable_fn" where
  "has_remaining len r =
     (if len \<le> length (rd_input r) then Inr ((), r \<lparr> rd_count := rd_count r + len \<rparr>)
      else Inl (IOErr UnexpectedEof))"

definition buf_get :: "nat \<Rightarrow> bytes readable_fn" where
  "buf_get len r =
     rbind (has_remaining len r) (\<lambda>(_, r).
       Inr (take len (rd_input r), r \<lparr> rd_input := drop len (rd_input r) \<rparr>))"

definition buf_read_fixed_bytes :: "nat \<Rightarrow> bytes readable_fn" where
  "buf_read_fixed_bytes len r = (if max_read_size < len then Inl TooLargeReadErr else buf_get len r)"

text \<open>The methods of the trait, for the three implementations.\<close>

definition read_fixed_bytes :: "nat \<Rightarrow> bytes readable_fn" where
  "read_fixed_bytes len r =
     (case rd_kind r of
        BinReader \<Rightarrow> bin_read_fixed_bytes len r
      | StreamingReader \<Rightarrow> streaming_read_fixed_bytes len r
      | BufReader \<Rightarrow> buf_read_fixed_bytes len r)"

text \<open>The bytes of a fixed-size integer.\<close>

definition read_int_bytes :: "nat \<Rightarrow> bytes readable_fn" where
  "read_int_bytes len r =
     (case rd_kind r of
        BinReader \<Rightarrow> read_exact len r
      | StreamingReader \<Rightarrow> streaming_read_fixed_bytes len r
      | BufReader \<Rightarrow> buf_get len r)"

definition read_u8 :: "u8 readable_fn" where
  "read_u8 r = rbind (read_int_bytes 1 r) (\<lambda>(b, r). Inr (of_nat (be_val b), r))"

definition read_u16 :: "u16 readable_fn" where
  "read_u16 r = rbind (read_int_bytes 2 r) (\<lambda>(b, r). Inr (of_nat (be_val b), r))"

definition read_u32 :: "u32 readable_fn" where
  "read_u32 r = rbind (read_int_bytes 4 r) (\<lambda>(b, r). Inr (of_nat (be_val b), r))"

definition read_u64 :: "u64 readable_fn" where
  "read_u64 r = rbind (read_int_bytes 8 r) (\<lambda>(b, r). Inr (of_nat (be_val b), r))"

definition read_i32 :: "u32 readable_fn" where
  "read_i32 r = rbind (read_int_bytes 4 r) (\<lambda>(b, r). Inr (of_nat (be_val b), r))"

definition read_i64 :: "u64 readable_fn" where
  "read_i64 r = rbind (read_int_bytes 8 r) (\<lambda>(b, r). Inr (of_nat (be_val b), r))"

definition bin_read_bytes_len_prefix :: "bytes readable_fn" where
  "bin_read_bytes_len_prefix r = rbind (read_u64 r) (\<lambda>(len, r). read_fixed_bytes (unat len) r)"

definition streaming_read_bytes_len_prefix :: "bytes readable_fn" where
  "streaming_read_bytes_len_prefix r =
     rbind (read_u64 r) (\<lambda>(len, r). read_fixed_bytes (unat len) (r \<lparr> rd_count := rd_count r + 8 \<rparr>))"

definition buf_read_bytes_len_prefix :: "bytes readable_fn" where
  "buf_read_bytes_len_prefix r = rbind (read_u64 r) (\<lambda>(len, r). read_fixed_bytes (unat len) r)"

definition read_bytes_len_prefix :: "bytes readable_fn" where
  "read_bytes_len_prefix r =
     (case rd_kind r of
        BinReader \<Rightarrow> bin_read_bytes_len_prefix r
      | StreamingReader \<Rightarrow> streaming_read_bytes_len_prefix r
      | BufReader \<Rightarrow> buf_read_bytes_len_prefix r)"

definition expect_u8 :: "u8 \<Rightarrow> u8 readable_fn" where
  "expect_u8 val r =
     rbind (read_u8 r) (\<lambda>(b, r). if b = val then Inr (b, r) else Inl (UnexpectedData [val] [b]))"

fun read_empty_bytes :: "nat \<Rightarrow> unit readable_fn" where
  "read_empty_bytes 0 r = Inr ((), r)"
| "read_empty_bytes (Suc n) r =
     rbind (read_u8 r) (\<lambda>(b, r). if b \<noteq> 0 then Inl CorruptedData else read_empty_bytes n r)"

text \<open>
  \<open>IteratingReader\<close> collected into a vector: at most \<open>count\<close> items, ending at the first one
  that fails to read.
\<close>

fun iterating_reader :: "'a readable_fn \<Rightarrow> nat \<Rightarrow> reader \<Rightarrow> 'a list \<times> reader" where
  "iterating_reader rd 0 r = ([], r)"
| "iterating_reader rd (Suc n) r =
     (case rd r of
        Inl _ \<Rightarrow> ([], r)
      | Inr (x, r') \<Rightarrow> (let (xs, r'') = iterating_reader rd n r' in (x # xs, r'')))"

definition read_multi :: "'a readable_fn \<Rightarrow> u64 \<Rightarrow> 'a list readable_fn" where
  "read_multi rd cnt r =
     (if 1000000 < cnt then Inl TooLargeReadErr
      else let (res, r') = iterating_reader rd (unat cnt) r
           in if of_nat (length res) \<noteq> cnt then Inl CountError else Inr (res, r'))"

section \<open>Sorted and unique\<close>

text \<open>
  \<open>VerifySortedAndUnique\<close> for \<open>Vec<T>\<close>; \<open>key\<close> is what \<open>Ord\<close> and \<open>Eq\<close> of \<open>T\<close> compare, the
  hash of the item for the types that use \<open>hashable_ord!\<close>.
\<close>

fun check_pairs :: "('a \<Rightarrow> 'k :: linorder) \<Rightarrow> ('a \<times> 'a) list \<Rightarrow> ser_error + unit" where
  "check_pairs key [] = Inr ()"
| "check_pairs key ((a, b) # ps) =
     (if key b < key a then Inl SortError
      else if key a = key b then Inl DuplicateError
      else check_pairs key ps)"

definition verify_sorted_and_unique :: "('a \<Rightarrow> 'k :: linorder) \<Rightarrow> 'a list \<Rightarrow> ser_error + unit" where
  "verify_sorted_and_unique key xs = check_pairs key (windows2 xs)"

section \<open>Readable and writeable types\<close>

record secp_sizes =
  pedersen_commitment_size :: nat
  max_proof_size :: nat
  agg_signature_size :: nat
  secret_key_size :: nat
  compressed_public_key_size :: nat

definition u8_write :: "u8 writeable" where "u8_write c n = Inr (write_u8 n)"
definition u16_write :: "u16 writeable" where "u16_write c n = Inr (write_u16 n)"
definition u32_write :: "u32 writeable" where "u32_write c n = Inr (write_u32 n)"
definition u64_write :: "u64 writeable" where "u64_write c n = Inr (write_u64 n)"

definition protocol_version_write :: "protocol_version writeable" where
  "protocol_version_write c v = Inr (write_u32 v)"

definition protocol_version_read :: "protocol_version readable_fn" where
  "protocol_version_read r = rbind (read_u32 r) (\<lambda>(v, r). Inr (v, r))"

definition commitment_read :: "secp_sizes \<Rightarrow> bytes readable_fn" where
  "commitment_read sz r = read_fixed_bytes (pedersen_commitment_size sz) r"

definition commitment_write :: "bytes writeable" where
  "commitment_write c cm = Inr (write_fixed_bytes cm)"

text \<open>\<open>BlindingFactor::from_slice\<close> and \<open>Identifier::from_bytes\<close> pad with zeros or cut.\<close>

definition pad_bytes :: "nat \<Rightarrow> bytes \<Rightarrow> bytes" where
  "pad_bytes n bs = take n bs @ replicate (n - length bs) 0"

definition blinding_factor_write :: "bytes writeable" where
  "blinding_factor_write c bf = Inr (write_fixed_bytes bf)"

definition blinding_factor_read :: "secp_sizes \<Rightarrow> bytes readable_fn" where
  "blinding_factor_read sz r =
     rbind (read_fixed_bytes (secret_key_size sz) r) (\<lambda>(b, r). Inr (pad_bytes (secret_key_size sz) b, r))"

definition identifier_size :: nat where
  "identifier_size = 17"

definition identifier_write :: "bytes writeable" where
  "identifier_write c i = Inr (write_fixed_bytes i)"

definition identifier_read :: "bytes readable_fn" where
  "identifier_read r =
     rbind (read_fixed_bytes identifier_size r) (\<lambda>(b, r). Inr (pad_bytes identifier_size b, r))"

record range_proof =
  plen :: nat
  proof_bytes :: bytes

definition range_proof_write :: "range_proof writeable" where
  "range_proof_write c p = Inr (write_bytes (take (plen p) (proof_bytes p)))"

definition range_proof_read :: "secp_sizes \<Rightarrow> range_proof readable_fn" where
  "range_proof_read sz r =
     rbind (read_u64 r) (\<lambda>(len, r).
       rbind (read_fixed_bytes (min (unat len) (max_proof_size sz)) r) (\<lambda>(p, r).
         Inr (\<lparr> plen = max_proof_size sz, proof_bytes = pad_bytes (max_proof_size sz) p \<rparr>, r)))"

definition range_proof_elmt_size :: "secp_sizes \<Rightarrow> nat" where
  "range_proof_elmt_size sz = 8 + max_proof_size sz"

definition signature_read :: "secp_sizes \<Rightarrow> bytes readable_fn" where
  "signature_read sz r = read_fixed_bytes (agg_signature_size sz) r"

definition signature_write :: "bytes writeable" where
  "signature_write c s = Inr (write_fixed_bytes s)"

text \<open>\<open>serialize_vec\<close> and \<open>from_slice\<close> of public keys are the library's.\<close>

definition public_key_write :: "('pk \<Rightarrow> bytes) \<Rightarrow> 'pk writeable" where
  "public_key_write serialize_vec c pk = Inr (write_fixed_bytes (serialize_vec pk))"

definition public_key_read :: "(bytes \<Rightarrow> 'pk option) \<Rightarrow> secp_sizes \<Rightarrow> 'pk readable_fn" where
  "public_key_read from_slice sz r =
     rbind (read_fixed_bytes (compressed_public_key_size sz) r) (\<lambda>(buf, r).
       rbind (ok_or CorruptedData (from_slice buf)) (\<lambda>pk. Inr (pk, r)))"

text \<open>
  Vectors without a count are read until the end of the input; the loop of the source has no other
  exit, so it does not return (\<open>None\<close>) when items read nothing. The position of a reader that met
  the end is not used afterwards; the model leaves it at the end.
\<close>

partial_function (option) vec_read_loop ::
    "'a readable_fn \<Rightarrow> 'a list \<Rightarrow> reader \<Rightarrow> (ser_error + 'a list \<times> reader) option" where
  "vec_read_loop rd buf r =
     (case rd r of
        Inr p \<Rightarrow> vec_read_loop rd (buf @ [fst p]) (snd p)
      | Inl e \<Rightarrow>
          if e = IOErr UnexpectedEof then Some (Inr (buf, r \<lparr> rd_input := [] \<rparr>)) else Some (Inl e))"

definition vec_read :: "'a readable_fn \<Rightarrow> reader \<Rightarrow> (ser_error + 'a list \<times> reader) option" where
  "vec_read rd r = vec_read_loop rd [] r"

fun vec_write :: "'a writeable \<Rightarrow> 'a list writeable" where
  "vec_write w c [] = Inr []"
| "vec_write w c (x # xs) = rbind (w c x) (\<lambda>b. rbind (vec_write w c xs) (\<lambda>bs. Inr (b @ bs)))"

definition pair_write :: "'a writeable \<Rightarrow> 'b writeable \<Rightarrow> ('a \<times> 'b) writeable" where
  "pair_write wa wb c p = rbind (wa c (fst p)) (\<lambda>a. rbind (wb c (snd p)) (\<lambda>b. Inr (a @ b)))"

definition pair_read :: "'a readable_fn \<Rightarrow> 'b readable_fn \<Rightarrow> ('a \<times> 'b) readable_fn" where
  "pair_read ra rb r = rbind (ra r) (\<lambda>(a, r). rbind (rb r) (\<lambda>(b, r). Inr ((a, b), r)))"

definition triple_write :: "'a writeable \<Rightarrow> 'b writeable \<Rightarrow> 'c writeable \<Rightarrow> ('a \<times> 'b \<times> 'c) writeable" where
  "triple_write wa wb wc c p =
     (case p of (x, y, z) \<Rightarrow>
        rbind (wa c x) (\<lambda>a. rbind (wb c y) (\<lambda>b. rbind (wc c z) (\<lambda>d. Inr (a @ b @ d)))))"

definition triple_read :: "'a readable_fn \<Rightarrow> 'b readable_fn \<Rightarrow> 'c readable_fn \<Rightarrow> ('a \<times> 'b \<times> 'c) readable_fn" where
  "triple_read ra rb rc r =
     rbind (ra r) (\<lambda>(a, r). rbind (rb r) (\<lambda>(b, r). rbind (rc r) (\<lambda>(d, r). Inr ((a, b, d), r))))"

text \<open>\<open>serialize\<close>, \<open>ser_vec\<close> and \<open>deserialize\<close>.\<close>

definition ser_vec :: "'a writeable \<Rightarrow> 'a \<Rightarrow> protocol_version \<Rightarrow> ser_error + bytes" where
  "ser_vec w thing version = w \<lparr> wr_version = version, wr_mode = SerFull \<rparr> thing"

definition deserialize ::
    "'a readable_fn \<Rightarrow> bytes \<Rightarrow> protocol_version \<Rightarrow> deserialization_mode \<Rightarrow> ser_error + 'a" where
  "deserialize rd source version mode = rbind (rd (bin_new source version mode)) (\<lambda>(x, _). Inr x)"

definition deserialize_default :: "'a readable_fn \<Rightarrow> bytes \<Rightarrow> ser_error + 'a" where
  "deserialize_default rd source = deserialize rd source local_version DeserFull"

section \<open>Hashes\<close>

type_synonym hash = bytes

definition hash_len :: nat where
  "hash_len = 32"

definition zero_hash :: hash where
  "zero_hash = replicate 32 0"

definition hash_from_vec :: "bytes \<Rightarrow> hash" where
  "hash_from_vec v = (let copy_size = min (length v) hash_len in take copy_size v @ replicate (hash_len - copy_size) 0)"

definition hash_to_u64 :: "hash \<Rightarrow> u64" where
  "hash_to_u64 h = of_nat (be_val (take 8 h))"

definition hash_read :: "hash readable_fn" where
  "hash_read r = read_fixed_bytes 32 r"

definition hash_write :: "hash writeable" where
  "hash_write c h = Inr (write_fixed_bytes h)"

text \<open>
  \<open>Hashed::hash\<close>: everything is written in hash mode, at the local protocol version, to the hash
  writer; \<open>blake2b\<close> is the library's function on 32 bytes of output. \<open>projr\<close> is \<open>unwrap\<close>.
\<close>

definition hash_ctx :: writer_ctx where
  "hash_ctx = \<lparr> wr_version = local_version, wr_mode = SerHash \<rparr>"

definition hash_of :: "(bytes \<Rightarrow> hash) \<Rightarrow> 'a writeable \<Rightarrow> 'a \<Rightarrow> hash" where
  "hash_of blake2b w x = blake2b (projr (w hash_ctx x))"

definition hash_with_index :: "(bytes \<Rightarrow> hash) \<Rightarrow> 'a writeable \<Rightarrow> 'a \<Rightarrow> u64 \<Rightarrow> hash" where
  "hash_with_index blake2b w x index = hash_of blake2b (pair_write u64_write w) (index, x)"

section \<open>Numbers as bytes\<close>

lemma length_be_bytes [simp]: "length (be_bytes n v) = n"
  by (induction n arbitrary: v) auto

lemma be_val_Nil [simp]: "be_val [] = 0"
  by (simp add: be_val_def)

lemma be_val_snoc [simp]: "be_val (bs @ [b]) = be_val bs * 256 + unat b"
  by (simp add: be_val_def)

lemma unat_of_nat_u8: "unat (of_nat v :: u8) = v mod 256"
  by (simp add: unat_of_nat)

lemma be_val_be_bytes: "be_val (be_bytes n v) = v mod 256 ^ n"
proof (induction n arbitrary: v)
  case (Suc n)
  have "v mod (256 * 256 ^ n) = 256 * (v div 256 mod 256 ^ n) + v mod 256"
    by (rule mod_mult2_eq)
  then show ?case using Suc by (simp add: unat_of_nat_u8)
qed simp

lemma be_val_less: "be_val bs < 256 ^ length bs"
proof (induction bs rule: rev_induct)
  case (snoc b bs)
  have "unat b < 256" using unsigned_less [of b] by simp
  then show ?case using snoc by simp
qed simp

lemma be_bytes_be_val: "be_bytes (length bs) (be_val bs) = bs"
proof (induction bs rule: rev_induct)
  case (snoc b bs)
  have b: "unat b < 256" using unsigned_less [of b] by simp
  have "(be_val bs * 256 + unat b) div 256 = be_val bs" using b by simp
  moreover have "(of_nat (be_val bs * 256 + unat b) :: u8) = b"
    using b by (intro word_unat_eq_iff [THEN iffD2]) (simp only: unat_of_nat, simp)
  ultimately show ?case using snoc by simp
qed simp

section \<open>Consuming input\<close>

text \<open>The reader after reading \<open>n\<close> bytes; \<open>BinReader\<close> does not count.\<close>

definition advance :: "nat \<Rightarrow> reader \<Rightarrow> reader" where
  "advance n r =
     r \<lparr> rd_input := drop n (rd_input r),
         rd_count := (if rd_kind r = BinReader then rd_count r else rd_count r + n) \<rparr>"

lemma advance_sel [simp]:
  "rd_input (advance n r) = drop n (rd_input r)" "rd_kind (advance n r) = rd_kind r"
  "rd_version (advance n r) = rd_version r" "rd_mode (advance n r) = rd_mode r"
  by (simp_all add: advance_def)

lemma advance_0 [simp]: "advance 0 r = r"
  by (simp add: advance_def)

lemma advance_advance [simp]: "advance n (advance m r) = advance (m + n) r"
  by (simp add: advance_def add.commute)

lemma read_exact_iff:
  "read_exact n r = (if n \<le> length (rd_input r)
     then Inr (take n (rd_input r), r \<lparr> rd_input := drop n (rd_input r) \<rparr>) else Inl (IOErr UnexpectedEof))"
  by (simp add: read_exact_def)

lemma read_int_bytes_eq:
  "read_int_bytes n r = (if n \<le> length (rd_input r)
     then Inr (take n (rd_input r), advance n r) else Inl (IOErr UnexpectedEof))"
  by (cases "rd_kind r") (auto simp: read_int_bytes_def read_exact_def streaming_read_fixed_bytes_def
      buf_get_def has_remaining_def advance_def)

lemma read_fixed_bytes_eq:
  "read_fixed_bytes n r =
     (if rd_kind r \<noteq> StreamingReader \<and> max_read_size < n then Inl TooLargeReadErr else read_int_bytes n r)"
  by (cases "rd_kind r") (auto simp: read_fixed_bytes_def bin_read_fixed_bytes_def
      buf_read_fixed_bytes_def read_int_bytes_def)

lemma read_int_bytes_append [simp]:
  "rd_input r = bs @ rest \<Longrightarrow> n = length bs \<Longrightarrow> read_int_bytes n r = Inr (bs, advance n r)"
  by (simp add: read_int_bytes_eq)

lemma read_fixed_bytes_append [simp]:
  "rd_input r = bs @ rest \<Longrightarrow> n = length bs \<Longrightarrow> n \<le> max_read_size \<Longrightarrow>
     read_fixed_bytes n r = Inr (bs, advance n r)"
  by (simp add: read_fixed_bytes_eq)

lemma of_nat_be_val_u8: "of_nat (be_val [b]) = (b :: u8)"
  by (simp add: be_val_def)

lemma of_nat_mod_word: "(of_nat (n mod 2 ^ LENGTH('a)) :: 'a :: len word) = of_nat n"
  by (rule word_unat_eq_iff [THEN iffD2]) (simp add: unat_of_nat)

lemma unat_less_pow: "unat (w :: 'a :: len word) < 2 ^ LENGTH('a)"
  by (rule unsigned_less)

lemma read_ints_append:
  "rd_input r = write_u8 a @ rest \<Longrightarrow> read_u8 r = Inr (a, advance 1 r)"
  "rd_input r = write_u16 b @ rest \<Longrightarrow> read_u16 r = Inr (b, advance 2 r)"
  "rd_input r = write_u32 c @ rest \<Longrightarrow> read_u32 r = Inr (c, advance 4 r)"
  "rd_input r = write_u64 d @ rest \<Longrightarrow> read_u64 r = Inr (d, advance 8 r)"
  "rd_input r = write_i32 e @ rest \<Longrightarrow> read_i32 r = Inr (e, advance 4 r)"
  "rd_input r = write_i64 f @ rest \<Longrightarrow> read_i64 r = Inr (f, advance 8 r)"
proof -
  show "rd_input r = write_u8 a @ rest \<Longrightarrow> read_u8 r = Inr (a, advance 1 r)"
    by (simp add: read_u8_def write_u8_def write_fixed_bytes_def read_int_bytes_eq of_nat_be_val_u8)
  have *: "rd_input r = be_bytes n v @ rest \<Longrightarrow>
      read_int_bytes n r = Inr (be_bytes n v, advance n r)" for n v
    by (rule read_int_bytes_append) auto
  show "rd_input r = write_u16 b @ rest \<Longrightarrow> read_u16 r = Inr (b, advance 2 r)"
    using * [of 2 "unat b"] unat_less_pow [of b]
    by (simp add: read_u16_def write_u16_def write_fixed_bytes_def be_val_be_bytes)
  show "rd_input r = write_u32 c @ rest \<Longrightarrow> read_u32 r = Inr (c, advance 4 r)"
    using * [of 4 "unat c"] unat_less_pow [of c]
    by (simp add: read_u32_def write_u32_def write_fixed_bytes_def be_val_be_bytes)
  show "rd_input r = write_u64 d @ rest \<Longrightarrow> read_u64 r = Inr (d, advance 8 r)"
    using * [of 8 "unat d"] unat_less_pow [of d]
    by (simp add: read_u64_def write_u64_def write_fixed_bytes_def be_val_be_bytes)
  show "rd_input r = write_i32 e @ rest \<Longrightarrow> read_i32 r = Inr (e, advance 4 r)"
    using * [of 4 "unat e"] unat_less_pow [of e]
    by (simp add: read_i32_def write_i32_def write_fixed_bytes_def be_val_be_bytes)
  show "rd_input r = write_i64 f @ rest \<Longrightarrow> read_i64 r = Inr (f, advance 8 r)"
    using * [of 8 "unat f"] unat_less_pow [of f]
    by (simp add: read_i64_def write_i64_def write_fixed_bytes_def be_val_be_bytes)
qed

text \<open>Conversely, the bytes a reading method consumed are those of the value it answers.\<close>

lemma be_bytes_word:
  "length bs = n \<Longrightarrow> (256 :: nat) ^ n \<le> 2 ^ LENGTH('a) \<Longrightarrow> be_bytes n (unat (of_nat (be_val bs) :: 'a :: len word)) = bs"
  using be_val_less [of bs] be_bytes_be_val [of bs]
  by (auto simp: unat_of_nat)

lemma read_ints_consumed:
  "read_u8 r = Inr (a, r') \<Longrightarrow> rd_input r = write_u8 a @ rd_input r'"
  "read_u16 r = Inr (b, r') \<Longrightarrow> rd_input r = write_u16 b @ rd_input r'"
  "read_u64 r = Inr (d, r') \<Longrightarrow> rd_input r = write_u64 d @ rd_input r'"
proof -
  have 2: "be_bytes 2 (unat (of_nat (be_val (take 2 xs)) :: u16)) = take 2 xs" if "2 \<le> length xs" for xs
    by (rule be_bytes_word) (use that in auto)
  have 8: "be_bytes 8 (unat (of_nat (be_val (take 8 xs)) :: u64)) = take 8 xs" if "8 \<le> length xs" for xs
    by (rule be_bytes_word) (use that in auto)
  show "read_u8 r = Inr (a, r') \<Longrightarrow> rd_input r = write_u8 a @ rd_input r'"
    by (cases "rd_input r") (auto simp: read_u8_def rbind_Inr_iff read_int_bytes_eq write_u8_def
        write_fixed_bytes_def of_nat_be_val_u8)
  show "read_u16 r = Inr (b, r') \<Longrightarrow> rd_input r = write_u16 b @ rd_input r'"
    using 2 [of "rd_input r"] by (auto simp: read_u16_def rbind_Inr_iff read_int_bytes_eq write_u16_def
        write_fixed_bytes_def split: if_splits)
  show "read_u64 r = Inr (d, r') \<Longrightarrow> rd_input r = write_u64 d @ rd_input r'"
    using 8 [of "rd_input r"] by (auto simp: read_u64_def rbind_Inr_iff read_int_bytes_eq write_u64_def
        write_fixed_bytes_def split: if_splits)
qed

lemma read_empty_bytes_consumed:
  "read_empty_bytes n r = Inr (u, r') \<Longrightarrow> rd_input r = write_empty_bytes n @ rd_input r'"
proof (induction n arbitrary: r)
  case (Suc n)
  then obtain r1 where r1: "read_u8 r = Inr (0, r1)" "read_empty_bytes n r1 = Inr (u, r')"
    by (auto simp: rbind_Inr_iff split: if_splits)
  then show ?case using read_ints_consumed(1) [OF r1(1)] Suc.IH [OF r1(2)]
    by (simp add: write_empty_bytes_def write_u8_def write_fixed_bytes_def)
qed (simp add: write_empty_bytes_def write_fixed_bytes_def)

lemma length_write_ints [simp]:
  "length (write_u8 a) = 1" "length (write_u16 b) = 2" "length (write_u32 c) = 4"
  "length (write_u64 d) = 8" "length (write_i32 e) = 4" "length (write_i64 f) = 8"
  by (simp_all add: write_u8_def write_u16_def write_u32_def write_u64_def write_i32_def
      write_i64_def write_fixed_bytes_def)

section \<open>The contract of serializable types\<close>

abbreviation full_ctx :: "protocol_version \<Rightarrow> writer_ctx" where
  "full_ctx v \<equiv> \<lparr> wr_version = v, wr_mode = SerFull \<rparr>"

text \<open>\<open>reads v r\<close>: a reader in full mode at protocol version \<open>v\<close>.\<close>

definition reads :: "protocol_version \<Rightarrow> reader \<Rightarrow> bool" where
  "reads v r \<longleftrightarrow> rd_version r = v \<and> rd_mode r = DeserFull"

lemma reads_advance [simp]: "reads v (advance n r) = reads v r"
  by (simp add: reads_def)

locale codec =
  fixes wr :: "'a writeable" and rd :: "'a readable_fn"
    and valid :: "protocol_version \<Rightarrow> 'a \<Rightarrow> bool"
  assumes round_trip: "\<And>v x. valid v x \<Longrightarrow>
      \<exists>bs. wr (full_ctx v) x = Inr bs \<and>
        (\<forall>r rest. reads v r \<and> rd_input r = bs @ rest \<longrightarrow> rd r = Inr (x, advance (length bs) r))"
begin

lemma codecE:
  assumes "valid v x"
  obtains bs where "wr (full_ctx v) x = Inr bs"
    and "\<And>r rest. reads v r \<Longrightarrow> rd_input r = bs @ rest \<Longrightarrow> rd r = Inr (x, advance (length bs) r)"
  using round_trip [OF assms] by blast

lemma read_written:
  assumes "valid v x" "wr (full_ctx v) x = Inr bs" "reads v r" "\<exists>rest. rd_input r = bs @ rest"
  shows "rd r = Inr (x, advance (length bs) r)"
  using codecE [OF assms(1)] assms(2-4) by (metis sum.inject(2))

lemma ser_deserialize:
  assumes "valid v x"
  shows "rbind (ser_vec wr x v) (\<lambda>bs. deserialize rd (bs @ rest) v DeserFull) = Inr x"
proof -
  obtain bs where bs: "wr (full_ctx v) x = Inr bs"
    "\<And>r rest. reads v r \<Longrightarrow> rd_input r = bs @ rest \<Longrightarrow> rd r = Inr (x, advance (length bs) r)"
    using codecE [OF assms] by blast
  have "rd (bin_new (bs @ rest) v DeserFull) = Inr (x, advance (length bs) (bin_new (bs @ rest) v DeserFull))"
    by (rule bs(2)) (simp_all add: bin_new_def reads_def)
  with bs(1) show ?thesis by (simp add: ser_vec_def deserialize_def)
qed

lemma iterating_round_trip:
  "\<forall>x \<in> set xs. valid v x \<Longrightarrow>
     \<exists>bs. vec_write wr (full_ctx v) xs = Inr bs \<and>
       (\<forall>r rest. reads v r \<and> rd_input r = bs @ rest \<longrightarrow>
          iterating_reader rd (length xs) r = (xs, advance (length bs) r))"
proof (induction xs)
  case (Cons x xs)
  then obtain bs where bs: "vec_write wr (full_ctx v) xs = Inr bs"
    "\<And>r rest. reads v r \<and> rd_input r = bs @ rest \<Longrightarrow>
       iterating_reader rd (length xs) r = (xs, advance (length bs) r)" by auto
  obtain b where b: "wr (full_ctx v) x = Inr b"
    "\<And>r rest. reads v r \<Longrightarrow> rd_input r = b @ rest \<Longrightarrow> rd r = Inr (x, advance (length b) r)"
    using codecE [of v x] Cons.prems by auto
  have "iterating_reader rd (length (x # xs)) r = (x # xs, advance (length (b @ bs)) r)"
    if "reads v r" "rd_input r = (b @ bs) @ rest" for r rest
    using b(2) [of r "bs @ rest"] bs(2) [of "advance (length b) r" rest] that by simp
  then show ?case using b(1) bs(1) by auto
qed simp

lemma read_multi_round_trip:
  assumes "\<forall>x \<in> set xs. valid v x" and "length xs \<le> 1000000"
  shows "\<exists>bs. vec_write wr (full_ctx v) xs = Inr bs \<and>
    (\<forall>r rest. reads v r \<and> rd_input r = bs @ rest \<longrightarrow>
       read_multi rd (of_nat (length xs)) r = Inr (xs, advance (length bs) r))"
proof -
  have u: "unat (of_nat (length xs) :: u64) = length xs"
    using assms(2) by (simp add: unat_of_nat)
  then have "\<not> 1000000 < (of_nat (length xs) :: u64)" using assms(2) by (simp add: word_less_nat_alt)
  then show ?thesis using iterating_round_trip [OF assms(1)] u by (fastforce simp: read_multi_def)
qed

end

lemma codecI:
  assumes "\<And>v x. valid v x \<Longrightarrow> wr (full_ctx v) x = Inr (enc v x)"
    and "\<And>v x r rest. valid v x \<Longrightarrow> reads v r \<Longrightarrow> rd_input r = enc v x @ rest \<Longrightarrow>
      rd r = Inr (x, advance (length (enc v x)) r)"
  shows "codec wr rd valid"
  using assms by unfold_locales blast

text \<open>\<open>upcoming bs r\<close>: the next bytes of the input are \<open>bs\<close>.\<close>

definition upcoming :: "bytes \<Rightarrow> reader \<Rightarrow> bool" where
  "upcoming bs r \<longleftrightarrow> (\<exists>rest. rd_input r = bs @ rest)"

lemma upcomingI: "rd_input r = bs @ rest \<Longrightarrow> upcoming bs r"
  by (auto simp: upcoming_def)

lemma upcoming_append: "upcoming (a @ b) r \<longleftrightarrow> upcoming a r \<and> upcoming b (advance (length a) r)"
  by (fastforce simp: upcoming_def append_eq_conv_conj)

lemma read_upcoming:
  "upcoming (write_u8 a) r \<Longrightarrow> read_u8 r = Inr (a, advance 1 r)"
  "upcoming (write_u16 b) r \<Longrightarrow> read_u16 r = Inr (b, advance 2 r)"
  "upcoming (write_u32 c) r \<Longrightarrow> read_u32 r = Inr (c, advance 4 r)"
  "upcoming (write_u64 d) r \<Longrightarrow> read_u64 r = Inr (d, advance 8 r)"
  "upcoming (write_i64 f) r \<Longrightarrow> read_i64 r = Inr (f, advance 8 r)"
  "upcoming bs r \<Longrightarrow> n = length bs \<Longrightarrow> n \<le> max_read_size \<Longrightarrow> read_fixed_bytes n r = Inr (bs, advance n r)"
  by (auto simp: upcoming_def dest: read_ints_append)

lemma read_empty_bytes_upcoming:
  "upcoming (write_empty_bytes n) r \<Longrightarrow> read_empty_bytes n r = Inr ((), advance n r)"
proof (induction n arbitrary: r)
  case (Suc n)
  have "write_empty_bytes (Suc n) = write_u8 0 @ write_empty_bytes n"
    by (simp add: write_empty_bytes_def write_u8_def write_fixed_bytes_def)
  with Suc show ?case by (auto simp: upcoming_append read_upcoming(1))
qed simp

lemma codec_upcomingI:
  assumes "\<And>v x. valid v x \<Longrightarrow> wr (full_ctx v) x = Inr (enc v x)"
    and "\<And>v x r. valid v x \<Longrightarrow> reads v r \<Longrightarrow> upcoming (enc v x) r \<Longrightarrow>
      rd r = Inr (x, advance (length (enc v x)) r)"
  shows "codec wr rd valid"
  by (rule codecI [where enc = enc]) (rule assms(1), assumption, rule assms(2) [OF _ _ upcomingI])

interpretation u8_codec: codec u8_write read_u8 "\<lambda>_ _. True"
  by (rule codecI [where enc = "\<lambda>_. write_u8"]) (auto simp: u8_write_def dest: read_ints_append(1))

interpretation u16_codec: codec u16_write read_u16 "\<lambda>_ _. True"
  by (rule codecI [where enc = "\<lambda>_. write_u16"]) (auto simp: u16_write_def dest: read_ints_append(2))

interpretation u32_codec: codec u32_write read_u32 "\<lambda>_ _. True"
  by (rule codecI [where enc = "\<lambda>_. write_u32"]) (auto simp: u32_write_def dest: read_ints_append(3))

interpretation u64_codec: codec u64_write read_u64 "\<lambda>_ _. True"
  by (rule codecI [where enc = "\<lambda>_. write_u64"]) (auto simp: u64_write_def dest: read_ints_append(4))

interpretation protocol_version_codec: codec protocol_version_write protocol_version_read "\<lambda>_ _. True"
  by (rule codecI [where enc = "\<lambda>_. write_u32"])
    (auto simp: protocol_version_write_def protocol_version_read_def dest: read_ints_append(3))

interpretation hash_codec: codec hash_write hash_read "\<lambda>_ h. length h = 32"
  by (rule codecI [where enc = "\<lambda>_ h. h"])
    (auto simp: hash_write_def hash_read_def write_fixed_bytes_def max_read_size_def)

interpretation identifier_codec: codec identifier_write identifier_read "\<lambda>_ i. length i = identifier_size"
  by (rule codecI [where enc = "\<lambda>_ h. h"])
    (auto simp: identifier_write_def identifier_read_def write_fixed_bytes_def max_read_size_def
      pad_bytes_def identifier_size_def)

interpretation commitment_codec: codec commitment_write "commitment_read sz"
    "\<lambda>_ cm. length cm = pedersen_commitment_size sz \<and> pedersen_commitment_size sz \<le> max_read_size" for sz
  by (rule codecI [where enc = "\<lambda>_ h. h"])
    (auto simp: commitment_write_def commitment_read_def write_fixed_bytes_def)

interpretation blinding_factor_codec: codec blinding_factor_write "blinding_factor_read sz"
    "\<lambda>_ b. length b = secret_key_size sz \<and> secret_key_size sz \<le> max_read_size" for sz
  by (rule codecI [where enc = "\<lambda>_ h. h"])
    (auto simp: blinding_factor_write_def blinding_factor_read_def write_fixed_bytes_def pad_bytes_def)

interpretation signature_codec: codec signature_write "signature_read sz"
    "\<lambda>_ s. length s = agg_signature_size sz \<and> agg_signature_size sz \<le> max_read_size" for sz
  by (rule codecI [where enc = "\<lambda>_ h. h"])
    (auto simp: signature_write_def signature_read_def write_fixed_bytes_def)

lemma pair_codec:
  assumes "codec wa ra va" and "codec wb rb vb"
  shows "codec (pair_write wa wb) (pair_read ra rb) (\<lambda>v p. va v (fst p) \<and> vb v (snd p))"
proof (unfold_locales, elim conjE)
  fix v and p :: "'a \<times> 'b"
  assume "va v (fst p)" and "vb v (snd p)"
  obtain a where a: "wa (full_ctx v) (fst p) = Inr a"
    "\<And>r rest. reads v r \<Longrightarrow> rd_input r = a @ rest \<Longrightarrow> ra r = Inr (fst p, advance (length a) r)"
    using codec.codecE [OF assms(1) \<open>va v (fst p)\<close>] by blast
  obtain b where b: "wb (full_ctx v) (snd p) = Inr b"
    "\<And>r rest. reads v r \<Longrightarrow> rd_input r = b @ rest \<Longrightarrow> rb r = Inr (snd p, advance (length b) r)"
    using codec.codecE [OF assms(2) \<open>vb v (snd p)\<close>] by blast
  have "pair_read ra rb r = Inr (p, advance (length (a @ b)) r)"
    if "reads v r" "rd_input r = (a @ b) @ rest" for r rest
    using a(2) [of r "b @ rest"] b(2) [of "advance (length a) r" rest] that by (simp add: pair_read_def)
  then show "\<exists>bs. pair_write wa wb (full_ctx v) p = Inr bs \<and>
      (\<forall>r rest. reads v r \<and> rd_input r = bs @ rest \<longrightarrow> pair_read ra rb r = Inr (p, advance (length bs) r))"
    using a(1) b(1) by (auto simp: pair_write_def)
qed

text \<open>Types whose readers report the end of the input can be read as uncounted vectors.\<close>

locale eof_codec = codec +
  assumes eof: "\<And>r. rd_input r = [] \<Longrightarrow> rd r = Inl (IOErr UnexpectedEof)"
begin

lemma vec_read_loop_round_trip:
  "\<forall>x \<in> set xs. valid v x \<Longrightarrow> vec_write wr (full_ctx v) xs = Inr bs \<Longrightarrow>
     reads v r \<Longrightarrow> rd_input r = bs \<Longrightarrow>
     vec_read_loop rd buf r = Some (Inr (buf @ xs, advance (length bs) r))"
proof (induction xs arbitrary: bs r buf)
  case Nil
  then have "advance 0 r \<lparr> rd_input := [] \<rparr> = r" by simp
  then show ?case using Nil eof [of r] by (subst vec_read_loop.simps) simp
next
  case (Cons x xs)
  obtain b where b: "wr (full_ctx v) x = Inr b"
    "\<And>r rest. reads v r \<Longrightarrow> rd_input r = b @ rest \<Longrightarrow> rd r = Inr (x, advance (length b) r)"
    using codecE [of v x] Cons.prems(1) by auto
  with Cons.prems(2) obtain bs' where bs': "vec_write wr (full_ctx v) xs = Inr bs'" "bs = b @ bs'"
    by (auto simp: rbind_Inr_iff)
  then show ?case
    using b(2) [of r bs'] Cons.IH [of bs' "advance (length b) r" "buf @ [x]"] Cons.prems
    by (subst vec_read_loop.simps) simp
qed

end

interpretation u64_codec: eof_codec u64_write read_u64 "\<lambda>_ _. True"
  by unfold_locales (simp add: read_u64_def read_int_bytes_eq)

interpretation hash_codec: eof_codec hash_write hash_read "\<lambda>_ h. length h = 32"
  by unfold_locales (simp add: hash_read_def read_fixed_bytes_eq read_int_bytes_eq max_read_size_def)

section \<open>Counted and sorted lists\<close>

text \<open>The reference for \<open>read_multi\<close>: read that many items one after the other.\<close>

fun read_n :: "'a readable_fn \<Rightarrow> nat \<Rightarrow> 'a list readable_fn" where
  "read_n rd 0 r = Inr ([], r)"
| "read_n rd (Suc n) r = rbind (rd r) (\<lambda>(x, r). rbind (read_n rd n r) (\<lambda>(xs, r). Inr (x # xs, r)))"

lemma iterating_reader_length: "length (fst (iterating_reader rd n r)) \<le> n"
proof (induction n arbitrary: r)
  case (Suc n)
  then show ?case by (cases "rd r") (auto simp: Let_def split_beta)
qed simp

lemma iterating_reader_read_n:
  "(case read_n rd n r of Inr p \<Rightarrow> iterating_reader rd n r = p \<and> length (fst p) = n
      | Inl _ \<Rightarrow> length (fst (iterating_reader rd n r)) < n)"
proof (induction n arbitrary: r)
  case (Suc n)
  show ?case
  proof (cases "rd r")
    case (Inr p)
    then show ?thesis
      using Suc [of "snd p"] by (cases p) (auto simp: Let_def split: sum.splits prod.splits)
  qed simp
qed simp

lemma check_pairs_ok_iff: "check_pairs key ps = Inr () \<longleftrightarrow> (\<forall>(a, b) \<in> set ps. key a < key b)"
  by (induction key ps rule: check_pairs.induct) (auto split: if_splits)

lemma verify_sorted_iff:
  "verify_sorted_and_unique key xs = Inr () \<longleftrightarrow> sorted_wrt (\<lambda>a b. key a < key b) xs"
proof -
  have "transp (\<lambda>a b. key a < key b)" by (auto intro: transpI)
  from windows2_sorted_wrt [OF this, of xs] show ?thesis
    by (auto simp: verify_sorted_and_unique_def check_pairs_ok_iff)
qed

lemma check_pairs_errors: "check_pairs key ps \<in> {Inr (), Inl SortError, Inl DuplicateError}"
  by (induction key ps rule: check_pairs.induct) auto

section \<open>Properties\<close>

text \<open>integers of every width round trip through every kind of reader: what was written is
  read back, exactly its bytes are consumed, and the bytes are counted.\<close>

theorem ints_round_trip:
  "read_u8 (r \<lparr> rd_input := write_u8 a @ rest \<rparr>) = Inr (a, advance 1 (r \<lparr> rd_input := write_u8 a @ rest \<rparr>)) \<and>
   read_u16 (r \<lparr> rd_input := write_u16 b @ rest \<rparr>) = Inr (b, advance 2 (r \<lparr> rd_input := write_u16 b @ rest \<rparr>)) \<and>
   read_u32 (r \<lparr> rd_input := write_u32 c @ rest \<rparr>) = Inr (c, advance 4 (r \<lparr> rd_input := write_u32 c @ rest \<rparr>)) \<and>
   read_u64 (r \<lparr> rd_input := write_u64 d @ rest \<rparr>) = Inr (d, advance 8 (r \<lparr> rd_input := write_u64 d @ rest \<rparr>)) \<and>
   read_i32 (r \<lparr> rd_input := write_i32 e @ rest \<rparr>) = Inr (e, advance 4 (r \<lparr> rd_input := write_i32 e @ rest \<rparr>)) \<and>
   read_i64 (r \<lparr> rd_input := write_i64 f @ rest \<rparr>) = Inr (f, advance 8 (r \<lparr> rd_input := write_i64 f @ rest \<rparr>))"
  by (intro conjI read_ints_append) simp_all

text \<open>\<open>read_multi\<close> refuses more than a million items, and otherwise is the reading of that
  many items one after the other, with every failure reported as a count error.\<close>

theorem read_multi_correct:
  "read_multi rd cnt r =
     (if 1000000 < cnt then Inl TooLargeReadErr
      else case read_n rd (unat cnt) r of Inl _ \<Rightarrow> Inl CountError | Inr p \<Rightarrow> Inr p)"
proof (cases "1000000 < cnt")
  case False
  have eq: "(of_nat n :: u64) = cnt \<longleftrightarrow> n = unat cnt" if "n \<le> unat cnt" for n
    using that unat_less_pow [of cnt] by (auto simp: word_unat_eq_iff unat_of_nat)
  show ?thesis
    using False iterating_reader_read_n [of rd "unat cnt" r] eq [of "length (fst (iterating_reader rd (unat cnt) r))"]
      iterating_reader_length [of rd "unat cnt" r]
    by (auto simp: read_multi_def Let_def split: sum.splits prod.splits)
qed (simp add: read_multi_def)



text \<open>the serde representation of \<open>io::ErrorKind\<close> can be read back, from the name and from
  the index; kinds the code does not know come back as \<open>Other\<close>.\<close>

theorem error_kind_round_trip:
  "visit_enum (visit_str (snd (serialize_error_kind k))) =
     Some (case k of Unlisted _ \<Rightarrow> Other | _ \<Rightarrow> k) \<and>
   visit_enum (visit_u64 (of_nat (fst (serialize_error_kind k)))) =
     Some (case k of Unlisted _ \<Rightarrow> Other | _ \<Rightarrow> k)"
  by (cases k) (simp_all add: serialize_error_kind_def visit_str_def visit_enum_def visit_u64_def
      error_kind_arms_def)

text \<open>C11: a length-prefixed byte string is read back by a \<open>StreamingReader\<close>, but the reader's
  count of bytes read is eight more than the bytes it consumed: the prefix is counted twice.\<close>

theorem streaming_len_prefix_overcounts:
  assumes "length bs < 2 ^ 64"
  shows "\<exists>r. read_bytes_len_prefix (streaming_new (write_bytes bs @ rest) v) = Inr (bs, r) \<and>
    rd_input r = rest \<and> rd_count r = length (write_bytes bs) + 8"
proof -
  let ?r = "streaming_new (write_bytes bs @ rest) v"
  let ?r' = "advance 8 ?r \<lparr> rd_count := rd_count (advance 8 ?r) + 8 \<rparr>"
  have "read_u64 ?r = Inr (of_nat (length bs), advance 8 ?r)"
    by (rule read_ints_append(4) [of _ _ "bs @ rest"])
      (simp add: streaming_new_def write_bytes_def write_fixed_bytes_def)
  moreover have "unat (of_nat (length bs) :: u64) = length bs" using assms by (simp add: unat_of_nat)
  moreover have "rd_input ?r' = bs @ rest"
    by (simp add: streaming_new_def write_bytes_def write_fixed_bytes_def)
  then have "read_fixed_bytes (length bs) ?r' = Inr (bs, advance (length bs) ?r')"
    by (simp add: read_fixed_bytes_eq streaming_new_def)
  ultimately have "read_bytes_len_prefix ?r = Inr (bs, advance (length bs) ?r')"
    by (simp add: read_bytes_len_prefix_def streaming_read_bytes_len_prefix_def streaming_new_def)
  then show ?thesis
    by (auto simp: advance_def streaming_new_def write_bytes_def write_fixed_bytes_def)
qed

lemma streaming_len_prefix_overcounts_witness:
  "\<exists>r. read_bytes_len_prefix (streaming_new (write_bytes [7, 9] @ [1]) 1) = Inr ([7, 9], r) \<and>
    rd_input r = [1] \<and> rd_count r = 18"
  using streaming_len_prefix_overcounts [of "[7, 9]" "[1]" 1]
  by (simp add: write_bytes_def write_fixed_bytes_def)



end
