(* ===== verification/Consensus.thy ===== *)
theory Consensus
  imports Ser
begin

text \<open>
  Consensus rules that are functions of height, timestamps and difficulties
  (\<open>core/src/consensus.rs\<close>), the parameters of the different chains (\<open>core/src/global.rs\<close>)
  and the \<open>Difficulty\<close> type (\<open>core/src/pow/types.rs\<close>).

  Arithmetic is on \<open>u64\<close> words and wraps as it does in a release build; the theorems state the
  bounds under which it does not. The chain type, which the code reads from thread-local and
  global cells, is an argument of the definitions; the cells themselves are modelled at the end.
\<close>

unbundle bit_operations_syntax

section \<open>Constants\<close>

definition grin_base :: u64 where "grin_base = 1000000000"
definition milli_grin :: u64 where "milli_grin = grin_base div 1000"
definition micro_grin :: u64 where "micro_grin = milli_grin div 1000"
definition nano_grin :: u64 where "nano_grin = 1"
definition block_time_sec :: u64 where "block_time_sec = 60"
definition reward_base :: u64 where "reward_base = block_time_sec * grin_base"

definition reward :: "u64 \<Rightarrow> u64" where
  "reward fee = sat_add reward_base fee"

definition hour_sec :: u64 where "hour_sec = 60 * 60"
definition hour_height :: u64 where "hour_height = hour_sec div block_time_sec"
definition day_height :: u64 where "day_height = 24 * hour_height"
definition week_height :: u64 where "week_height = 7 * day_height"
definition year_height :: u64 where "year_height = 52 * week_height"
definition coinbase_maturity_const :: u64 where "coinbase_maturity_const = day_height"

definition secondary_pow_ratio :: "u64 \<Rightarrow> u64" where
  "secondary_pow_ratio height = sat_sub 90 (height div (2 * year_height div 90))"

definition proofsize_const :: nat where "proofsize_const = 42"
definition default_min_edge_bits :: u8 where "default_min_edge_bits = 31"
definition second_pow_edge_bits :: u8 where "second_pow_edge_bits = 29"
definition base_edge_bits_const :: u8 where "base_edge_bits_const = 24"
definition cut_through_horizon_const :: u32 where "cut_through_horizon_const = ucast week_height"
definition state_sync_threshold_const :: u32 where "state_sync_threshold_const = 2 * ucast day_height"
definition input_weight :: u64 where "input_weight = 1"
definition output_weight :: u64 where "output_weight = 21"
definition kernel_weight :: u64 where "kernel_weight = 3"
definition max_block_weight_const :: u64 where "max_block_weight_const = 40000"
definition hard_fork_interval :: u64 where "hard_fork_interval = year_height div 2"
definition testnet_first_hard_fork :: u64 where "testnet_first_hard_fork = 185040"
definition testnet_second_hard_fork :: u64 where "testnet_second_hard_fork = 298080"
definition testnet_third_hard_fork :: u64 where "testnet_third_hard_fork = 552960"
definition testnet_fourth_hard_fork :: u64 where "testnet_fourth_hard_fork = 642240"
definition testing_hard_fork_interval :: u64 where "testing_hard_fork_interval = 3"
definition dma_window :: u64 where "dma_window = hour_height"
definition wtema_half_life :: u64 where "wtema_half_life = 4 * hour_sec"
definition block_time_window :: u64 where "block_time_window = dma_window * block_time_sec"
definition clamp_factor :: u64 where "clamp_factor = 2"
definition dma_damp_factor :: u64 where "dma_damp_factor = 3"
definition ar_scale_damp_factor :: u64 where "ar_scale_damp_factor = 13"
definition min_dma_difficulty :: u64 where "min_dma_difficulty = dma_damp_factor"
definition min_ar_scale :: u64 where "min_ar_scale = ar_scale_damp_factor"

lemmas constants =
  grin_base_def milli_grin_def micro_grin_def nano_grin_def block_time_sec_def reward_base_def
  hour_sec_def hour_height_def day_height_def week_height_def year_height_def
  coinbase_maturity_const_def proofsize_const_def default_min_edge_bits_def
  second_pow_edge_bits_def base_edge_bits_const_def cut_through_horizon_const_def
  state_sync_threshold_const_def input_weight_def output_weight_def kernel_weight_def
  max_block_weight_const_def hard_fork_interval_def testnet_first_hard_fork_def
  testnet_second_hard_fork_def testnet_third_hard_fork_def testnet_fourth_hard_fork_def
  testing_hard_fork_interval_def dma_window_def wtema_half_life_def block_time_window_def
  clamp_factor_def dma_damp_factor_def ar_scale_damp_factor_def min_dma_difficulty_def
  min_ar_scale_def

section \<open>Chain types\<close>

datatype chain_types = AutomatedTesting | UserTesting | Testnet | Mainnet

definition shortname :: "chain_types \<Rightarrow> string" where
  "shortname ct =
     (case ct of AutomatedTesting \<Rightarrow> ''auto'' | UserTesting \<Rightarrow> ''user'' | Testnet \<Rightarrow> ''test''
      | Mainnet \<Rightarrow> ''main'')"

definition automated_testing_min_edge_bits :: u8 where "automated_testing_min_edge_bits = 10"
definition automated_testing_proof_size :: nat where "automated_testing_proof_size = 8"
definition user_testing_min_edge_bits :: u8 where "user_testing_min_edge_bits = 15"
definition user_testing_proof_size :: nat where "user_testing_proof_size = 42"
definition testing_coinbase_maturity :: u64 where "testing_coinbase_maturity = 3"
definition automated_testing_cut_through_horizon :: u32 where "automated_testing_cut_through_horizon = 20"
definition user_testing_cut_through_horizon :: u32 where "user_testing_cut_through_horizon = 70"
definition testing_state_sync_threshold :: u32 where "testing_state_sync_threshold = 20"
definition testing_initial_difficulty :: u64 where "testing_initial_difficulty = 1"
definition testing_max_block_weight :: u64 where "testing_max_block_weight = 250"
definition default_accept_fee_base :: u64 where "default_accept_fee_base = grin_base div 100 div 20"
definition default_future_time_limit :: u64 where "default_future_time_limit = 5 * 60"
definition testing_txhashset_archive_interval :: u64 where "testing_txhashset_archive_interval = 10"
definition txhashset_archive_interval_const :: u64 where "txhashset_archive_interval_const = 12 * 60"

lemmas chain_constants =
  automated_testing_min_edge_bits_def automated_testing_proof_size_def user_testing_min_edge_bits_def
  user_testing_proof_size_def testing_coinbase_maturity_def automated_testing_cut_through_horizon_def
  user_testing_cut_through_horizon_def testing_state_sync_threshold_def testing_initial_difficulty_def
  testing_max_block_weight_def default_accept_fee_base_def default_future_time_limit_def
  testing_txhashset_archive_interval_def txhashset_archive_interval_const_def

definition min_edge_bits :: "chain_types \<Rightarrow> u8" where
  "min_edge_bits ct =
     (case ct of AutomatedTesting \<Rightarrow> automated_testing_min_edge_bits
      | UserTesting \<Rightarrow> user_testing_min_edge_bits | _ \<Rightarrow> default_min_edge_bits)"

definition base_edge_bits :: "chain_types \<Rightarrow> u8" where
  "base_edge_bits ct =
     (case ct of AutomatedTesting \<Rightarrow> automated_testing_min_edge_bits
      | UserTesting \<Rightarrow> user_testing_min_edge_bits | _ \<Rightarrow> base_edge_bits_const)"

definition proofsize :: "chain_types \<Rightarrow> nat" where
  "proofsize ct =
     (case ct of AutomatedTesting \<Rightarrow> automated_testing_proof_size
      | UserTesting \<Rightarrow> user_testing_proof_size | _ \<Rightarrow> proofsize_const)"

definition coinbase_maturity :: "chain_types \<Rightarrow> u64" where
  "coinbase_maturity ct =
     (case ct of AutomatedTesting \<Rightarrow> testing_coinbase_maturity
      | UserTesting \<Rightarrow> testing_coinbase_maturity | _ \<Rightarrow> coinbase_maturity_const)"

definition header_version :: "chain_types \<Rightarrow> u64 \<Rightarrow> u16" where
  "header_version ct height =
     (let hf_interval = ucast (1 + height div hard_fork_interval) :: u16
      in case ct of
           Mainnet \<Rightarrow> min 5 hf_interval
         | AutomatedTesting \<Rightarrow> min 5 (ucast (1 + height div testing_hard_fork_interval))
         | UserTesting \<Rightarrow> min 5 (ucast (1 + height div testing_hard_fork_interval))
         | Testnet \<Rightarrow>
             (if height < testnet_first_hard_fork then 1
              else if height < testnet_second_hard_fork then 2
              else if height < testnet_third_hard_fork then 3
              else if height < testnet_fourth_hard_fork then 4
              else 5))"

definition valid_header_version :: "chain_types \<Rightarrow> u64 \<Rightarrow> u16 \<Rightarrow> bool" where
  "valid_header_version ct height version \<longleftrightarrow> version = header_version ct height"

text \<open>A shift by \<open>n\<close> takes \<open>n\<close> modulo the width.\<close>

definition graph_weight :: "chain_types \<Rightarrow> u64 \<Rightarrow> u8 \<Rightarrow> u64" where
  "graph_weight ct height edge_bits =
     (let expiry_height = year_height;
          xpr_edge_bits = (if edge_bits = 31 \<and> expiry_height \<le> height
            then sat_sub (ucast edge_bits) (1 + (height - expiry_height) div week_height)
            else ucast edge_bits) :: u64
      in push_bit (unat (edge_bits - base_edge_bits ct) mod 64) 2 * xpr_edge_bits)"

definition c32_graph_weight :: u64 where
  "c32_graph_weight = push_bit (unat (32 - base_edge_bits_const)) 2 * 32"

definition unit_difficulty :: u64 where
  "unit_difficulty = push_bit (unat (second_pow_edge_bits - base_edge_bits_const)) 2 * ucast second_pow_edge_bits"

definition initial_difficulty :: u64 where
  "initial_difficulty = 1000000 * unit_difficulty"

definition initial_block_difficulty :: "chain_types \<Rightarrow> u64" where
  "initial_block_difficulty ct =
     (case ct of AutomatedTesting \<Rightarrow> testing_initial_difficulty
      | UserTesting \<Rightarrow> testing_initial_difficulty | _ \<Rightarrow> initial_difficulty)"

definition initial_graph_weight :: "chain_types \<Rightarrow> u32" where
  "initial_graph_weight ct =
     (case ct of
        AutomatedTesting \<Rightarrow> ucast (graph_weight ct 0 automated_testing_min_edge_bits)
      | UserTesting \<Rightarrow> ucast (graph_weight ct 0 user_testing_min_edge_bits)
      | _ \<Rightarrow> ucast (graph_weight ct 0 second_pow_edge_bits))"

definition min_wtema_graph_weight :: "chain_types \<Rightarrow> u64" where
  "min_wtema_graph_weight ct =
     (case ct of
        AutomatedTesting \<Rightarrow> graph_weight ct 0 automated_testing_min_edge_bits
      | UserTesting \<Rightarrow> graph_weight ct 0 user_testing_min_edge_bits
      | Testnet \<Rightarrow> graph_weight ct 0 second_pow_edge_bits
      | Mainnet \<Rightarrow> c32_graph_weight)"

definition max_block_weight :: "chain_types \<Rightarrow> u64" where
  "max_block_weight ct =
     (case ct of AutomatedTesting \<Rightarrow> testing_max_block_weight | UserTesting \<Rightarrow> testing_max_block_weight
      | _ \<Rightarrow> max_block_weight_const)"

definition max_tx_weight :: "chain_types \<Rightarrow> u64" where
  "max_tx_weight ct = sat_sub (max_block_weight ct) (output_weight + kernel_weight)"

definition cut_through_horizon :: "chain_types \<Rightarrow> u32" where
  "cut_through_horizon ct =
     (case ct of AutomatedTesting \<Rightarrow> automated_testing_cut_through_horizon
      | UserTesting \<Rightarrow> user_testing_cut_through_horizon | _ \<Rightarrow> cut_through_horizon_const)"

definition state_sync_threshold :: "chain_types \<Rightarrow> u32" where
  "state_sync_threshold ct =
     (case ct of AutomatedTesting \<Rightarrow> testing_state_sync_threshold
      | UserTesting \<Rightarrow> testing_state_sync_threshold | _ \<Rightarrow> state_sync_threshold_const)"

definition txhashset_archive_interval :: "chain_types \<Rightarrow> u64" where
  "txhashset_archive_interval ct =
     (case ct of AutomatedTesting \<Rightarrow> testing_txhashset_archive_interval
      | UserTesting \<Rightarrow> testing_txhashset_archive_interval | _ \<Rightarrow> txhashset_archive_interval_const)"

definition is_production_mode :: "chain_types \<Rightarrow> bool" where
  "is_production_mode ct \<longleftrightarrow> ct = Testnet \<or> ct = Mainnet"

definition is_testnet :: "chain_types \<Rightarrow> bool" where
  "is_testnet ct \<longleftrightarrow> ct = Testnet"

section \<open>Difficulty\<close>

text \<open>\<open>Difficulty\<close> is a wrapper of one number; its operators are those of \<open>u64\<close>.\<close>

datatype difficulty = Difficulty (to_num: u64)

definition difficulty_zero :: difficulty where "difficulty_zero = Difficulty 0"
definition min_dma :: difficulty where "min_dma = Difficulty min_dma_difficulty"

definition min_wtema :: "chain_types \<Rightarrow> difficulty" where
  "min_wtema ct = Difficulty (min_wtema_graph_weight ct)"

definition difficulty_unit :: "chain_types \<Rightarrow> difficulty" where
  "difficulty_unit ct = Difficulty (ucast (initial_graph_weight ct))"

definition from_num :: "u64 \<Rightarrow> difficulty" where
  "from_num num = Difficulty (max num 1)"

definition difficulty_add :: "difficulty \<Rightarrow> difficulty \<Rightarrow> difficulty" where
  "difficulty_add a b = Difficulty (to_num a + to_num b)"

definition difficulty_sub :: "difficulty \<Rightarrow> difficulty \<Rightarrow> difficulty" where
  "difficulty_sub a b = Difficulty (to_num a - to_num b)"

definition difficulty_max :: "difficulty \<Rightarrow> difficulty \<Rightarrow> difficulty" where
  "difficulty_max a b = (if to_num a \<le> to_num b then b else a)"

definition difficulty_write :: "difficulty writeable" where
  "difficulty_write c d = Inr (write_u64 (to_num d))"

definition difficulty_read :: "difficulty readable_fn" where
  "difficulty_read r = rbind (read_u64 r) (\<lambda>(data, r). Inr (Difficulty data, r))"

section \<open>Difficulty adjustment\<close>

record header_difficulty_info =
  hdi_hash :: "hash option"
  hdi_timestamp :: u64
  hdi_difficulty :: difficulty
  hdi_secondary_scaling :: u32
  hdi_is_secondary :: bool

definition from_ts_diff :: "chain_types \<Rightarrow> u64 \<Rightarrow> difficulty \<Rightarrow> header_difficulty_info" where
  "from_ts_diff ct ts d =
     \<lparr> hdi_hash = None, hdi_timestamp = ts, hdi_difficulty = d,
       hdi_secondary_scaling = initial_graph_weight ct, hdi_is_secondary = True \<rparr>"

definition from_diff_scaling :: "difficulty \<Rightarrow> u32 \<Rightarrow> header_difficulty_info" where
  "from_diff_scaling d scaling =
     \<lparr> hdi_hash = None, hdi_timestamp = 1, hdi_difficulty = d,
       hdi_secondary_scaling = scaling, hdi_is_secondary = True \<rparr>"

definition damp :: "u64 \<Rightarrow> u64 \<Rightarrow> u64 \<Rightarrow> u64" where
  "damp actual goal damp_factor = (actual + (damp_factor - 1) * goal) div damp_factor"

definition clamp :: "u64 \<Rightarrow> u64 \<Rightarrow> u64 \<Rightarrow> u64" where
  "clamp actual goal factor = max (goal div factor) (min actual (goal * factor))"

fun pad_headers ::
    "chain_types \<Rightarrow> u64 \<Rightarrow> difficulty \<Rightarrow> nat \<Rightarrow> u64 \<Rightarrow> header_difficulty_info list" where
  "pad_headers ct delta d 0 last_ts = []"
| "pad_headers ct delta d (Suc n) last_ts =
     (let last_ts = sat_sub last_ts delta
      in from_ts_diff ct last_ts d # pad_headers ct delta d n last_ts)"

text \<open>
  The cursor is the list of headers from the latest to the oldest; indexing an empty list panics
  in the source, so the result is an option.
\<close>

definition difficulty_data_to_vector ::
    "chain_types \<Rightarrow> header_difficulty_info list \<Rightarrow> header_difficulty_info list option" where
  "difficulty_data_to_vector ct cursor =
     (let needed_block_count = unat dma_window + 1;
          last_n = take needed_block_count cursor;
          n = length last_n
      in if n < needed_block_count then
           (if n = 0 then None
            else
              let last_ts_delta = (if 1 < n then hdi_timestamp (last_n ! 0) - hdi_timestamp (last_n ! 1)
                                   else block_time_sec);
                  last_diff = hdi_difficulty (last_n ! 0);
                  last_ts = hdi_timestamp (last last_n)
              in Some (rev (last_n @ pad_headers ct last_ts_delta last_diff (needed_block_count - n) last_ts)))
         else Some (rev last_n))"

definition ar_count :: "header_difficulty_info list \<Rightarrow> u64" where
  "ar_count diff_data = 100 * of_nat (length (filter hdi_is_secondary diff_data))"

definition secondary_pow_scaling :: "u64 \<Rightarrow> header_difficulty_info list \<Rightarrow> u32" where
  "secondary_pow_scaling height diff_data =
     (let scale_sum = sum_list (map (\<lambda>dd. ucast (hdi_secondary_scaling dd)) diff_data);
          target_pct = secondary_pow_ratio height;
          target_count = dma_window * target_pct;
          adj_count = clamp (damp (ar_count diff_data) target_count ar_scale_damp_factor)
                        target_count clamp_factor;
          scale = scale_sum * target_pct div max 1 adj_count
      in ucast (max min_ar_scale scale))"

definition next_dma_difficulty ::
    "chain_types \<Rightarrow> u64 \<Rightarrow> header_difficulty_info list \<Rightarrow> header_difficulty_info option" where
  "next_dma_difficulty ct height cursor =
     Option.bind (difficulty_data_to_vector ct cursor) (\<lambda>diff_data.
       let sec_pow_scaling = secondary_pow_scaling height (drop 1 diff_data);
           ts_delta = hdi_timestamp (diff_data ! unat dma_window) - hdi_timestamp (diff_data ! 0);
           diff_sum = sum_list (map (\<lambda>dd. to_num (hdi_difficulty dd)) (drop 1 diff_data));
           adj_ts = clamp (damp ts_delta block_time_window dma_damp_factor) block_time_window clamp_factor;
           d = max min_dma_difficulty (diff_sum * block_time_sec div adj_ts)
       in Some (from_diff_scaling (from_num d) sec_pow_scaling))"

definition next_wtema_difficulty ::
    "chain_types \<Rightarrow> header_difficulty_info list \<Rightarrow> header_difficulty_info option" where
  "next_wtema_difficulty ct cursor =
     (case cursor of
        last_header # prev_header # _ \<Rightarrow>
          let last_block_time = hdi_timestamp last_header - hdi_timestamp prev_header;
              last_diff = to_num (hdi_difficulty last_header);
              next_diff = last_diff * wtema_half_life div (wtema_half_life - block_time_sec + last_block_time);
              d = difficulty_max (min_wtema ct) (from_num next_diff)
          in Some (from_diff_scaling d 0)
      | _ \<Rightarrow> None)"

definition next_difficulty ::
    "chain_types \<Rightarrow> u64 \<Rightarrow> header_difficulty_info list \<Rightarrow> header_difficulty_info option" where
  "next_difficulty ct height cursor =
     (if header_version ct height < 5 then next_dma_difficulty ct height cursor
      else next_wtema_difficulty ct cursor)"

section \<open>Configuration cells\<close>

text \<open>
  \<open>OneTime\<close> (\<open>util/src/lib.rs\<close>) and the pairs of a thread-local and a global cell behind
  \<open>get_chain_type\<close>, \<open>get_accept_fee_base\<close>, \<open>get_future_time_limit\<close> and \<open>is_nrd_enabled\<close>.
  \<open>None\<close> as the result of a getter or of \<open>one_time_set\<close> is a panic.
\<close>

definition init_if_unset :: "'a \<Rightarrow> 'a option \<Rightarrow> bool \<times> 'a option" where
  "init_if_unset v inner = (case inner of None \<Rightarrow> (True, Some v) | Some x \<Rightarrow> (False, Some x))"

definition one_time_set :: "'a \<Rightarrow> bool \<Rightarrow> 'a option \<Rightarrow> 'a option option" where
  "one_time_set v is_override inner = (if \<not> is_override \<and> inner \<noteq> None then None else Some (Some v))"

definition one_time_borrow :: "'a option \<Rightarrow> 'a option" where
  "one_time_borrow inner = inner"

record 'a config_cell =
  cell_local :: "'a option"
  cell_global :: "'a option"

record globals =
  chain_type :: "chain_types config_cell"
  accept_fee_base :: "u64 config_cell"
  future_time_limit :: "u64 config_cell"
  nrd_feature_enabled :: "bool config_cell"

definition cell_set_local :: "'a \<Rightarrow> 'a config_cell \<Rightarrow> 'a config_cell" where
  "cell_set_local v c = c \<lparr> cell_local := Some v \<rparr>"

definition cell_init_global :: "'a \<Rightarrow> 'a config_cell \<Rightarrow> bool \<times> 'a config_cell" where
  "cell_init_global v c =
     (let (ok, g) = init_if_unset v (cell_global c) in (ok, c \<lparr> cell_global := g \<rparr>))"

definition cell_set_global :: "'a \<Rightarrow> 'a config_cell \<Rightarrow> 'a config_cell" where
  "cell_set_global v c = c \<lparr> cell_global := Some v \<rparr>"

definition get_chain_type :: "chain_types config_cell \<Rightarrow> (chain_types \<times> chain_types config_cell) option" where
  "get_chain_type c =
     (case cell_local c of
        Some ct \<Rightarrow> Some (ct, c)
      | None \<Rightarrow> Option.bind (one_time_borrow (cell_global c)) (\<lambda>ct. Some (ct, cell_set_local ct c)))"

definition get_accept_fee_base :: "u64 config_cell \<Rightarrow> u64 \<times> u64 config_cell" where
  "get_accept_fee_base c =
     (case cell_local c of
        Some b \<Rightarrow> (b, c)
      | None \<Rightarrow>
          (let b = (case cell_global c of Some b \<Rightarrow> b | None \<Rightarrow> default_accept_fee_base)
           in (b, cell_set_local b c)))"

definition get_future_time_limit :: "u64 config_cell \<Rightarrow> u64 \<times> u64 config_cell" where
  "get_future_time_limit c =
     (case cell_local c of
        Some b \<Rightarrow> (b, c)
      | None \<Rightarrow>
          (let b = (case cell_global c of Some b \<Rightarrow> b | None \<Rightarrow> default_future_time_limit)
           in (b, cell_set_local b c)))"

definition is_nrd_enabled :: "bool config_cell \<Rightarrow> bool \<times> bool config_cell" where
  "is_nrd_enabled c =
     (case cell_local c of
        None \<Rightarrow>
          (case cell_global c of
             Some global_flag \<Rightarrow> (global_flag, c \<lparr> cell_local := Some global_flag \<rparr>)
           | None \<Rightarrow> (False, c))
      | Some flag \<Rightarrow> (flag, c))"

definition init_global_chain_type :: "chain_types \<Rightarrow> globals \<Rightarrow> bool \<times> globals" where
  "init_global_chain_type new_type g =
     (let (ok, c) = cell_init_global new_type (chain_type g) in (ok, g \<lparr> chain_type := c \<rparr>))"

definition set_global_chain_type :: "chain_types \<Rightarrow> globals \<Rightarrow> globals" where
  "set_global_chain_type new_type g = g \<lparr> chain_type := cell_set_global new_type (chain_type g) \<rparr>"

definition set_local_chain_type :: "chain_types \<Rightarrow> globals \<Rightarrow> globals" where
  "set_local_chain_type new_type g = g \<lparr> chain_type := cell_set_local new_type (chain_type g) \<rparr>"

definition init_global_future_time_limit :: "u64 \<Rightarrow> globals \<Rightarrow> bool \<times> globals" where
  "init_global_future_time_limit new_ftl g =
     (let (ok, c) = cell_init_global new_ftl (future_time_limit g) in (ok, g \<lparr> future_time_limit := c \<rparr>))"

definition set_global_future_time_limit :: "u64 \<Rightarrow> globals \<Rightarrow> globals" where
  "set_global_future_time_limit new_ftl g = g \<lparr> future_time_limit := cell_set_global new_ftl (future_time_limit g) \<rparr>"

definition set_local_future_time_limit :: "u64 \<Rightarrow> globals \<Rightarrow> globals" where
  "set_local_future_time_limit new_ftl g = g \<lparr> future_time_limit := cell_set_local new_ftl (future_time_limit g) \<rparr>"

definition init_global_accept_fee_base :: "u64 \<Rightarrow> globals \<Rightarrow> bool \<times> globals" where
  "init_global_accept_fee_base new_base g =
     (let (ok, c) = cell_init_global new_base (accept_fee_base g) in (ok, g \<lparr> accept_fee_base := c \<rparr>))"

definition set_global_accept_fee_base :: "u64 \<Rightarrow> globals \<Rightarrow> globals" where
  "set_global_accept_fee_base new_base g = g \<lparr> accept_fee_base := cell_set_global new_base (accept_fee_base g) \<rparr>"

definition set_local_accept_fee_base :: "u64 \<Rightarrow> globals \<Rightarrow> globals" where
  "set_local_accept_fee_base new_base g = g \<lparr> accept_fee_base := cell_set_local new_base (accept_fee_base g) \<rparr>"

definition init_global_nrd_enabled :: "bool \<Rightarrow> globals \<Rightarrow> bool \<times> globals" where
  "init_global_nrd_enabled enabled g =
     (let (ok, c) = cell_init_global enabled (nrd_feature_enabled g) in (ok, g \<lparr> nrd_feature_enabled := c \<rparr>))"

definition set_global_nrd_enabled :: "bool \<Rightarrow> globals \<Rightarrow> globals" where
  "set_global_nrd_enabled enabled g = g \<lparr> nrd_feature_enabled := cell_set_global enabled (nrd_feature_enabled g) \<rparr>"

definition set_local_nrd_enabled :: "bool \<Rightarrow> globals \<Rightarrow> globals" where
  "set_local_nrd_enabled enabled g = g \<lparr> nrd_feature_enabled := cell_set_local enabled (nrd_feature_enabled g) \<rparr>"

section \<open>Arithmetic without overflow\<close>

lemma unat_sum_list:
  fixes ws :: "u64 list"
  assumes "sum_list (map unat ws) < 2 ^ 64"
  shows "unat (sum_list ws) = sum_list (map unat ws)"
  using assms by (induction ws) (auto simp: unat_word_ariths)

lemma unat_mult_le:
  fixes a b :: u64
  assumes "unat a * unat b < 2 ^ 64"
  shows "unat (a * b) = unat a * unat b"
  using assms by (simp add: unat_word_ariths)

lemma unat_add_le:
  fixes a b :: u64
  assumes "unat a + unat b < 2 ^ 64"
  shows "unat (a + b) = unat a + unat b"
  using assms by (simp add: unat_word_ariths)

lemma unat_sub_le:
  fixes a b :: u64
  assumes "unat b \<le> unat a"
  shows "unat (a - b) = unat a - unat b"
  using assms by (simp add: unat_sub word_le_nat_alt)

lemma unat_max: "unat (max a b) = max (unat a) (unat (b :: 'a :: len word))"
  by (simp add: max_def word_le_nat_alt)

lemma unat_min: "unat (min a b) = min (unat a) (unat (b :: 'a :: len word))"
  by (simp add: min_def word_le_nat_alt)

lemma numeric_constants [simp]:
  "unat block_time_sec = 60" "unat dma_window = 60" "unat block_time_window = 3600"
  "unat year_height = 524160" "unat week_height = 10080" "unat hard_fork_interval = 262080"
  "unat wtema_half_life = 14400" "unat testing_hard_fork_interval = 3"
  "unat (wtema_half_life - block_time_sec) = 14340" "unat min_dma_difficulty = 3"
  "unat c32_graph_weight = 16384"
  by (simp_all add: constants c32_graph_weight_def)

lemma unat_clamp_window:
  "unat (clamp x block_time_window clamp_factor) = max 1800 (min (unat x) 7200)"
proof -
  have "block_time_window * clamp_factor = (7200 :: u64)" "block_time_window div clamp_factor = (1800 :: u64)"
    by (simp_all add: constants)
  then show ?thesis by (simp add: clamp_def unat_max unat_min)
qed

lemma length_pad_headers [simp]: "length (pad_headers ct delta d n ts) = n"
  by (induction n arbitrary: ts) (auto simp: Let_def)

lemma difficulty_data_length:
  assumes "cursor \<noteq> []"
  shows "\<exists>dd. difficulty_data_to_vector ct cursor = Some dd \<and> length dd = 61"
  using assms by (auto simp: difficulty_data_to_vector_def Let_def min_def)

text \<open>The adjusted time span of the window: damped towards an hour, at most a factor two away.\<close>

lemma unat_adj_ts:
  assumes "unat t < 2 ^ 63"
  shows "unat (clamp (damp t block_time_window dma_damp_factor) block_time_window clamp_factor) =
    max 1800 (min ((unat t + 7200) div 3) 7200)"
proof -
  have "(dma_damp_factor - 1) * block_time_window = (7200 :: u64)" by (simp add: constants)
  then have "unat (damp t block_time_window dma_damp_factor) = (unat t + 7200) div 3"
    using assms by (simp add: damp_def unat_div unat_add_le constants)
  then show ?thesis by (simp add: unat_clamp_window)
qed

lemma nat_div_bounds:
  fixes s a :: nat
  assumes "1800 \<le> a" and "a \<le> 7200"
  shows "s div 120 \<le> s * 60 div a" and "s * 60 div a \<le> s div 30"
proof -
  have "s div 120 = s * 60 div 7200" using div_mult_mult2 [of 60 s 120] by simp
  also have "\<dots> \<le> s * 60 div a" using assms by (intro div_le_mono2) auto
  finally show "s div 120 \<le> s * 60 div a" .
  have "s * 60 div a \<le> s * 60 div 1800" using assms by (intro div_le_mono2) auto
  also have "\<dots> = s div 30" using div_mult_mult2 [of 60 s 30] by simp
  finally show "s * 60 div a \<le> s div 30" .
qed

lemma wtema_grows: "(14399 :: nat) \<le> d \<Longrightarrow> t \<le> 59 \<Longrightarrow> d < d * 14400 div (14340 + t)"
proof -
  assume d: "14399 \<le> d" and t: "t \<le> 59"
  have "Suc d * (14340 + t) \<le> Suc d * 14399" using t by (intro mult_le_mono2) simp
  also have "\<dots> \<le> d * 14400" using d by simp
  finally have "Suc d \<le> d * 14400 div (14340 + t)" by (simp add: less_eq_div_iff_mult_less_eq)
  then show ?thesis by simp
qed

lemma wtema_keeps: "t \<le> 60 \<Longrightarrow> d \<le> d * 14400 div (14340 + t :: nat)"
  by (simp add: less_eq_div_iff_mult_less_eq)

lemma wtema_falls: "60 \<le> t \<Longrightarrow> d * 14400 div (14340 + t :: nat) \<le> d"
proof -
  assume "60 \<le> t"
  then have "d * 14400 div (14340 + t) \<le> d * 14400 div 14400" by (intro div_le_mono2) auto
  then show ?thesis by simp
qed

section \<open>Properties\<close>

text \<open>C13: the damped moving average moves the difficulty by at most a factor of two: while the
  difficulties of the window and the time stamps do not overflow, the next difficulty is at least
  three, and between half and twice the average of the window (whose sum over sixty blocks is
  \<open>s\<close>).\<close>

theorem next_dma_difficulty_bounds:
  assumes "difficulty_data_to_vector ct cursor = Some dd"
    and "s = sum_list (map (\<lambda>h. unat (to_num (hdi_difficulty h))) (drop 1 dd))" and "s * 60 < 2 ^ 64"
    and "unat (hdi_timestamp (dd ! 0)) \<le> unat (hdi_timestamp (dd ! 60))"
    and "unat (hdi_timestamp (dd ! 60)) < 2 ^ 63"
  shows "\<exists>info. next_dma_difficulty ct height cursor = Some info \<and>
    max 3 (s div 120) \<le> unat (to_num (hdi_difficulty info)) \<and>
    unat (to_num (hdi_difficulty info)) \<le> max 3 (s div 30)"
proof -
  let ?t = "hdi_timestamp (dd ! 60) - hdi_timestamp (dd ! 0)"
  let ?adj = "clamp (damp ?t block_time_window dma_damp_factor) block_time_window clamp_factor"
  let ?sum = "sum_list (map (\<lambda>h. to_num (hdi_difficulty h)) (drop 1 dd))"
  have "unat ?t < 2 ^ 63" using assms(4,5) by (simp add: unat_sub_le)
  then have adj: "1800 \<le> unat ?adj" "unat ?adj \<le> 7200" by (auto simp: unat_adj_ts)
  have sum: "unat ?sum = s"
    using unat_sum_list [of "map (\<lambda>h. to_num (hdi_difficulty h)) (drop 1 dd)"] assms(2,3)
    by (simp add: comp_def)
  let ?d = "from_num (max min_dma_difficulty (?sum * block_time_sec div ?adj))"
  have "unat (?sum * block_time_sec div ?adj) = s * 60 div unat ?adj"
    using assms(3) sum by (simp add: unat_div unat_mult_le)
  then have d: "unat (to_num ?d) = max 3 (s * 60 div unat ?adj)"
    by (simp add: from_num_def unat_max)
  have "max 3 (s div 120) \<le> unat (to_num ?d)" "unat (to_num ?d) \<le> max 3 (s div 30)"
    using nat_div_bounds [OF adj, of s] unfolding d by auto
  moreover have "next_dma_difficulty ct height cursor =
      Some (from_diff_scaling ?d (secondary_pow_scaling height (drop 1 dd)))"
    using assms(1) by (simp add: next_dma_difficulty_def Let_def)
  ultimately show ?thesis by (simp add: from_diff_scaling_def)
qed

lemma next_dma_difficulty_bounds_witness:
  "\<exists>info. next_dma_difficulty Mainnet 100
      (map (\<lambda>i. from_ts_diff Mainnet (of_nat (100000 - 60 * i)) (Difficulty 1000)) [0..<61]) = Some info \<and>
    500 \<le> unat (to_num (hdi_difficulty info)) \<and> unat (to_num (hdi_difficulty info)) \<le> 2000"
proof -
  let ?c = "map (\<lambda>i. from_ts_diff Mainnet (of_nat (100000 - 60 * i)) (Difficulty 1000)) [0..<61]"
  have dd: "difficulty_data_to_vector Mainnet ?c = Some (rev ?c)"
    by (simp add: difficulty_data_to_vector_def Let_def)
  have sum: "(60000 :: nat) = sum_list (map (\<lambda>h. unat (to_num (hdi_difficulty h))) (drop 1 (rev ?c)))"
    by (simp add: rev_map comp_def from_ts_diff_def drop_map map_replicate_const sum_list_replicate)
  have ts: "hdi_timestamp (rev ?c ! 0) = 96400" "hdi_timestamp (rev ?c ! 60) = 100000"
    by (simp_all add: rev_nth from_ts_diff_def del: upt_Suc)
  show ?thesis
    using next_dma_difficulty_bounds [OF dd sum, of 100] ts by simp
qed



text \<open>the graph weight on mainnet: twice the size of the graph relative to the base size times
  its edge bits, except that the factor for 31 edge bits falls by one a week after the first year,
  down to zero thirty weeks later.\<close>

theorem graph_weight_mainnet:
  assumes "24 \<le> unat edge_bits" and "unat edge_bits \<le> 63"
  shows "unat (graph_weight Mainnet height edge_bits) =
    2 ^ (unat edge_bits - 23) *
      (if edge_bits = 31 \<and> 524160 \<le> unat height then 30 - (unat height - 524160) div 10080
       else unat edge_bits)"
proof -
  have sub: "unat (edge_bits - base_edge_bits Mainnet) = unat edge_bits - 24"
  proof -
    have "(24 :: u8) \<le> edge_bits" using assms(1) by (simp add: word_le_nat_alt)
    then show ?thesis by (simp add: base_edge_bits_def constants unat_sub)
  qed
  have pow: "unat (push_bit n 2 :: u64) = 2 ^ Suc n" if "n \<le> 39" for n
  proof -
    have "(2 :: nat) ^ Suc n \<le> 2 ^ 40" using that by (intro power_increasing) auto
    then have "(2 :: nat) ^ Suc n < 2 ^ 64" by (rule le_less_trans) simp
    then show ?thesis
      by (simp only: unsigned_push_bit_eq) (simp add: take_bit_nat_eq_self_iff push_bit_eq_mult)
  qed
  let ?f = "if edge_bits = 31 \<and> 524160 \<le> unat height then 30 - (unat height - 524160) div 10080
       else unat edge_bits"
  let ?x = "if edge_bits = 31 \<and> year_height \<le> height
      then sat_sub (ucast edge_bits) (1 + (height - year_height) div week_height)
      else ucast edge_bits :: u64"
  have x: "unat ?x = ?f"
  proof (cases "edge_bits = 31 \<and> year_height \<le> height")
    case True
    then have le: "unat year_height \<le> unat height" by (simp only: word_le_nat_alt)
    then have "unat (1 + (height - year_height) div week_height) = Suc ((unat height - 524160) div 10080)"
      using unat_less_pow [of height] by (simp add: unat_add_le unat_div unat_sub_le)
    then show ?thesis using True le by (simp add: unat_sat_sub)
  next
    case False
    have "unat (ucast edge_bits :: u64) = unat edge_bits"
      using assms(2) by (simp add: unsigned_ucast_eq take_bit_nat_eq_self_iff)
    with False show ?thesis
      using numeric_constants(4) by (auto simp: word_le_nat_alt)
  qed
  have f: "?f \<le> 63" using assms(2) by auto
  let ?p = "push_bit (unat edge_bits - 24) 2 :: u64"
  have "Suc (unat edge_bits - 24) = unat edge_bits - 23" using assms(1) by simp
  then have p: "unat ?p = 2 ^ (unat edge_bits - 23)" using pow [of "unat edge_bits - 24"] assms by simp
  have "(unat edge_bits - 24) mod 64 = unat edge_bits - 24" using assms by simp
  then have gw: "graph_weight Mainnet height edge_bits = ?p * ?x"
    unfolding graph_weight_def Let_def sub by simp
  have "(2 :: nat) ^ (unat edge_bits - 23) * ?f \<le> 2 ^ 40 * 63"
    using assms f by (intro mult_le_mono power_increasing) auto
  then have "unat ?p * unat ?x < 2 ^ 64" unfolding p x by (rule le_less_trans) simp
  from unat_mult_le [OF this] show ?thesis unfolding gw p x .
qed

lemma graph_weight_mainnet_witness:
  "unat (graph_weight Mainnet 524160 31) = 256 * 30 \<and> unat (graph_weight Mainnet 836640 31) = 0 \<and>
   unat (graph_weight Mainnet 5000000 32) = 512 * 32"
  using graph_weight_mainnet [of 31 524160] graph_weight_mainnet [of 31 836640]
    graph_weight_mainnet [of 32 5000000] by simp

text \<open>the hard fork schedule: as long as the number of fork intervals fits in 16 bits, the
  header version is one plus the number of intervals passed, and five from the fourth on.\<close>

theorem header_version_schedule:
  "(unat height div 262080 < 65535 \<longrightarrow>
      unat (header_version Mainnet height) = min 5 (1 + unat height div 262080)) \<and>
   (unat height div 3 < 65535 \<longrightarrow>
      unat (header_version AutomatedTesting height) = min 5 (1 + unat height div 3) \<and>
      unat (header_version UserTesting height) = min 5 (1 + unat height div 3)) \<and>
   1 \<le> header_version Testnet height \<and> header_version Testnet height \<le> 5"
proof -
  have *: "unat (ucast (1 + height div k) :: u16) = 1 + unat height div unat k"
    if "unat height div unat k < 65535" for k
  proof -
    have "unat (1 + height div k) = 1 + unat height div unat k"
      using that by (simp add: unat_add_le unat_div)
    then show ?thesis using that by (simp add: unsigned_ucast_eq take_bit_nat_eq_self_iff)
  qed
  show ?thesis
    using * [of hard_fork_interval] * [of testing_hard_fork_interval]
    by (simp add: header_version_def Let_def unat_min)
qed

lemma header_version_schedule_witness:
  "header_version Mainnet 262080 = 2 \<and> header_version UserTesting 12 = 5"
  using header_version_schedule [of 262080] header_version_schedule [of 12]
  by (auto simp: word_unat_eq_iff)


text \<open>configuration cells: what a thread has read it keeps reading, whatever is later set or
  initialised globally, and a local setting wins over the global one.\<close>

theorem config_reads_are_stable:
  "(get_chain_type c = Some (ct, c') \<longrightarrow>
      get_chain_type (cell_set_global x c') = Some (ct, cell_set_global x c')) \<and>
   (let (b, f') = get_accept_fee_base f
    in get_accept_fee_base (cell_set_global y f') = (b, cell_set_global y f')) \<and>
   get_chain_type (cell_set_local z c) = Some (z, cell_set_local z c)"
  by (auto simp: get_chain_type_def get_accept_fee_base_def cell_set_global_def cell_set_local_def
      one_time_borrow_def Let_def split: option.splits Option.bind_splits)

lemma config_reads_are_stable_witness:
  "get_chain_type (cell_set_global Testnet \<lparr> cell_local = Some Mainnet, cell_global = Some Mainnet \<rparr>) =
     Some (Mainnet, \<lparr> cell_local = Some Mainnet, cell_global = Some Testnet \<rparr>)"
proof -
  have "get_chain_type \<lparr> cell_local = None, cell_global = Some Mainnet \<rparr> =
      Some (Mainnet, \<lparr> cell_local = Some Mainnet, cell_global = Some Mainnet \<rparr>)"
    by (simp add: get_chain_type_def cell_set_local_def one_time_borrow_def)
  with config_reads_are_stable [of "\<lparr> cell_local = None, cell_global = Some Mainnet \<rparr>" Mainnet
      "\<lparr> cell_local = Some Mainnet, cell_global = Some Mainnet \<rparr>" Testnet]
  show ?thesis by (simp add: cell_set_global_def)
qed

end
