(* ===== verification/Util.thy ===== *)
theory Util
  imports Grin_Prelude
begin

text \<open>
  The hex codec (\<open>util/src/hex.rs\<close>), the transfer rate counter (\<open>util/src/rate_counter.rs\<close>)
  and the stop state (\<open>util/src/lib.rs\<close>). Strings are lists of characters below 128. The clock
  is an argument of the operations that read it.
\<close>

section \<open>Hex strings\<close>

definition hex_digit :: "nat \<Rightarrow> char" where
  "hex_digit n = ''0123456789abcdef'' ! n"

definition hex_value :: "char \<Rightarrow> nat option" where
  "hex_value c =
     (let n = of_char c :: nat
      in if 48 \<le> n \<and> n \<le> 57 then Some (n - 48)
         else if 97 \<le> n \<and> n \<le> 102 then Some (n - 87)
         else if 65 \<le> n \<and> n \<le> 70 then Some (n - 55)
         else None)"

fun to_hex :: "bytes \<Rightarrow> string" where
  "to_hex [] = []"
| "to_hex (b # bs) = hex_digit (unat b div 16) # hex_digit (unat b mod 16) # to_hex bs"

definition is_space :: "char \<Rightarrow> bool" where
  "is_space c \<longleftrightarrow> (of_char c :: nat) \<in> {9, 10, 11, 12, 13, 32}"

definition trim :: "string \<Rightarrow> string" where
  "trim s = rev (dropWhile is_space (rev (dropWhile is_space s)))"

fun trim_start_0x :: "string \<Rightarrow> string" where
  "trim_start_0x (a # b # s) =
     (if a = CHR ''0'' \<and> b = CHR ''x'' then trim_start_0x s else a # b # s)"
| "trim_start_0x s = s"

text \<open>\<open>u8::from_str_radix(_, 16)\<close> on two characters; a leading plus sign is accepted.\<close>

definition parse_hex_byte :: "char \<Rightarrow> char \<Rightarrow> u8 option" where
  "parse_hex_byte a b =
     (if a = CHR ''+'' then map_option of_nat (hex_value b)
      else Option.bind (hex_value a) (\<lambda>x. map_option (\<lambda>y. of_nat (16 * x + y)) (hex_value b)))"

fun parse_hex :: "string \<Rightarrow> bytes option" where
  "parse_hex (a # b # s) =
     Option.bind (parse_hex_byte a b) (\<lambda>x. map_option (\<lambda>xs. x # xs) (parse_hex s))"
| "parse_hex s = Some []"

definition from_hex :: "string \<Rightarrow> string + bytes" where
  "from_hex hex =
     (let hex = trim_start_0x (trim hex)
      in if odd (length hex) then Inl hex else ok_or hex (parse_hex hex))"

section \<open>Rate counter\<close>

record entry =
  e_bytes :: u64
  e_timestamp :: u64

definition entry_new :: "u64 \<Rightarrow> u64 \<Rightarrow> entry" where
  "entry_new now bs = \<lparr> e_bytes = bs, e_timestamp = now \<rparr>"

definition entry_new_quiet :: "u64 \<Rightarrow> entry" where
  "entry_new_quiet bs = \<lparr> e_bytes = bs, e_timestamp = 0 \<rparr>"

definition is_quiet :: "entry \<Rightarrow> bool" where
  "is_quiet e \<longleftrightarrow> e_timestamp e = 0"

fun rc_truncate :: "u64 \<Rightarrow> entry list \<Rightarrow> entry list" where
  "rc_truncate now [] = []"
| "rc_truncate now (e # es) = (if e_timestamp e + 60000 < now then rc_truncate now es else e # es)"

text \<open>\<open>inc\<close> reads the clock twice, for the entry and for the truncation.\<close>

definition rc_inc :: "u64 \<Rightarrow> u64 \<Rightarrow> u64 \<Rightarrow> entry list \<Rightarrow> entry list" where
  "rc_inc now now' bs es = rc_truncate now' (es @ [entry_new now bs])"

definition rc_inc_quiet :: "u64 \<Rightarrow> u64 \<Rightarrow> entry list \<Rightarrow> entry list" where
  "rc_inc_quiet now bs es = rc_truncate now (es @ [entry_new_quiet bs])"

definition bytes_per_min :: "entry list \<Rightarrow> u64" where
  "bytes_per_min es = sum_list (map e_bytes es)"

definition count_per_min :: "entry list \<Rightarrow> u64" where
  "count_per_min es = of_nat (length (filter (\<lambda>e. \<not> is_quiet e) es))"

definition elapsed_since_last_msg :: "u64 \<Rightarrow> entry list \<Rightarrow> u64 option" where
  "elapsed_since_last_msg now es =
     (if es = [] then None else Some (sat_sub now (e_timestamp (last es))))"

section \<open>Stop state\<close>

record stop_state =
  stopped :: bool
  paused :: bool

definition stop_state_new :: stop_state where
  "stop_state_new = \<lparr> stopped = False, paused = False \<rparr>"

definition stop :: "stop_state \<Rightarrow> stop_state" where "stop s = s \<lparr> stopped := True \<rparr>"
definition pause :: "stop_state \<Rightarrow> stop_state" where "pause s = s \<lparr> paused := True \<rparr>"
definition resume :: "stop_state \<Rightarrow> stop_state" where "resume s = s \<lparr> paused := False \<rparr>"

section \<open>Lemmas\<close>

lemma hex_digit_facts:
  assumes "n < 16"
  shows "hex_value (hex_digit n) = Some n" and "\<not> is_space (hex_digit n)"
    and "hex_digit n \<noteq> CHR ''x''" and "hex_digit n \<noteq> CHR ''+''"
proof -
  have "\<forall>n \<in> set [0..<16]. hex_value (hex_digit n) = Some n \<and> \<not> is_space (hex_digit n) \<and>
      hex_digit n \<noteq> CHR ''x'' \<and> hex_digit n \<noteq> CHR ''+''"
    by code_simp
  then show "hex_value (hex_digit n) = Some n" "\<not> is_space (hex_digit n)"
    "hex_digit n \<noteq> CHR ''x''" "hex_digit n \<noteq> CHR ''+''" using assms by simp_all
qed

lemma unat_u8_less: "unat (b :: u8) < 256"
  using unsigned_less [of b] by simp

lemma parse_hex_to_hex: "parse_hex (to_hex bs) = Some bs"
proof (induction bs)
  case (Cons b bs)
  have "unat b div 16 < 16" using unat_u8_less [of b] by simp
  then have "parse_hex_byte (hex_digit (unat b div 16)) (hex_digit (unat b mod 16)) = Some b"
    by (simp add: parse_hex_byte_def hex_digit_facts del: of_nat_add of_nat_mult)
  then show ?case using Cons by simp
qed simp

lemma set_to_hex: "c \<in> set (to_hex bs) \<Longrightarrow> \<exists>n < 16. c = hex_digit n"
proof (induction bs)
  case (Cons b bs)
  have "unat b div 16 < 16" "unat b mod 16 < 16" using unat_u8_less [of b] by simp_all
  then show ?case using Cons by (metis set_ConsD to_hex.simps(2))
qed simp

lemma trim_to_hex: "trim (to_hex bs) = to_hex bs"
proof -
  have ns: "\<forall>c \<in> set (to_hex bs). \<not> is_space c" using set_to_hex hex_digit_facts(2) by blast
  then have "dropWhile is_space (to_hex bs) = to_hex bs"
    by (cases "to_hex bs") auto
  moreover have "dropWhile is_space (rev (to_hex bs)) = rev (to_hex bs)"
    using ns by (cases "rev (to_hex bs)") (auto simp: set_rev [symmetric, of "to_hex bs"] simp del: set_rev)
  ultimately show ?thesis by (simp add: trim_def)
qed

lemma even_length_to_hex: "length (to_hex bs) = 2 * length bs"
  by (induction bs) auto

lemma trim_0x_to_hex: "trim_start_0x (to_hex bs) = to_hex bs"
  by (cases bs) (auto simp: hex_digit_facts)

lemma rc_truncate_suffix: "\<exists>ds. es = ds @ rc_truncate now es \<and> (\<forall>e \<in> set ds. e_timestamp e + 60000 < now)"
proof (induction es)
  case (Cons e es)
  then obtain ds where "es = ds @ rc_truncate now es" "\<forall>e \<in> set ds. e_timestamp e + 60000 < now" by blast
  then show ?case
  proof (cases "e_timestamp e + 60000 < now")
    case True
    then show ?thesis
      using \<open>es = ds @ rc_truncate now es\<close> \<open>\<forall>e \<in> set ds. e_timestamp e + 60000 < now\<close>
      by (intro exI [of _ "e # ds"]) auto
  qed auto
qed simp

section \<open>Properties\<close>

text \<open>every byte string comes back from its hex representation.\<close>

theorem hex_round_trip: "from_hex (to_hex bs) = Inr bs"
  by (simp add: from_hex_def trim_to_hex trim_0x_to_hex even_length_to_hex parse_hex_to_hex)



end
