(* ===== verification/Committed.thy ===== *)
theory Committed
  imports Ser
begin

text \<open>
  The \<open>Committed\<close> trait (\<open>core/src/core/committed.rs\<close>), the running totals \<open>BlockSums\<close>
  (\<open>core/src/core/block_sums.rs\<close>) and \<open>BlindingFactor\<close> (\<open>keychain/src/types.rs\<close>).

  Commitments, keys and signatures are byte strings; the operations of the \<open>secp\<close> library on
  them are the fields of the record \<open>secp_lib\<close>, a parameter of every definition that calls them.
  What the theorems rely on is the predicate \<open>homomorphic\<close>: the library's sum of commitments is
  the sum in the group the commitments stand for.
\<close>

section \<open>The library's operations\<close>

type_synonym commitment = bytes
type_synonym secp_error = string

record secp_lib =
  sizes :: secp_sizes
  lib_commit :: "u64 \<Rightarrow> bytes \<Rightarrow> secp_error + commitment"
  lib_commit_value :: "u64 \<Rightarrow> secp_error + commitment"
  lib_commit_sum :: "commitment list \<Rightarrow> commitment list \<Rightarrow> secp_error + commitment"
  lib_blind_sum :: "bytes list \<Rightarrow> bytes list \<Rightarrow> secp_error + bytes"
  lib_secret_key_from_slice :: "bytes \<Rightarrow> secp_error + bytes"
  lib_message_from_slice :: "bytes \<Rightarrow> secp_error + bytes"
  lib_to_pubkey :: "commitment \<Rightarrow> secp_error + bytes"
  lib_verify_single :: "bytes \<Rightarrow> bytes \<Rightarrow> bytes option \<Rightarrow> bytes \<Rightarrow> bytes option \<Rightarrow> bool \<Rightarrow> bool"
  lib_verify_batch :: "bytes list \<Rightarrow> bytes list \<Rightarrow> bytes list \<Rightarrow> bool"
  lib_verify_bullet_proof :: "commitment \<Rightarrow> range_proof \<Rightarrow> secp_error + unit"
  lib_verify_bullet_proof_multi :: "commitment list \<Rightarrow> range_proof list \<Rightarrow> secp_error + unit"

text \<open>The errors of \<open>keychain/src/types.rs\<close>; only \<open>Secp\<close> is raised by the operations below.\<close>

datatype keychain_error =
    KeychainSecp secp_error
  | KeyDerivation string
  | KeychainTransaction string
  | KeychainRangeProof string
  | SwitchCommitment

datatype committed_error =
    CommittedKeychain keychain_error
  | CommittedSecp secp_error
  | KernelSumMismatch
  | InvalidValue

section \<open>Blinding factors\<close>

definition zero_key :: "secp_lib \<Rightarrow> bytes" where
  "zero_key lib = replicate (secret_key_size (sizes lib)) 0"

definition blinding_from_slice :: "secp_lib \<Rightarrow> bytes \<Rightarrow> bytes" where
  "blinding_from_slice lib data =
     (let n = min (secret_key_size (sizes lib)) (length data)
      in take n data @ drop n (replicate (secret_key_size (sizes lib)) 0))"

definition blinding_from_secret_key :: "secp_lib \<Rightarrow> bytes \<Rightarrow> bytes" where
  "blinding_from_secret_key lib skey = blinding_from_slice lib skey"

definition blinding_zero :: "secp_lib \<Rightarrow> bytes" where
  "blinding_zero lib = blinding_from_secret_key lib (zero_key lib)"

definition blinding_is_zero :: "secp_lib \<Rightarrow> bytes \<Rightarrow> bool" where
  "blinding_is_zero lib b \<longleftrightarrow> b = zero_key lib"

definition blinding_secret_key :: "secp_lib \<Rightarrow> bytes \<Rightarrow> keychain_error + bytes" where
  "blinding_secret_key lib b =
     (if blinding_is_zero lib b then Inr (zero_key lib)
      else map_err KeychainSecp (lib_secret_key_from_slice lib b))"

definition ok_values :: "('e + 'a) list \<Rightarrow> 'a list" where
  "ok_values rs = List.map_filter (\<lambda>r. case r of Inr x \<Rightarrow> Some x | Inl _ \<Rightarrow> None) rs"

definition blinding_add :: "secp_lib \<Rightarrow> bytes \<Rightarrow> bytes \<Rightarrow> keychain_error + bytes" where
  "blinding_add lib b other =
     (let keys = ok_values (map (blinding_secret_key lib) (filter (\<lambda>x. \<not> blinding_is_zero lib x) [b, other]))
      in if keys = [] then Inr (blinding_zero lib)
         else rbind (map_err KeychainSecp (lib_blind_sum lib keys [])) (\<lambda>sum. Inr (blinding_from_secret_key lib sum)))"

definition blinding_split :: "secp_lib \<Rightarrow> bytes \<Rightarrow> bytes \<Rightarrow> keychain_error + bytes" where
  "blinding_split lib b blind_1 =
     rbind (blinding_secret_key lib b) (\<lambda>skey.
       rbind (blinding_secret_key lib blind_1) (\<lambda>skey_1.
         rbind (map_err KeychainSecp (lib_blind_sum lib [skey] [skey_1])) (\<lambda>skey_2.
           Inr (blinding_from_secret_key lib skey_2))))"

section \<open>The trait\<close>

text \<open>The answers of the three methods an implementation of the trait provides.\<close>

record committed =
  inputs_committed :: "commitment list"
  outputs_committed :: "commitment list"
  kernels_committed :: "commitment list"

definition commit_to_zero_value :: "secp_lib \<Rightarrow> commitment" where
  "commit_to_zero_value lib = pad_bytes (pedersen_commitment_size (sizes lib)) [0]"

definition sum_commits :: "secp_lib \<Rightarrow> commitment list \<Rightarrow> commitment list \<Rightarrow> committed_error + commitment" where
  "sum_commits lib positive negative =
     (let zero_commit = commit_to_zero_value lib;
          positive = filter (\<lambda>x. x \<noteq> zero_commit) positive;
          negative = filter (\<lambda>x. x \<noteq> zero_commit) negative
      in map_err CommittedSecp (lib_commit_sum lib positive negative))"

definition to_secrets :: "secp_lib \<Rightarrow> bytes list \<Rightarrow> bytes list" where
  "to_secrets lib bf = ok_values (map (blinding_secret_key lib) (filter (\<lambda>x. x \<noteq> blinding_zero lib) bf))"

definition sum_kernel_offsets :: "secp_lib \<Rightarrow> bytes list \<Rightarrow> bytes list \<Rightarrow> committed_error + bytes" where
  "sum_kernel_offsets lib positive negative =
     (let positive = to_secrets lib positive; negative = to_secrets lib negative
      in if positive = [] then Inr (blinding_zero lib)
         else rbind (map_err CommittedSecp (lib_blind_sum lib positive negative)) (\<lambda>sum.
           Inr (blinding_from_secret_key lib sum)))"

definition sum_kernel_excesses ::
    "secp_lib \<Rightarrow> committed \<Rightarrow> bytes \<Rightarrow> committed_error + commitment \<times> commitment" where
  "sum_kernel_excesses lib s offset =
     rbind (sum_commits lib (kernels_committed s) []) (\<lambda>kernel_sum.
       rbind (if offset \<noteq> blinding_zero lib
              then rbind (map_err CommittedKeychain (blinding_secret_key lib offset)) (\<lambda>key.
                     rbind (map_err CommittedSecp (lib_commit lib 0 key)) (\<lambda>offset_commit.
                       Inr [kernel_sum, offset_commit]))
              else Inr [kernel_sum]) (\<lambda>commits.
         rbind (map_err CommittedSecp (lib_commit_sum lib commits [])) (\<lambda>kernel_sum_plus_offset.
           Inr (kernel_sum, kernel_sum_plus_offset))))"

text \<open>
  An \<open>i64\<close> is its two's complement word: \<open>overage <s 0\<close> is the signed comparison, and
  \<open>checked_abs\<close> fails on the least number only. \<open>projr\<close> is \<open>unwrap\<close>.
\<close>

definition checked_abs :: "u64 \<Rightarrow> u64 option" where
  "checked_abs n = (if n = 0x8000000000000000 then None else if n <s 0 then Some (- n) else Some n)"

definition sum_commitments :: "secp_lib \<Rightarrow> committed \<Rightarrow> u64 \<Rightarrow> committed_error + commitment" where
  "sum_commitments lib s overage =
     (let input_commits = inputs_committed s; output_commits = outputs_committed s
      in rbind (if overage \<noteq> 0
                then rbind (ok_or InvalidValue (checked_abs overage)) (\<lambda>overage_abs.
                       let over_commit = projr (lib_commit_value lib overage_abs)
                       in if overage <s 0 then Inr (input_commits @ [over_commit], output_commits)
                          else Inr (input_commits, output_commits @ [over_commit]))
                else Inr (input_commits, output_commits)) (\<lambda>(input_commits, output_commits).
           sum_commits lib output_commits input_commits))"

definition verify_kernel_sums ::
    "secp_lib \<Rightarrow> committed \<Rightarrow> u64 \<Rightarrow> bytes \<Rightarrow> committed_error + commitment \<times> commitment" where
  "verify_kernel_sums lib s overage kernel_offset =
     rbind (sum_commitments lib s overage) (\<lambda>utxo_sum.
       rbind (sum_kernel_excesses lib s kernel_offset) (\<lambda>(kernel_sum, kernel_sum_plus_offset).
         if utxo_sum \<noteq> kernel_sum_plus_offset then Inl KernelSumMismatch
         else Inr (utxo_sum, kernel_sum)))"

section \<open>Block sums\<close>

record block_sums =
  utxo_sum :: commitment
  kernel_sum :: commitment

definition block_sums_write :: "block_sums writeable" where
  "block_sums_write c s = Inr (write_fixed_bytes (utxo_sum s) @ write_fixed_bytes (kernel_sum s))"

definition block_sums_read :: "secp_sizes \<Rightarrow> block_sums readable_fn" where
  "block_sums_read sz r =
     rbind (commitment_read sz r) (\<lambda>(u, r). rbind (commitment_read sz r) (\<lambda>(k, r).
       Inr (\<lparr> utxo_sum = u, kernel_sum = k \<rparr>, r)))"

definition block_sums_default :: "secp_lib \<Rightarrow> block_sums" where
  "block_sums_default lib = \<lparr> utxo_sum = commit_to_zero_value lib, kernel_sum = commit_to_zero_value lib \<rparr>"

definition with_block_sums :: "block_sums \<Rightarrow> committed \<Rightarrow> committed" where
  "with_block_sums bs s =
     \<lparr> inputs_committed = inputs_committed s,
       outputs_committed = utxo_sum bs # outputs_committed s,
       kernels_committed = kernel_sum bs # kernels_committed s \<rparr>"

text \<open>The computation of \<open>verify_block_sums\<close> in \<open>chain/src/pipe.rs\<close> between its two store accesses.\<close>

definition apply_block_sums ::
    "secp_lib \<Rightarrow> block_sums \<Rightarrow> committed \<Rightarrow> u64 \<Rightarrow> bytes \<Rightarrow> committed_error + block_sums" where
  "apply_block_sums lib sums b overage offset =
     rbind (verify_kernel_sums lib (with_block_sums sums b) overage offset) (\<lambda>(u, k).
       Inr \<lparr> utxo_sum = u, kernel_sum = k \<rparr>)"

section \<open>Sums in the group\<close>

text \<open>
  What is relied on of the library: a sum of commitments stands for the sum of what they stand
  for, and the zero commitment, which the code filters out, stands for zero.
\<close>

definition homomorphic :: "secp_lib \<Rightarrow> (commitment \<Rightarrow> 'g :: ab_group_add) \<Rightarrow> bool" where
  "homomorphic lib point \<longleftrightarrow>
     (\<forall>ps ns c. lib_commit_sum lib ps ns = Inr c \<longrightarrow>
        point c = sum_list (map point ps) - sum_list (map point ns)) \<and>
     point (commit_to_zero_value lib) = 0"

text \<open>The points of a signed amount and of a kernel offset.\<close>

definition overage_point :: "secp_lib \<Rightarrow> (commitment \<Rightarrow> 'g :: ab_group_add) \<Rightarrow> u64 \<Rightarrow> 'g" where
  "overage_point lib point overage =
     (if overage = 0 then 0
      else if overage <s 0 then - point (projr (lib_commit_value lib (- overage)))
      else point (projr (lib_commit_value lib overage)))"

definition offset_point :: "secp_lib \<Rightarrow> (commitment \<Rightarrow> 'g :: ab_group_add) \<Rightarrow> bytes \<Rightarrow> 'g" where
  "offset_point lib point offset =
     (if offset = blinding_zero lib then 0
      else point (projr (lib_commit lib 0 (projr (blinding_secret_key lib offset)))))"

lemma homomorphicD:
  assumes "homomorphic lib point"
  shows "lib_commit_sum lib ps ns = Inr c \<Longrightarrow> point c = sum_list (map point ps) - sum_list (map point ns)"
    and "point (commit_to_zero_value lib) = 0"
  using assms by (auto simp: homomorphic_def)

lemma sum_list_filter_zero:
  "f z = 0 \<Longrightarrow> sum_list (map f (filter (\<lambda>x. x \<noteq> z) xs)) = (sum_list (map f xs) :: 'g :: monoid_add)"
  by (induction xs) auto

lemma sum_commits_point:
  assumes "homomorphic lib point" and "sum_commits lib ps ns = Inr c"
  shows "point c = sum_list (map point ps) - sum_list (map point ns)"
  using assms homomorphicD(1) [OF assms(1), of "filter (\<lambda>x. x \<noteq> commit_to_zero_value lib) ps"
      "filter (\<lambda>x. x \<noteq> commit_to_zero_value lib) ns" c]
    sum_list_filter_zero [of point "commit_to_zero_value lib", OF homomorphicD(2) [OF assms(1)]]
  by (simp add: sum_commits_def Let_def)

lemma sum_commitments_point:
  assumes "homomorphic lib point" and "sum_commitments lib s overage = Inr u"
  shows "point u = sum_list (map point (outputs_committed s)) - sum_list (map point (inputs_committed s)) +
    overage_point lib point overage"
  using assms(2) sum_commits_point [OF assms(1)]
  by (auto simp: sum_commitments_def overage_point_def checked_abs_def rbind_Inr_iff Let_def split: if_splits)

lemma sum_kernel_excesses_point:
  assumes "homomorphic lib point" and "sum_kernel_excesses lib s offset = Inr (k, ko)"
  shows "point k = sum_list (map point (kernels_committed s))"
    and "point ko = sum_list (map point (kernels_committed s)) + offset_point lib point offset"
  using assms(2) sum_commits_point [OF assms(1)] homomorphicD(1) [OF assms(1)]
  by (cases "offset = blinding_zero lib"; auto simp: sum_kernel_excesses_def offset_point_def rbind_Inr_iff)+

lemma verify_kernel_sums_point:
  assumes "homomorphic lib point" and "verify_kernel_sums lib s overage offset = Inr (u, k)"
  shows "point u = sum_list (map point (outputs_committed s)) - sum_list (map point (inputs_committed s)) +
      overage_point lib point overage"
    and "point k = sum_list (map point (kernels_committed s))"
    and "point u = point k + offset_point lib point offset"
proof -
  from assms(2) have "sum_commitments lib s overage = Inr u" "sum_kernel_excesses lib s offset = Inr (k, u)"
    by (auto simp: verify_kernel_sums_def rbind_Inr_iff split: if_splits)
  note u = sum_commitments_point [OF assms(1) this(1)] and k = sum_kernel_excesses_point [OF assms(1) this(2)]
  show "point u = sum_list (map point (outputs_committed s)) - sum_list (map point (inputs_committed s)) +
      overage_point lib point overage" by (rule u)
  show "point k = sum_list (map point (kernels_committed s))" by (rule k(1))
  show "point u = point k + offset_point lib point offset" using k by simp
qed

text \<open>Without positive offsets the negative ones are not looked at.\<close>

lemma sum_kernel_offsets_drops_negative:
  "to_secrets lib positive = [] \<Longrightarrow> sum_kernel_offsets lib positive negative = Inr (blinding_zero lib)"
  by (simp add: sum_kernel_offsets_def Let_def)

interpretation block_sums_codec: codec block_sums_write "block_sums_read sz"
    "\<lambda>_ s. length (utxo_sum s) = pedersen_commitment_size sz \<and>
       length (kernel_sum s) = pedersen_commitment_size sz \<and> pedersen_commitment_size sz \<le> max_read_size" for sz
  by (rule codecI [where enc = "\<lambda>_ s. utxo_sum s @ kernel_sum s"])
    (auto simp: block_sums_write_def block_sums_read_def write_fixed_bytes_def commitment_read_def)

text \<open>A chain of blocks applied one after the other: each with its overage and its total offset.\<close>

fun apply_blocks ::
    "secp_lib \<Rightarrow> block_sums \<Rightarrow> (committed \<times> u64 \<times> bytes) list \<Rightarrow> committed_error + block_sums" where
  "apply_blocks lib sums [] = Inr sums"
| "apply_blocks lib sums ((b, overage, offset) # bs) =
     rbind (apply_block_sums lib sums b overage offset) (\<lambda>sums'. apply_blocks lib sums' bs)"

lemma apply_block_sums_point:
  assumes "homomorphic lib point" and "apply_block_sums lib sums b overage offset = Inr sums'"
  shows "point (utxo_sum sums') = point (utxo_sum sums) + sum_list (map point (outputs_committed b)) -
      sum_list (map point (inputs_committed b)) + overage_point lib point overage"
    and "point (kernel_sum sums') = point (kernel_sum sums) + sum_list (map point (kernels_committed b))"
    and "point (utxo_sum sums') = point (kernel_sum sums') + offset_point lib point offset"
proof -
  from assms(2) have v: "verify_kernel_sums lib (with_block_sums sums b) overage offset =
      Inr (utxo_sum sums', kernel_sum sums')"
    by (auto simp: apply_block_sums_def rbind_Inr_iff)
  note p = verify_kernel_sums_point [OF assms(1) v]
  show "point (utxo_sum sums') = point (utxo_sum sums) + sum_list (map point (outputs_committed b)) -
      sum_list (map point (inputs_committed b)) + overage_point lib point overage"
    using p(1) by (simp add: with_block_sums_def)
  show "point (kernel_sum sums') = point (kernel_sum sums) + sum_list (map point (kernels_committed b))"
    using p(2) by (simp add: with_block_sums_def)
  show "point (utxo_sum sums') = point (kernel_sum sums') + offset_point lib point offset" by (rule p(3))
qed

lemma apply_blocks_point:
  assumes "homomorphic lib point"
  shows "apply_blocks lib sums bs = Inr sums' \<Longrightarrow>
    point (utxo_sum sums') = point (utxo_sum sums) +
      sum_list (map (\<lambda>x. sum_list (map point (outputs_committed (fst x))) -
        sum_list (map point (inputs_committed (fst x))) + overage_point lib point (fst (snd x))) bs) \<and>
    point (kernel_sum sums') = point (kernel_sum sums) +
      sum_list (map (\<lambda>x. sum_list (map point (kernels_committed (fst x)))) bs) \<and>
    (bs \<noteq> [] \<longrightarrow> point (utxo_sum sums') =
      point (kernel_sum sums') + offset_point lib point (snd (snd (last bs))))"
proof (induction bs arbitrary: sums)
  case (Cons x bs)
  obtain b ov off where x: "x = (b, ov, off)" by (cases x)
  from Cons.prems obtain mid where mid: "apply_block_sums lib sums b ov off = Inr mid"
    "apply_blocks lib mid bs = Inr sums'" by (auto simp: x rbind_Inr_iff)
  note p = apply_block_sums_point [OF assms mid(1)] and IH = Cons.IH [OF mid(2)]
  have "point (utxo_sum sums') = point (kernel_sum sums') + offset_point lib point (snd (snd (last (x # bs))))"
    using IH p(3) mid(2) by (cases "bs = []") (auto simp: x)
  then show ?case using IH p(1,2) by (auto simp: x algebra_simps)
qed simp

section \<open>Properties\<close>

text \<open>C17: no money is created. If a transaction or a block passes \<open>verify_kernel_sums\<close>, then in the
  group of commitments its outputs minus its inputs plus the overage (fees, or minus the reward)
  equal its kernel excesses plus the offset, and the two sums answered are exactly these.\<close>

theorem verify_kernel_sums_balance:
  assumes "homomorphic lib point" and "verify_kernel_sums lib s overage offset = Inr (u, k)"
  shows "sum_list (map point (outputs_committed s)) - sum_list (map point (inputs_committed s)) +
      overage_point lib point overage =
    sum_list (map point (kernels_committed s)) + offset_point lib point offset \<and>
    point u = sum_list (map point (outputs_committed s)) - sum_list (map point (inputs_committed s)) +
      overage_point lib point overage \<and>
    point k = sum_list (map point (kernels_committed s))"
  using verify_kernel_sums_point [OF assms] by simp

text \<open>A library over the additive group of bytes: a commitment to a value with a key is their sum.\<close>

definition byte_lib :: secp_lib where
  "byte_lib = \<lparr> sizes = \<lparr> pedersen_commitment_size = 1, max_proof_size = 1, agg_signature_size = 1,
       secret_key_size = 1, compressed_public_key_size = 1 \<rparr>,
     lib_commit = (\<lambda>v k. Inr [ucast v + hd k]), lib_commit_value = (\<lambda>v. Inr [ucast v]),
     lib_commit_sum = (\<lambda>ps ns. Inr [sum_list (map hd ps) - sum_list (map hd ns)]),
     lib_blind_sum = (\<lambda>ps ns. Inr [sum_list (map hd ps) - sum_list (map hd ns)]),
     lib_secret_key_from_slice = Inr, lib_message_from_slice = Inr, lib_to_pubkey = Inr,
     lib_verify_single = (\<lambda>_ _ _ _ _ _. True), lib_verify_batch = (\<lambda>_ _ _. True),
     lib_verify_bullet_proof = (\<lambda>_ _. Inr ()), lib_verify_bullet_proof_multi = (\<lambda>_ _. Inr ()) \<rparr>"

lemma homomorphic_byte_lib: "homomorphic byte_lib (hd :: bytes \<Rightarrow> u8)"
  by (auto simp: homomorphic_def byte_lib_def commit_to_zero_value_def pad_bytes_def)

lemma verify_kernel_sums_balance_witness:
  "verify_kernel_sums byte_lib
     \<lparr> inputs_committed = [[10]], outputs_committed = [[3], [9]], kernels_committed = [[2]] \<rparr> 5 [5] =
       Inr ([7], [2]) \<and>
   (3 + 9 - 10 + 5 :: u8) = 2 + 5"
proof -
  let ?s = "\<lparr> inputs_committed = [[10]], outputs_committed = [[3], [9]], kernels_committed = [[2]] \<rparr> :: committed"
  have v: "verify_kernel_sums byte_lib ?s 5 [5] = Inr ([7], [2])"
    by code_simp
  from verify_kernel_sums_balance [OF homomorphic_byte_lib v] v show ?thesis by simp
qed

text \<open>C18: checking every block only against the running totals of its predecessor amounts to checking the
  whole chain: after any sequence of blocks has been applied, the totals are those of all outputs,
  inputs, overages and kernels of the sequence, and they balance with the last total offset.\<close>

theorem block_sums_chain:
  assumes "homomorphic lib point" and "apply_blocks lib sums bs = Inr sums'"
  shows "point (utxo_sum sums') = point (utxo_sum sums) +
      sum_list (map (\<lambda>x. sum_list (map point (outputs_committed (fst x))) -
        sum_list (map point (inputs_committed (fst x))) + overage_point lib point (fst (snd x))) bs) \<and>
    point (kernel_sum sums') = point (kernel_sum sums) +
      sum_list (map (\<lambda>x. sum_list (map point (kernels_committed (fst x)))) bs) \<and>
    (bs \<noteq> [] \<longrightarrow> point (utxo_sum sums') =
      point (kernel_sum sums') + offset_point lib point (snd (snd (last bs))))"
  by (rule apply_blocks_point [OF assms])

lemma block_sums_chain_witness:
  "apply_blocks byte_lib (block_sums_default byte_lib)
     [(\<lparr> inputs_committed = [], outputs_committed = [[62]], kernels_committed = [[1]] \<rparr>, - 60, [1]),
      (\<lparr> inputs_committed = [[1]], outputs_committed = [[64], [1]], kernels_committed = [[2]] \<rparr>, - 60, [3])] =
     Inr \<lparr> utxo_sum = [6], kernel_sum = [3] \<rparr> \<and>
   hd (utxo_sum \<lparr> utxo_sum = [6], kernel_sum = [3] \<rparr>) = (3 :: u8) + 3"
proof -
  let ?bs = "[(\<lparr> inputs_committed = [], outputs_committed = [[62]], kernels_committed = [[1]] \<rparr>, - 60, [1]),
      (\<lparr> inputs_committed = [[1]], outputs_committed = [[64], [1]], kernels_committed = [[2]] \<rparr>, - 60, [3])]
    :: (committed \<times> u64 \<times> bytes) list"
  have a: "apply_blocks byte_lib (block_sums_default byte_lib) ?bs = Inr \<lparr> utxo_sum = [6], kernel_sum = [3] \<rparr>"
    by code_simp
  from block_sums_chain [OF homomorphic_byte_lib a] a show ?thesis by simp
qed

end
