(* ===== verification/Transaction.thy ===== *)
theory Transaction
  imports Committed Consensus "HOL-Library.List_Lexorder"
begin

unbundle bit_operations_syntax

text \<open>
  Transactions (\<open>core/src/core/transaction.rs\<close>): fee fields, kernels, inputs and outputs with
  their serialized forms, the transaction body and the checks of its validation.

  The ambient state the code reads (the static \<open>secp\<close> instance, the hash function, the chain type
  and the NRD flag of \<open>global.rs\<close>) is the record \<open>tx_env\<close>. Types with \<open>hashable_ord!\<close> are compared
  by the hash of their hash-mode serialization: each has a \<open>_key\<close> function, and the byte strings
  are ordered lexicographically, as Rust's arrays are. \<open>sort_unstable\<close> is a sort by that key; the
  theorems speak of the multiset and of the keys of the result, which do not depend on the order it
  gives to equal elements.
\<close>

record tx_env =
  env_lib :: secp_lib
  env_blake2b :: "bytes \<Rightarrow> hash"
  env_chain :: chain_types
  env_nrd :: bool

section \<open>Errors\<close>

datatype tx_error =
    TxSecp secp_error
  | TxKeychain keychain_error
  | TxKernelSumMismatch
  | TooHeavy
  | LockHeight u64
  | RangeProofError
  | MerkleProofError
  | InvalidProofMessage
  | TxCommitted committed_error
  | CutThrough
  | InvalidOutputFeatures
  | InvalidKernelFeatures
  | InvalidFeeFields
  | InvalidNRDRelativeHeight
  | IncorrectSignature
  | Serialization ser_error

section \<open>Fee fields\<close>

datatype fee_fields = FeeFields (fee_fields_raw: u64)

definition fee_bits :: nat where "fee_bits = 40"
definition fee_mask :: u64 where "fee_mask = push_bit fee_bits 1 - 1"
definition fee_shift_bits :: nat where "fee_shift_bits = 4"
definition fee_shift_mask :: u64 where "fee_shift_mask = push_bit fee_shift_bits 1 - 1"

definition fee_fields_write :: "fee_fields writeable" where
  "fee_fields_write c f = Inr (write_u64 (fee_fields_raw f))"

definition fee_fields_read :: "fee_fields readable_fn" where
  "fee_fields_read r = rbind (read_u64 r) (\<lambda>(f, r). Inr (FeeFields f, r))"

definition fee_fields_try_from :: "u64 \<Rightarrow> tx_error + fee_fields" where
  "fee_fields_try_from fee = (if fee = 0 \<or> fee_mask < fee then Inl InvalidFeeFields else Inr (FeeFields fee))"

definition fee_fields_zero :: fee_fields where
  "fee_fields_zero = FeeFields 0"

definition fee_fields_new :: "u64 \<Rightarrow> u64 \<Rightarrow> tx_error + fee_fields" where
  "fee_fields_new shift fee =
     (if fee = 0 \<or> fee_mask < fee \<or> fee_shift_mask < shift then Inl InvalidFeeFields
      else Inr (FeeFields (push_bit fee_bits shift OR fee)))"

definition fee_fields_shift :: "fee_fields \<Rightarrow> u8" where
  "fee_fields_shift f = ucast (drop_bit fee_bits (fee_fields_raw f) AND fee_shift_mask)"

definition fee_fields_fee :: "fee_fields \<Rightarrow> u64" where
  "fee_fields_fee f = fee_fields_raw f AND fee_mask"

definition fee_fields_is_zero :: "fee_fields \<Rightarrow> bool" where
  "fee_fields_is_zero f \<longleftrightarrow> fee_fields_raw f = 0"

definition fee_fields_as_opt :: "fee_fields \<Rightarrow> fee_fields option" where
  "fee_fields_as_opt f = (if fee_fields_is_zero f then None else Some f)"

section \<open>Relative heights\<close>

datatype nrd_relative_height = NRDRelativeHeight (nrd_raw: u16)

definition nrd_max :: u64 where "nrd_max = week_height"

definition nrd_try_from_u16 :: "u16 \<Rightarrow> tx_error + nrd_relative_height" where
  "nrd_try_from_u16 height =
     (if height = 0 \<or> ucast nrd_max < height then Inl InvalidNRDRelativeHeight
      else Inr (NRDRelativeHeight height))"

definition nrd_try_from_u64 :: "u64 \<Rightarrow> tx_error + nrd_relative_height" where
  "nrd_try_from_u64 height =
     (if 2 ^ 16 \<le> unat height then Inl InvalidNRDRelativeHeight else nrd_try_from_u16 (ucast height))"

definition nrd_new :: "u64 \<Rightarrow> tx_error + nrd_relative_height" where
  "nrd_new height = nrd_try_from_u64 height"

definition nrd_write :: "nrd_relative_height writeable" where
  "nrd_write c h = Inr (write_u16 (nrd_raw h))"

definition nrd_read :: "nrd_relative_height readable_fn" where
  "nrd_read r =
     rbind (read_u16 r) (\<lambda>(x, r).
       rbind (map_err (\<lambda>_. CorruptedData) (nrd_try_from_u16 x)) (\<lambda>h. Inr (h, r)))"

section \<open>Kernel features\<close>

datatype kernel_features =
    Plain fee_fields
  | Coinbase
  | HeightLocked fee_fields u64
  | NoRecentDuplicate fee_fields nrd_relative_height

definition plain_u8 :: u8 where "plain_u8 = 0"
definition coinbase_u8 :: u8 where "coinbase_u8 = 1"
definition height_locked_u8 :: u8 where "height_locked_u8 = 2"
definition no_recent_duplicate_u8 :: u8 where "no_recent_duplicate_u8 = 3"

lemmas feature_bytes = plain_u8_def coinbase_u8_def height_locked_u8_def no_recent_duplicate_u8_def

fun as_u8 :: "kernel_features \<Rightarrow> u8" where
  "as_u8 (Plain _) = plain_u8"
| "as_u8 Coinbase = coinbase_u8"
| "as_u8 (HeightLocked _ _) = height_locked_u8"
| "as_u8 (NoRecentDuplicate _ _) = no_recent_duplicate_u8"

fun as_string :: "kernel_features \<Rightarrow> string" where
  "as_string (Plain _) = ''Plain''"
| "as_string Coinbase = ''Coinbase''"
| "as_string (HeightLocked _ _) = ''HeightLocked''"
| "as_string (NoRecentDuplicate _ _) = ''NoRecentDuplicate''"

definition kf_is_coinbase :: "kernel_features \<Rightarrow> bool" where
  "kf_is_coinbase kf = (case kf of Coinbase \<Rightarrow> True | _ \<Rightarrow> False)"
definition kf_is_plain :: "kernel_features \<Rightarrow> bool" where
  "kf_is_plain kf = (case kf of Plain _ \<Rightarrow> True | _ \<Rightarrow> False)"
definition kf_is_height_locked :: "kernel_features \<Rightarrow> bool" where
  "kf_is_height_locked kf = (case kf of HeightLocked _ _ \<Rightarrow> True | _ \<Rightarrow> False)"
definition kf_is_nrd :: "kernel_features \<Rightarrow> bool" where
  "kf_is_nrd kf = (case kf of NoRecentDuplicate _ _ \<Rightarrow> True | _ \<Rightarrow> False)"

definition kernel_sig_msg :: "tx_env \<Rightarrow> kernel_features \<Rightarrow> tx_error + bytes" where
  "kernel_sig_msg env kf =
     (let x = as_u8 kf;
          b = env_blake2b env;
          h = (case kf of
                 Plain fee \<Rightarrow> hash_of b (pair_write u8_write fee_fields_write) (x, fee)
               | Coinbase \<Rightarrow> hash_of b u8_write x
               | HeightLocked fee lock_height \<Rightarrow>
                   hash_of b (triple_write u8_write fee_fields_write u64_write) (x, fee, lock_height)
               | NoRecentDuplicate fee relative_height \<Rightarrow>
                   hash_of b (triple_write u8_write fee_fields_write nrd_write) (x, fee, relative_height))
      in map_err TxSecp (lib_message_from_slice (env_lib env) h))"

definition kf_write_v1 :: "kernel_features writeable" where
  "kf_write_v1 c kf =
     (case kf of
        Plain fee \<Rightarrow>
          rbind (fee_fields_write c fee) (\<lambda>f. Inr (write_u8 (as_u8 kf) @ f @ write_empty_bytes 8))
      | Coinbase \<Rightarrow> Inr (write_u8 (as_u8 kf) @ write_empty_bytes 16)
      | HeightLocked fee lock_height \<Rightarrow>
          rbind (fee_fields_write c fee) (\<lambda>f. Inr (write_u8 (as_u8 kf) @ f @ write_u64 lock_height))
      | NoRecentDuplicate fee relative_height \<Rightarrow>
          rbind (fee_fields_write c fee) (\<lambda>f. rbind (nrd_write c relative_height) (\<lambda>h.
            Inr (write_u8 (as_u8 kf) @ f @ write_empty_bytes 6 @ h))))"

definition kf_write_v2 :: "kernel_features writeable" where
  "kf_write_v2 c kf =
     (case kf of
        Plain fee \<Rightarrow> rbind (fee_fields_write c fee) (\<lambda>f. Inr (write_u8 (as_u8 kf) @ f))
      | Coinbase \<Rightarrow> Inr (write_u8 (as_u8 kf))
      | HeightLocked fee lock_height \<Rightarrow>
          rbind (fee_fields_write c fee) (\<lambda>f. Inr (write_u8 (as_u8 kf) @ f @ write_u64 lock_height))
      | NoRecentDuplicate fee relative_height \<Rightarrow>
          rbind (fee_fields_write c fee) (\<lambda>f. rbind (nrd_write c relative_height) (\<lambda>h.
            Inr (write_u8 (as_u8 kf) @ f @ h))))"

definition kf_read_v1 :: "bool \<Rightarrow> kernel_features readable_fn" where
  "kf_read_v1 nrd_enabled r =
     rbind (read_u8 r) (\<lambda>(feature_byte, r).
       if feature_byte = plain_u8 then
         rbind (fee_fields_read r) (\<lambda>(fee, r).
           rbind (read_empty_bytes 8 r) (\<lambda>(_, r). Inr (Plain fee, r)))
       else if feature_byte = coinbase_u8 then
         rbind (read_empty_bytes 16 r) (\<lambda>(_, r). Inr (Coinbase, r))
       else if feature_byte = height_locked_u8 then
         rbind (fee_fields_read r) (\<lambda>(fee, r).
           rbind (read_u64 r) (\<lambda>(lock_height, r). Inr (HeightLocked fee lock_height, r)))
       else if feature_byte = no_recent_duplicate_u8 then
         (if \<not> nrd_enabled then Inl CorruptedData
          else rbind (fee_fields_read r) (\<lambda>(fee, r).
            rbind (read_empty_bytes 6 r) (\<lambda>(_, r).
              rbind (nrd_read r) (\<lambda>(relative_height, r). Inr (NoRecentDuplicate fee relative_height, r)))))
       else Inl CorruptedData)"

definition kf_read_v2 :: "bool \<Rightarrow> kernel_features readable_fn" where
  "kf_read_v2 nrd_enabled r =
     rbind (read_u8 r) (\<lambda>(feature_byte, r).
       if feature_byte = plain_u8 then
         rbind (fee_fields_read r) (\<lambda>(fee, r). Inr (Plain fee, r))
       else if feature_byte = coinbase_u8 then Inr (Coinbase, r)
       else if feature_byte = height_locked_u8 then
         rbind (fee_fields_read r) (\<lambda>(fee, r).
           rbind (read_u64 r) (\<lambda>(lock_height, r). Inr (HeightLocked fee lock_height, r)))
       else if feature_byte = no_recent_duplicate_u8 then
         (if \<not> nrd_enabled then Inl CorruptedData
          else rbind (fee_fields_read r) (\<lambda>(fee, r).
            rbind (nrd_read r) (\<lambda>(relative_height, r). Inr (NoRecentDuplicate fee relative_height, r))))
       else Inl CorruptedData)"

definition kernel_features_write :: "kernel_features writeable" where
  "kernel_features_write c kf =
     (if is_hash_mode (wr_mode c) then kf_write_v1 c kf
      else if wr_version c \<le> 1 then kf_write_v1 c kf else kf_write_v2 c kf)"

definition kernel_features_read :: "bool \<Rightarrow> kernel_features readable_fn" where
  "kernel_features_read nrd_enabled r =
     (if rd_version r \<le> 1 then kf_read_v1 nrd_enabled r else kf_read_v2 nrd_enabled r)"

section \<open>Kernels\<close>

record tx_kernel =
  k_features :: kernel_features
  excess :: commitment
  excess_sig :: bytes

definition tx_kernel_write :: "tx_kernel writeable" where
  "tx_kernel_write c k =
     rbind (kernel_features_write c (k_features k)) (\<lambda>f.
       rbind (commitment_write c (excess k)) (\<lambda>e.
         rbind (signature_write c (excess_sig k)) (\<lambda>s. Inr (f @ e @ s))))"

definition tx_kernel_read :: "tx_env \<Rightarrow> tx_kernel readable_fn" where
  "tx_kernel_read env r =
     rbind (kernel_features_read (env_nrd env) r) (\<lambda>(f, r).
       rbind (commitment_read (sizes (env_lib env)) r) (\<lambda>(e, r).
         rbind (signature_read (sizes (env_lib env)) r) (\<lambda>(s, r).
           Inr (\<lparr> k_features = f, excess = e, excess_sig = s \<rparr>, r))))"

definition tx_kernel_key :: "tx_env \<Rightarrow> tx_kernel \<Rightarrow> hash" where
  "tx_kernel_key env k = hash_of (env_blake2b env) tx_kernel_write k"

definition msg_to_sign :: "tx_env \<Rightarrow> tx_kernel \<Rightarrow> tx_error + bytes" where
  "msg_to_sign env k = rbind (kernel_sig_msg env (k_features k)) Inr"

definition tx_kernel_verify :: "tx_env \<Rightarrow> tx_kernel \<Rightarrow> tx_error + unit" where
  "tx_kernel_verify env k =
     rbind (map_err TxSecp (lib_to_pubkey (env_lib env) (excess k))) (\<lambda>pubkey.
       rbind (msg_to_sign env k) (\<lambda>msg.
         if \<not> lib_verify_single (env_lib env) (excess_sig k) msg None pubkey (Some pubkey) False
         then Inl IncorrectSignature else Inr ()))"

fun batch_collect :: "tx_env \<Rightarrow> tx_kernel list \<Rightarrow> tx_error + (bytes \<times> bytes \<times> bytes) list" where
  "batch_collect env [] = Inr []"
| "batch_collect env (k # ks) =
     rbind (map_err TxSecp (lib_to_pubkey (env_lib env) (excess k))) (\<lambda>pubkey.
       rbind (msg_to_sign env k) (\<lambda>msg.
         rbind (batch_collect env ks) (\<lambda>rest. Inr ((excess_sig k, pubkey, msg) # rest))))"

definition batch_sig_verify :: "tx_env \<Rightarrow> tx_kernel list \<Rightarrow> tx_error + unit" where
  "batch_sig_verify env tx_kernels =
     rbind (batch_collect env tx_kernels) (\<lambda>items.
       if \<not> lib_verify_batch (env_lib env) (map fst items) (map (snd \<circ> snd) items) (map (fst \<circ> snd) items)
       then Inl IncorrectSignature else Inr ())"

definition tx_kernel_with_features :: "tx_env \<Rightarrow> kernel_features \<Rightarrow> tx_kernel" where
  "tx_kernel_with_features env f =
     \<lparr> k_features = f, excess = pad_bytes (pedersen_commitment_size (sizes (env_lib env))) (replicate 33 0),
       excess_sig = replicate 64 0 \<rparr>"

definition tx_kernel_empty :: "tx_env \<Rightarrow> tx_kernel" where
  "tx_kernel_empty env = tx_kernel_with_features env (Plain fee_fields_zero)"

section \<open>Inputs and outputs\<close>

datatype output_features = PlainOutput | CoinbaseOutput

definition output_features_to_u8 :: "output_features \<Rightarrow> u8" where
  "output_features_to_u8 f = (case f of PlainOutput \<Rightarrow> 0 | CoinbaseOutput \<Rightarrow> 1)"

definition output_features_from_u8 :: "u8 \<Rightarrow> output_features option" where
  "output_features_from_u8 b = (if b = 0 then Some PlainOutput else if b = 1 then Some CoinbaseOutput else None)"

definition output_features_write :: "output_features writeable" where
  "output_features_write c f = Inr (write_u8 (output_features_to_u8 f))"

definition output_features_read :: "output_features readable_fn" where
  "output_features_read r =
     rbind (read_u8 r) (\<lambda>(b, r).
       rbind (ok_or CorruptedData (output_features_from_u8 b)) (\<lambda>f. Inr (f, r)))"

definition of_is_coinbase :: "output_features \<Rightarrow> bool" where
  "of_is_coinbase f \<longleftrightarrow> f = CoinbaseOutput"

record input =
  in_features :: output_features
  in_commit :: commitment

definition input_write :: "input writeable" where
  "input_write c i =
     rbind (output_features_write c (in_features i)) (\<lambda>f.
       rbind (commitment_write c (in_commit i)) (\<lambda>cm. Inr (f @ cm)))"

definition input_read :: "secp_sizes \<Rightarrow> input readable_fn" where
  "input_read sz r =
     rbind (output_features_read r) (\<lambda>(f, r).
       rbind (commitment_read sz r) (\<lambda>(cm, r). Inr (\<lparr> in_features = f, in_commit = cm \<rparr>, r)))"

definition input_key :: "tx_env \<Rightarrow> input \<Rightarrow> hash" where
  "input_key env i = hash_of (env_blake2b env) input_write i"

record output_identifier =
  oi_features :: output_features
  oi_commit :: commitment

definition output_identifier_write :: "output_identifier writeable" where
  "output_identifier_write c oi =
     rbind (output_features_write c (oi_features oi)) (\<lambda>f.
       rbind (commitment_write c (oi_commit oi)) (\<lambda>cm. Inr (f @ cm)))"

definition output_identifier_read :: "secp_sizes \<Rightarrow> output_identifier readable_fn" where
  "output_identifier_read sz r =
     rbind (output_features_read r) (\<lambda>(f, r).
       rbind (commitment_read sz r) (\<lambda>(cm, r). Inr (\<lparr> oi_features = f, oi_commit = cm \<rparr>, r)))"

definition output_identifier_key :: "tx_env \<Rightarrow> output_identifier \<Rightarrow> hash" where
  "output_identifier_key env oi = hash_of (env_blake2b env) output_identifier_write oi"

definition output_identifier_elmt_size :: "secp_sizes \<Rightarrow> nat" where
  "output_identifier_elmt_size sz = 1 + pedersen_commitment_size sz"

definition input_from_identifier :: "output_identifier \<Rightarrow> input" where
  "input_from_identifier oi = \<lparr> in_features = oi_features oi, in_commit = oi_commit oi \<rparr>"

definition identifier_from_input :: "input \<Rightarrow> output_identifier" where
  "identifier_from_input i = \<lparr> oi_features = in_features i, oi_commit = in_commit i \<rparr>"

record tx_output =
  out_identifier :: output_identifier
  out_proof :: range_proof

definition output_write :: "tx_output writeable" where
  "output_write c out =
     rbind (output_identifier_write c (out_identifier out)) (\<lambda>i.
       rbind (range_proof_write c (out_proof out)) (\<lambda>p. Inr (i @ p)))"

definition output_read :: "secp_sizes \<Rightarrow> tx_output readable_fn" where
  "output_read sz r =
     rbind (output_identifier_read sz r) (\<lambda>(i, r).
       rbind (range_proof_read sz r) (\<lambda>(p, r). Inr (\<lparr> out_identifier = i, out_proof = p \<rparr>, r)))"

definition output_key :: "tx_env \<Rightarrow> tx_output \<Rightarrow> hash" where
  "output_key env out = output_identifier_key env (out_identifier out)"

definition output_commitment :: "tx_output \<Rightarrow> commitment" where
  "output_commitment out = oi_commit (out_identifier out)"

definition output_is_coinbase :: "tx_output \<Rightarrow> bool" where
  "output_is_coinbase out = of_is_coinbase (oi_features (out_identifier out))"

definition verify_proof :: "tx_env \<Rightarrow> tx_output \<Rightarrow> tx_error + unit" where
  "verify_proof env out =
     map_err TxSecp (lib_verify_bullet_proof (env_lib env) (output_commitment out) (out_proof out))"

definition batch_verify_proofs :: "tx_env \<Rightarrow> commitment list \<Rightarrow> range_proof list \<Rightarrow> tx_error + unit" where
  "batch_verify_proofs env commits proofs =
     map_err TxSecp (lib_verify_bullet_proof_multi (env_lib env) commits proofs)"

definition into_output :: "output_identifier \<Rightarrow> range_proof \<Rightarrow> tx_output" where
  "into_output oi p = \<lparr> out_identifier = oi, out_proof = p \<rparr>"

section \<open>Commit wrappers and the inputs of a body\<close>

datatype commit_wrapper = CommitWrapper (cw_commit: commitment)

definition commit_wrapper_write :: "commit_wrapper writeable" where
  "commit_wrapper_write c w = commitment_write c (cw_commit w)"

definition commit_wrapper_read :: "secp_sizes \<Rightarrow> commit_wrapper readable_fn" where
  "commit_wrapper_read sz r = rbind (commitment_read sz r) (\<lambda>(cm, r). Inr (CommitWrapper cm, r))"

definition commit_wrapper_key :: "tx_env \<Rightarrow> commit_wrapper \<Rightarrow> hash" where
  "commit_wrapper_key env w = hash_of (env_blake2b env) commit_wrapper_write w"

definition wrapper_from_input :: "input \<Rightarrow> commit_wrapper" where
  "wrapper_from_input i = CommitWrapper (in_commit i)"

datatype inputs =
    CommitOnly "commit_wrapper list"
  | FeaturesAndCommit "input list"

definition inputs_to_wrappers :: "tx_env \<Rightarrow> inputs \<Rightarrow> commit_wrapper list" where
  "inputs_to_wrappers env is =
     (case is of
        CommitOnly ws \<Rightarrow> ws
      | FeaturesAndCommit xs \<Rightarrow> sort_key (commit_wrapper_key env) (map wrapper_from_input xs))"

definition inputs_from_identifiers :: "tx_env \<Rightarrow> output_identifier list \<Rightarrow> inputs" where
  "inputs_from_identifiers env outs =
     FeaturesAndCommit (sort_key (input_key env) (map input_from_identifier outs))"

definition inputs_default :: inputs where
  "inputs_default = CommitOnly []"

definition inputs_len :: "inputs \<Rightarrow> nat" where
  "inputs_len is = (case is of CommitOnly ws \<Rightarrow> length ws | FeaturesAndCommit xs \<Rightarrow> length xs)"

definition inputs_is_empty :: "inputs \<Rightarrow> bool" where
  "inputs_is_empty is \<longleftrightarrow> inputs_len is = 0"

definition inputs_write :: "tx_env \<Rightarrow> inputs writeable" where
  "inputs_write env c is =
     (if inputs_is_empty is then Inr []
      else if is_hash_mode (wr_mode c) then
        (case is of
           CommitOnly ws \<Rightarrow> vec_write commit_wrapper_write c ws
         | FeaturesAndCommit xs \<Rightarrow> vec_write input_write c xs)
      else
        (case is of
           CommitOnly ws \<Rightarrow>
             (if wr_version c \<le> 2 then Inl UnsupportedProtocolVersion
              else vec_write commit_wrapper_write c ws)
         | FeaturesAndCommit xs \<Rightarrow>
             (if wr_version c \<le> 2 then vec_write input_write c xs
              else vec_write commit_wrapper_write c (inputs_to_wrappers env is))))"

definition inputs_verify_sorted_and_unique :: "tx_env \<Rightarrow> inputs \<Rightarrow> ser_error + unit" where
  "inputs_verify_sorted_and_unique env is =
     (case is of
        CommitOnly ws \<Rightarrow> verify_sorted_and_unique (commit_wrapper_key env) ws
      | FeaturesAndCommit xs \<Rightarrow> verify_sorted_and_unique (input_key env) xs)"

definition inputs_sort_unstable :: "tx_env \<Rightarrow> inputs \<Rightarrow> inputs" where
  "inputs_sort_unstable env is =
     (case is of
        CommitOnly ws \<Rightarrow> CommitOnly (sort_key (commit_wrapper_key env) ws)
      | FeaturesAndCommit xs \<Rightarrow> FeaturesAndCommit (sort_key (input_key env) xs))"

definition version_str :: "inputs \<Rightarrow> string" where
  "version_str is = (case is of CommitOnly _ \<Rightarrow> ''v3'' | FeaturesAndCommit _ \<Rightarrow> ''v2'')"

section \<open>Binary search\<close>

text \<open>
  \<open>slice::slice_binary_search\<close> of the standard library on the interval from \<open>l\<close> to \<open>r\<close>: \<open>Inr i\<close> for an
  element that compares equal, \<open>Inl i\<close> for the place where it can be inserted.
\<close>

function bsearch :: "('a \<Rightarrow> 'k :: linorder) \<Rightarrow> 'a list \<Rightarrow> 'k \<Rightarrow> nat \<Rightarrow> nat \<Rightarrow> nat + nat" where
  "bsearch key xs k l r =
     (if l < r then
        (let m = l + (r - l) div 2 in
         if key (xs ! m) < k then bsearch key xs k (Suc m) r
         else if k < key (xs ! m) then bsearch key xs k l m
         else Inr m)
      else Inl l)"
  by pat_completeness auto
termination
  by (relation "measure (\<lambda>(_, _, _, l, r). r - l)") auto

declare bsearch.simps [simp del]

definition slice_binary_search :: "('a \<Rightarrow> 'k :: linorder) \<Rightarrow> 'a list \<Rightarrow> 'a \<Rightarrow> nat + nat" where
  "slice_binary_search key xs x = bsearch key xs (key x) 0 (length xs)"

definition insert_at :: "nat \<Rightarrow> 'a \<Rightarrow> 'a list \<Rightarrow> 'a list" where
  "insert_at e x xs = take e xs @ x # drop e xs"

definition sorted_insert :: "('a \<Rightarrow> 'k :: linorder) \<Rightarrow> 'a \<Rightarrow> 'a list \<Rightarrow> 'a list" where
  "sorted_insert key x xs = (case slice_binary_search key xs x of Inl e \<Rightarrow> insert_at e x xs | Inr _ \<Rightarrow> xs)"

section \<open>Transaction bodies\<close>

datatype weighting = AsTransaction | AsLimitedTransaction u64 | AsBlock | NoLimit

record transaction_body =
  body_inputs :: inputs
  body_outputs :: "tx_output list"
  body_kernels :: "tx_kernel list"

definition transaction_body_write :: "tx_env \<Rightarrow> transaction_body writeable" where
  "transaction_body_write env c b =
     rbind (inputs_write env c (body_inputs b)) (\<lambda>i.
       rbind (vec_write output_write c (body_outputs b)) (\<lambda>out.
         rbind (vec_write tx_kernel_write c (body_kernels b)) (\<lambda>k.
           Inr (write_u64 (of_nat (inputs_len (body_inputs b))) @
                write_u64 (of_nat (length (body_outputs b))) @
                write_u64 (of_nat (length (body_kernels b))) @ i @ out @ k))))"

definition weight_by_iok :: "u64 \<Rightarrow> u64 \<Rightarrow> u64 \<Rightarrow> u64" where
  "weight_by_iok num_inputs num_outputs num_kernels =
     sat_add (sat_add (sat_mul num_inputs input_weight) (sat_mul num_outputs output_weight))
       (sat_mul num_kernels kernel_weight)"

definition body_verify_sorted :: "tx_env \<Rightarrow> transaction_body \<Rightarrow> tx_error + unit" where
  "body_verify_sorted env b =
     rbind (map_err Serialization (inputs_verify_sorted_and_unique env (body_inputs b))) (\<lambda>_.
       rbind (map_err Serialization (verify_sorted_and_unique (output_key env) (body_outputs b))) (\<lambda>_.
         rbind (map_err Serialization (verify_sorted_and_unique (tx_kernel_key env) (body_kernels b))) Inr))"

definition body_sort :: "tx_env \<Rightarrow> transaction_body \<Rightarrow> transaction_body" where
  "body_sort env b =
     \<lparr> body_inputs = inputs_sort_unstable env (body_inputs b),
       body_outputs = sort_key (output_key env) (body_outputs b),
       body_kernels = sort_key (tx_kernel_key env) (body_kernels b) \<rparr>"

definition body_init ::
    "tx_env \<Rightarrow> inputs \<Rightarrow> tx_output list \<Rightarrow> tx_kernel list \<Rightarrow> bool \<Rightarrow> tx_error + transaction_body" where
  "body_init env is outs ks verify_sorted =
     (let body = \<lparr> body_inputs = is, body_outputs = outs, body_kernels = ks \<rparr>
      in if verify_sorted then rbind (body_verify_sorted env body) (\<lambda>_. Inr body)
         else Inr (body_sort env body))"

definition transaction_body_read :: "tx_env \<Rightarrow> transaction_body readable_fn" where
  "transaction_body_read env r =
     rbind (triple_read read_u64 read_u64 read_u64 r) (\<lambda>((num_inputs, num_outputs, num_kernels), r).
       if max_block_weight (env_chain env) < weight_by_iok num_inputs num_outputs num_kernels
       then Inl TooLargeReadErr
       else rbind (if rd_version r \<le> 2
                   then rbind (read_multi (input_read (sizes (env_lib env))) num_inputs r) (\<lambda>(xs, r).
                          Inr (FeaturesAndCommit xs, r))
                   else rbind (read_multi (commit_wrapper_read (sizes (env_lib env))) num_inputs r) (\<lambda>(ws, r).
                          Inr (CommitOnly ws, r))) (\<lambda>(is, r).
         rbind (read_multi (output_read (sizes (env_lib env))) num_outputs r) (\<lambda>(outs, r).
           rbind (read_multi (tx_kernel_read env) num_kernels r) (\<lambda>(ks, r).
             rbind (map_err (\<lambda>_. CorruptedData) (body_init env is outs ks True)) (\<lambda>body.
               Inr (body, r))))))"

definition body_committed :: "tx_env \<Rightarrow> transaction_body \<Rightarrow> committed" where
  "body_committed env b =
     \<lparr> inputs_committed = map cw_commit (inputs_to_wrappers env (body_inputs b)),
       outputs_committed = map output_commitment (body_outputs b),
       kernels_committed = map excess (body_kernels b) \<rparr>"

definition body_empty :: transaction_body where
  "body_empty = \<lparr> body_inputs = inputs_default, body_outputs = [], body_kernels = [] \<rparr>"

definition body_with_input :: "tx_env \<Rightarrow> input \<Rightarrow> transaction_body \<Rightarrow> transaction_body" where
  "body_with_input env inp b =
     b \<lparr> body_inputs :=
       (case body_inputs b of
          CommitOnly ws \<Rightarrow> CommitOnly (sorted_insert (commit_wrapper_key env) (wrapper_from_input inp) ws)
        | FeaturesAndCommit xs \<Rightarrow> FeaturesAndCommit (sorted_insert (input_key env) inp xs)) \<rparr>"

definition body_replace_inputs :: "inputs \<Rightarrow> transaction_body \<Rightarrow> transaction_body" where
  "body_replace_inputs is b = b \<lparr> body_inputs := is \<rparr>"

definition body_with_output :: "tx_env \<Rightarrow> tx_output \<Rightarrow> transaction_body \<Rightarrow> transaction_body" where
  "body_with_output env out b = b \<lparr> body_outputs := sorted_insert (output_key env) out (body_outputs b) \<rparr>"

definition body_replace_outputs :: "tx_output list \<Rightarrow> transaction_body \<Rightarrow> transaction_body" where
  "body_replace_outputs outs b = b \<lparr> body_outputs := outs \<rparr>"

definition body_with_kernel :: "tx_env \<Rightarrow> tx_kernel \<Rightarrow> transaction_body \<Rightarrow> transaction_body" where
  "body_with_kernel env k b = b \<lparr> body_kernels := sorted_insert (tx_kernel_key env) k (body_kernels b) \<rparr>"

definition body_replace_kernel :: "tx_kernel \<Rightarrow> transaction_body \<Rightarrow> transaction_body" where
  "body_replace_kernel k b = b \<lparr> body_kernels := [k] \<rparr>"

definition map_kernels_fees :: "transaction_body \<Rightarrow> fee_fields list" where
  "map_kernels_fees b =
     List.map_filter (\<lambda>k. case k_features k of
         Coinbase \<Rightarrow> None
       | Plain fee \<Rightarrow> Some fee
       | HeightLocked fee _ \<Rightarrow> Some fee
       | NoRecentDuplicate fee _ \<Rightarrow> Some fee) (body_kernels b)"

definition body_fee :: "transaction_body \<Rightarrow> u64" where
  "body_fee b = foldl (\<lambda>acc f. sat_add acc (fee_fields_fee f)) 0 (map_kernels_fees b)"

definition body_fee_shift :: "transaction_body \<Rightarrow> u8" where
  "body_fee_shift b = foldl (\<lambda>acc f. max acc (fee_fields_shift f)) 0 (map_kernels_fees b)"

definition body_shifted_fee :: "transaction_body \<Rightarrow> u64" where
  "body_shifted_fee b = drop_bit (unat (body_fee_shift b)) (body_fee b)"

definition body_aggregate_fee_fields :: "transaction_body \<Rightarrow> tx_error + fee_fields" where
  "body_aggregate_fee_fields b = fee_fields_new (ucast (body_fee_shift b)) (body_fee b)"

definition body_overage :: "transaction_body \<Rightarrow> u64" where
  "body_overage b = body_fee b"

definition body_weight :: "transaction_body \<Rightarrow> u64" where
  "body_weight b =
     weight_by_iok (of_nat (inputs_len (body_inputs b))) (of_nat (length (body_outputs b)))
       (of_nat (length (body_kernels b)))"

definition body_lock_height :: "transaction_body \<Rightarrow> u64" where
  "body_lock_height b =
     foldl max 0 (List.map_filter (\<lambda>k. case k_features k of HeightLocked _ lock_height \<Rightarrow> Some lock_height
         | _ \<Rightarrow> None) (body_kernels b))"

definition verify_weight :: "tx_env \<Rightarrow> transaction_body \<Rightarrow> weighting \<Rightarrow> tx_error + unit" where
  "verify_weight env b w =
     (let coinbase_weight = output_weight + kernel_weight;
          check = (\<lambda>max_weight. if max_weight < body_weight b then Inl TooHeavy else Inr ())
      in case w of
           AsTransaction \<Rightarrow> check (max_tx_weight (env_chain env))
         | AsLimitedTransaction max_weight \<Rightarrow>
             check (sat_sub (min (max_block_weight (env_chain env)) max_weight) coinbase_weight)
         | AsBlock \<Rightarrow> check (max_block_weight (env_chain env))
         | NoLimit \<Rightarrow> Inr ())"

definition verify_no_nrd_duplicates :: "tx_env \<Rightarrow> transaction_body \<Rightarrow> tx_error + unit" where
  "verify_no_nrd_duplicates env b =
     (if \<not> env_nrd env then Inr ()
      else let nrd_excess = sort (map excess (filter (\<lambda>k. kf_is_nrd (k_features k)) (body_kernels b)))
           in if length nrd_excess = length (remdups_adj nrd_excess) then Inr ()
              else Inl InvalidNRDRelativeHeight)"

definition inputs_outputs_committed :: "tx_env \<Rightarrow> transaction_body \<Rightarrow> commitment list" where
  "inputs_outputs_committed env b =
     sort (inputs_committed (body_committed env b) @ outputs_committed (body_committed env b))"

definition verify_cut_through :: "tx_env \<Rightarrow> transaction_body \<Rightarrow> tx_error + unit" where
  "verify_cut_through env b =
     (if list_ex (\<lambda>(x, y). x = y) (windows2 (inputs_outputs_committed env b)) then Inl CutThrough else Inr ())"

definition verify_output_features :: "transaction_body \<Rightarrow> tx_error + unit" where
  "verify_output_features b =
     (if list_ex output_is_coinbase (body_outputs b) then Inl InvalidOutputFeatures else Inr ())"

definition verify_kernel_features :: "transaction_body \<Rightarrow> tx_error + unit" where
  "verify_kernel_features b =
     (if list_ex (\<lambda>k. kf_is_coinbase (k_features k)) (body_kernels b) then Inl InvalidKernelFeatures else Inr ())"

definition verify_features :: "transaction_body \<Rightarrow> tx_error + unit" where
  "verify_features b = rbind (verify_output_features b) (\<lambda>_. rbind (verify_kernel_features b) Inr)"

definition body_validate_read :: "tx_env \<Rightarrow> transaction_body \<Rightarrow> weighting \<Rightarrow> tx_error + unit" where
  "body_validate_read env b w =
     rbind (verify_weight env b w) (\<lambda>_.
       rbind (verify_no_nrd_duplicates env b) (\<lambda>_.
         rbind (body_verify_sorted env b) (\<lambda>_.
           rbind (verify_cut_through env b) Inr)))"

definition body_validate :: "tx_env \<Rightarrow> transaction_body \<Rightarrow> weighting \<Rightarrow> tx_error + unit" where
  "body_validate env b w =
     rbind (body_validate_read env b w) (\<lambda>_.
       rbind (if body_outputs b \<noteq> []
              then batch_verify_proofs env (map output_commitment (body_outputs b)) (map out_proof (body_outputs b))
              else Inr ()) (\<lambda>_.
         rbind (batch_sig_verify env (body_kernels b)) Inr))"

section \<open>Transactions\<close>

record transaction =
  offset :: bytes
  tx_body :: transaction_body

definition transaction_write :: "tx_env \<Rightarrow> transaction writeable" where
  "transaction_write env c tx =
     rbind (blinding_factor_write c (offset tx)) (\<lambda>f.
       rbind (transaction_body_write env c (tx_body tx)) (\<lambda>b. Inr (f @ b)))"

definition tx_validate_read :: "tx_env \<Rightarrow> transaction \<Rightarrow> tx_error + unit" where
  "tx_validate_read env tx =
     rbind (body_validate_read env (tx_body tx) AsTransaction) (\<lambda>_.
       rbind (verify_features (tx_body tx)) Inr)"

definition transaction_read :: "tx_env \<Rightarrow> transaction readable_fn" where
  "transaction_read env r =
     rbind (blinding_factor_read (sizes (env_lib env)) r) (\<lambda>(f, r).
       rbind (transaction_body_read env r) (\<lambda>(b, r).
         let tx = \<lparr> offset = f, tx_body = b \<rparr>
         in rbind (map_err (\<lambda>_. CorruptedData) (tx_validate_read env tx)) (\<lambda>_. Inr (tx, r))))"

definition tx_empty :: "tx_env \<Rightarrow> transaction" where
  "tx_empty env = \<lparr> offset = blinding_zero (env_lib env), tx_body = body_empty \<rparr>"

text \<open>\<open>expect\<close> on \<open>init\<close> without verification, which always succeeds.\<close>

definition tx_new :: "tx_env \<Rightarrow> inputs \<Rightarrow> tx_output list \<Rightarrow> tx_kernel list \<Rightarrow> transaction" where
  "tx_new env is outs ks =
     \<lparr> offset = blinding_zero (env_lib env), tx_body = projr (body_init env is outs ks False) \<rparr>"

definition tx_with_offset :: "bytes \<Rightarrow> transaction \<Rightarrow> transaction" where
  "tx_with_offset f tx = tx \<lparr> offset := f \<rparr>"

definition tx_with_input :: "tx_env \<Rightarrow> input \<Rightarrow> transaction \<Rightarrow> transaction" where
  "tx_with_input env inp tx = tx \<lparr> tx_body := body_with_input env inp (tx_body tx) \<rparr>"

definition tx_with_output :: "tx_env \<Rightarrow> tx_output \<Rightarrow> transaction \<Rightarrow> transaction" where
  "tx_with_output env out tx = tx \<lparr> tx_body := body_with_output env out (tx_body tx) \<rparr>"

definition tx_with_kernel :: "tx_env \<Rightarrow> tx_kernel \<Rightarrow> transaction \<Rightarrow> transaction" where
  "tx_with_kernel env k tx = tx \<lparr> tx_body := body_with_kernel env k (tx_body tx) \<rparr>"

definition tx_replace_kernel :: "tx_kernel \<Rightarrow> transaction \<Rightarrow> transaction" where
  "tx_replace_kernel k tx = tx \<lparr> tx_body := body_replace_kernel k (tx_body tx) \<rparr>"

definition tx_validate :: "tx_env \<Rightarrow> transaction \<Rightarrow> weighting \<Rightarrow> tx_error + unit" where
  "tx_validate env tx w =
     rbind (verify_features (tx_body tx)) (\<lambda>_.
       rbind (body_validate env (tx_body tx) w) (\<lambda>_.
         rbind (map_err TxCommitted (verify_kernel_sums (env_lib env) (body_committed env (tx_body tx))
                  (body_overage (tx_body tx)) (offset tx))) (\<lambda>_. Inr ())))"

text \<open>Division by a weight of zero panics (\<open>None\<close>).\<close>

definition tx_fee_rate :: "transaction \<Rightarrow> u64 option" where
  "tx_fee_rate tx =
     (if body_weight (tx_body tx) = 0 then None else Some (body_fee (tx_body tx) div body_weight (tx_body tx)))"

definition tx_accept_fee :: "u64 \<Rightarrow> transaction \<Rightarrow> u64" where
  "tx_accept_fee fee_base tx = body_weight (tx_body tx) * fee_base"

definition old_weight_by_iok :: "u64 \<Rightarrow> u64 \<Rightarrow> u64 \<Rightarrow> u64" where
  "old_weight_by_iok num_inputs num_outputs num_kernels =
     max (sat_sub (sat_add (sat_mul num_outputs 4) num_kernels) num_inputs) 1"

section \<open>Fee fields pack two numbers\<close>

lemma fee_masks: "fee_mask = mask 40" "fee_shift_mask = mask 4"
  by (simp_all add: fee_mask_def fee_shift_mask_def fee_bits_def fee_shift_bits_def mask_eq_exp_minus_1
      push_bit_eq_mult)

lemma bit_less_pow:
  assumes "unat (w :: u64) < 2 ^ n" and "bit w i"
  shows "i < n"
proof -
  have "take_bit n w = w"
    using assms(1) by (intro word_unat_eq_iff [THEN iffD2]) (simp add: unsigned_take_bit_eq take_bit_nat_eq_self)
  with assms(2) show ?thesis by (metis bit_take_bit_iff)
qed

lemma fee_fields_new_parts:
  assumes "fee_fields_new shift fee = Inr f"
  shows "fee_fields_fee f = fee" and "ucast (fee_fields_shift f) = shift"
proof -
  from assms have s: "shift \<le> mask 4" "fee \<le> mask 40" and f: "f = FeeFields (push_bit 40 shift OR fee)"
    by (auto simp: fee_fields_new_def fee_masks fee_bits_def not_less split: if_splits)
  then have "unat shift < 2 ^ 4" "unat fee < 2 ^ 40"
    by (auto simp: word_le_nat_alt mask_eq_exp_minus_1)
  note b = this [THEN bit_less_pow]
  show "fee_fields_fee f = fee"
    by (rule bit_word_eqI) (auto simp: f fee_fields_fee_def fee_masks bit_simps dest: b)
  show "ucast (fee_fields_shift f) = shift"
    by (rule bit_word_eqI) (auto simp: f fee_fields_shift_def fee_masks fee_bits_def bit_simps dest: b)
qed

section \<open>Serialized forms can be read back\<close>

definition sizes_ok :: "secp_sizes \<Rightarrow> bool" where
  "sizes_ok sz \<longleftrightarrow> pedersen_commitment_size sz \<le> max_read_size \<and> max_proof_size sz \<le> max_read_size \<and>
     agg_signature_size sz \<le> max_read_size \<and> secret_key_size sz \<le> max_read_size"

definition nrd_valid :: "nrd_relative_height \<Rightarrow> bool" where
  "nrd_valid h \<longleftrightarrow> nrd_raw h \<noteq> 0 \<and> nrd_raw h \<le> ucast nrd_max"

definition kf_valid :: "bool \<Rightarrow> kernel_features \<Rightarrow> bool" where
  "kf_valid nrd kf = (case kf of NoRecentDuplicate _ h \<Rightarrow> nrd \<and> nrd_valid h | _ \<Rightarrow> True)"

definition kernel_valid :: "tx_env \<Rightarrow> tx_kernel \<Rightarrow> bool" where
  "kernel_valid env k \<longleftrightarrow> kf_valid (env_nrd env) (k_features k) \<and>
     length (excess k) = pedersen_commitment_size (sizes (env_lib env)) \<and>
     length (excess_sig k) = agg_signature_size (sizes (env_lib env))"

definition proof_valid :: "secp_sizes \<Rightarrow> range_proof \<Rightarrow> bool" where
  "proof_valid sz p \<longleftrightarrow> plen p = max_proof_size sz \<and> length (proof_bytes p) = max_proof_size sz"

definition output_valid :: "secp_sizes \<Rightarrow> tx_output \<Rightarrow> bool" where
  "output_valid sz out \<longleftrightarrow>
     length (output_commitment out) = pedersen_commitment_size sz \<and> proof_valid sz (out_proof out)"

lemma nrd_try_from_valid: "nrd_valid h \<Longrightarrow> nrd_try_from_u16 (nrd_raw h) = Inr h"
  by (auto simp: nrd_valid_def nrd_try_from_u16_def not_less)

lemmas kf_defs = kf_write_v1_def kf_write_v2_def kf_read_v1_def kf_read_v2_def fee_fields_write_def
  fee_fields_read_def nrd_write_def nrd_read_def feature_bytes

lemma length_write_empty [simp]: "length (write_empty_bytes n) = n"
  by (simp add: write_empty_bytes_def write_fixed_bytes_def)

lemma kf_read_written:
  assumes "kf_valid nrd kf"
  shows "upcoming (projr (kf_write_v1 c kf)) r \<Longrightarrow>
      kf_read_v1 nrd r = Inr (kf, advance (length (projr (kf_write_v1 c kf))) r)"
    and "upcoming (projr (kf_write_v2 c kf)) r \<Longrightarrow>
      kf_read_v2 nrd r = Inr (kf, advance (length (projr (kf_write_v2 c kf))) r)"
  using assms nrd_try_from_valid
  by (cases kf; auto simp: kf_defs kf_valid_def upcoming_append read_upcoming read_empty_bytes_upcoming)+

lemma kf_write_ok [simp]: "is_ok (kf_write_v1 c kf)" "is_ok (kf_write_v2 c kf)"
  by (cases kf; simp add: kf_defs)+

lemma kernel_features_write_ok [simp]: "is_ok (kernel_features_write c kf)"
  by (auto simp: kernel_features_write_def)

interpretation kernel_features_codec: codec kernel_features_write "kernel_features_read nrd" "\<lambda>_. kf_valid nrd" for nrd
  by (rule codec_upcomingI [where enc = "\<lambda>v kf. projr (kernel_features_write (full_ctx v) kf)"])
    (rule is_ok_projr, simp, auto simp: kernel_features_write_def kernel_features_read_def is_hash_mode_def
      reads_def kf_read_written)

interpretation tx_kernel_codec: codec tx_kernel_write "tx_kernel_read env"
    "\<lambda>_ k. kernel_valid env k \<and> sizes_ok (sizes (env_lib env))" for env
proof (rule codec_upcomingI [where enc = "\<lambda>v k. projr (kernel_features_write (full_ctx v) (k_features k)) @
    excess k @ excess_sig k"], goal_cases)
  case (1 v k)
  then show ?case
    by (simp add: tx_kernel_write_def rbind_ok commitment_write_def signature_write_def write_fixed_bytes_def)
next
  case (2 v k r)
  let ?f = "projr (kernel_features_write (full_ctx v) (k_features k))"
  have "kernel_features_read (env_nrd env) r = Inr (k_features k, advance (length ?f) r)"
    by (rule kernel_features_codec.read_written [of _ _ v, OF _ is_ok_projr])
      (use 2 in \<open>auto simp: kernel_valid_def upcoming_append upcoming_def\<close>)
  with 2 show ?case
    by (auto simp: tx_kernel_read_def commitment_read_def signature_read_def upcoming_append kernel_valid_def
        sizes_ok_def read_upcoming add.assoc)
qed

lemma output_features_read_written:
  "upcoming (write_u8 (output_features_to_u8 f)) r \<Longrightarrow> output_features_read r = Inr (f, advance 1 r)"
  by (cases f) (auto simp: output_features_read_def output_features_to_u8_def output_features_from_u8_def read_upcoming)

lemma commitment_read_written:
  "upcoming cm r \<Longrightarrow> length cm = pedersen_commitment_size sz \<Longrightarrow> sizes_ok sz \<Longrightarrow>
     commitment_read sz r = Inr (cm, advance (length cm) r)"
  by (auto simp: commitment_read_def sizes_ok_def read_upcoming)

lemma range_proof_read_written:
  assumes "proof_valid sz p" "sizes_ok sz" "upcoming (write_bytes (proof_bytes p)) r"
  shows "range_proof_read sz r = Inr (p, advance (length (write_bytes (proof_bytes p))) r)"
proof -
  let ?n = "max_proof_size sz"
  from assms have n: "length (proof_bytes p) = ?n" "plen p = ?n" "?n \<le> max_read_size"
    by (auto simp: proof_valid_def sizes_ok_def)
  then have u: "unat (of_nat ?n :: u64) = ?n" by (simp add: unat_of_nat max_read_size_def)
  from assms(3) n(1) have "read_u64 r = Inr (of_nat ?n, advance 8 r)"
    and "read_fixed_bytes ?n (advance 8 r) = Inr (proof_bytes p, advance ?n (advance 8 r))"
    using n(3) by (auto simp: write_bytes_def write_fixed_bytes_def upcoming_append read_upcoming)
  then show ?thesis
    using n u by (cases p) (simp add: range_proof_read_def pad_bytes_def write_bytes_def write_fixed_bytes_def)
qed

lemmas io_defs = input_write_def input_read_def output_identifier_write_def output_identifier_read_def
  output_write_def output_read_def output_features_write_def commitment_write_def commit_wrapper_write_def
  commit_wrapper_read_def write_fixed_bytes_def

interpretation input_codec: codec input_write "input_read sz"
    "\<lambda>_ i. length (in_commit i) = pedersen_commitment_size sz \<and> sizes_ok sz" for sz
  by (rule codec_upcomingI [where enc = "\<lambda>v i. write_u8 (output_features_to_u8 (in_features i)) @ in_commit i"])
    (auto simp: io_defs upcoming_append output_features_read_written commitment_read_written)

interpretation output_identifier_codec: codec output_identifier_write "output_identifier_read sz"
    "\<lambda>_ oi. length (oi_commit oi) = pedersen_commitment_size sz \<and> sizes_ok sz" for sz
  by (rule codec_upcomingI [where enc = "\<lambda>v oi. write_u8 (output_features_to_u8 (oi_features oi)) @ oi_commit oi"])
    (auto simp: io_defs upcoming_append output_features_read_written commitment_read_written)

interpretation commit_wrapper_codec: codec commit_wrapper_write "commit_wrapper_read sz"
    "\<lambda>_ w. length (cw_commit w) = pedersen_commitment_size sz \<and> sizes_ok sz" for sz
  by (rule codec_upcomingI [where enc = "\<lambda>v w. cw_commit w"])
    (auto simp: io_defs commitment_read_written)

interpretation output_codec: codec output_write "output_read sz" "\<lambda>_ out. output_valid sz out \<and> sizes_ok sz" for sz
proof (rule codec_upcomingI [where enc = "\<lambda>v out. write_u8 (output_features_to_u8 (oi_features (out_identifier out))) @
    oi_commit (out_identifier out) @ write_bytes (proof_bytes (out_proof out))"], goal_cases)
  case (1 v out)
  then show ?case
    by (simp add: io_defs range_proof_write_def output_valid_def proof_valid_def)
next
  case (2 v out r)
  let ?i = "out_identifier out"
  from 2 have len: "length (oi_commit ?i) = pedersen_commitment_size sz" "sizes_ok sz" "proof_valid sz (out_proof out)"
    by (auto simp: output_valid_def output_commitment_def)
  with 2 have "output_identifier_read sz r = Inr (?i, advance (1 + length (oi_commit ?i)) r)"
    by (auto simp: io_defs upcoming_append output_features_read_written commitment_read_written)
  moreover have "range_proof_read sz (advance (1 + length (oi_commit ?i)) r) =
      Inr (out_proof out, advance (length (write_bytes (proof_bytes (out_proof out))))
        (advance (1 + length (oi_commit ?i)) r))"
    using 2 by (intro range_proof_read_written len) (auto simp: upcoming_append)
  ultimately show ?case by (simp add: output_read_def add.assoc)
qed

section \<open>What validation accepts\<close>

text \<open>The weight limit a body is checked against; \<open>None\<close> is no limit.\<close>

definition weight_limit :: "tx_env \<Rightarrow> weighting \<Rightarrow> u64 option" where
  "weight_limit env w =
     (case w of
        AsTransaction \<Rightarrow> Some (max_tx_weight (env_chain env))
      | AsLimitedTransaction m \<Rightarrow> Some (sat_sub (min (max_block_weight (env_chain env)) m) (output_weight + kernel_weight))
      | AsBlock \<Rightarrow> Some (max_block_weight (env_chain env))
      | NoLimit \<Rightarrow> None)"

definition inputs_sorted :: "tx_env \<Rightarrow> inputs \<Rightarrow> bool" where
  "inputs_sorted env is =
     (case is of
        CommitOnly ws \<Rightarrow> sorted_wrt (\<lambda>a b. commit_wrapper_key env a < commit_wrapper_key env b) ws
      | FeaturesAndCommit xs \<Rightarrow> sorted_wrt (\<lambda>a b. input_key env a < input_key env b) xs)"

definition body_sorted :: "tx_env \<Rightarrow> transaction_body \<Rightarrow> bool" where
  "body_sorted env b \<longleftrightarrow> inputs_sorted env (body_inputs b) \<and>
     sorted_wrt (\<lambda>a b. output_key env a < output_key env b) (body_outputs b) \<and>
     sorted_wrt (\<lambda>a b. tx_kernel_key env a < tx_kernel_key env b) (body_kernels b)"

definition nrd_excesses :: "transaction_body \<Rightarrow> commitment list" where
  "nrd_excesses b = map excess (filter (\<lambda>k. kf_is_nrd (k_features k)) (body_kernels b))"

definition body_acceptable :: "tx_env \<Rightarrow> transaction_body \<Rightarrow> weighting \<Rightarrow> bool" where
  "body_acceptable env b w \<longleftrightarrow>
     (case weight_limit env w of None \<Rightarrow> True | Some m \<Rightarrow> body_weight b \<le> m) \<and>
     (env_nrd env \<longrightarrow> distinct (nrd_excesses b)) \<and>
     body_sorted env b \<and>
     distinct (inputs_committed (body_committed env b) @ outputs_committed (body_committed env b))"

lemma length_remdups_adj_le: "length (remdups_adj xs) \<le> length xs"
  by (induction xs rule: remdups_adj.induct) auto

lemma length_remdups_adj_sorted:
  "sorted xs \<Longrightarrow> length xs = length (remdups_adj xs) \<longleftrightarrow> distinct (xs :: 'a :: linorder list)"
proof (induction xs rule: remdups_adj.induct)
  case (3 x y xs)
  then show ?case using length_remdups_adj_le [of "x # xs"] by (cases "x = y") auto
qed auto

lemma verify_weight_iff:
  "verify_weight env b w = Inr () \<longleftrightarrow> (case weight_limit env w of None \<Rightarrow> True | Some m \<Rightarrow> body_weight b \<le> m)"
  by (cases w) (auto simp: verify_weight_def weight_limit_def Let_def)

lemma verify_no_nrd_duplicates_iff:
  "verify_no_nrd_duplicates env b = Inr () \<longleftrightarrow> (env_nrd env \<longrightarrow> distinct (nrd_excesses b))"
  using length_remdups_adj_sorted [OF sorted_sort, of "nrd_excesses b"]
  by (auto simp: verify_no_nrd_duplicates_def nrd_excesses_def Let_def)

lemma body_verify_sorted_iff: "body_verify_sorted env b = Inr () \<longleftrightarrow> body_sorted env b"
  by (auto simp: body_verify_sorted_def body_sorted_def inputs_sorted_def rbind_Inr_iff
      inputs_verify_sorted_and_unique_def verify_sorted_iff split: inputs.splits)

lemma verify_cut_through_iff:
  "verify_cut_through env b = Inr () \<longleftrightarrow>
     distinct (inputs_committed (body_committed env b) @ outputs_committed (body_committed env b))"
  using windows2_sorted_distinct [OF sorted_sort, of "inputs_committed (body_committed env b) @
    outputs_committed (body_committed env b)"]
  by (auto simp: verify_cut_through_def inputs_outputs_committed_def list_ex_iff)

lemma verify_features_iff:
  "verify_features b = Inr () \<longleftrightarrow>
     (\<forall>out \<in> set (body_outputs b). \<not> output_is_coinbase out) \<and>
     (\<forall>k \<in> set (body_kernels b). \<not> kf_is_coinbase (k_features k))"
  by (auto simp: verify_features_def verify_output_features_def verify_kernel_features_def list_ex_iff)

lemma body_validate_read_iff: "body_validate_read env b w = Inr () \<longleftrightarrow> body_acceptable env b w"
  by (auto simp: body_validate_read_def body_acceptable_def rbind_Inr_iff verify_weight_iff
      verify_no_nrd_duplicates_iff body_verify_sorted_iff verify_cut_through_iff)

section \<open>Bodies can be read back\<close>

definition inputs_valid :: "tx_env \<Rightarrow> protocol_version \<Rightarrow> inputs \<Rightarrow> bool" where
  "inputs_valid env v is =
     (case is of
        CommitOnly ws \<Rightarrow> 2 < v \<and> (\<forall>w \<in> set ws. length (cw_commit w) = pedersen_commitment_size (sizes (env_lib env)))
      | FeaturesAndCommit xs \<Rightarrow>
          v \<le> 2 \<and> (\<forall>i \<in> set xs. length (in_commit i) = pedersen_commitment_size (sizes (env_lib env))))"

definition body_valid :: "tx_env \<Rightarrow> protocol_version \<Rightarrow> transaction_body \<Rightarrow> bool" where
  "body_valid env v b \<longleftrightarrow>
     sizes_ok (sizes (env_lib env)) \<and> inputs_valid env v (body_inputs b) \<and>
     (\<forall>out \<in> set (body_outputs b). output_valid (sizes (env_lib env)) out) \<and>
     (\<forall>k \<in> set (body_kernels b). kernel_valid env k) \<and>
     inputs_len (body_inputs b) < 2 ^ 64 \<and> length (body_outputs b) < 2 ^ 64 \<and> length (body_kernels b) < 2 ^ 64 \<and>
     body_weight b \<le> max_block_weight (env_chain env) \<and> body_sorted env b"

lemma unat_weight_by_iok:
  "unat (weight_by_iok i out k) = min (unat i + 21 * unat out + 3 * unat k) (2 ^ 64 - 1)"
  by (simp add: weight_by_iok_def unat_sat_add unat_sat_mul input_weight_def output_weight_def kernel_weight_def)

lemma max_block_weight_le: "unat (max_block_weight ct) \<le> 40000"
  by (cases ct) (simp_all add: max_block_weight_def testing_max_block_weight_def max_block_weight_const_def)

lemma body_weight_counts:
  assumes "body_weight b \<le> max_block_weight ct"
    and "inputs_len (body_inputs b) < 2 ^ 64" "length (body_outputs b) < 2 ^ 64" "length (body_kernels b) < 2 ^ 64"
  shows "inputs_len (body_inputs b) + 21 * length (body_outputs b) + 3 * length (body_kernels b) \<le> 40000"
  using assms max_block_weight_le [of ct]
  by (simp add: body_weight_def word_le_nat_alt unat_weight_by_iok unat_of_nat)

abbreviation read_inputs :: "tx_env \<Rightarrow> u64 \<Rightarrow> inputs readable_fn" where
  "read_inputs env n r \<equiv>
     (if rd_version r \<le> 2
      then rbind (read_multi (input_read (sizes (env_lib env))) n r) (\<lambda>(xs, r). Inr (FeaturesAndCommit xs, r))
      else rbind (read_multi (commit_wrapper_read (sizes (env_lib env))) n r) (\<lambda>(ws, r). Inr (CommitOnly ws, r)))"

lemma inputs_round_trip:
  assumes "inputs_valid env v is" "sizes_ok (sizes (env_lib env))" "inputs_len is \<le> 1000000"
  shows "\<exists>bs. inputs_write env (full_ctx v) is = Inr bs \<and>
    (\<forall>r. reads v r \<and> upcoming bs r \<longrightarrow>
       read_inputs env (of_nat (inputs_len is)) r = Inr (is, advance (length bs) r))"
proof (cases "is")
  case (CommitOnly ws)
  then have v: "\<forall>w \<in> set ws. length (cw_commit w) = pedersen_commitment_size (sizes (env_lib env)) \<and>
      sizes_ok (sizes (env_lib env))" "length ws \<le> 1000000" "\<not> v \<le> 2"
    using assms by (auto simp: inputs_valid_def inputs_len_def)
  have "inputs_write env (full_ctx v) is = vec_write commit_wrapper_write (full_ctx v) ws"
    using v(3) by (cases ws) (auto simp: CommitOnly inputs_write_def inputs_is_empty_def inputs_len_def is_hash_mode_def)
  then show ?thesis
    using commit_wrapper_codec.read_multi_round_trip [OF v(1,2), of v] v(3)
    by (fastforce simp: CommitOnly inputs_len_def reads_def upcoming_def)
next
  case (FeaturesAndCommit xs)
  then have v: "\<forall>i \<in> set xs. length (in_commit i) = pedersen_commitment_size (sizes (env_lib env)) \<and>
      sizes_ok (sizes (env_lib env))" "length xs \<le> 1000000" "v \<le> 2"
    using assms by (auto simp: inputs_valid_def inputs_len_def)
  have "inputs_write env (full_ctx v) is = vec_write input_write (full_ctx v) xs"
    using v(3) by (cases xs) (auto simp: FeaturesAndCommit inputs_write_def inputs_is_empty_def inputs_len_def is_hash_mode_def)
  then show ?thesis
    using input_codec.read_multi_round_trip [OF v(1,2), of v] v(3)
    by (fastforce simp: FeaturesAndCommit inputs_len_def reads_def upcoming_def)
qed

lemma body_init_verified: "body_sorted env b \<Longrightarrow>
    body_init env (body_inputs b) (body_outputs b) (body_kernels b) True = Inr b"
  by (cases b) (simp add: body_init_def body_verify_sorted_iff [symmetric] Let_def)

interpretation transaction_body_codec: codec "transaction_body_write env" "transaction_body_read env" "body_valid env" for env
proof
  fix v b
  assume b: "body_valid env v b"
  let ?sz = "sizes (env_lib env)"
  from b have len: "inputs_len (body_inputs b) + 21 * length (body_outputs b) + 3 * length (body_kernels b) \<le> 40000"
    by (intro body_weight_counts) (auto simp: body_valid_def)
  obtain i where i: "inputs_write env (full_ctx v) (body_inputs b) = Inr i" "\<And>r. reads v r \<Longrightarrow> upcoming i r \<Longrightarrow>
      read_inputs env (of_nat (inputs_len (body_inputs b))) r = Inr (body_inputs b, advance (length i) r)"
    using inputs_round_trip [of env v "body_inputs b"] b len by (auto simp: body_valid_def)
  obtain t where t: "vec_write output_write (full_ctx v) (body_outputs b) = Inr t" "\<And>r. reads v r \<Longrightarrow> upcoming t r \<Longrightarrow>
      read_multi (output_read ?sz) (of_nat (length (body_outputs b))) r = Inr (body_outputs b, advance (length t) r)"
    using output_codec.read_multi_round_trip [of "body_outputs b" ?sz v] b len
    by (auto simp: body_valid_def upcoming_def)
  obtain k where k: "vec_write tx_kernel_write (full_ctx v) (body_kernels b) = Inr k" "\<And>r. reads v r \<Longrightarrow> upcoming k r \<Longrightarrow>
      read_multi (tx_kernel_read env) (of_nat (length (body_kernels b))) r = Inr (body_kernels b, advance (length k) r)"
    using tx_kernel_codec.read_multi_round_trip [of "body_kernels b" env v] b len
    by (auto simp: body_valid_def upcoming_def)
  define bs where "bs = write_u64 (of_nat (inputs_len (body_inputs b))) @ write_u64 (of_nat (length (body_outputs b))) @
    write_u64 (of_nat (length (body_kernels b))) @ i @ t @ k"
  have w: "transaction_body_write env (full_ctx v) b = Inr bs"
    by (simp add: transaction_body_write_def i(1) t(1) k(1) bs_def)
  have "transaction_body_read env r = Inr (b, advance (length bs) r)" if "reads v r" "upcoming bs r" for r
  proof -
    have up: "upcoming (write_u64 (of_nat (inputs_len (body_inputs b)))) r"
      "upcoming (write_u64 (of_nat (length (body_outputs b)))) (advance 8 r)"
      "upcoming (write_u64 (of_nat (length (body_kernels b)))) (advance 16 r)"
      "upcoming i (advance 24 r)" "upcoming t (advance (24 + length i) r)"
      "upcoming k (advance (24 + length i + length t) r)"
      using that(2) by (auto simp: bs_def upcoming_append)
    have "triple_read read_u64 read_u64 read_u64 r = Inr ((of_nat (inputs_len (body_inputs b)),
        of_nat (length (body_outputs b)), of_nat (length (body_kernels b))), advance 24 r)"
      using up(1-3) by (simp add: triple_read_def read_upcoming)
    moreover have "\<not> max_block_weight (env_chain env) < weight_by_iok (of_nat (inputs_len (body_inputs b)))
        (of_nat (length (body_outputs b))) (of_nat (length (body_kernels b)))"
      using b by (auto simp: body_valid_def body_weight_def)
    moreover have "body_init env (body_inputs b) (body_outputs b) (body_kernels b) True = Inr b"
      using b by (intro body_init_verified) (simp add: body_valid_def)
    ultimately show ?thesis
      using i(2) [of "advance 24 r"] t(2) [of "advance (24 + length i) r"]
        k(2) [of "advance (24 + length i + length t) r"] up that(1) by (simp add: transaction_body_read_def bs_def add.assoc)
  qed
  with w show "\<exists>bs. transaction_body_write env (full_ctx v) b = Inr bs \<and> (\<forall>r rest. reads v r \<and> rd_input r = bs @ rest \<longrightarrow>
      transaction_body_read env r = Inr (b, advance (length bs) r))"
    by (auto intro: upcomingI)
qed

definition tx_valid :: "tx_env \<Rightarrow> protocol_version \<Rightarrow> transaction \<Rightarrow> bool" where
  "tx_valid env v tx \<longleftrightarrow>
     length (offset tx) = secret_key_size (sizes (env_lib env)) \<and> body_valid env v (tx_body tx) \<and>
     tx_validate_read env tx = Inr ()"

lemma tx_validate_read_iff:
  "tx_validate_read env tx = Inr () \<longleftrightarrow>
     body_acceptable env (tx_body tx) AsTransaction \<and>
     (\<forall>out \<in> set (body_outputs (tx_body tx)). \<not> output_is_coinbase out) \<and>
     (\<forall>k \<in> set (body_kernels (tx_body tx)). \<not> kf_is_coinbase (k_features k))"
  by (auto simp: tx_validate_read_def rbind_Inr_iff body_validate_read_iff verify_features_iff)

interpretation transaction_codec: codec "transaction_write env" "transaction_read env" "tx_valid env" for env
proof
  fix v tx
  assume tx: "tx_valid env v tx"
  then have sz: "length (offset tx) = secret_key_size (sizes (env_lib env))"
    "secret_key_size (sizes (env_lib env)) \<le> max_read_size" and b: "body_valid env v (tx_body tx)"
    by (auto simp: tx_valid_def body_valid_def sizes_ok_def)
  obtain bs where bs: "transaction_body_write env (full_ctx v) (tx_body tx) = Inr bs"
    using transaction_body_codec.round_trip [OF b] by blast
  note rd = transaction_body_codec.read_written [OF b bs]
  have "transaction_read env r = Inr (tx, advance (length (offset tx @ bs)) r)"
    if "reads v r" "rd_input r = (offset tx @ bs) @ rest" for r rest
  proof -
    have "blinding_factor_read (sizes (env_lib env)) r = Inr (offset tx, advance (length (offset tx)) r)"
      using sz that(2) by (simp add: blinding_factor_read_def pad_bytes_def)
    moreover have "transaction_body_read env (advance (length (offset tx)) r) =
        Inr (tx_body tx, advance (length bs) (advance (length (offset tx)) r))"
      using that by (intro rd) auto
    ultimately show ?thesis using tx by (cases tx) (simp add: transaction_read_def tx_valid_def)
  qed
  with bs show "\<exists>bs. transaction_write env (full_ctx v) tx = Inr bs \<and> (\<forall>r rest. reads v r \<and> rd_input r = bs @ rest \<longrightarrow>
      transaction_read env r = Inr (tx, advance (length bs) r))"
    by (auto simp: transaction_write_def blinding_factor_write_def write_fixed_bytes_def)
qed

section \<open>Insertion by binary search\<close>

lemma bsearch_correct:
  assumes "sorted_wrt (\<lambda>a b. key a < key b) xs" "l \<le> r" "r \<le> length xs"
    and "\<And>i. i < l \<Longrightarrow> key (xs ! i) < k" and "\<And>i. r \<le> i \<Longrightarrow> i < length xs \<Longrightarrow> k < key (xs ! i)"
  shows "case bsearch key xs k l r of
      Inr i \<Rightarrow> i < length xs \<and> key (xs ! i) = k
    | Inl e \<Rightarrow> e \<le> length xs \<and> (\<forall>i < e. key (xs ! i) < k) \<and> (\<forall>i. e \<le> i \<and> i < length xs \<longrightarrow> k < key (xs ! i))"
  using assms
proof (induction key xs k l r rule: bsearch.induct)
  case (1 key xs k l r)
  show ?case
  proof (cases "l < r")
    case True
    define m where "m = l + (r - l) div 2"
    have m: "l \<le> m" "m < r" "m < length xs" using True 1(5) by (auto simp: m_def)
    have lt: "key (xs ! i) < key (xs ! j)" if "i < j" "j < length xs" for i j
      using sorted_wrt_nth_less [OF 1(3) that] .
    consider "key (xs ! m) < k" | "k < key (xs ! m)" | "key (xs ! m) = k" by force
    then show ?thesis
    proof cases
      case a: 1
      then have "key (xs ! i) < k" if "i < Suc m" for i
        using that lt [of i m] m by (cases "i = m") (auto dest: less_trans)
      then have "case bsearch key xs k (Suc m) r of
          Inr i \<Rightarrow> i < length xs \<and> key (xs ! i) = k
        | Inl e \<Rightarrow> e \<le> length xs \<and> (\<forall>i < e. key (xs ! i) < k) \<and>
            (\<forall>i. e \<le> i \<and> i < length xs \<longrightarrow> k < key (xs ! i))"
        using 1(1) [OF True m_def a] 1(3,5,7) m by simp
      then show ?thesis using True a by (subst bsearch.simps) (simp add: m_def Let_def)
    next
      case b: 2
      then have nb: "\<not> key (xs ! m) < k" by simp
      have "k < key (xs ! i)" if "m \<le> i" "i < length xs" for i
        using b that lt [of m i] by (cases "i = m") (auto dest: less_trans)
      then have "case bsearch key xs k l m of
          Inr i \<Rightarrow> i < length xs \<and> key (xs ! i) = k
        | Inl e \<Rightarrow> e \<le> length xs \<and> (\<forall>i < e. key (xs ! i) < k) \<and>
            (\<forall>i. e \<le> i \<and> i < length xs \<longrightarrow> k < key (xs ! i))"
        using 1(2) [OF True m_def nb b] 1(3,6) m by simp
      then show ?thesis using True nb b by (subst bsearch.simps) (simp add: m_def Let_def)
    next
      case 3
      then have "bsearch key xs k l r = Inr m" using True by (subst bsearch.simps) (simp add: m_def Let_def)
      then show ?thesis using 3 m by simp
    qed
  next
    case False
    then have "bsearch key xs k l r = Inl l" by (subst bsearch.simps) simp
    then show ?thesis using 1 False by simp
  qed
qed

lemma sorted_insert_cases:
  assumes "sorted_wrt (\<lambda>a b. key a < key b) xs"
  shows "(key x \<in> key ` set xs \<and> sorted_insert key x xs = xs) \<or>
    (\<exists>as bs. xs = as @ bs \<and> sorted_insert key x xs = as @ x # bs \<and>
       (\<forall>a \<in> set as. key a < key x) \<and> (\<forall>b \<in> set bs. key x < key b))"
proof (cases "slice_binary_search key xs x")
  case (Inr i)
  with bsearch_correct [OF assms, of 0 "length xs" "key x"] show ?thesis
    by (auto simp: slice_binary_search_def sorted_insert_def image_iff) (metis nth_mem)
next
  case (Inl e)
  with bsearch_correct [OF assms, of 0 "length xs" "key x"]
  have e: "e \<le> length xs" "\<forall>i < e. key (xs ! i) < key x" "\<forall>i. e \<le> i \<and> i < length xs \<longrightarrow> key x < key (xs ! i)"
    by (auto simp: slice_binary_search_def)
  have "\<forall>a \<in> set (take e xs). key a < key x" "\<forall>b \<in> set (drop e xs). key x < key b"
    using e by (auto simp: in_set_conv_nth)
  then show ?thesis
    using Inl by (intro disjI2 exI [of _ "take e xs"] exI [of _ "drop e xs"])
      (simp add: sorted_insert_def insert_at_def)
qed

lemma sorted_insert_sorted:
  assumes "sorted_wrt (\<lambda>a b. key a < key b) xs"
  shows "sorted_wrt (\<lambda>a b. key a < key b) (sorted_insert key x xs)"
    and "key ` set (sorted_insert key x xs) = insert (key x) (key ` set xs)"
  using sorted_insert_cases [OF assms, of x] assms by (auto simp: sorted_wrt_append)

section \<open>Encodings are unique\<close>

lemma fee_fields_read_consumed:
  "fee_fields_read r = Inr (f, r') \<Longrightarrow> rd_input r = write_u64 (fee_fields_raw f) @ rd_input r'"
  by (auto simp: fee_fields_read_def rbind_Inr_iff dest: read_ints_consumed)

lemma nrd_read_consumed:
  "nrd_read r = Inr (h, r') \<Longrightarrow> nrd_valid h \<and> rd_input r = write_u16 (nrd_raw h) @ rd_input r'"
  by (auto simp: nrd_read_def nrd_try_from_u16_def nrd_valid_def rbind_Inr_iff not_less dest: read_ints_consumed
      split: if_splits)

lemmas consumed = read_ints_consumed read_empty_bytes_consumed fee_fields_read_consumed nrd_read_consumed

lemma kf_read_v1_consumed:
  assumes "kf_read_v1 nrd r = Inr (kf, r')"
  shows "kf_valid nrd kf \<and> rd_input r = projr (kf_write_v1 c kf) @ rd_input r'"
  using assms
  by (auto simp: kf_read_v1_def kf_write_v1_def fee_fields_write_def nrd_write_def kf_valid_def rbind_Inr_iff
      dest!: consumed split: if_splits)

lemma kf_read_v2_consumed:
  assumes "kf_read_v2 nrd r = Inr (kf, r')"
  shows "kf_valid nrd kf \<and> rd_input r = projr (kf_write_v2 c kf) @ rd_input r'"
  using assms
  by (auto simp: kf_read_v2_def kf_write_v2_def fee_fields_write_def nrd_write_def kf_valid_def rbind_Inr_iff
      dest!: consumed split: if_splits)

section \<open>Properties\<close>

text \<open>C19: the serialized form of kernel features is canonical, in every protocol version: what is
  written for valid features is read back with exactly its bytes consumed, and whatever is read
  is valid and was encoded in the only possible way (the unused bytes of version 1 included).\<close>

theorem kernel_features_canonical:
  "(kf_valid nrd kf \<longrightarrow> upcoming (projr (kernel_features_write (full_ctx (rd_version r)) kf)) r \<longrightarrow>
      (\<exists>n. kernel_features_read nrd r = Inr (kf, advance n r))) \<and>
   (kernel_features_read nrd r = Inr (kf, r') \<longrightarrow>
      kf_valid nrd kf \<and>
      rd_input r = projr (kernel_features_write (full_ctx (rd_version r)) kf) @ rd_input r')"
proof (cases "rd_version r \<le> 1")
  case True
  then have "kernel_features_read nrd r = kf_read_v1 nrd r"
    "kernel_features_write (full_ctx (rd_version r)) kf = kf_write_v1 (full_ctx (rd_version r)) kf"
    by (simp_all add: kernel_features_read_def kernel_features_write_def)
  then show ?thesis by (metis kf_read_written(1) kf_read_v1_consumed)
next
  case False
  then have "kernel_features_read nrd r = kf_read_v2 nrd r"
    "kernel_features_write (full_ctx (rd_version r)) kf = kf_write_v2 (full_ctx (rd_version r)) kf"
    by (simp_all add: kernel_features_read_def kernel_features_write_def is_hash_mode_def)
  then show ?thesis by (metis kf_read_written(2) kf_read_v2_consumed)
qed

lemma kernel_features_canonical_witness:
  "\<exists>n. kernel_features_read True (bin_new [3, 0, 0, 0, 0, 0, 0, 0, 7, 0, 0, 0, 0, 0, 0, 0x05, 0xA0] 1 DeserFull) =
     Inr (NoRecentDuplicate (FeeFields 7) (NRDRelativeHeight 1440), advance n
       (bin_new [3, 0, 0, 0, 0, 0, 0, 0, 7, 0, 0, 0, 0, 0, 0, 0x05, 0xA0] 1 DeserFull))"
proof -
  let ?kf = "NoRecentDuplicate (FeeFields 7) (NRDRelativeHeight 1440)"
  let ?r = "bin_new [3, 0, 0, 0, 0, 0, 0, 0, 7, 0, 0, 0, 0, 0, 0, 0x05, 0xA0] 1 DeserFull"
  have "kf_valid True ?kf" by code_simp
  moreover have "projr (kernel_features_write (full_ctx (rd_version ?r)) ?kf) = rd_input ?r" by code_simp
  then have "upcoming (projr (kernel_features_write (full_ctx (rd_version ?r)) ?kf)) ?r"
    by (intro upcomingI [of _ _ "[]"]) simp
  ultimately show ?thesis using kernel_features_canonical [of True ?kf ?r undefined] by blast
qed


definition demo_env :: tx_env where
  "demo_env = \<lparr> env_lib = byte_lib, env_blake2b = id, env_chain = Mainnet, env_nrd = True \<rparr>"

definition demo_tx :: transaction where
  "demo_tx = \<lparr> offset = [5], tx_body =
     \<lparr> body_inputs = CommitOnly [CommitWrapper [10]],
       body_outputs =
         [\<lparr> out_identifier = \<lparr> oi_features = PlainOutput, oi_commit = [3] \<rparr>, out_proof = \<lparr> plen = 1, proof_bytes = [0] \<rparr> \<rparr>,
          \<lparr> out_identifier = \<lparr> oi_features = PlainOutput, oi_commit = [9] \<rparr>, out_proof = \<lparr> plen = 1, proof_bytes = [1] \<rparr> \<rparr>],
       body_kernels = [\<lparr> k_features = Plain (FeeFields 5), excess = [2], excess_sig = [0] \<rparr>] \<rparr> \<rparr>"

lemma demo_tx_valid: "tx_valid demo_env 3 demo_tx"
proof -
  have keys: "body_sorted demo_env (tx_body demo_tx)"
    by (simp add: body_sorted_def inputs_sorted_def demo_tx_def demo_env_def output_key_def
        output_identifier_key_def hash_of_def io_defs output_features_to_u8_def write_u8_def)
  have "body_weight (tx_body demo_tx) = 46"
    by (simp add: body_weight_def weight_by_iok_def sat_add_def sat_mul_def demo_tx_def inputs_len_def
        input_weight_def output_weight_def kernel_weight_def)
  with keys show ?thesis
    by (simp add: tx_valid_def tx_validate_read_iff body_acceptable_def weight_limit_def body_valid_def
        max_tx_weight_def max_block_weight_def max_block_weight_const_def)
      (simp add: demo_tx_def demo_env_def byte_lib_def sizes_ok_def max_read_size_def inputs_valid_def inputs_len_def
        output_valid_def proof_valid_def kernel_valid_def kf_valid_def nrd_excesses_def body_committed_def
        inputs_to_wrappers_def output_commitment_def output_is_coinbase_def of_is_coinbase_def kf_is_nrd_def
        kf_is_coinbase_def output_weight_def kernel_weight_def max_block_weight_const_def sat_sub_def)
qed



text \<open>C21: every transaction that is read from the wire is within the weight limit for transactions, has
  strictly ascending (so duplicate-free) inputs, outputs and kernels, spends and creates no
  commitment twice and none of its own, has no coinbase output or kernel, and no two NRD kernels
  with the same excess where that feature is enabled.\<close>

theorem transaction_read_validates:
  assumes "transaction_read env r = Inr (tx, r')"
  shows "body_weight (tx_body tx) \<le> max_tx_weight (env_chain env) \<and>
    body_sorted env (tx_body tx) \<and>
    distinct (map cw_commit (inputs_to_wrappers env (body_inputs (tx_body tx))) @
      map output_commitment (body_outputs (tx_body tx))) \<and>
    (\<forall>out \<in> set (body_outputs (tx_body tx)). \<not> output_is_coinbase out) \<and>
    (\<forall>k \<in> set (body_kernels (tx_body tx)). \<not> kf_is_coinbase (k_features k)) \<and>
    (env_nrd env \<longrightarrow> distinct (nrd_excesses (tx_body tx)))"
proof -
  from assms have "tx_validate_read env tx = Inr ()"
    by (auto simp: transaction_read_def rbind_Inr_iff Let_def)
  then show ?thesis
    unfolding tx_validate_read_iff body_acceptable_def body_committed_def weight_limit_def by simp
qed

lemma transaction_read_validates_witness:
  "\<exists>bs r'. transaction_read demo_env (bin_new bs 3 DeserFull) = Inr (demo_tx, r') \<and>
     body_weight (tx_body demo_tx) \<le> max_tx_weight Mainnet"
proof -
  obtain bs where "transaction_write demo_env (full_ctx 3) demo_tx = Inr bs"
    "\<And>r rest. reads 3 r \<Longrightarrow> rd_input r = bs @ rest \<Longrightarrow> transaction_read demo_env r = Inr (demo_tx, advance (length bs) r)"
    using transaction_codec.codecE [OF demo_tx_valid] by blast
  then have "transaction_read demo_env (bin_new bs 3 DeserFull) = Inr (demo_tx, advance (length bs) (bin_new bs 3 DeserFull))"
    by (simp add: reads_def bin_new_def)
  moreover from transaction_read_validates [OF this] have "body_weight (tx_body demo_tx) \<le> max_tx_weight Mainnet"
    by (simp add: demo_env_def)
  ultimately show ?thesis by blast
qed

text \<open>C22: building a body step by step keeps it sorted and free of duplicates: the builders insert at the
  place binary search finds, and leave the body unchanged if an equal element is there.\<close>

theorem builders_keep_sorted:
  assumes "body_sorted env b"
  shows "body_sorted env (body_with_input env inp b) \<and> body_sorted env (body_with_output env out b) \<and>
    body_sorted env (body_with_kernel env k b) \<and>
    output_key env ` set (body_outputs (body_with_output env out b)) =
      insert (output_key env out) (output_key env ` set (body_outputs b)) \<and>
    tx_kernel_key env ` set (body_kernels (body_with_kernel env k b)) =
      insert (tx_kernel_key env k) (tx_kernel_key env ` set (body_kernels b))"
  using assms
  by (auto simp: body_sorted_def inputs_sorted_def body_with_input_def body_with_output_def body_with_kernel_def
      sorted_insert_sorted split: inputs.splits)

lemma builders_keep_sorted_witness:
  "body_sorted demo_env (body_with_input demo_env \<lparr> in_features = PlainOutput, in_commit = [1] \<rparr> body_empty)"
proof -
  have "body_sorted demo_env body_empty" by (simp add: body_sorted_def inputs_sorted_def body_empty_def inputs_default_def)
  from builders_keep_sorted [OF this] show ?thesis by blast
qed

text \<open>a fee and a shift can be packed into fee fields exactly when the fee is positive and below
  2^40 and the shift is below 16, and both are recovered from the packed word.\<close>

theorem fee_fields_pack:
  "(case fee_fields_new shift fee of
      Inr f \<Rightarrow> 0 < fee \<and> unat fee < 2 ^ 40 \<and> unat shift < 16 \<and> fee_fields_fee f = fee \<and>
        ucast (fee_fields_shift f) = shift
    | Inl e \<Rightarrow> e = InvalidFeeFields \<and> (fee = 0 \<or> 2 ^ 40 \<le> unat fee \<or> 16 \<le> unat shift))"
proof -
  have m: "fee_mask < fee \<longleftrightarrow> 2 ^ 40 \<le> unat fee" "fee_shift_mask < shift \<longleftrightarrow> 16 \<le> unat shift"
    by (auto simp: fee_masks mask_eq_exp_minus_1 word_less_nat_alt)
  show ?thesis
  proof (cases "fee_fields_new shift fee")
    case (Inl e)
    then show ?thesis by (auto simp: fee_fields_new_def m split: if_splits)
  next
    case (Inr f)
    with fee_fields_new_parts [OF Inr] show ?thesis
      by (auto simp: fee_fields_new_def m word_neq_0_conv split: if_splits)
  qed
qed

text \<open>a transaction within the limit for transactions leaves room for the coinbase: with one more
  output and one more kernel it is within the limit for blocks.\<close>

theorem weight_leaves_room_for_coinbase:
  assumes "verify_weight env b AsTransaction = Inr ()"
    and "inputs_len (body_inputs b) < 2 ^ 63" "length (body_outputs b) < 2 ^ 63" "length (body_kernels b) < 2 ^ 63"
  shows "verify_weight env (b \<lparr> body_outputs := body_outputs b @ [out], body_kernels := body_kernels b @ [k] \<rparr>) AsBlock = Inr ()"
proof -
  have t: "unat (max_tx_weight ct) + 24 = unat (max_block_weight ct)" for ct
    by (cases ct) (simp_all add: max_tx_weight_def unat_sat_sub max_block_weight_def output_weight_def
        kernel_weight_def testing_max_block_weight_def max_block_weight_const_def)
  have len: "unat (of_nat n :: u64) = n" if "n < 2 ^ 64" for n
    using that by (simp add: unat_of_nat)
  have "min (inputs_len (body_inputs b) + 21 * length (body_outputs b) + 3 * length (body_kernels b)) (2 ^ 64 - 1)
      \<le> unat (max_tx_weight (env_chain env))"
    using assms len by (simp add: verify_weight_iff weight_limit_def body_weight_def word_le_nat_alt unat_weight_by_iok)
  then show ?thesis
    using assms t [of "env_chain env"] max_block_weight_le [of "env_chain env"] len
      len [of "Suc (length (body_outputs b))"] len [of "Suc (length (body_kernels b))"]
    by (simp add: verify_weight_iff weight_limit_def body_weight_def word_le_nat_alt unat_weight_by_iok del: of_nat_Suc)
qed

lemma weight_leaves_room_for_coinbase_witness:
  "verify_weight demo_env (tx_body demo_tx \<lparr>
     body_outputs := body_outputs (tx_body demo_tx) @
       [\<lparr> out_identifier = \<lparr> oi_features = CoinbaseOutput, oi_commit = [77] \<rparr>, out_proof = \<lparr> plen = 1, proof_bytes = [0] \<rparr> \<rparr>],
     body_kernels := body_kernels (tx_body demo_tx) @
       [\<lparr> k_features = Coinbase, excess = [17], excess_sig = [0] \<rparr>] \<rparr>) AsBlock = Inr ()"
proof -
  have "verify_weight demo_env (tx_body demo_tx) AsTransaction = Inr ()"
    using demo_tx_valid by (simp add: tx_valid_def tx_validate_read_iff body_acceptable_def verify_weight_iff)
  then show ?thesis
    by (rule weight_leaves_room_for_coinbase) (simp_all add: demo_tx_def inputs_len_def)
qed

end
