(* ===== verification/Cut_Through.thy ===== *)
theory Cut_Through
  imports Transaction
begin

text \<open>
  Cut-through and aggregation of transactions (\<open>cut_through\<close>, \<open>aggregate\<close>, \<open>deaggregate\<close> of
  \<open>core/src/core/transaction.rs\<close>).

  The loops of \<open>cut_through\<close> work in place: they are functions on the two lists, the two indices
  and the number of pairs cut so far, with the swaps of the source. \<open>ci\<close> and \<open>co\<close> are the
  commitments of the elements (\<open>AsRef<Commitment>\<close>), \<open>ki\<close> and \<open>ko\<close> what their \<open>Ord\<close> compares.
\<close>

section \<open>Cutting through\<close>

definition swap :: "nat \<Rightarrow> nat \<Rightarrow> 'a list \<Rightarrow> 'a list" where
  "swap i j xs = xs[i := xs ! j, j := xs ! i]"

function cut_loop ::
    "('a \<Rightarrow> 'c :: linorder) \<Rightarrow> ('b \<Rightarrow> 'c) \<Rightarrow> 'a list \<Rightarrow> 'b list \<Rightarrow> nat \<Rightarrow> nat \<Rightarrow> nat \<Rightarrow>
     'a list \<times> 'b list \<times> nat \<times> nat \<times> nat" where
  "cut_loop ci co ins outs i j ncut =
     (if i < length ins \<and> j < length outs then
        (if ci (ins ! i) < co (outs ! j) then cut_loop ci co (swap (i - ncut) i ins) outs (i + 1) j ncut
         else if co (outs ! j) < ci (ins ! i) then cut_loop ci co ins (swap (j - ncut) j outs) i (j + 1) ncut
         else cut_loop ci co ins outs (i + 1) (j + 1) (ncut + 1))
      else (ins, outs, i, j, ncut))"
  by pat_completeness auto
termination
  by (relation "measure (\<lambda>(_, _, ins, outs, i, j, _). (length ins - i) + (length outs - j))") (auto simp: swap_def)

declare cut_loop.simps [simp del]

function shift_loop :: "'a list \<Rightarrow> nat \<Rightarrow> nat \<Rightarrow> 'a list" where
  "shift_loop xs i ncut = (if i < length xs then shift_loop (swap (i - ncut) i xs) (i + 1) ncut else xs)"
  by pat_completeness auto
termination
  by (relation "measure (\<lambda>(xs, i, _). length xs - i)") (auto simp: swap_def)

declare shift_loop.simps [simp del]

definition has_adjacent_equal :: "('a \<Rightarrow> 'k) \<Rightarrow> 'a list \<Rightarrow> bool" where
  "has_adjacent_equal key xs \<longleftrightarrow> list_ex (\<lambda>(x, y). key x = key y) (windows2 xs)"

definition cut_through ::
    "('a \<Rightarrow> 'c :: linorder) \<Rightarrow> ('b \<Rightarrow> 'c) \<Rightarrow> ('a \<Rightarrow> 'k :: linorder) \<Rightarrow> ('b \<Rightarrow> 'l :: linorder) \<Rightarrow>
     'a list \<Rightarrow> 'b list \<Rightarrow> tx_error + 'a list \<times> 'b list \<times> 'a list \<times> 'b list" where
  "cut_through ci co ki ko ins outs =
     (let ins = sort_key ci ins;
          outs = sort_key co outs;
          (ins, outs, i, j, ncut) = cut_loop ci co ins outs 0 0 0;
          ins = shift_loop ins i ncut;
          outs = shift_loop outs j ncut;
          inputs = sort_key ki (take (length ins - ncut) ins);
          inputs_cut = sort_key ki (drop (length ins - ncut) ins);
          outputs = sort_key ko (take (length outs - ncut) outs);
          outputs_cut = sort_key ko (drop (length outs - ncut) outs)
      in if has_adjacent_equal ki inputs then Inl CutThrough
         else if has_adjacent_equal ko outputs then Inl CutThrough
         else Inr (inputs, outputs, inputs_cut, outputs_cut))"

section \<open>Aggregation\<close>

definition aggregate :: "tx_env \<Rightarrow> transaction list \<Rightarrow> tx_error + transaction" where
  "aggregate env txs =
     (case txs of
        [] \<Rightarrow> Inr (tx_empty env)
      | [tx] \<Rightarrow> Inr tx
      | _ \<Rightarrow>
        (let inputs = concat (map (\<lambda>tx. inputs_to_wrappers env (body_inputs (tx_body tx))) txs);
             outputs = concat (map (\<lambda>tx. body_outputs (tx_body tx)) txs);
             kernels = concat (map (\<lambda>tx. body_kernels (tx_body tx)) txs);
             kernel_offsets = map offset txs
         in rbind (cut_through cw_commit output_commitment (commit_wrapper_key env) (output_key env) inputs outputs)
              (\<lambda>(inputs, outputs, _, _).
                 rbind (map_err TxCommitted (sum_kernel_offsets (env_lib env) kernel_offsets [])) (\<lambda>total_kernel_offset.
                   Inr (tx_with_offset total_kernel_offset (tx_new env (CommitOnly inputs) outputs kernels))))))"

fun collect_missing :: "('a \<Rightarrow> 'k) \<Rightarrow> 'a list \<Rightarrow> 'a list \<Rightarrow> 'a list \<Rightarrow> 'a list" where
  "collect_missing key ys acc [] = acc"
| "collect_missing key ys acc (x # xs) =
     (if key x \<notin> set (map key ys) \<and> key x \<notin> set (map key acc) then collect_missing key ys (acc @ [x]) xs
      else collect_missing key ys acc xs)"

definition deaggregate :: "tx_env \<Rightarrow> transaction \<Rightarrow> transaction list \<Rightarrow> tx_error + transaction" where
  "deaggregate env mk_tx txs =
     rbind (aggregate env txs) (\<lambda>tx.
       let wrappers = (\<lambda>t. inputs_to_wrappers env (body_inputs (tx_body t)));
           inputs = collect_missing (commit_wrapper_key env) (wrappers tx) [] (wrappers mk_tx);
           outputs = collect_missing (output_key env) (body_outputs (tx_body tx)) [] (body_outputs (tx_body mk_tx));
           kernels = collect_missing (tx_kernel_key env) (body_kernels (tx_body tx)) [] (body_kernels (tx_body mk_tx));
           positive_keys = to_secrets (env_lib env) [offset mk_tx];
           negative_keys = to_secrets (env_lib env) [offset tx]
       in rbind (if positive_keys = [] \<and> negative_keys = [] then Inr (blinding_zero (env_lib env))
                 else rbind (map_err TxSecp (lib_blind_sum (env_lib env) positive_keys negative_keys)) (\<lambda>sum.
                        Inr (blinding_from_secret_key (env_lib env) sum))) (\<lambda>total_kernel_offset.
            let inputs = sort_key (commit_wrapper_key env) inputs;
                outputs = sort_key (output_key env) outputs;
                kernels = sort_key (tx_kernel_key env) kernels
            in Inr (tx_with_offset total_kernel_offset (tx_new env (CommitOnly inputs) outputs kernels))))"

section \<open>The loops\<close>

text \<open>
  \<open>parted xs0 xs i n K C\<close>: after \<open>i\<close> steps the list consists of the elements kept so far, the \<open>n\<close>
  elements cut and the rest of the original list.
\<close>

definition parted :: "'a list \<Rightarrow> 'a list \<Rightarrow> nat \<Rightarrow> nat \<Rightarrow> 'a list \<Rightarrow> 'a list \<Rightarrow> bool" where
  "parted xs0 xs i n K C \<longleftrightarrow>
     xs = K @ C @ drop i xs0 \<and> i \<le> length xs0 \<and> length C = n \<and> length K + n = i \<and>
     mset (K @ C) = mset (take i xs0)"

lemma parted_length: "parted xs0 xs i n K C \<Longrightarrow> length xs = length xs0"
  by (auto simp: parted_def)

lemma parted_nth: "parted xs0 xs i n K C \<Longrightarrow> i < length xs \<Longrightarrow> xs ! i = xs0 ! i"
  by (auto simp: parted_def nth_append)

lemma parted_0: "parted xs xs 0 0 [] []"
  by (simp add: parted_def)

lemma parted_step:
  assumes "parted xs0 xs i n K C" "i < length xs"
  shows "i < length xs0" "drop i xs0 = xs0 ! i # drop (Suc i) xs0"
    "mset (take (Suc i) xs0) = add_mset (xs0 ! i) (mset (take i xs0))"
proof -
  show i: "i < length xs0" using assms parted_length by metis
  then show "drop i xs0 = xs0 ! i # drop (Suc i) xs0" by (rule Cons_nth_drop_Suc [symmetric])
  from i show "mset (take (Suc i) xs0) = add_mset (xs0 ! i) (mset (take i xs0))"
    by (simp add: take_Suc_conv_app_nth)
qed

lemma swap_middle:
  "swap (length K) (length K + Suc (length C)) (K @ c # C @ x # R) = K @ x # C @ c # R"
  by (simp add: swap_def nth_append list_update_append)

lemma swap_same: "swap i i xs = xs"
  by (simp add: swap_def)

lemma parted_keep:
  assumes "parted xs0 xs i n K C" "i < length xs"
  shows "\<exists>C'. parted xs0 (swap (i - n) i xs) (i + 1) n (K @ [xs0 ! i]) C' \<and> mset C' = mset C"
proof (cases C)
  case Nil
  then show ?thesis using assms(1) parted_step [OF assms]
    by (intro exI [of _ "[]"]) (simp add: parted_def swap_same)
next
  case (Cons c C')
  have n: "i - n = length K" "i = length K + Suc (length C')" "xs = K @ c # C' @ xs0 ! i # drop (Suc i) xs0"
    using assms(1) Cons parted_step(2) [OF assms] by (auto simp: parted_def)
  have "swap (i - n) i xs = K @ xs0 ! i # C' @ c # drop (Suc i) xs0"
    using swap_middle [of K C' c "xs0 ! i" "drop (Suc i) xs0"] n by metis
  then show ?thesis
    using assms(1) Cons parted_step [OF assms] by (intro exI [of _ "C' @ [c]"]) (simp add: parted_def)
qed

lemma parted_cut:
  assumes "parted xs0 xs i n K C" "i < length xs"
  shows "parted xs0 xs (i + 1) (n + 1) K (C @ [xs0 ! i])"
  using assms(1) parted_step [OF assms] by (simp add: parted_def)

lemma shift_loop_parted:
  "parted xs0 xs i n K C \<Longrightarrow>
     \<exists>C'. shift_loop xs i n = (K @ drop i xs0) @ C' \<and> mset C' = mset C"
proof (induction xs i n arbitrary: K C rule: shift_loop.induct)
  case (1 xs i n)
  show ?case
  proof (cases "i < length xs")
    case True
    obtain C' where C': "parted xs0 (swap (i - n) i xs) (i + 1) n (K @ [xs0 ! i]) C'" "mset C' = mset C"
      using parted_keep [OF 1(2) True] by blast
    from 1(1) [OF True C'(1)] obtain D where "shift_loop (swap (i - n) i xs) (i + 1) n = ((K @ [xs0 ! i]) @ drop (i + 1) xs0) @ D"
      "mset D = mset C'" by blast
    then show ?thesis
      using C'(2) True parted_step(2) [OF 1(2) True] by (subst shift_loop.simps) simp
  next
    case False
    then show ?thesis using 1(2) by (subst shift_loop.simps) (auto simp: parted_def)
  qed
qed

text \<open>
  The invariant of the main loop: both lists are parted, the commitments cut on both sides are the
  same, and what is kept on one side is below the rest of the other side and disjoint from what
  is kept there.
\<close>

definition cut_inv ::
    "('a \<Rightarrow> 'c :: linorder) \<Rightarrow> ('b \<Rightarrow> 'c) \<Rightarrow> 'a list \<Rightarrow> 'b list \<Rightarrow> 'a list \<times> 'b list \<times> nat \<times> nat \<times> nat \<Rightarrow>
     'a list \<Rightarrow> 'a list \<Rightarrow> 'b list \<Rightarrow> 'b list \<Rightarrow> bool" where
  "cut_inv ci co ins0 outs0 st K C L D \<longleftrightarrow>
     (case st of (ins, outs, i, j, n) \<Rightarrow>
        parted ins0 ins i n K C \<and> parted outs0 outs j n L D \<and>
        mset (map ci C) = mset (map co D) \<and>
        (\<forall>k \<in> set K. \<forall>x \<in> set (drop j outs0). ci k < co x) \<and>
        (\<forall>k \<in> set L. \<forall>x \<in> set (drop i ins0). co k < ci x) \<and>
        ci ` set K \<inter> co ` set L = {})"

lemma sorted_drop_le:
  assumes "sorted (map f xs)" "x \<in> set (drop i xs)" "i < length xs"
  shows "f (xs ! i) \<le> f x"
proof -
  obtain d where "d < length xs - i" "x = xs ! (i + d)"
    using assms(2,3) by (auto simp: in_set_conv_nth)
  moreover define m where "m = i + d"
  ultimately have m: "i \<le> m" "m < length xs" "x = xs ! m" by auto
  then have "map f xs ! i \<le> map f xs ! m" using assms(1) by (intro sorted_nth_mono) auto
  then show ?thesis using m assms(3) by simp
qed

lemma cut_inv_sym:
  "cut_inv ci co ins0 outs0 (ins, outs, i, j, n) K C L D \<longleftrightarrow> cut_inv co ci outs0 ins0 (outs, ins, j, i, n) L D K C"
  unfolding cut_inv_def prod.case
  by (subst Int_commute [of "ci ` set K"], subst eq_commute [of "mset (map ci C)"]) blast

lemma cut_inv_less:
  assumes "cut_inv ci co ins0 outs0 (ins, outs, i, j, n) K C L D" "sorted (map co outs0)"
    and "i < length ins" "j < length outs" "ci (ins ! i) < co (outs ! j)"
  shows "\<exists>C'. cut_inv ci co ins0 outs0 (swap (i - n) i ins, outs, i + 1, j, n) (K @ [ins0 ! i]) C' L D"
proof -
  from assms(1) have p: "parted ins0 ins i n K C" "parted outs0 outs j n L D" by (auto simp: cut_inv_def)
  obtain C' where C': "parted ins0 (swap (i - n) i ins) (i + 1) n (K @ [ins0 ! i]) C'" "mset C' = mset C"
    using parted_keep [OF p(1) assms(3)] by blast
  have e: "ins ! i = ins0 ! i" "outs ! j = outs0 ! j" using parted_nth p assms(3,4) by metis+
  have "ci (ins0 ! i) < co x" if "x \<in> set (drop j outs0)" for x
    using sorted_drop_le [OF assms(2) that parted_step(1) [OF p(2) assms(4)]] assms(5) e by simp
  moreover have "ins0 ! i \<in> set (drop i ins0)" "set (drop (Suc i) ins0) \<subseteq> set (drop i ins0)"
    using parted_step(2) [OF p(1) assms(3)] by auto
  moreover have "mset (map ci C') = mset (map ci C)" using C'(2) by simp
  moreover have "co k < ci (ins0 ! i)" if "k \<in> set L" for k
    using assms(1) that \<open>ins0 ! i \<in> set (drop i ins0)\<close> by (simp add: cut_inv_def)
  then have "ci (ins0 ! i) \<noteq> co k" if "k \<in> set L" for k
    using that by (metis less_irrefl)
  ultimately have "cut_inv ci co ins0 outs0 (swap (i - n) i ins, outs, i + 1, j, n) (K @ [ins0 ! i]) C' L D"
    using assms(1) C'(1) unfolding cut_inv_def prod.case by auto
  then show ?thesis ..
qed

lemma cut_inv_greater:
  assumes "cut_inv ci co ins0 outs0 (ins, outs, i, j, n) K C L D" "sorted (map ci ins0)"
    and "i < length ins" "j < length outs" "co (outs ! j) < ci (ins ! i)"
  shows "\<exists>D'. cut_inv ci co ins0 outs0 (ins, swap (j - n) j outs, i, j + 1, n) K C (L @ [outs0 ! j]) D'"
proof -
  from assms(1) have "cut_inv co ci outs0 ins0 (outs, ins, j, i, n) L D K C"
    by (rule cut_inv_sym [THEN iffD1])
  from cut_inv_less [OF this assms(2,4,3,5)] obtain D' where
    "cut_inv co ci outs0 ins0 (swap (j - n) j outs, ins, j + 1, i, n) (L @ [outs0 ! j]) D' K C" ..
  then have "cut_inv ci co ins0 outs0 (ins, swap (j - n) j outs, i, j + 1, n) K C (L @ [outs0 ! j]) D'"
    by (rule cut_inv_sym [THEN iffD1])
  then show ?thesis ..
qed

lemma cut_inv_equal:
  assumes "cut_inv ci co ins0 outs0 (ins, outs, i, j, n) K C L D"
    and "i < length ins" "j < length outs" "ci (ins ! i) = co (outs ! j)"
  shows "cut_inv ci co ins0 outs0 (ins, outs, i + 1, j + 1, n + 1) K (C @ [ins0 ! i]) L (D @ [outs0 ! j])"
proof -
  from assms(1) have p: "parted ins0 ins i n K C" "parted outs0 outs j n L D" by (auto simp: cut_inv_def)
  have e: "ins ! i = ins0 ! i" "outs ! j = outs0 ! j" using parted_nth p assms(2,3) by metis+
  have "set (drop (Suc i) ins0) \<subseteq> set (drop i ins0)" "set (drop (Suc j) outs0) \<subseteq> set (drop j outs0)"
    using parted_step(2) [OF p(1) assms(2)] parted_step(2) [OF p(2) assms(3)] by auto
  then show ?thesis
    using assms(1,4) e parted_cut [OF p(1) assms(2)] parted_cut [OF p(2) assms(3)]
    by (auto simp: cut_inv_def)
qed

lemma cut_loop_inv:
  assumes "sorted (map ci ins0)" "sorted (map co outs0)" "cut_inv ci co ins0 outs0 (ins, outs, i, j, n) K C L D"
  shows "\<exists>ins' outs' i' j' n' K C L D. cut_loop ci co ins outs i j n = (ins', outs', i', j', n') \<and>
    cut_inv ci co ins0 outs0 (ins', outs', i', j', n') K C L D \<and> (length ins0 \<le> i' \<or> length outs0 \<le> j')"
  using assms
proof (induction ci co ins outs i j n arbitrary: K C L D rule: cut_loop.induct)
  case (1 ci co ins outs i j n)
  note inv = 1(6) and s = 1(4,5)
  show ?case
  proof (cases "i < length ins \<and> j < length outs")
    case True
    consider "ci (ins ! i) < co (outs ! j)" | "co (outs ! j) < ci (ins ! i)" | "ci (ins ! i) = co (outs ! j)"
      by force
    then show ?thesis
    proof cases
      case a: 1
      have "cut_loop ci co ins outs i j n = cut_loop ci co (swap (i - n) i ins) outs (i + 1) j n"
        using True a by (subst cut_loop.simps) simp
      then show ?thesis using cut_inv_less [OF inv s(2) _ _ a] 1(1) [OF True a s] True by metis
    next
      case b: 2
      then have nb: "\<not> ci (ins ! i) < co (outs ! j)" by simp
      have "cut_loop ci co ins outs i j n = cut_loop ci co ins (swap (j - n) j outs) i (j + 1) n"
        using True b nb by (subst cut_loop.simps) simp
      then show ?thesis using cut_inv_greater [OF inv s(1) _ _ b] 1(2) [OF True nb b s] True by metis
    next
      case c: 3
      then have nc: "\<not> ci (ins ! i) < co (outs ! j)" "\<not> co (outs ! j) < ci (ins ! i)" by simp_all
      have "cut_loop ci co ins outs i j n = cut_loop ci co ins outs (i + 1) (j + 1) (n + 1)"
        using True nc by (subst cut_loop.simps) simp
      then show ?thesis using cut_inv_equal [OF inv _ _ c] 1(3) [OF True nc s] True by metis
    qed
  next
    case False
    have "length ins = length ins0" "length outs = length outs0"
      using inv by (auto simp: cut_inv_def dest: parted_length)
    moreover have "cut_loop ci co ins outs i j n = (ins, outs, i, j, n)"
      by (subst cut_loop.simps) (rule if_not_P [OF False])
    ultimately show ?thesis using inv False by (metis not_less)
  qed
qed

section \<open>What cut-through keeps\<close>

lemma adjacent_equal_iff:
  "has_adjacent_equal key (sort_key key xs) \<longleftrightarrow> \<not> distinct (map key xs)"
proof -
  have "has_adjacent_equal key ys \<longleftrightarrow> (\<exists>(x, y) \<in> set (windows2 (map key ys)). x = y)" for ys
    by (simp add: has_adjacent_equal_def windows2_map list_ex_iff split_beta)
  moreover have "sorted (map key (sort_key key xs))" by simp
  moreover have "distinct (map key (sort_key key xs)) \<longleftrightarrow> distinct (map key xs)"
    by (rule mset_eq_imp_distinct_iff) simp
  ultimately show ?thesis using windows2_sorted_distinct by metis
qed

lemma disjoint_mset_diff:
  assumes "A = K + C" "B = L + C" "set_mset K \<inter> set_mset L = {}"
  shows "A - B = K" "B - A = L" "A \<inter># B = (C :: 'c multiset)"
proof -
  have d: "count K x = 0 \<or> count L x = 0" for x
    using assms(3) by (metis count_eq_zero_iff disjoint_iff)
  have e: "count K x - count L x = count K x" "count L x - count K x = count L x"
    "min (count K x + c) (count L x + c) = c" for x c
    using d [of x] by auto
  show "A - B = K" by (rule multiset_eqI) (simp add: assms e)
  show "B - A = L" by (rule multiset_eqI) (simp add: assms e)
  show "A \<inter># B = C" by (rule multiset_eqI) (simp add: assms e)
qed

text \<open>The two lists after the loops: kept elements, then the elements cut.\<close>

lemma cut_loops_result:
  assumes "cut_loop ci co (sort_key ci ins) (sort_key co outs) 0 0 0 = (ins', outs', i, j, n)"
  obtains K C L D where "shift_loop ins' i n = K @ C" "shift_loop outs' j n = L @ D" "length C = n" "length D = n"
    "mset (K @ C) = mset ins" "mset (L @ D) = mset outs" "mset (map ci C) = mset (map co D)"
    "ci ` set K \<inter> co ` set L = {}"
proof -
  let ?ins = "sort_key ci ins" and ?outs = "sort_key co outs"
  have "cut_inv ci co ?ins ?outs (?ins, ?outs, 0, 0, 0) [] [] [] []"
    by (simp add: cut_inv_def parted_0)
  from cut_loop_inv [OF _ _ this] assms obtain K C L D where
    inv: "cut_inv ci co ?ins ?outs (ins', outs', i, j, n) K C L D" and fin: "length ?ins \<le> i \<or> length ?outs \<le> j"
    by auto
  then have p: "parted ?ins ins' i n K C" "parted ?outs outs' j n L D" by (auto simp: cut_inv_def)
  obtain C' where C': "shift_loop ins' i n = (K @ drop i ?ins) @ C'" "mset C' = mset C"
    using shift_loop_parted [OF p(1)] by blast
  obtain D' where D': "shift_loop outs' j n = (L @ drop j ?outs) @ D'" "mset D' = mset D"
    using shift_loop_parted [OF p(2)] by blast
  have "mset (take i ?ins) + mset (drop i ?ins) = mset ins" "mset (take j ?outs) + mset (drop j ?outs) = mset outs"
    by (simp_all only: mset_append [symmetric] append_take_drop_id mset_sort)
  moreover have "mset K + mset C = mset (take i ?ins)" "mset L + mset D = mset (take j ?outs)"
    using p by (simp_all add: parted_def)
  moreover have "mset ((K @ drop i ?ins) @ C') = (mset K + mset C) + mset (drop i ?ins)"
    "mset ((L @ drop j ?outs) @ D') = (mset L + mset D) + mset (drop j ?outs)"
    by (simp_all add: C'(2) D'(2) ac_simps)
  ultimately have "mset ((K @ drop i ?ins) @ C') = mset ins" "mset ((L @ drop j ?outs) @ D') = mset outs"
    by metis+
  moreover have "length C' = n" "length D' = n"
    using p C'(2) D'(2) by (auto simp: parted_def dest: mset_eq_length)
  moreover have "mset (map ci C') = mset (map co D')"
    using inv C'(2) D'(2) by (simp add: cut_inv_def)
  moreover have "ci ` set (K @ drop i ?ins) \<inter> co ` set (L @ drop j ?outs) = {}"
  proof (cases "drop i ?ins = []")
    case True
    then show ?thesis using inv unfolding cut_inv_def prod.case by fastforce
  next
    case False
    with fin have "drop j ?outs = []" by simp
    then show ?thesis using inv unfolding cut_inv_def prod.case by fastforce
  qed
  ultimately show ?thesis using that C'(1) D'(1) by blast
qed

lemma cut_through_cases:
  obtains K C L D where
    "mset (K @ C) = mset ins" "mset (L @ D) = mset outs"
    "mset (map ci K) = mset (map ci ins) - mset (map co outs)"
    "mset (map co L) = mset (map co outs) - mset (map ci ins)"
    "mset (map ci C) = mset (map ci ins) \<inter># mset (map co outs)" "mset (map co D) = mset (map ci C)"
    "cut_through ci co ki ko ins outs =
       (if distinct (map ki K) \<and> distinct (map ko L)
        then Inr (sort_key ki K, sort_key ko L, sort_key ki C, sort_key ko D) else Inl CutThrough)"
proof -
  obtain ins' outs' i j n where loop:
    "cut_loop ci co (sort_key ci ins) (sort_key co outs) 0 0 0 = (ins', outs', i, j, n)"
    by (cases "cut_loop ci co (sort_key ci ins) (sort_key co outs) 0 0 0") auto
  obtain K C L D where r: "shift_loop ins' i n = K @ C" "shift_loop outs' j n = L @ D" "length C = n" "length D = n"
    "mset (K @ C) = mset ins" "mset (L @ D) = mset outs" "mset (map ci C) = mset (map co D)"
    "ci ` set K \<inter> co ` set L = {}"
    using cut_loops_result [OF loop] .
  have "mset (map ci ins) = mset (map ci K) + mset (map ci C)" "mset (map co outs) = mset (map co L) + mset (map ci C)"
    using r(7) arg_cong [OF r(5), of "image_mset ci"] arg_cong [OF r(6), of "image_mset co"] by simp_all
  moreover have "set_mset (mset (map ci K)) \<inter> set_mset (mset (map co L)) = {}" using r(8) by simp
  moreover have "cut_through ci co ki ko ins outs =
       (if distinct (map ki K) \<and> distinct (map ko L)
        then Inr (sort_key ki K, sort_key ko L, sort_key ki C, sort_key ko D) else Inl CutThrough)"
    using r(1-4) by (simp add: cut_through_def loop adjacent_equal_iff Let_def)
  ultimately show ?thesis
    using that [of K C L D] r disjoint_mset_diff by metis
qed

section \<open>Aggregated transactions\<close>

lemma sum_list_mset: "sum_list (map f xs) = sum_mset (image_mset f (mset xs))"
  by (metis mset_map sum_mset_sum_list)

lemma sum_list_concat_map: "sum_list (map f (concat xss)) = sum_list (map (\<lambda>xs. sum_list (map f xs)) xss)"
  by (induction xss) auto

lemma cut_through_balance:
  fixes point :: "'c :: linorder \<Rightarrow> 'g :: ab_group_add"
  assumes "cut_through ci co ki ko ins outs = Inr (ins', outs', ic, oc)"
  shows "sum_list (map (point \<circ> co) outs') - sum_list (map (point \<circ> ci) ins') =
    sum_list (map (point \<circ> co) outs) - sum_list (map (point \<circ> ci) ins)"
proof -
  obtain K C L D where c: "mset (K @ C) = mset ins" "mset (L @ D) = mset outs" "mset (map co D) = mset (map ci C)"
    "cut_through ci co ki ko ins outs =
       (if distinct (map ki K) \<and> distinct (map ko L)
        then Inr (sort_key ki K, sort_key ko L, sort_key ki C, sort_key ko D) else Inl CutThrough)"
    using cut_through_cases [of ins outs ci co ki ko] by metis
  with assms have k: "mset ins' = mset K" "mset outs' = mset L" by (auto split: if_splits)
  have "sum_list (map (point \<circ> ci) ins) = sum_list (map (point \<circ> ci) (K @ C))"
    "sum_list (map (point \<circ> co) outs) = sum_list (map (point \<circ> co) (L @ D))"
    unfolding sum_list_mset c(1,2) [symmetric] by simp_all
  moreover have "sum_list (map (point \<circ> co) D) = sum_list (map (point \<circ> ci) C)"
    using arg_cong [OF c(3), of "\<lambda>m. sum_mset (image_mset point m)"]
    by (simp add: sum_list_mset multiset.map_comp)
  ultimately show ?thesis unfolding sum_list_mset k by (simp add: sum_list_mset)
qed

lemma aggregate_many:
  assumes "aggregate env txs = Inr tx" "2 \<le> length txs"
  obtains ins outs ic oc where
    "cut_through cw_commit output_commitment (commit_wrapper_key env) (output_key env)
       (concat (map (\<lambda>tx. inputs_to_wrappers env (body_inputs (tx_body tx))) txs))
       (concat (map (\<lambda>tx. body_outputs (tx_body tx)) txs)) = Inr (ins, outs, ic, oc)"
    "sum_kernel_offsets (env_lib env) (map offset txs) [] = Inr (offset tx)"
    "body_inputs (tx_body tx) = CommitOnly (sort_key (commit_wrapper_key env) ins)"
    "body_outputs (tx_body tx) = sort_key (output_key env) outs"
    "body_kernels (tx_body tx) = sort_key (tx_kernel_key env) (concat (map (\<lambda>tx. body_kernels (tx_body tx)) txs))"
proof -
  obtain t u ts where "txs = t # u # ts" using assms(2) by (cases txs; cases "tl txs") auto
  with assms(1) that show ?thesis
    by (auto simp: aggregate_def Let_def rbind_Inr_iff tx_with_offset_def tx_new_def body_init_def body_sort_def
        inputs_sort_unstable_def split: prod.splits)
qed

lemma collect_missing_keys:
  "key ` set (collect_missing key ys acc xs) = key ` set acc \<union> (key ` set xs - key ` set ys)"
  "distinct (map key acc) \<Longrightarrow> distinct (map key (collect_missing key ys acc xs))"
  by (induction key ys acc xs rule: collect_missing.induct) auto

lemma sorted_distinct_keys:
  "distinct (map key xs) \<Longrightarrow> sorted_wrt (\<lambda>a b. key a < key b) (sort_key key xs)"
proof -
  assume "distinct (map key xs)"
  then have "distinct (map key (sort_key key xs))" by (metis mset_eq_imp_distinct_iff mset_map mset_sort)
  then have "sorted_wrt (<) (map key (sort_key key xs))"
    by (simp add: strict_sorted_iff)
  then show ?thesis by (simp add: sorted_wrt_map)
qed

section \<open>Properties\<close>

text \<open>C23: cut-through removes exactly the commitments that are both spent and created, with their
  multiplicities, whatever the order of the two lists: it fails exactly when what is left has
  duplicates on one side, and otherwise answers the rest and what was cut, each in its own order,
  and nothing is lost.\<close>

theorem cut_through_correct:
  "\<exists>K C L D. mset (K @ C) = mset ins \<and> mset (L @ D) = mset outs \<and>
     mset (map ci K) = mset (map ci ins) - mset (map co outs) \<and>
     mset (map co L) = mset (map co outs) - mset (map ci ins) \<and>
     mset (map ci C) = mset (map ci ins) \<inter># mset (map co outs) \<and> mset (map co D) = mset (map ci C) \<and>
     cut_through ci co ki ko ins outs =
       (if distinct (map ki K) \<and> distinct (map ko L)
        then Inr (sort_key ki K, sort_key ko L, sort_key ki C, sort_key ko D) else Inl CutThrough)"
  by (rule cut_through_cases [of ins outs ci co ki ko]) blast

text \<open>C24: aggregating transactions keeps all their kernels and, in any group the commitments are mapped
  to, the balance of outputs and inputs: it is the sum of the balances of the aggregated
  transactions, although cut-through removed some of both.\<close>

theorem aggregate_preserves_balance:
  fixes point :: "commitment \<Rightarrow> 'g :: ab_group_add"
  assumes "aggregate env txs = Inr tx" and "2 \<le> length txs"
  shows "mset (body_kernels (tx_body tx)) = sum_list (map (\<lambda>t. mset (body_kernels (tx_body t))) txs) \<and>
    sum_list (map point (outputs_committed (body_committed env (tx_body tx)))) -
      sum_list (map point (inputs_committed (body_committed env (tx_body tx)))) =
    sum_list (map (\<lambda>t. sum_list (map point (outputs_committed (body_committed env (tx_body t)))) -
      sum_list (map point (inputs_committed (body_committed env (tx_body t))))) txs)"
proof -
  let ?w = "\<lambda>t. inputs_to_wrappers env (body_inputs (tx_body t))"
  obtain ins outs ic oc where a:
    "cut_through cw_commit output_commitment (commit_wrapper_key env) (output_key env)
       (concat (map ?w txs)) (concat (map (\<lambda>tx. body_outputs (tx_body tx)) txs)) = Inr (ins, outs, ic, oc)"
    "body_inputs (tx_body tx) = CommitOnly (sort_key (commit_wrapper_key env) ins)"
    "body_outputs (tx_body tx) = sort_key (output_key env) outs"
    "body_kernels (tx_body tx) = sort_key (tx_kernel_key env) (concat (map (\<lambda>tx. body_kernels (tx_body tx)) txs))"
    using aggregate_many [OF assms] by metis
  have k: "mset (concat (map f ts)) = sum_list (map (\<lambda>t. mset (f t)) ts)" for f :: "transaction \<Rightarrow> 'z list" and ts
    by (induction ts) auto
  have "sum_list (map (point \<circ> output_commitment) outs) - sum_list (map (point \<circ> cw_commit) ins) =
      sum_list (map (\<lambda>t. sum_list (map (point \<circ> output_commitment) (body_outputs (tx_body t))) -
        sum_list (map (point \<circ> cw_commit) (?w t))) txs)"
    unfolding cut_through_balance [OF a(1)] sum_list_concat_map map_map sum_list_subtractf by (simp add: comp_def)
  then show ?thesis
    by (simp add: a(2-4) k body_committed_def inputs_to_wrappers_def sum_list_mset comp_def)
qed

definition demo_tx2 :: transaction where
  "demo_tx2 = \<lparr> offset = [1], tx_body =
     \<lparr> body_inputs = CommitOnly [CommitWrapper [3]],
       body_outputs =
         [\<lparr> out_identifier = \<lparr> oi_features = PlainOutput, oi_commit = [1] \<rparr>, out_proof = \<lparr> plen = 1, proof_bytes = [2] \<rparr> \<rparr>],
       body_kernels = [\<lparr> k_features = Plain (FeeFields 1), excess = [254], excess_sig = [0] \<rparr>] \<rparr> \<rparr>"

definition demo_agg :: transaction where
  "demo_agg = \<lparr> offset = [6], tx_body =
     \<lparr> body_inputs = CommitOnly [CommitWrapper [10]],
       body_outputs =
         [\<lparr> out_identifier = \<lparr> oi_features = PlainOutput, oi_commit = [1] \<rparr>, out_proof = \<lparr> plen = 1, proof_bytes = [2] \<rparr> \<rparr>,
          \<lparr> out_identifier = \<lparr> oi_features = PlainOutput, oi_commit = [9] \<rparr>, out_proof = \<lparr> plen = 1, proof_bytes = [1] \<rparr> \<rparr>],
       body_kernels = [\<lparr> k_features = Plain (FeeFields 1), excess = [254], excess_sig = [0] \<rparr>,
         \<lparr> k_features = Plain (FeeFields 5), excess = [2], excess_sig = [0] \<rparr>] \<rparr> \<rparr>"

lemma demo_aggregate: "aggregate demo_env [demo_tx, demo_tx2] = Inr demo_agg"
  by code_simp

lemma aggregate_preserves_balance_witness:
  "aggregate demo_env [demo_tx, demo_tx2] = Inr demo_agg \<and>
   sum_list (map hd (outputs_committed (body_committed demo_env (tx_body demo_agg)))) -
     sum_list (map hd (inputs_committed (body_committed demo_env (tx_body demo_agg)))) = (2 - 2 :: u8)"
proof -
  have "sum_list (map hd (outputs_committed (body_committed demo_env (tx_body t)))) -
      sum_list (map hd (inputs_committed (body_committed demo_env (tx_body t)))) =
      (if t = demo_tx then 2 else - 2 :: u8)" if "t = demo_tx \<or> t = demo_tx2 \<and> demo_tx2 \<noteq> demo_tx" for t
    using that by (auto simp: demo_tx_def demo_tx2_def body_committed_def inputs_to_wrappers_def output_commitment_def)
  moreover have "demo_tx2 \<noteq> demo_tx" by (simp add: demo_tx_def demo_tx2_def)
  ultimately show ?thesis
    using aggregate_preserves_balance [OF demo_aggregate, of hd] demo_aggregate by simp
qed

text \<open>taking transactions out of an aggregate leaves, for outputs and kernels, exactly those that are
  not in the aggregate of the transactions taken out, strictly sorted; the same holds for the
  commitments of the inputs.\<close>

theorem deaggregate_removes:
  assumes "deaggregate env mk_tx txs = Inr tx'"
  shows "\<exists>tx ins. aggregate env txs = Inr tx \<and> body_inputs (tx_body tx') = CommitOnly ins \<and>
    commit_wrapper_key env ` set ins =
      commit_wrapper_key env ` set (inputs_to_wrappers env (body_inputs (tx_body mk_tx))) -
      commit_wrapper_key env ` set (inputs_to_wrappers env (body_inputs (tx_body tx))) \<and>
    output_key env ` set (body_outputs (tx_body tx')) =
      output_key env ` set (body_outputs (tx_body mk_tx)) - output_key env ` set (body_outputs (tx_body tx)) \<and>
    tx_kernel_key env ` set (body_kernels (tx_body tx')) =
      tx_kernel_key env ` set (body_kernels (tx_body mk_tx)) - tx_kernel_key env ` set (body_kernels (tx_body tx)) \<and>
    body_sorted env (tx_body tx')"
proof -
  from assms obtain tx where tx: "aggregate env txs = Inr tx" by (auto simp: deaggregate_def rbind_Inr_iff)
  have s: "sort_key k (sort_key k xs) = sort_key k xs" for k :: "'x \<Rightarrow> hash" and xs
    by (simp add: sort_key_id_if_sorted)
  show ?thesis
    using assms tx
    by (auto simp: deaggregate_def rbind_Inr_iff Let_def tx_with_offset_def tx_new_def body_init_def body_sort_def
        inputs_sort_unstable_def collect_missing_keys s body_sorted_def inputs_sorted_def sorted_distinct_keys)
qed

definition demo_rest :: transaction where
  "demo_rest = \<lparr> offset = [5], tx_body =
     \<lparr> body_inputs = CommitOnly [CommitWrapper [10]],
       body_outputs =
         [\<lparr> out_identifier = \<lparr> oi_features = PlainOutput, oi_commit = [9] \<rparr>, out_proof = \<lparr> plen = 1, proof_bytes = [1] \<rparr> \<rparr>],
       body_kernels = [\<lparr> k_features = Plain (FeeFields 5), excess = [2], excess_sig = [0] \<rparr>] \<rparr> \<rparr>"

lemma demo_deaggregate: "deaggregate demo_env demo_agg [demo_tx2] = Inr demo_rest"
  by code_simp

lemma deaggregate_removes_witness:
  "deaggregate demo_env demo_agg [demo_tx2] = Inr demo_rest \<and> body_sorted demo_env (tx_body demo_rest)"
  using deaggregate_removes [OF demo_deaggregate] demo_deaggregate by blast

end
