(* ===== verification/Pow_Types.thy ===== *)
theory Pow_Types
  imports Consensus
begin

unbundle bit_operations_syntax

text \<open>
  The proof-of-work data of a header (\<open>core/src/pow/types.rs\<close>): a proof's nonces packed at their
  exact bit width, the difficulty a proof achieves, and their serialized forms.

  \<open>pack_bits\<close> writes through a 64-bit buffer into a slice; the model keeps the bytes written and the
  length of the slice that is left, and a slice operation that is out of range (a panic) is \<open>None\<close>.
  \<open>usize\<close> values are natural numbers: they are bounded by the size of a packed proof.
\<close>

section \<open>Little-endian numbers\<close>

definition to_le_bytes :: "u64 \<Rightarrow> bytes" where
  "to_le_bytes n = rev (be_bytes 8 (unat n))"

definition le_val :: "bytes \<Rightarrow> nat" where
  "le_val bs = be_val (rev bs)"

definition from_le_bytes :: "bytes \<Rightarrow> u64" where
  "from_le_bytes bs = of_nat (le_val bs)"

section \<open>Packing\<close>

fun pack_loop :: "nat \<Rightarrow> u64 list \<Rightarrow> u64 \<Rightarrow> nat \<Rightarrow> nat \<Rightarrow> bytes \<Rightarrow> (bytes \<times> u64 \<times> nat) option" where
  "pack_loop bit_width [] mini_buffer remaining len out = Some (out, mini_buffer, len)"
| "pack_loop bit_width (el # els) mini_buffer remaining len out =
     (let mini_buffer = mini_buffer OR push_bit (64 - remaining) el
      in if bit_width < remaining
         then pack_loop bit_width els mini_buffer (remaining - bit_width) len out
         else if len < 8 then None
         else pack_loop bit_width els (drop_bit remaining el) (64 + remaining - bit_width) (len - 8)
                (out @ to_le_bytes mini_buffer))"

definition pack_bits :: "nat \<Rightarrow> u64 list \<Rightarrow> nat \<Rightarrow> bytes option" where
  "pack_bits bit_width uncompressed len =
     (case pack_loop bit_width uncompressed 0 64 len [] of
        None \<Rightarrow> None
      | Some (out, mini_buffer, len) \<Rightarrow>
          (let remainder = (if len mod 8 = 0 then 8 else len mod 8)
           in if 0 < mini_buffer
              then (if len = remainder then Some (out @ take remainder (to_le_bytes mini_buffer)) else None)
              else Some (out @ replicate len 0)))"

definition extract_bits :: "bytes \<Rightarrow> nat \<Rightarrow> nat \<Rightarrow> nat \<Rightarrow> u64" where
  "extract_bits bits bit_start bit_count read_from =
     (let buf = take 8 (drop read_from bits)
      in if bit_count = 64 then from_le_bytes buf
         else let skip_bits = bit_start - read_from * 8; bit_mask = push_bit bit_count 1 - 1
              in drop_bit skip_bits (from_le_bytes buf) AND bit_mask)"

definition read_number :: "bytes \<Rightarrow> nat \<Rightarrow> nat \<Rightarrow> u64" where
  "read_number bits bit_start bit_count =
     (if bit_count = 0 then 0
      else let read_from = bit_start div 8;
               read_from = (if length bits < read_from + 8 then length bits - 8 else read_from);
               max_bit_end = (read_from + 8) * 8;
               max_pos = bit_start + bit_count
           in if max_pos \<le> max_bit_end then extract_bits bits bit_start bit_count read_from
              else let low = extract_bits bits bit_start 8 read_from;
                       high = extract_bits bits (bit_start + 8) (bit_count - 8) (read_from + 1)
                   in push_bit 8 high + low)"

section \<open>Proofs\<close>

record pow_proof =
  edge_bits :: u8
  nonces :: "u64 list"

definition proof_new :: "chain_types \<Rightarrow> u64 list \<Rightarrow> pow_proof" where
  "proof_new ct in_nonces = \<lparr> edge_bits = min_edge_bits ct, nonces = sort in_nonces \<rparr>"

definition proof_zero :: "chain_types \<Rightarrow> nat \<Rightarrow> pow_proof" where
  "proof_zero ct proof_size = \<lparr> edge_bits = min_edge_bits ct, nonces = replicate proof_size 0 \<rparr>"

definition pack_len :: "chain_types \<Rightarrow> u8 \<Rightarrow> nat" where
  "pack_len ct bit_width = (unat bit_width * proofsize ct + 7) div 8"

definition pack_nonces :: "chain_types \<Rightarrow> pow_proof \<Rightarrow> bytes option" where
  "pack_nonces ct p = pack_bits (unat (edge_bits p)) (nonces p) (pack_len ct (edge_bits p))"

definition proof_write :: "chain_types \<Rightarrow> pow_proof writeable" where
  "proof_write ct c p =
     (let packed = the (pack_nonces ct p)
      in if wr_mode c \<noteq> SerHash then Inr (write_u8 (edge_bits p) @ write_fixed_bytes packed)
         else Inr (write_fixed_bytes packed))"

definition proof_read :: "chain_types \<Rightarrow> pow_proof readable_fn" where
  "proof_read ct r =
     rbind (read_u8 r) (\<lambda>(eb, r).
       if eb = 0 \<or> 63 < eb then Inl CorruptedData
       else if rd_mode r \<noteq> SkipPow then
         (let nonce_bits = unat eb; bytes_len = pack_len ct eb
          in if bytes_len < 8 then Inl CorruptedData
             else rbind (read_fixed_bytes bytes_len r) (\<lambda>(bits, r).
               let ns = map (\<lambda>n. read_number bits (n * nonce_bits) nonce_bits) [0..<proofsize ct];
                   end_of_data = proofsize ct * nonce_bits
               in if read_number bits end_of_data (bytes_len * 8 - end_of_data) \<noteq> 0 then Inl CorruptedData
                  else Inr (\<lparr> edge_bits = eb, nonces = ns \<rparr>, r)))
       else Inr (\<lparr> edge_bits = eb, nonces = [] \<rparr>, r))"

definition proof_hash :: "(bytes \<Rightarrow> hash) \<Rightarrow> chain_types \<Rightarrow> pow_proof \<Rightarrow> hash" where
  "proof_hash blake2b ct p = hash_of blake2b (proof_write ct) p"

text \<open>The quotient is taken in 128 bits: no overflow.\<close>

definition scaled_difficulty :: "(bytes \<Rightarrow> hash) \<Rightarrow> chain_types \<Rightarrow> pow_proof \<Rightarrow> u64 \<Rightarrow> u64" where
  "scaled_difficulty blake2b ct p scale =
     (let diff = unat scale * 2 ^ 64 div unat (max 1 (hash_to_u64 (proof_hash blake2b ct p)))
      in of_nat (min diff (2 ^ 64 - 1)))"

definition from_proof_adjusted :: "(bytes \<Rightarrow> hash) \<Rightarrow> chain_types \<Rightarrow> u64 \<Rightarrow> pow_proof \<Rightarrow> difficulty" where
  "from_proof_adjusted blake2b ct height p =
     from_num (scaled_difficulty blake2b ct p (graph_weight ct height (edge_bits p)))"

definition from_proof_scaled :: "(bytes \<Rightarrow> hash) \<Rightarrow> chain_types \<Rightarrow> pow_proof \<Rightarrow> u32 \<Rightarrow> difficulty" where
  "from_proof_scaled blake2b ct p scaling = from_num (scaled_difficulty blake2b ct p (ucast scaling))"

section \<open>Proof of work\<close>

record proof_of_work =
  total_difficulty :: difficulty
  secondary_scaling :: u32
  pow_nonce :: u64
  proof_of :: pow_proof

definition pow_default :: "chain_types \<Rightarrow> proof_of_work" where
  "pow_default ct = \<lparr> total_difficulty = min_dma, secondary_scaling = 1, pow_nonce = 0,
     proof_of = proof_zero ct (proofsize ct) \<rparr>"

definition write_pre_pow :: "proof_of_work \<Rightarrow> bytes" where
  "write_pre_pow p = write_u64 (to_num (total_difficulty p)) @ write_u32 (secondary_scaling p)"

definition pow_write :: "chain_types \<Rightarrow> proof_of_work writeable" where
  "pow_write ct c p =
     rbind (proof_write ct c (proof_of p)) (\<lambda>b.
       if wr_mode c \<noteq> SerHash then Inr (write_pre_pow p @ write_u64 (pow_nonce p) @ b) else Inr b)"

definition pow_read :: "chain_types \<Rightarrow> proof_of_work readable_fn" where
  "pow_read ct r =
     rbind (difficulty_read r) (\<lambda>(td, r). rbind (read_u32 r) (\<lambda>(sc, r). rbind (read_u64 r) (\<lambda>(n, r).
       rbind (proof_read ct r) (\<lambda>(p, r).
         Inr (\<lparr> total_difficulty = td, secondary_scaling = sc, pow_nonce = n, proof_of = p \<rparr>, r)))))"

definition to_difficulty :: "(bytes \<Rightarrow> hash) \<Rightarrow> chain_types \<Rightarrow> proof_of_work \<Rightarrow> u64 \<Rightarrow> difficulty" where
  "to_difficulty blake2b ct p height =
     (if edge_bits (proof_of p) = second_pow_edge_bits
      then from_proof_scaled blake2b ct (proof_of p) (secondary_scaling p)
      else from_proof_adjusted blake2b ct height (proof_of p))"

definition to_unscaled_difficulty :: "(bytes \<Rightarrow> hash) \<Rightarrow> chain_types \<Rightarrow> proof_of_work \<Rightarrow> difficulty" where
  "to_unscaled_difficulty blake2b ct p = from_num (scaled_difficulty blake2b ct (proof_of p) 1)"

definition is_primary :: "chain_types \<Rightarrow> proof_of_work \<Rightarrow> bool" where
  "is_primary ct p \<longleftrightarrow> edge_bits (proof_of p) \<noteq> second_pow_edge_bits \<and> min_edge_bits ct \<le> edge_bits (proof_of p)"

definition is_secondary :: "proof_of_work \<Rightarrow> bool" where
  "is_secondary p \<longleftrightarrow> edge_bits (proof_of p) = second_pow_edge_bits"

definition header_size_bytes :: "chain_types \<Rightarrow> u8 \<Rightarrow> nat" where
  "header_size_bytes ct eb =
     (let sz = 2 + 2 * 8 + 5 * 32 + 32 + 2 * 8; proof_size = 8 + 4 + 8 + 1 + pack_len ct eb in sz + proof_size)"

section \<open>Numbers behind the packed bytes\<close>

lemma length_to_le_bytes [simp]: "length (to_le_bytes n) = 8"
  by (simp add: to_le_bytes_def)

lemma le_val_Nil [simp]: "le_val [] = 0"
  by (simp add: le_val_def)

lemma le_val_Cons [simp]: "le_val (b # bs) = unat b + 256 * le_val bs"
  by (simp add: le_val_def)

lemma le_val_append: "le_val (a @ b) = le_val a + 256 ^ length a * le_val b"
  by (induction a) (simp_all add: algebra_simps)

lemma le_val_less: "le_val bs < 256 ^ length bs"
  using be_val_less [of "rev bs"] by (simp add: le_val_def)

lemma le_val_to_le [simp]: "le_val (to_le_bytes n) = unat n"
  using unat_less_pow [of n] by (simp add: le_val_def to_le_bytes_def be_val_be_bytes)

lemma le_val_zeros [simp]: "le_val (replicate n 0) = 0"
  by (induction n) auto

lemma le_val_inj: "length a = length b \<Longrightarrow> le_val a = le_val b \<Longrightarrow> a = b"
  by (metis be_bytes_be_val le_val_def length_rev rev_rev_ident)

lemma le_val_take_drop: "i + n \<le> length bs \<Longrightarrow> le_val (take n (drop i bs)) = le_val bs div 256 ^ i mod 256 ^ n"
proof -
  assume "i + n \<le> length bs"
  then have l: "length (take i bs) = i" "length (take n (drop i bs)) = n" by auto
  have "bs = take i bs @ take n (drop i bs) @ drop n (drop i bs)" by (metis append_take_drop_id)
  then have "le_val bs = le_val (take i bs) + 256 ^ i * (le_val (take n (drop i bs)) +
      256 ^ n * le_val (drop n (drop i bs)))"
    by (metis le_val_append l)
  moreover have "le_val (take i bs) < 256 ^ i" "le_val (take n (drop i bs)) < 256 ^ n"
    using le_val_less [of "take i bs"] le_val_less [of "take n (drop i bs)"] l by auto
  ultimately show ?thesis by simp
qed

text \<open>The number the nonces stand for: nonce \<open>i\<close> at bit \<open>i * w\<close>.\<close>

fun nonces_val :: "nat \<Rightarrow> u64 list \<Rightarrow> nat" where
  "nonces_val w [] = 0"
| "nonces_val w (n # ns) = unat n + 2 ^ w * nonces_val w ns"

lemma nonces_val_less: "\<forall>n \<in> set ns. unat n < 2 ^ w \<Longrightarrow> nonces_val w ns < 2 ^ (w * length ns)"
proof (induction ns)
  case (Cons n ns)
  then have "unat n + 2 ^ w * nonces_val w ns < 2 ^ w + 2 ^ w * nonces_val w ns" by simp
  also have "\<dots> = 2 ^ w * Suc (nonces_val w ns)" by simp
  also have "\<dots> \<le> 2 ^ w * 2 ^ (w * length ns)" using Cons by (intro mult_le_mono2) auto
  finally show ?case by (simp add: power_add)
qed simp

lemma nonces_val_nth:
  "\<forall>n \<in> set ns. unat n < 2 ^ w \<Longrightarrow> i < length ns \<Longrightarrow> nonces_val w ns div 2 ^ (i * w) mod 2 ^ w = unat (ns ! i)"
proof (induction ns arbitrary: i)
  case (Cons n ns)
  show ?case
  proof (cases i)
    case (Suc j)
    have "nonces_val w (n # ns) div 2 ^ (i * w) = nonces_val w (n # ns) div 2 ^ w div 2 ^ (j * w)"
      by (simp add: Suc power_add div_mult2_eq)
    also have "nonces_val w (n # ns) div 2 ^ w = nonces_val w ns" using Cons.prems by simp
    finally show ?thesis using Cons Suc by simp
  qed (use Cons in simp)
qed simp

lemma unat_digit: "w \<le> 63 \<Longrightarrow> unat (of_nat (x mod 2 ^ w) :: u64) = x mod 2 ^ w"
proof -
  assume "w \<le> 63"
  have "x mod 2 ^ w < 2 ^ w" by simp
  also have "(2 :: nat) ^ w \<le> 2 ^ 63" using \<open>w \<le> 63\<close> by (intro power_increasing) auto
  finally show ?thesis by (simp only: unat_of_nat) simp
qed

lemma nonces_val_digits:
  "nonces_val w (map (\<lambda>i. of_nat (v div 2 ^ (i * w) mod 2 ^ w)) [0..<n]) = v mod 2 ^ (n * w)" if "w \<le> 63"
proof (induction n arbitrary: v)
  case (Suc n)
  have "map (\<lambda>i. of_nat (v div 2 ^ (i * w) mod 2 ^ w) :: u64) [0..<Suc n] =
      of_nat (v mod 2 ^ w) # map (\<lambda>i. of_nat (v div 2 ^ w div 2 ^ (i * w) mod 2 ^ w)) [0..<n]"
    unfolding upt_conv_Cons [OF zero_less_Suc] list.map map_Suc_upt [symmetric] map_map o_def
    by (simp add: power_add div_mult2_eq)
  then have "nonces_val w (map (\<lambda>i. of_nat (v div 2 ^ (i * w) mod 2 ^ w)) [0..<Suc n]) =
      v mod 2 ^ w + 2 ^ w * (v div 2 ^ w mod 2 ^ (n * w))"
    by (simp only: nonces_val.simps unat_digit [OF that] Suc)
  also have "\<dots> = v mod 2 ^ (Suc n * w)" by (simp add: power_add mod_mult2_eq)
  finally show ?case .
qed simp

lemma pow_256: "(256 :: nat) ^ n = 2 ^ (8 * n)"
  by (simp add: power_mult)

lemma unat_push: "unat (push_bit k (x :: u64)) = unat x * 2 ^ k mod 2 ^ 64"
  unfolding unsigned_push_bit_eq by (simp add: take_bit_eq_mod push_bit_eq_mult)

lemma unat_drop: "unat (drop_bit k (x :: u64)) = unat x div 2 ^ k"
  unfolding unsigned_drop_bit_eq
  using unat_less_pow [of x] by (simp add: drop_bit_eq_div take_bit_eq_mod)

lemma unat_mask: "k < 64 \<Longrightarrow> unat (x AND (2 ^ k - 1) :: u64) = unat x mod 2 ^ k"
  unfolding mask_eq_exp_minus_1 [symmetric] take_bit_eq_mask [symmetric] unsigned_take_bit_eq
  by (simp add: take_bit_eq_mod)

lemma unat_or_push:
  assumes "unat (m :: u64) < 2 ^ k"
  shows "unat (m OR push_bit k el) = (unat m + unat el * 2 ^ k) mod 2 ^ 64"
proof -
  have "m AND push_bit k el = 0"
  proof (rule bit_word_eqI)
    fix n
    show "bit (m AND push_bit k el) n \<longleftrightarrow> bit 0 n"
    proof (cases "k \<le> n")
      case True
      then have "unat m < 2 ^ n" using assms power_increasing [of k n "2 :: nat"] by linarith
      then have "unat (drop_bit n m) = 0" by (simp add: unat_drop)
      then have "\<not> bit m n" by (simp add: bit_iff_odd_drop_bit unsigned_eq_0_iff)
      then show ?thesis by (simp add: bit_and_iff)
    qed (simp add: bit_and_iff bit_push_bit_iff)
  qed
  then have "m OR push_bit k el = m + push_bit k el" by (simp add: disjunctive_add_eq_or [symmetric])
  then show ?thesis by (simp add: unat_word_ariths unat_push mod_add_right_eq)
qed

lemma pack_loop_val:
  assumes "\<forall>n \<in> set els. unat n < 2 ^ w" "w \<le> 63" "0 < rem" "rem \<le> 64" "unat mb < 2 ^ (64 - rem)"
    "64 - rem + w * length els \<le> 8 * len"
  shows "\<exists>bs mb' len' k. pack_loop w els mb rem len out = Some (out @ bs, mb', len') \<and>
    length bs + len' = len \<and> 8 * length bs + k = 64 - rem + w * length els \<and> k < 64 \<and> unat mb' < 2 ^ k \<and>
    le_val bs + 2 ^ (8 * length bs) * unat mb' = unat mb + 2 ^ (64 - rem) * nonces_val w els"
  using assms
proof (induction els arbitrary: mb rem len out)
  case Nil
  then show ?case by (intro exI [of _ "[]"] exI [of _ "64 - rem"]) simp
next
  case (Cons el els)
  define mb2 where "mb2 = mb OR push_bit (64 - rem) el"
  define t where "t = unat mb + unat el * 2 ^ (64 - rem)"
  have mb2: "unat mb2 = t mod 2 ^ 64" using Cons.prems by (simp add: mb2_def t_def unat_or_push)
  have el: "unat el < 2 ^ w" using Cons.prems by simp
  have "t < 2 ^ (64 - rem) + unat el * 2 ^ (64 - rem)" using Cons.prems by (simp add: t_def)
  also have "\<dots> = Suc (unat el) * 2 ^ (64 - rem)" by simp
  also have "\<dots> \<le> 2 ^ w * 2 ^ (64 - rem)" using el by (intro mult_le_mono1) simp
  finally have t: "t < 2 ^ (w + (64 - rem))" by (simp add: power_add)
  show ?case
  proof (cases "w < rem")
    case True
    have e: "w + (64 - rem) = 64 - (rem - w)" using True Cons.prems by auto
    have "(2 :: nat) ^ (w + (64 - rem)) \<le> 2 ^ 64" using True Cons.prems by (intro power_increasing) auto
    then have "unat mb2 = t" using mb2 t by simp
    moreover have "64 - (rem - w) + w * length els \<le> 8 * len" "rem - w \<le> 64" "0 < rem - w"
      using Cons.prems True by auto
    ultimately obtain bs mb' len' k where IH: "pack_loop w els mb2 (rem - w) len out = Some (out @ bs, mb', len')"
      "length bs + len' = len" "8 * length bs + k = 64 - (rem - w) + w * length els" "k < 64" "unat mb' < 2 ^ k"
      "le_val bs + 2 ^ (8 * length bs) * unat mb' = t + 2 ^ (64 - (rem - w)) * nonces_val w els"
      using Cons.IH [of "rem - w" mb2 len out] Cons.prems True t e by auto
    moreover have "t + 2 ^ (64 - (rem - w)) * nonces_val w els = unat mb + 2 ^ (64 - rem) * nonces_val w (el # els)"
      by (simp add: t_def power_add algebra_simps flip: e)
    ultimately show ?thesis
      using True Cons.prems by (intro exI [of _ bs] exI [of _ mb'] exI [of _ len'] exI [of _ k]) (auto simp: mb2_def)
  next
    case False
    have len: "8 \<le> len" using Cons.prems False by auto
    define mb3 where "mb3 = drop_bit rem el"
    have d: "(2 :: nat) ^ 64 = 2 ^ (64 - rem) * 2 ^ rem" using Cons.prems by (simp flip: power_add)
    have "unat mb3 = t div 2 ^ 64"
      unfolding mb3_def unat_drop t_def d div_mult2_eq using Cons.prems by simp
    then have split_t: "t = unat mb2 + 2 ^ 64 * unat mb3" by (simp add: mb2)
    have r: "64 - (64 + rem - w) = w - rem" "0 < 64 + rem - w" "64 + rem - w \<le> 64"
      using False Cons.prems by auto
    have "unat mb3 < 2 ^ (w - rem)"
      using el False by (simp add: mb3_def unat_drop less_mult_imp_div_less flip: power_add)
    moreover have "w - rem + w * length els \<le> 8 * (len - 8)" using Cons.prems False len by auto
    ultimately obtain bs mb' len' k where IH: "pack_loop w els mb3 (64 + rem - w) (len - 8) (out @ to_le_bytes mb2) =
        Some ((out @ to_le_bytes mb2) @ bs, mb', len')"
      "length bs + len' = len - 8" "8 * length bs + k = w - rem + w * length els" "k < 64" "unat mb' < 2 ^ k"
      "le_val bs + 2 ^ (8 * length bs) * unat mb' = unat mb3 + 2 ^ (w - rem) * nonces_val w els"
      using Cons.IH [of "64 + rem - w" mb3 "len - 8" "out @ to_le_bytes mb2"] Cons.prems r by auto
    have p: "(2 :: nat) ^ 64 * 2 ^ (w - rem) = 2 ^ (64 - rem) * 2 ^ w"
      unfolding power_add [symmetric] using False Cons.prems by (intro arg_cong [where f = "power 2"]) simp
    have "le_val (to_le_bytes mb2 @ bs) + 2 ^ (8 * length (to_le_bytes mb2 @ bs)) * unat mb' =
        unat mb2 + 2 ^ 64 * (le_val bs + 2 ^ (8 * length bs) * unat mb')"
      by (simp add: le_val_append power_add algebra_simps)
    also have "\<dots> = t + (2 ^ 64 * 2 ^ (w - rem)) * nonces_val w els"
      unfolding IH(6) split_t by (simp only: algebra_simps)
    also have "\<dots> = unat mb + 2 ^ (64 - rem) * nonces_val w (el # els)"
      unfolding p by (simp only: t_def nonces_val.simps algebra_simps)
    finally show ?thesis
      using IH False Cons.prems len
      by (intro exI [of _ "to_le_bytes mb2 @ bs"] exI [of _ mb'] exI [of _ len'] exI [of _ k])
        (auto simp: mb2_def mb3_def)
  qed
qed

lemma pack_bits_val:
  assumes "\<forall>n \<in> set els. unat n < 2 ^ w" "w \<le> 63" "len = (w * length els + 7) div 8"
  shows "\<exists>bs. pack_bits w els len = Some bs \<and> length bs = len \<and> le_val bs = nonces_val w els"
proof -
  have fits: "w * length els \<le> 8 * ((w * length els + 7) div 8)" by linarith
  obtain bs mb len' k where L: "pack_loop w els 0 64 len [] = Some (bs, mb, len')"
    "length bs + len' = len" "8 * length bs + k = w * length els" "k < 64" "unat mb < 2 ^ k"
    "le_val bs + 2 ^ (8 * length bs) * unat mb = nonces_val w els"
    using pack_loop_val [of els w 64 0 len "[]"] assms fits by auto
  have len': "len' = (k + 7) div 8" "len' \<le> 8" using L assms(3) by auto
  have fits': "k \<le> 8 * len'" unfolding len'(1) by linarith
  show ?thesis
  proof (cases "mb = 0")
    case True
    then show ?thesis using L by (simp add: pack_bits_def le_val_append)
  next
    case False
    then have "k \<noteq> 0" using L(5) by (metis less_one power_0 unat_eq_zero)
    then have r: "len' = (if len' mod 8 = 0 then 8 else len' mod 8)" using len' by (cases "len' = 8") auto
    have "unat mb < 256 ^ len'"
      unfolding pow_256 using L(5) power_increasing [of k "8 * len'" "2 :: nat"] fits' by linarith
    then have "le_val (take len' (to_le_bytes mb)) = unat mb"
      using le_val_take_drop [of 0 len' "to_le_bytes mb"] len' by simp
    then have "le_val (bs @ take len' (to_le_bytes mb)) = nonces_val w els"
      using L(6) by (simp add: le_val_append pow_256)
    moreover have "0 < mb" using False by (simp add: word_neq_0_conv)
    ultimately show ?thesis
      using L r len' by (simp add: pack_bits_def Let_def split: if_splits)
  qed
qed

lemma extract_bits_val:
  assumes "read_from + 8 \<le> length bits" "read_from * 8 \<le> s" "s + c \<le> read_from * 8 + 64" "c < 64"
  shows "unat (extract_bits bits s c read_from) = le_val bits div 2 ^ s mod 2 ^ c"
proof -
  define v where "v = le_val bits div 2 ^ (8 * read_from)"
  define k where "k = s - read_from * 8"
  have "unat (from_le_bytes (take 8 (drop read_from bits))) = v mod 2 ^ 64"
    using assms le_val_take_drop [of read_from 8 bits]
    unfolding from_le_bytes_def v_def pow_256 by (simp only: unat_of_nat) simp
  then have "unat (extract_bits bits s c read_from) = v mod 2 ^ 64 div 2 ^ k mod 2 ^ c"
    unfolding extract_bits_def Let_def k_def using assms(4) unat_mask [OF assms(4)] by (simp add: unat_drop)
  also have "\<dots> = v div 2 ^ k mod 2 ^ c"
  proof -
    have "(2 :: nat) ^ 64 = 2 ^ k * (2 ^ c * 2 ^ (64 - k - c))"
      using assms unfolding power_add [symmetric] k_def by (intro arg_cong [where f = "power 2"]) simp
    then have "v mod 2 ^ 64 div 2 ^ k = v div 2 ^ k mod (2 ^ c * 2 ^ (64 - k - c))"
      by (simp only: mod_mult2_eq [of v "2 ^ k"]) simp
    then show ?thesis by (simp add: mod_mod_cancel)
  qed
  also have "v div 2 ^ k = le_val bits div 2 ^ s"
    using assms unfolding v_def div_mult2_eq [symmetric] power_add [symmetric] k_def by (simp add: mult.commute)
  finally show ?thesis .
qed

lemma read_number_val:
  assumes "8 \<le> length bits" "s + c \<le> 8 * length bits" "c < 64"
  shows "unat (read_number bits s c) = le_val bits div 2 ^ s mod 2 ^ c"
proof (cases "c = 0")
  case False
  define rf where "rf = (if length bits < s div 8 + 8 then length bits - 8 else s div 8)"
  have rf: "rf + 8 \<le> length bits" "rf * 8 \<le> s" using assms by (auto simp: rf_def)
  show ?thesis
  proof (cases "s + c \<le> (rf + 8) * 8")
    case True
    then show ?thesis
      using False rf assms extract_bits_val [of rf bits s c] by (simp add: read_number_def Let_def rf_def)
  next
    case over: False
    then have not_moved: "rf = s div 8" "length bits \<noteq> rf + 8"
      using assms rf by (auto simp: rf_def split: if_splits)
    define v where "v = le_val bits div 2 ^ s"
    have s8: "s < rf * 8 + 8" unfolding not_moved(1) by (simp add: dividend_less_div_times)
    then have c: "8 \<le> c" using over by simp
    have lo: "unat (extract_bits bits s 8 rf) = v mod 2 ^ 8"
      unfolding v_def using rf s8 by (intro extract_bits_val) auto
    have "unat (extract_bits bits (s + 8) (c - 8) (rf + 1)) = le_val bits div 2 ^ (s + 8) mod 2 ^ (c - 8)"
      using rf not_moved(2) assms c s8 by (intro extract_bits_val) auto
    then have hi: "unat (extract_bits bits (s + 8) (c - 8) (rf + 1)) = v div 2 ^ 8 mod 2 ^ (c - 8)"
      by (simp add: v_def power_add div_mult2_eq)
    have "read_number bits s c = push_bit 8 (extract_bits bits (s + 8) (c - 8) (rf + 1)) + extract_bits bits s 8 rf"
      using False over by (simp add: read_number_def Let_def rf_def)
    moreover have "v mod 2 ^ c = 2 ^ 8 * (v div 2 ^ 8 mod 2 ^ (c - 8)) + v mod 2 ^ 8"
      unfolding mod_mult2_eq [of v "2 ^ 8" "2 ^ (c - 8)", symmetric] power_add [symmetric] using c by simp
    moreover have "v mod 2 ^ c < 2 ^ 64"
      by (rule less_le_trans [OF mod_less_divisor power_increasing]) (use assms(3) in auto)
    ultimately show ?thesis
      unfolding v_def [symmetric]
      by (simp add: unat_word_ariths unat_push lo hi [unfolded Suc_eq_plus1 [symmetric]] mod_add_left_eq mult.commute)
  qed
qed (simp add: read_number_def)

section \<open>Proofs read back what was written\<close>

text \<open>A proof of the chain's size whose nonces are edges of its graph, wide enough to be read.\<close>

definition pow_proof_valid :: "chain_types \<Rightarrow> pow_proof \<Rightarrow> bool" where
  "pow_proof_valid ct p \<longleftrightarrow> 0 < edge_bits p \<and> edge_bits p \<le> 63 \<and> 8 \<le> pack_len ct (edge_bits p) \<and>
     length (nonces p) = proofsize ct \<and> (\<forall>n \<in> set (nonces p). unat n < 2 ^ unat (edge_bits p))"

lemma unat_edge_bits: "eb \<le> 63 \<Longrightarrow> unat (eb :: u8) \<le> 63"
  by (simp add: word_le_nat_alt)

lemma pack_nonces_val:
  assumes "pow_proof_valid ct p"
  obtains bs where "pack_nonces ct p = Some bs" "length bs = pack_len ct (edge_bits p)"
    "le_val bs = nonces_val (unat (edge_bits p)) (nonces p)"
  using assms pack_bits_val [of "nonces p" "unat (edge_bits p)" "pack_len ct (edge_bits p)"]
    unat_edge_bits [of "edge_bits p"]
  by (auto simp: pow_proof_valid_def pack_nonces_def pack_len_def)

lemma pack_nonces_eqI:
  assumes "pow_proof_valid ct p" "length bs = pack_len ct (edge_bits p)"
    "le_val bs = nonces_val (unat (edge_bits p)) (nonces p)"
  shows "pack_nonces ct p = Some bs"
  using pack_nonces_val [OF assms(1)] assms(2,3) by (metis le_val_inj)

text \<open>Where a proof's data ends within its packed bytes.\<close>

lemma pack_len_bits:
  "proofsize ct * unat eb \<le> pack_len ct eb * 8" "pack_len ct eb * 8 - proofsize ct * unat eb < 8"
  unfolding pack_len_def mult.commute [of "proofsize ct"] by linarith+

lemma proofsize_le: "proofsize ct \<le> 42"
  by (cases ct) (simp_all add: proofsize_def proofsize_const_def automated_testing_proof_size_def
      user_testing_proof_size_def)

lemma pack_len_le:
  assumes "unat eb \<le> 63" "proofsize ct \<le> 42"
  shows "pack_len ct eb \<le> max_read_size"
proof -
  have "unat eb * proofsize ct \<le> 63 * 42" using assms by (rule mult_le_mono)
  then show ?thesis by (simp add: pack_len_def max_read_size_def)
qed

lemma read_nonces:
  assumes "8 \<le> length bits" "length bits = pack_len ct eb" "eb \<le> 63"
  shows "map (\<lambda>n. read_number bits (n * unat eb) (unat eb)) [0..<proofsize ct] =
    map (\<lambda>i. of_nat (le_val bits div 2 ^ (i * unat eb) mod 2 ^ unat eb)) [0..<proofsize ct]"
proof (rule map_cong [OF refl])
  fix n
  assume "n \<in> set [0..<proofsize ct]"
  then have "Suc n * unat eb \<le> proofsize ct * unat eb" by (intro mult_le_mono1) simp
  then have "n * unat eb + unat eb \<le> 8 * length bits" using assms(2) pack_len_bits(1) [of ct eb] by simp
  then have "unat (read_number bits (n * unat eb) (unat eb)) = le_val bits div 2 ^ (n * unat eb) mod 2 ^ unat eb"
    using assms(1) unat_edge_bits [OF assms(3)] by (intro read_number_val) auto
  then show "read_number bits (n * unat eb) (unat eb) = of_nat (le_val bits div 2 ^ (n * unat eb) mod 2 ^ unat eb)"
    by (metis of_nat_unat ucast_id)
qed

lemma read_padding:
  assumes "8 \<le> length bits" "length bits = pack_len ct eb"
  shows "read_number bits (proofsize ct * unat eb) (pack_len ct eb * 8 - proofsize ct * unat eb) = 0 \<longleftrightarrow>
    le_val bits < 2 ^ (proofsize ct * unat eb)"
proof -
  let ?e = "proofsize ct * unat eb" and ?p = "pack_len ct eb * 8 - proofsize ct * unat eb"
  have "le_val bits < 2 ^ (?e + ?p)"
    using le_val_less [of bits] assms pack_len_bits(1) [of ct eb] by (simp add: pow_256 mult.commute)
  then have "le_val bits div 2 ^ ?e < 2 ^ ?p"
    by (simp add: less_mult_imp_div_less power_add mult.commute)
  then have "unat (read_number bits ?e ?p) = le_val bits div 2 ^ ?e"
    using assms pack_len_bits [of ct eb] by (subst read_number_val) auto
  then show ?thesis by (metis div_eq_0_iff nat_zero_less_power_iff neq0_conv unat_eq_zero zero_less_numeral)
qed

lemma proof_write_full: "wr_mode c \<noteq> SerHash \<Longrightarrow>
    proof_write ct c p = Inr (edge_bits p # the (pack_nonces ct p))"
  by (simp add: proof_write_def write_u8_def write_fixed_bytes_def)

lemma map_of_nat_digits:
  assumes "pow_proof_valid ct p"
  shows "map (\<lambda>i. of_nat (nonces_val (unat (edge_bits p)) (nonces p) div 2 ^ (i * unat (edge_bits p))
    mod 2 ^ unat (edge_bits p))) [0..<proofsize ct] = nonces p"
  using assms by (intro nth_equalityI) (auto simp: pow_proof_valid_def nonces_val_nth)

lemma proof_read_back:
  assumes "pow_proof_valid ct p" "reads v r" "upcoming (edge_bits p # the (pack_nonces ct p)) r"
  shows "proof_read ct r = Inr (p, advance (Suc (pack_len ct (edge_bits p))) r)"
proof -
  obtain bs where bs: "pack_nonces ct p = Some bs" "length bs = pack_len ct (edge_bits p)"
    "le_val bs = nonces_val (unat (edge_bits p)) (nonces p)"
    using pack_nonces_val [OF assms(1)] .
  have eb: "edge_bits p \<noteq> 0" "edge_bits p \<le> 63" "8 \<le> length bs"
    using assms(1) bs(2) by (auto simp: pow_proof_valid_def)
  have "upcoming (write_u8 (edge_bits p) @ bs) r"
    using assms(3) bs(1) by (simp add: write_u8_def write_fixed_bytes_def)
  then have up: "upcoming (write_u8 (edge_bits p)) r" "upcoming bs (advance 1 r)"
    by (simp_all add: upcoming_append)
  have small: "pack_len ct (edge_bits p) \<le> max_read_size"
    using unat_edge_bits [OF eb(2)] proofsize_le [of ct] by (rule pack_len_le)
  have "le_val bs < 2 ^ (proofsize ct * unat (edge_bits p))"
    using nonces_val_less [of "nonces p" "unat (edge_bits p)"] assms(1) bs(3)
    by (simp add: pow_proof_valid_def mult.commute)
  then have pad: "read_number bs (proofsize ct * unat (edge_bits p))
      (pack_len ct (edge_bits p) * 8 - proofsize ct * unat (edge_bits p)) = 0"
    using read_padding [of bs ct "edge_bits p"] eb(3) bs(2) by simp
  show ?thesis
    using up eb small bs(2) assms(2) pad read_nonces [of bs ct "edge_bits p"] map_of_nat_digits [OF assms(1)] bs(3)
    by (simp add: proof_read_def read_upcoming Let_def reads_def not_less)
qed

lemma read_u8_mode: "read_u8 r = Inr (n, r') \<Longrightarrow> rd_mode r' = rd_mode r"
  by (auto simp: read_u8_def rbind_Inr_iff read_int_bytes_eq split: if_splits)

lemma proof_codec: "codec (proof_write ct) (proof_read ct) (\<lambda>_. pow_proof_valid ct)"
proof (rule codec_upcomingI [where enc = "\<lambda>_ p. edge_bits p # the (pack_nonces ct p)"])
  fix v x r
  assume a: "pow_proof_valid ct x" "reads v r" "upcoming (edge_bits x # the (pack_nonces ct x)) r"
  obtain bs where "pack_nonces ct x = Some bs" "length bs = pack_len ct (edge_bits x)"
    using pack_nonces_val [OF a(1)] .
  then show "proof_read ct r = Inr (x, advance (length (edge_bits x # the (pack_nonces ct x))) r)"
    using proof_read_back [OF a] by simp
qed (simp add: proof_write_full)

text \<open>Conversely the bytes of a proof are determined by the proof read from them.\<close>

lemma proof_read_canonical:
  assumes "proof_read ct r = Inr (p, r')" "rd_mode r = DeserFull"
  shows "pow_proof_valid ct p \<and> rd_input r = edge_bits p # the (pack_nonces ct p) @ rd_input r'"
proof -
  obtain r1 bits where rd: "read_u8 r = Inr (edge_bits p, r1)" "edge_bits p \<noteq> 0" "edge_bits p \<le> 63"
    "8 \<le> pack_len ct (edge_bits p)" "read_fixed_bytes (pack_len ct (edge_bits p)) r1 = Inr (bits, r')"
    "nonces p = map (\<lambda>n. read_number bits (n * unat (edge_bits p)) (unat (edge_bits p))) [0..<proofsize ct]"
    "read_number bits (proofsize ct * unat (edge_bits p))
       (pack_len ct (edge_bits p) * 8 - proofsize ct * unat (edge_bits p)) = 0"
    using assms read_u8_mode [of r]
    by (auto simp: proof_read_def rbind_Inr_iff Let_def not_less split: if_splits)
  have bits: "length bits = pack_len ct (edge_bits p)" "rd_input r1 = bits @ rd_input r'"
    using rd(5) by (auto simp: read_fixed_bytes_eq read_int_bytes_eq split: if_splits)
  define w where "w = unat (edge_bits p)"
  have w: "w \<le> 63" using unat_edge_bits [OF rd(3)] by (simp add: w_def)
  have ns: "nonces p = map (\<lambda>i. of_nat (le_val bits div 2 ^ (i * w) mod 2 ^ w)) [0..<proofsize ct]"
    using read_nonces [of bits ct "edge_bits p"] rd(3,4,6) bits(1) by (simp add: w_def)
  have "le_val bits < 2 ^ (proofsize ct * w)"
    using read_padding [of bits ct "edge_bits p"] rd(4,7) bits(1) by (simp add: w_def)
  then have val: "nonces_val w (nonces p) = le_val bits" using nonces_val_digits [OF w] by (simp add: ns)
  have valid: "pow_proof_valid ct p"
    using rd(2-4) ns w by (auto simp: pow_proof_valid_def w_def [symmetric] unat_digit word_neq_0_conv)
  obtain bs where bs: "pack_nonces ct p = Some bs" "length bs = length bits" "le_val bs = le_val bits"
    using pack_nonces_val [OF valid] val bits(1) by (metis w_def)
  then have "bs = bits" by (intro le_val_inj)
  then show ?thesis
    using bs(1) bits(2) valid read_ints_consumed(1) [OF rd(1)] by (simp add: write_u8_def write_fixed_bytes_def)
qed

text \<open>The proof of work is the proof behind its difficulty, scaling factor and nonce.\<close>

definition pow_valid :: "chain_types \<Rightarrow> proof_of_work \<Rightarrow> bool" where
  "pow_valid ct p \<longleftrightarrow> pow_proof_valid ct (proof_of p)"

lemma pow_codec: "codec (pow_write ct) (pow_read ct) (\<lambda>_. pow_valid ct)"
proof (rule codec_upcomingI [where enc = "\<lambda>_ p. write_pre_pow p @ write_u64 (pow_nonce p) @
    edge_bits (proof_of p) # the (pack_nonces ct (proof_of p))"])
  fix v r and x :: proof_of_work
  let ?b = "edge_bits (proof_of x) # the (pack_nonces ct (proof_of x))"
  assume a: "pow_valid ct x" "reads v r" "upcoming (write_pre_pow x @ write_u64 (pow_nonce x) @ ?b) r"
  obtain bs where bs: "pack_nonces ct (proof_of x) = Some bs" "length bs = pack_len ct (edge_bits (proof_of x))"
    using pack_nonces_val a(1) unfolding pow_valid_def by blast
  have up: "upcoming (write_u64 (to_num (total_difficulty x))) r" "upcoming (write_u32 (secondary_scaling x)) (advance 8 r)"
    "upcoming (write_u64 (pow_nonce x)) (advance 12 r)" "upcoming ?b (advance 20 r)"
    using a(3) by (simp_all add: write_pre_pow_def upcoming_append)
  show "pow_read ct r = Inr (x, advance (length (write_pre_pow x @ write_u64 (pow_nonce x) @ ?b)) r)"
    using up a(1,2) bs proof_read_back [of ct "proof_of x" v "advance 20 r"]
    by (simp add: pow_read_def difficulty_read_def read_upcoming pow_valid_def write_pre_pow_def)
qed (simp add: pow_write_def proof_write_full)

interpretation pow: codec "pow_write ct" "pow_read ct" "\<lambda>_. pow_valid ct" for ct
  by (rule pow_codec)

section \<open>Difficulty\<close>

lemma hash_to_u64_pos: "0 < unat (max 1 (n :: u64))"
  by (auto simp: max_def word_less_nat_alt word_le_nat_alt split: if_splits)

text \<open>Dividing by the hash is a threshold on the hash: the work is at least \<open>d\<close> exactly when
  \<open>hash * d \<le> scale * 2^64\<close>.\<close>

lemma scaled_difficulty_threshold:
  "d \<le> scaled_difficulty blake2b ct p scale \<longleftrightarrow>
   unat d * unat (max 1 (hash_to_u64 (proof_hash blake2b ct p))) \<le> unat scale * 2 ^ 64"
proof -
  define h where "h = unat (max 1 (hash_to_u64 (proof_hash blake2b ct p)))"
  have h: "0 < h" by (simp add: h_def hash_to_u64_pos)
  have "unat (scaled_difficulty blake2b ct p scale) = min (unat scale * 2 ^ 64 div h) (2 ^ 64 - 1)"
    unfolding scaled_difficulty_def Let_def h_def [symmetric] by (simp only: unat_of_nat) (simp add: min_def)
  moreover have "unat d \<le> 2 ^ 64 - 1" using unat_less_pow [of d] by simp
  ultimately have "d \<le> scaled_difficulty blake2b ct p scale \<longleftrightarrow> unat d \<le> unat scale * 2 ^ 64 div h"
    by (simp add: word_le_nat_alt)
  also have "\<dots> \<longleftrightarrow> unat d * h \<le> unat scale * 2 ^ 64" using h by (simp add: less_eq_div_iff_mult_less_eq)
  finally show ?thesis by (simp add: h_def)
qed

section \<open>Properties\<close>

text \<open>C40: Packed proofs are exact and not malleable. Reading answers a proof \<open>p\<close> if and only if \<open>p\<close> has
  the chain's number of nonces, each of them \<open>edge_bits\<close> wide, and the input starts with the edge bits and
  the packed nonces of \<open>p\<close>; packing a proof of this form does not run out of its slice.\<close>

theorem proof_read_iff:
  assumes "rd_mode r = DeserFull"
  shows "(\<exists>r'. proof_read ct r = Inr (p, r')) \<longleftrightarrow>
    pow_proof_valid ct p \<and> (\<exists>bs. pack_nonces ct p = Some bs \<and> upcoming (edge_bits p # bs) r)"
proof (intro iffI; elim exE conjE)
  fix r'
  assume "proof_read ct r = Inr (p, r')"
  from proof_read_canonical [OF this assms]
  show "pow_proof_valid ct p \<and> (\<exists>bs. pack_nonces ct p = Some bs \<and> upcoming (edge_bits p # bs) r)"
    using pack_nonces_val [of ct p] by (metis append_Cons option.sel upcoming_def)
next
  fix bs
  assume "pow_proof_valid ct p" "pack_nonces ct p = Some bs" "upcoming (edge_bits p # bs) r"
  then show "\<exists>r'. proof_read ct r = Inr (p, r')"
    using proof_read_back [of ct p "rd_version r" r] assms by (auto simp: reads_def)
qed

definition demo_pow_proof :: pow_proof where
  "demo_pow_proof = \<lparr> edge_bits = 10, nonces = [3, 5, 9, 100, 200, 300, 400, 1023] \<rparr>"

lemma demo_proof_packed:
  "pack_nonces AutomatedTesting demo_pow_proof = Some [3, 20, 144, 0, 25, 200, 176, 4, 217, 255]"
  by (rule pack_nonces_eqI) (simp_all add: pow_proof_valid_def demo_pow_proof_def proofsize_def pack_len_def
      automated_testing_proof_size_def)

theorem proof_read_iff_witness:
  "\<exists>r'. proof_read AutomatedTesting (bin_new [10, 3, 20, 144, 0, 25, 200, 176, 4, 217, 255, 7] 1 DeserFull) = Inr (demo_pow_proof, r')"
proof (rule proof_read_iff [THEN iffD2])
  show "pow_proof_valid AutomatedTesting demo_pow_proof \<and> (\<exists>bs. pack_nonces AutomatedTesting demo_pow_proof = Some bs \<and>
      upcoming (edge_bits demo_pow_proof # bs) (bin_new [10, 3, 20, 144, 0, 25, 200, 176, 4, 217, 255, 7] 1 DeserFull))"
    unfolding demo_proof_packed
    by (simp add: pow_proof_valid_def upcoming_def bin_new_def demo_pow_proof_def proofsize_def pack_len_def
        automated_testing_proof_size_def)
qed (simp add: bin_new_def)

text \<open>The difficulty a proof of work achieves is a threshold on the hash of its packed nonces: it
  reaches \<open>d > 1\<close> exactly when the leading 64 bits of the hash (at least 1) times \<open>d\<close> are at most the scale times
  \<open>2^64\<close>, where the scale is the header's own factor for the secondary proof of work and the weight of
  the graph otherwise. No step of the computation overflows.\<close>

theorem to_difficulty_threshold:
  "d \<le> to_num (to_difficulty blake2b ct p height) \<longleftrightarrow>
   d \<le> 1 \<or> unat d * unat (max 1 (hash_to_u64 (proof_hash blake2b ct (proof_of p)))) \<le>
     2 ^ 64 * unat (if edge_bits (proof_of p) = second_pow_edge_bits then ucast (secondary_scaling p)
       else graph_weight ct height (edge_bits (proof_of p)))"
  by (simp add: to_difficulty_def from_proof_scaled_def from_proof_adjusted_def from_num_def
      le_max_iff_disj disj_commute scaled_difficulty_threshold mult.commute)

end
