(* ===== verification/Cuckoo.thy ===== *)
theory Cuckoo
  imports Pow_Types "HOL-Library.While_Combinator"
begin

unbundle bit_operations_syntax

text \<open>
  The Cuckoo Cycle family (\<open>core/src/pow/\<close>: \<open>siphash.rs\<close>, \<open>common.rs\<close>, \<open>cuckatoo.rs\<close>, \<open>cuckaroo.rs\<close>,
  \<open>cuckarood.rs\<close>, \<open>cuckaroom.rs\<close>, \<open>cuckarooz.rs\<close> and \<open>create_pow_context\<close> of \<open>global.rs\<close>): the hash that
  defines the graph, the five verifiers of a cycle, and the solver of Cuckatoo.

  A verifier is a program over arrays: it chains the endpoints of the proof's edges into buckets through
  \<open>head\<close> and \<open>prev\<close>, then follows the cycle through them. The arrays are lists here and the loops whose
  end is not evident from the source are \<open>partial_function\<close>s: \<open>None\<close> is a run that does not end. Endpoint
  \<open>2 * n\<close> is the first and \<open>2 * n + 1\<close> the second endpoint of edge \<open>n\<close>.
\<close>

datatype pow_error =
    Verification string | IOError | EdgeAddition | Path | InvalidCycle nat | NoCycle | NoSolution

section \<open>Siphash\<close>

type_synonym sip_keys = "u64 \<times> u64 \<times> u64 \<times> u64"

definition rotate_left :: "nat \<Rightarrow> u64 \<Rightarrow> u64" where
  "rotate_left n w = push_bit n w OR drop_bit (64 - n) w"

definition sip_round :: "nat \<Rightarrow> sip_keys \<Rightarrow> sip_keys" where
  "sip_round rot_e v =
     (let (v0, v1, v2, v3) = v;
          v0 = v0 + v1;
          v2 = v2 + v3;
          v1 = rotate_left 13 v1;
          v3 = rotate_left 16 v3;
          v1 = v1 XOR v0;
          v3 = v3 XOR v2;
          v0 = rotate_left 32 v0;
          v2 = v2 + v1;
          v0 = v0 + v3;
          v1 = rotate_left 17 v1;
          v3 = rotate_left rot_e v3;
          v1 = v1 XOR v2;
          v3 = v3 XOR v0;
          v2 = rotate_left 32 v2
      in (v0, v1, v2, v3))"

definition sip_hash :: "u64 \<Rightarrow> nat \<Rightarrow> sip_keys \<Rightarrow> sip_keys" where
  "sip_hash nonce rot_e v =
     (let (v0, v1, v2, v3) = v;
          (v0, v1, v2, v3) = sip_round rot_e (sip_round rot_e (v0, v1, v2, v3 XOR nonce))
      in (sip_round rot_e ^^ 4) (v0 XOR nonce, v1, v2 XOR 0xff, v3))"

definition sip_digest :: "sip_keys \<Rightarrow> u64" where
  "sip_digest v = (let (v0, v1, v2, v3) = v in (v0 XOR v1) XOR (v2 XOR v3))"

definition siphash24 :: "sip_keys \<Rightarrow> u64 \<Rightarrow> u64" where
  "siphash24 v nonce = sip_digest (sip_hash nonce 21 v)"

definition siphash_block_size :: nat where "siphash_block_size = 64"
definition siphash_block_mask :: u64 where "siphash_block_mask = 63"

fun block_hashes :: "sip_keys \<Rightarrow> u64 \<Rightarrow> nat \<Rightarrow> nat \<Rightarrow> u64 list" where
  "block_hashes v nonce rot_e 0 = []"
| "block_hashes v nonce rot_e (Suc n) =
     (let v = sip_hash nonce rot_e v in sip_digest v # block_hashes v (nonce + 1) rot_e n)"

definition siphash_block :: "sip_keys \<Rightarrow> u64 \<Rightarrow> nat \<Rightarrow> bool \<Rightarrow> u64" where
  "siphash_block v nonce rot_e xor_all =
     (let nonce0 = nonce AND NOT siphash_block_mask;
          nonce_i = unat (nonce AND siphash_block_mask);
          nonce_hash = block_hashes v nonce0 rot_e siphash_block_size;
          xor_from = (if xor_all \<or> nonce_i = unat siphash_block_mask then nonce_i + 1 else unat siphash_block_mask)
      in foldl (\<lambda>x i. x XOR nonce_hash ! i) (nonce_hash ! nonce_i) [xor_from..<siphash_block_size])"

section \<open>Parameters\<close>

record cuckoo_params =
  proof_size :: nat
  num_edges :: u64
  siphash_keys :: sip_keys
  edge_mask :: u64
  node_mask :: u64

definition create_siphash_keys :: "(bytes \<Rightarrow> hash) \<Rightarrow> bytes \<Rightarrow> sip_keys" where
  "create_siphash_keys blake2b header =
     (let h = blake2b header
      in (from_le_bytes (take 8 h), from_le_bytes (take 8 (drop 8 h)),
          from_le_bytes (take 8 (drop 16 h)), from_le_bytes (take 8 (drop 24 h))))"

definition set_header_nonce :: "(bytes \<Rightarrow> hash) \<Rightarrow> bytes \<Rightarrow> u32 option \<Rightarrow> sip_keys" where
  "set_header_nonce blake2b header nonce =
     (case nonce of
        Some n \<Rightarrow> create_siphash_keys blake2b (take (length header - 4) header @ rev (write_u32 n))
      | None \<Rightarrow> create_siphash_keys blake2b header)"

text \<open>A shift by a \<open>u8\<close> count takes the count modulo the width.\<close>

definition params_new :: "u8 \<Rightarrow> u8 \<Rightarrow> nat \<Rightarrow> cuckoo_params" where
  "params_new ebits nbits proof_sz =
     (let num_edges = push_bit (unat ebits mod 64) 1; num_nodes = push_bit (unat nbits mod 64) 1
      in \<lparr> proof_size = proof_sz, num_edges = num_edges, siphash_keys = (0, 0, 0, 0),
           edge_mask = num_edges - 1, node_mask = num_nodes - 1 \<rparr>)"

definition reset_header_nonce :: "(bytes \<Rightarrow> hash) \<Rightarrow> bytes \<Rightarrow> u32 option \<Rightarrow> cuckoo_params \<Rightarrow> cuckoo_params" where
  "reset_header_nonce blake2b header nonce p = p \<lparr> siphash_keys := set_header_nonce blake2b header nonce \<rparr>"

definition sipnode :: "cuckoo_params \<Rightarrow> u64 \<Rightarrow> u64 \<Rightarrow> u64" where
  "sipnode p edge uorv = siphash24 (siphash_keys p) (2 * edge + uorv) AND node_mask p"

section \<open>The pieces the verifiers share\<close>

text \<open>\<open>u64::MAX >> size.leading_zeros()\<close>: all ones, as long as \<open>size\<close> is in binary.\<close>

definition size_mask :: "nat \<Rightarrow> u64" where
  "size_mask sz = drop_bit (64 - bit_len sz) (- 1)"

definition bucket :: "u64 \<Rightarrow> u64 \<Rightarrow> nat" where
  "bucket msk node = unat (node AND msk)"

text \<open>Put endpoint \<open>k\<close> in front of bucket \<open>b\<close>.\<close>

definition link :: "nat \<Rightarrow> nat \<Rightarrow> nat list \<times> nat list \<Rightarrow> nat list \<times> nat list" where
  "link k b = (\<lambda>(head, prev). (head[b := k], prev[k := head ! b]))"

definition check_nonce :: "u64 \<Rightarrow> u64 list \<Rightarrow> nat \<Rightarrow> pow_error + unit" where
  "check_nonce emask ns n =
     (if emask < ns ! n then Inl (Verification ''edge too big'')
      else if 0 < n \<and> ns ! n \<le> ns ! (n - 1) then Inl (Verification ''edges not ascending'')
      else Inr ())"

text \<open>The inner loop: look through the bucket of \<open>i\<close> for the other endpoint at its node.\<close>

partial_function (option) scan ::
    "(nat \<Rightarrow> bool) \<Rightarrow> nat list \<Rightarrow> nat \<Rightarrow> nat \<Rightarrow> nat \<Rightarrow> (pow_error + nat) option" where
  "scan same prev i j k =
     (let k = prev ! k
      in if k = i then Some (Inr j)
         else if same k
         then (if j \<noteq> i then Some (Inl (Verification ''branch in cycle'')) else scan same prev i k k)
         else scan same prev i j k)"

text \<open>The outer loop: \<open>step\<close> finds the endpoint that the walk leaves from next.\<close>

partial_function (option) follow :: "(nat \<Rightarrow> (pow_error + nat) option) \<Rightarrow> nat \<Rightarrow> nat \<Rightarrow> (pow_error + nat) option" where
  "follow step n i =
     (case step i of
        None \<Rightarrow> None
      | Some (Inl e) \<Rightarrow> Some (Inl e)
      | Some (Inr i') \<Rightarrow> if i' = 0 then Some (Inr (n + 1)) else follow step (n + 1) i')"

definition follow_cycle :: "(nat \<Rightarrow> (pow_error + nat) option) \<Rightarrow> nat \<Rightarrow> (pow_error + unit) option" where
  "follow_cycle step sz =
     (case follow step 0 0 of
        None \<Rightarrow> None
      | Some (Inl e) \<Rightarrow> Some (Inl e)
      | Some (Inr n) \<Rightarrow> Some (if n = sz then Inr () else Inl (Verification ''cycle too short'')))"

definition match_step :: "(u64 \<Rightarrow> u64) \<Rightarrow> (u64 \<Rightarrow> u64 \<Rightarrow> bool) \<Rightarrow> u64 list \<Rightarrow> nat list \<Rightarrow> nat \<Rightarrow> (pow_error + nat) option" where
  "match_step part joined uvs prev i =
     (case scan (\<lambda>k. part (uvs ! k) = part (uvs ! i)) prev i i i of
        None \<Rightarrow> None
      | Some (Inl e) \<Rightarrow> Some (Inl e)
      | Some (Inr j) \<Rightarrow>
          Some (if j = i \<or> \<not> joined (uvs ! i) (uvs ! j) then Inl (Verification ''cycle dead ends'')
                else Inr (j XOR 1)))"

section \<open>Cuckatoo and Cuckaroo: bipartite graphs\<close>

record lists =
  uvs :: "u64 list"
  headu :: "nat list"
  headv :: "nat list"
  prev :: "nat list"
  xor0 :: u64
  xor1 :: u64

definition lists_new :: "nat \<Rightarrow> u64 \<Rightarrow> u64 \<Rightarrow> lists" where
  "lists_new sz msk x =
     \<lparr> uvs = replicate (2 * sz) 0, headu = replicate (1 + unat msk) (2 * sz), headv = replicate (1 + unat msk) (2 * sz),
       prev = replicate (2 * sz) 0, xor0 = x, xor1 = x \<rparr>"

definition load_edge :: "(u64 \<Rightarrow> u64 \<times> u64) \<Rightarrow> (u64 \<Rightarrow> u64) \<Rightarrow> u64 \<Rightarrow> u64 \<Rightarrow> u64 list \<Rightarrow> nat \<Rightarrow> lists \<Rightarrow> pow_error + lists" where
  "load_edge endpoints part msk emask ns n l =
     rbind (check_nonce emask ns n) (\<lambda>_.
       let (u, v) = endpoints (ns ! n);
           (hu, pr) = link (2 * n) (bucket msk (part u)) (headu l, prev l);
           (hv, pr) = link (2 * n + 1) (bucket msk (part v)) (headv l, pr)
       in Inr \<lparr> uvs = (uvs l)[2 * n := u, 2 * n + 1 := v], headu = hu, headv = hv, prev = pr,
            xor0 = xor0 l XOR u, xor1 = xor1 l XOR v \<rparr>)"

definition close_ring :: "(u64 \<Rightarrow> u64) \<Rightarrow> u64 \<Rightarrow> nat \<Rightarrow> lists \<Rightarrow> nat \<Rightarrow> nat list \<Rightarrow> nat list" where
  "close_ring part msk sz l n pr =
     (let pr = (if pr ! (2 * n) = 2 * sz then pr[2 * n := headu l ! bucket msk (part (uvs l ! (2 * n)))] else pr)
      in if pr ! (2 * n + 1) = 2 * sz
         then pr[2 * n + 1 := headv l ! bucket msk (part (uvs l ! (2 * n + 1)))] else pr)"

definition bipartite_verify ::
    "(u64 \<Rightarrow> u64 \<times> u64) \<Rightarrow> (u64 \<Rightarrow> u64) \<Rightarrow> (u64 \<Rightarrow> u64 \<Rightarrow> bool) \<Rightarrow> u64 \<Rightarrow> u64 \<Rightarrow> nat \<Rightarrow> u64 list \<Rightarrow> (pow_error + unit) option" where
  "bipartite_verify endpoints part joined x0 emask sz ns =
     (if length ns \<noteq> sz then Some (Inl (Verification ''wrong cycle length''))
      else let msk = size_mask sz
           in case try_fold (load_edge endpoints part msk emask ns) [0..<sz] (lists_new sz msk x0) of
                Inl e \<Rightarrow> Some (Inl e)
              | Inr l \<Rightarrow>
                  (if xor0 l OR xor1 l \<noteq> 0 then Some (Inl (Verification ''endpoints don't match up''))
                   else let pr = fold (close_ring part msk sz l) [0..<sz] (prev l)
                        in follow_cycle (match_step part joined (uvs l) pr) sz))"

definition cuckatoo_verify :: "chain_types \<Rightarrow> cuckoo_params \<Rightarrow> pow_proof \<Rightarrow> (pow_error + unit) option" where
  "cuckatoo_verify ct p pf =
     bipartite_verify (\<lambda>e. (sipnode p e 0, sipnode p e 1)) (drop_bit 1) (\<noteq>)
       (of_nat (proofsize ct) div 2 AND 1) (edge_mask p) (proofsize ct) (nonces pf)"

definition cuckaroo_endpoints :: "nat \<Rightarrow> bool \<Rightarrow> cuckoo_params \<Rightarrow> u64 \<Rightarrow> u64 \<times> u64" where
  "cuckaroo_endpoints rot_e xor_all p nonce =
     (let edge = siphash_block (siphash_keys p) nonce rot_e xor_all
      in (edge AND node_mask p, drop_bit 32 edge AND node_mask p))"

definition cuckaroo_verify :: "chain_types \<Rightarrow> cuckoo_params \<Rightarrow> pow_proof \<Rightarrow> (pow_error + unit) option" where
  "cuckaroo_verify ct p pf =
     bipartite_verify (cuckaroo_endpoints 21 False p) (\<lambda>u. u) (\<lambda>_ _. True) 0 (edge_mask p) (proofsize ct) (nonces pf)"

section \<open>Cuckarood: directed edges in a bipartite graph\<close>

record dir_lists = lists +
  ndir :: "nat list"

definition dir_load_edge :: "(u64 \<Rightarrow> u64 \<times> u64) \<Rightarrow> u64 \<Rightarrow> u64 \<Rightarrow> u64 list \<Rightarrow> nat \<Rightarrow> nat \<Rightarrow> dir_lists \<Rightarrow> pow_error + dir_lists" where
  "dir_load_edge endpoints msk emask ns sz n l =
     (let dir = unat (ns ! n AND 1)
      in if sz div 2 \<le> ndir l ! dir then Inl (Verification ''edges not balanced'')
         else rbind (check_nonce emask ns n) (\<lambda>_.
           let (u, v) = endpoints (ns ! n);
               idx = 4 * (ndir l ! dir) + 2 * dir;
               (hu, pr) = link idx (bucket msk (push_bit 1 u OR of_nat dir)) (headu l, prev l);
               (hv, pr) = link (idx + 1) (bucket msk (push_bit 1 v OR of_nat dir)) (headv l, pr)
           in Inr \<lparr> uvs = (uvs l)[idx := u, idx + 1 := v], headu = hu, headv = hv, prev = pr,
                xor0 = xor0 l XOR u, xor1 = xor1 l XOR v, ndir = (ndir l)[dir := ndir l ! dir + 1] \<rparr>))"

partial_function (option) dir_scan ::
    "u64 list \<Rightarrow> nat list \<Rightarrow> nat \<Rightarrow> nat \<Rightarrow> nat \<Rightarrow> nat \<Rightarrow> (pow_error + nat) option" where
  "dir_scan us pr nil i j k =
     (if k = nil then Some (Inr j)
      else if us ! k = us ! i
      then (if j \<noteq> i then Some (Inl (Verification ''branch in cycle'')) else dir_scan us pr nil i k (pr ! k))
      else dir_scan us pr nil i j (pr ! k))"

definition dir_step :: "u64 \<Rightarrow> nat \<Rightarrow> dir_lists \<Rightarrow> nat \<Rightarrow> (pow_error + nat) option" where
  "dir_step msk sz l i =
     (let k = (if i AND 1 = 0 then headu l ! bucket msk (push_bit 1 (uvs l ! i) OR 1)
               else headv l ! bucket msk (push_bit 1 (uvs l ! i)))
      in case dir_scan (uvs l) (prev l) (2 * sz) i i k of
           None \<Rightarrow> None
         | Some (Inl e) \<Rightarrow> Some (Inl e)
         | Some (Inr j) \<Rightarrow> Some (if j = i then Inl (Verification ''cycle dead ends'') else Inr (j XOR 1)))"

definition directed_verify :: "(u64 \<Rightarrow> u64 \<times> u64) \<Rightarrow> u64 \<Rightarrow> nat \<Rightarrow> u64 list \<Rightarrow> (pow_error + unit) option" where
  "directed_verify endpoints emask sz ns =
     (if length ns \<noteq> sz then Some (Inl (Verification ''wrong cycle length''))
      else let msk = size_mask sz
           in case try_fold (dir_load_edge endpoints msk emask ns sz) [0..<sz]
                     (lists.extend (lists_new sz msk 0) \<lparr> ndir = [0, 0] \<rparr>) of
                Inl e \<Rightarrow> Some (Inl e)
              | Inr l \<Rightarrow>
                  (if xor0 l OR xor1 l \<noteq> 0 then Some (Inl (Verification ''endpoints don't match up''))
                   else follow_cycle (dir_step msk sz l) sz))"

definition cuckarood_verify :: "chain_types \<Rightarrow> cuckoo_params \<Rightarrow> pow_proof \<Rightarrow> (pow_error + unit) option" where
  "cuckarood_verify ct p pf =
     directed_verify (cuckaroo_endpoints 25 False p) (edge_mask p) (proofsize ct) (nonces pf)"

section \<open>Cuckaroom: directed edges in one partition\<close>

record mono_lists =
  from_nodes :: "u64 list"
  to_nodes :: "u64 list"
  mono_head :: "nat list"
  mono_prev :: "nat list"
  xor_from :: u64
  xor_to :: u64

definition mono_load_edge :: "(u64 \<Rightarrow> u64 \<times> u64) \<Rightarrow> u64 \<Rightarrow> u64 \<Rightarrow> u64 list \<Rightarrow> nat \<Rightarrow> mono_lists \<Rightarrow> pow_error + mono_lists" where
  "mono_load_edge endpoints msk emask ns n l =
     rbind (check_nonce emask ns n) (\<lambda>_.
       let (u, v) = endpoints (ns ! n);
           (h, pr) = link n (bucket msk u) (mono_head l, mono_prev l)
       in Inr \<lparr> from_nodes = (from_nodes l)[n := u], to_nodes = (to_nodes l)[n := v], mono_head = h, mono_prev = pr,
            xor_from = xor_from l XOR u, xor_to = xor_to l XOR v \<rparr>)"

partial_function (option) mono_scan :: "(nat \<Rightarrow> bool) \<Rightarrow> nat list \<Rightarrow> nat \<Rightarrow> nat \<Rightarrow> (pow_error + nat) option" where
  "mono_scan same pr sz k =
     (if k = sz then Some (Inl (Verification ''cycle dead ends''))
      else if same k then Some (Inr k)
      else mono_scan same pr sz (pr ! k))"

partial_function (option) mono_follow ::
    "(nat \<Rightarrow> (pow_error + nat) option) \<Rightarrow> bool list \<Rightarrow> nat \<Rightarrow> nat \<Rightarrow> (pow_error + nat) option" where
  "mono_follow step visited n i =
     (if visited ! i then Some (Inl (Verification ''branch in cycle''))
      else case step i of
        None \<Rightarrow> None
      | Some (Inl e) \<Rightarrow> Some (Inl e)
      | Some (Inr k) \<Rightarrow> if k = 0 then Some (Inr (n + 1)) else mono_follow step (visited[i := True]) (n + 1) k)"

definition mono_verify :: "(u64 \<Rightarrow> u64 \<times> u64) \<Rightarrow> u64 \<Rightarrow> nat \<Rightarrow> u64 list \<Rightarrow> (pow_error + unit) option" where
  "mono_verify endpoints emask sz ns =
     (if length ns \<noteq> sz then Some (Inl (Verification ''wrong cycle length''))
      else let msk = size_mask sz
           in case try_fold (mono_load_edge endpoints msk emask ns) [0..<sz]
                     \<lparr> from_nodes = replicate sz 0, to_nodes = replicate sz 0, mono_head = replicate (1 + unat msk) sz,
                       mono_prev = replicate sz 0, xor_from = 0, xor_to = 0 \<rparr> of
                Inl e \<Rightarrow> Some (Inl e)
              | Inr l \<Rightarrow>
                  (if xor_from l \<noteq> xor_to l then Some (Inl (Verification ''endpoints don't match up''))
                   else case mono_follow (\<lambda>i. mono_scan (\<lambda>k. from_nodes l ! k = to_nodes l ! i) (mono_prev l) sz
                              (mono_head l ! bucket msk (to_nodes l ! i))) (replicate sz False) 0 0 of
                     None \<Rightarrow> None
                   | Some (Inl e) \<Rightarrow> Some (Inl e)
                   | Some (Inr n) \<Rightarrow> Some (if n = sz then Inr () else Inl (Verification ''cycle too short''))))"

definition cuckaroom_verify :: "chain_types \<Rightarrow> cuckoo_params \<Rightarrow> pow_proof \<Rightarrow> (pow_error + unit) option" where
  "cuckaroom_verify ct p pf =
     mono_verify (cuckaroo_endpoints 21 True p) (edge_mask p) (proofsize ct) (nonces pf)"

section \<open>Cuckarooz: undirected edges in one partition\<close>

record z_lists =
  z_uvs :: "u64 list"
  z_head :: "nat list"
  z_prev :: "nat list"
  xoruv :: u64

definition z_load_edge :: "(u64 \<Rightarrow> u64 \<times> u64) \<Rightarrow> u64 \<Rightarrow> u64 \<Rightarrow> u64 list \<Rightarrow> nat \<Rightarrow> z_lists \<Rightarrow> pow_error + z_lists" where
  "z_load_edge endpoints msk emask ns n l =
     rbind (check_nonce emask ns n) (\<lambda>_.
       let (u, v) = endpoints (ns ! n);
           (h, pr) = link (2 * n + 1) (bucket msk v) (link (2 * n) (bucket msk u) (z_head l, z_prev l))
       in Inr \<lparr> z_uvs = (z_uvs l)[2 * n := u, 2 * n + 1 := v], z_head = h, z_prev = pr,
            xoruv = xoruv l XOR (u XOR v) \<rparr>)"

definition z_close_ring :: "u64 \<Rightarrow> nat \<Rightarrow> z_lists \<Rightarrow> nat \<Rightarrow> nat list \<Rightarrow> nat list" where
  "z_close_ring msk sz l n pr =
     (if pr ! n = 2 * sz then pr[n := z_head l ! bucket msk (z_uvs l ! n)] else pr)"

definition z_verify :: "(u64 \<Rightarrow> u64 \<times> u64) \<Rightarrow> u64 \<Rightarrow> nat \<Rightarrow> nat \<Rightarrow> u64 list \<Rightarrow> (pow_error + unit) option" where
  "z_verify endpoints emask psize sz ns =
     (if length ns \<noteq> sz then Some (Inl (Verification ''wrong cycle length''))
      else let msk = size_mask sz
           in case try_fold (z_load_edge endpoints msk emask ns) [0..<sz]
                     \<lparr> z_uvs = replicate (2 * sz) 0, z_head = replicate (1 + unat msk) (2 * sz),
                       z_prev = replicate (2 * sz) 0, xoruv = 0 \<rparr> of
                Inl e \<Rightarrow> Some (Inl e)
              | Inr l \<Rightarrow>
                  (if xoruv l \<noteq> 0 then Some (Inl (Verification ''endpoints don't match up''))
                   else let pr = fold (z_close_ring msk sz l) [0..<2 * sz] (z_prev l)
                        in follow_cycle (match_step (\<lambda>u. u) (\<lambda>_ _. True) (z_uvs l) pr) psize))"

definition cuckarooz_verify :: "chain_types \<Rightarrow> cuckoo_params \<Rightarrow> pow_proof \<Rightarrow> (pow_error + unit) option" where
  "cuckarooz_verify ct p pf =
     z_verify (cuckaroo_endpoints 21 True p) (edge_mask p) (proof_size p) (proofsize ct) (nonces pf)"

section \<open>The solver of Cuckatoo\<close>

record adj_link =
  next_link :: u64
  to_node :: u64

record graph =
  max_edges :: u64
  max_nodes :: u64
  links :: "adj_link list"
  adj_list :: "u64 list"
  visited_nodes :: "u32 set"
  max_sols :: u32
  solutions :: "pow_proof list"
  graph_proof_size :: nat

abbreviation graph_nil :: u64 where "graph_nil \<equiv> - 1"

definition graph_new :: "u64 \<Rightarrow> u32 \<Rightarrow> nat \<Rightarrow> pow_error + graph" where
  "graph_new m_edges m_sols proof_sz =
     (if (- 1) div 2 \<le> m_edges then Inl (Verification ''graph is to big to build'')
      else Inr \<lparr> max_edges = m_edges, max_nodes = 2 * m_edges, links = [], adj_list = [], visited_nodes = {},
             max_sols = m_sols, solutions = [], graph_proof_size = proof_sz \<rparr>)"

definition graph_reset :: "chain_types \<Rightarrow> graph \<Rightarrow> graph" where
  "graph_reset ct g = g \<lparr> links := [], adj_list := replicate (unat (2 * max_nodes g)) graph_nil,
     solutions := [proof_zero ct (graph_proof_size g)], visited_nodes := {} \<rparr>"

text \<open>\<open>solutions[last].nonces[i] = n\<close>\<close>

definition set_solution_nonce :: "nat \<Rightarrow> u64 \<Rightarrow> graph \<Rightarrow> graph" where
  "set_solution_nonce i n g =
     (let s = last (solutions g)
      in g \<lparr> solutions := butlast (solutions g) @ [s \<lparr> nonces := (nonces s)[i := n] \<rparr>] \<rparr>)"

text \<open>
  The recursion and its loop over the links of a node in one function: the first argument says which,
  \<open>None\<close> for a call at node \<open>x\<close>, \<open>Some\<close> for the loop at link \<open>x\<close>.
\<close>

partial_function (option) cycles_walk ::
    "chain_types \<Rightarrow> u64 \<Rightarrow> bool \<Rightarrow> nat \<Rightarrow> u64 \<Rightarrow> graph \<Rightarrow> graph option" where
  "cycles_walk ct dest in_loop len x g =
     (if \<not> in_loop then
        (if (ucast (drop_bit 1 x) :: u32) \<in> visited_nodes g then Some g
         else if x XOR 1 = dest \<and> len = graph_proof_size g then
           (if length (solutions g) < unat (max_sols g)
            then Some (g \<lparr> solutions := solutions g @ [proof_zero ct (graph_proof_size g)] \<rparr>)
            else Some g)
         else if x XOR 1 \<noteq> dest \<and> len = graph_proof_size g then Some g
         else let au1 = adj_list g ! unat (x XOR 1)
              in if au1 \<noteq> graph_nil
                 then Option.bind (cycles_walk ct dest True len au1
                          (g \<lparr> visited_nodes := insert (ucast (drop_bit 1 x)) (visited_nodes g) \<rparr>))
                        (\<lambda>g. Some (g \<lparr> visited_nodes := visited_nodes g - {ucast (drop_bit 1 x)} \<rparr>))
                 else Some g)
      else if x = graph_nil then Some g
      else let g = set_solution_nonce len (x div 2) g;
               l = to_node (links g ! unat (x XOR 1))
           in Option.bind (if l \<noteq> graph_nil then cycles_walk ct dest False (len + 1) l g else Some g)
                (\<lambda>g. cycles_walk ct dest True len (next_link (links g ! unat x)) g))"

definition cycles_with_link :: "chain_types \<Rightarrow> nat \<Rightarrow> u64 \<Rightarrow> u64 \<Rightarrow> graph \<Rightarrow> graph option" where
  "cycles_with_link ct len u dest g = cycles_walk ct dest False len u g"

definition add_edge :: "chain_types \<Rightarrow> u64 \<Rightarrow> u64 \<Rightarrow> graph \<Rightarrow> (pow_error + graph) option" where
  "add_edge ct u v g =
     (if max_nodes g \<le> u \<or> max_nodes g \<le> v then Some (Inl EdgeAddition)
      else let v = v + max_nodes g;
               adj_u = adj_list g ! unat (u XOR 1);
               adj_v = adj_list g ! unat (v XOR 1)
           in Option.bind
                (if adj_u \<noteq> graph_nil \<and> adj_v \<noteq> graph_nil
                 then cycles_with_link ct 1 u v (set_solution_nonce 0 (of_nat (length (links g)) div 2) g)
                 else Some g)
                (\<lambda>g. let ulink = of_nat (length (links g)); vlink = of_nat (length (links g) + 1)
                     in if vlink = graph_nil then Some (Inl EdgeAddition)
                        else Some (Inr (g \<lparr>
                          links := links g @ [\<lparr> next_link = adj_list g ! unat u, to_node = u \<rparr>,
                                              \<lparr> next_link = adj_list g ! unat v, to_node = v \<rparr>],
                          adj_list := (adj_list g)[unat u := ulink, unat v := vlink] \<rparr>))))"

fun add_edges :: "chain_types \<Rightarrow> cuckoo_params \<Rightarrow> u64 list \<Rightarrow> graph \<Rightarrow> (pow_error + graph) option" where
  "add_edges ct p [] g = Some (Inr g)"
| "add_edges ct p (n # ns) g =
     (case add_edge ct (sipnode p n 0) (sipnode p n 1) g of
        None \<Rightarrow> None
      | Some (Inl e) \<Rightarrow> Some (Inl e)
      | Some (Inr g) \<Rightarrow> add_edges ct p ns g)"

fun verify_solutions :: "chain_types \<Rightarrow> cuckoo_params \<Rightarrow> pow_proof list \<Rightarrow> (pow_error + unit) option" where
  "verify_solutions ct p [] = Some (Inr ())"
| "verify_solutions ct p (s # ss) =
     (case cuckatoo_verify ct p s of
        None \<Rightarrow> None
      | Some (Inl e) \<Rightarrow> Some (Inl e)
      | Some (Inr _) \<Rightarrow> verify_solutions ct p ss)"

definition find_cycles_iter :: "chain_types \<Rightarrow> cuckoo_params \<Rightarrow> u64 list \<Rightarrow> graph \<Rightarrow> (pow_error + pow_proof list) option" where
  "find_cycles_iter ct p val g =
     (case add_edges ct p val g of
        None \<Rightarrow> None
      | Some (Inl e) \<Rightarrow> Some (Inl e)
      | Some (Inr g) \<Rightarrow>
          (let sols = map (\<lambda>s. s \<lparr> nonces := sort (map (\<lambda>n. val ! unat n) (nonces s)) \<rparr>) (butlast (solutions g))
           in case verify_solutions ct p sols of
                None \<Rightarrow> None
              | Some (Inl e) \<Rightarrow> Some (Inl e)
              | Some (Inr _) \<Rightarrow> Some (if sols = [] then Inl NoSolution else Inr sols)))"

section \<open>Contexts\<close>

datatype pow_ctx =
    CuckatooContext cuckoo_params graph
  | CuckarooContext cuckoo_params
  | CuckaroodContext cuckoo_params
  | CuckaroomContext cuckoo_params
  | CuckaroozContext cuckoo_params

definition new_cuckatoo_ctx :: "u8 \<Rightarrow> nat \<Rightarrow> u32 \<Rightarrow> pow_error + pow_ctx" where
  "new_cuckatoo_ctx eb proof_sz m_sols =
     (let p = params_new eb eb proof_sz
      in rbind (graph_new (num_edges p) m_sols proof_sz) (\<lambda>g. Inr (CuckatooContext p g)))"

definition no_cuckaroo_ctx :: "pow_error + pow_ctx" where
  "no_cuckaroo_ctx = Inl (Verification ''no cuckaroo past HardFork4'')"

definition create_pow_context :: "chain_types \<Rightarrow> u64 \<Rightarrow> u8 \<Rightarrow> nat \<Rightarrow> u32 \<Rightarrow> pow_error + pow_ctx" where
  "create_pow_context ct height eb proof_sz m_sols =
     (if ct = Mainnet \<or> ct = Testnet then
        (if 29 < eb then new_cuckatoo_ctx eb proof_sz m_sols
         else let version = header_version ct height
              in if version = 1 then Inr (CuckarooContext (params_new eb eb proof_sz))
                 else if version = 2 then Inr (CuckaroodContext (params_new eb (eb - 1) proof_sz))
                 else if version = 3 then Inr (CuckaroomContext (params_new eb eb proof_sz))
                 else if version = 4 then Inr (CuckaroozContext (params_new eb (eb + 1) proof_sz))
                 else no_cuckaroo_ctx)
      else new_cuckatoo_ctx eb proof_sz m_sols)"

definition ctx_set_header_nonce :: "(bytes \<Rightarrow> hash) \<Rightarrow> chain_types \<Rightarrow> bytes \<Rightarrow> u32 option \<Rightarrow> bool \<Rightarrow> pow_ctx \<Rightarrow> pow_ctx" where
  "ctx_set_header_nonce blake2b ct header nonce solve ctx =
     (case ctx of
        CuckatooContext p g \<Rightarrow>
          CuckatooContext (reset_header_nonce blake2b header nonce p) (if solve then graph_reset ct g else g)
      | CuckarooContext p \<Rightarrow> CuckarooContext (reset_header_nonce blake2b header nonce p)
      | CuckaroodContext p \<Rightarrow> CuckaroodContext (reset_header_nonce blake2b header nonce p)
      | CuckaroomContext p \<Rightarrow> CuckaroomContext (reset_header_nonce blake2b header nonce p)
      | CuckaroozContext p \<Rightarrow> CuckaroozContext (reset_header_nonce blake2b header nonce p))"

text \<open>\<open>unimplemented!()\<close> does not return: \<open>None\<close>.\<close>

definition ctx_find_cycles :: "chain_types \<Rightarrow> pow_ctx \<Rightarrow> (pow_error + pow_proof list) option" where
  "ctx_find_cycles ct ctx =
     (case ctx of
        CuckatooContext p g \<Rightarrow> find_cycles_iter ct p (map of_nat [0..<unat (num_edges p)]) g
      | _ \<Rightarrow> None)"

definition ctx_verify :: "chain_types \<Rightarrow> pow_ctx \<Rightarrow> pow_proof \<Rightarrow> (pow_error + unit) option" where
  "ctx_verify ct ctx pf =
     (case ctx of
        CuckatooContext p g \<Rightarrow> cuckatoo_verify ct p pf
      | CuckarooContext p \<Rightarrow> cuckaroo_verify ct p pf
      | CuckaroodContext p \<Rightarrow> cuckarood_verify ct p pf
      | CuckaroomContext p \<Rightarrow> cuckaroom_verify ct p pf
      | CuckaroozContext p \<Rightarrow> cuckarooz_verify ct p pf)"

text \<open>The loops are executable.\<close>

lemmas [code] = scan.simps follow.simps dir_scan.simps mono_scan.simps mono_follow.simps cycles_walk.simps

end
