(* ===== verification/Cuckoo_Cycle.thy ===== *)
theory Cuckoo_Cycle
  imports Cuckoo
begin

unbundle bit_operations_syntax

text \<open>
  What the Cuckoo verifiers accept. The first part is about walks: endpoints are paired up by a partial
  involution, and a walk that crosses an edge and then changes to the partner endpoint is injective, so
  it comes back to where it started without using an edge twice. The second part is about the linked lists
  of the verifiers: chained buckets, closed to rings, enumerate the endpoints of a bucket once each, so the
  inner loop ends and finds the partner. Together: the verifiers end, and accept exactly the proofs
  whose edges form one cycle.
\<close>

section \<open>Walks along paired endpoints\<close>

text \<open>The other endpoint of the same edge.\<close>

definition opp :: "nat \<Rightarrow> nat" where
  "opp i = (if even i then i + 1 else i - 1)"

lemma xor_one_opp: "i XOR Suc 0 = opp i"
  by (simp add: xor_Suc_0_eq opp_def)

lemma opp_simps [simp]: "opp (opp i) = i" "opp i \<noteq> i" "opp i div 2 = i div 2"
  by (auto simp: opp_def elim!: oddE evenE)

lemma opp_eq_iff [simp]: "opp a = opp b \<longleftrightarrow> a = b"
  by (metis opp_simps(1))

lemma opp_swap: "opp a = b \<longleftrightarrow> a = opp b"
  by (metis opp_simps(1))

lemma opp_less [simp]: "opp i < 2 * m \<longleftrightarrow> i < 2 * m"
  by (auto simp: opp_def elim!: oddE evenE)

lemma same_edge: "a div 2 = b div 2 \<longleftrightarrow> a = b \<or> a = opp b"
  by (auto simp: opp_def elim!: oddE evenE)

locale pairing =
  fixes mate :: "nat \<Rightarrow> nat option" and sz :: nat
  assumes mate_bound: "\<And>i j. i < 2 * sz \<Longrightarrow> mate i = Some j \<Longrightarrow> j < 2 * sz"
    and mate_other: "\<And>i j. i < 2 * sz \<Longrightarrow> mate i = Some j \<Longrightarrow> j \<noteq> i"
    and mate_sym: "\<And>i j. i < 2 * sz \<Longrightarrow> mate i = Some j \<Longrightarrow> mate j = Some i"
begin

definition hop :: "nat \<Rightarrow> nat option" where
  "hop i = map_option opp (mate i)"

text \<open>\<open>way xs\<close>: the endpoints \<open>xs\<close> are left from one after the other.\<close>

definition way :: "nat list \<Rightarrow> bool" where
  "way xs \<longleftrightarrow> set xs \<subseteq> {..<2 * sz} \<and> (\<forall>t. Suc t < length xs \<longrightarrow> hop (xs ! t) = Some (xs ! Suc t))"

lemma hop_iff: "hop i = Some i' \<longleftrightarrow> mate i = Some (opp i')"
  by (auto simp: hop_def opp_swap)

lemma hop_bound: "i < 2 * sz \<Longrightarrow> hop i = Some i' \<Longrightarrow> i' < 2 * sz"
  using mate_bound [of i "opp i'"] by (simp add: hop_iff)

lemma hop_inj:
  assumes "a < 2 * sz" "b < 2 * sz" "hop a = Some i" "hop b = Some i"
  shows "a = b"
proof -
  have "mate (opp i) = Some a" "mate (opp i) = Some b"
    using assms mate_sym [of a "opp i"] mate_sym [of b "opp i"] by (simp_all add: hop_iff)
  then show ?thesis by simp
qed

text \<open>Reversal: walking back from the other end of the edge just entered undoes the step.\<close>

lemma hop_back: "i < 2 * sz \<Longrightarrow> hop i = Some i' \<Longrightarrow> hop (opp i') = Some (opp i)"
  using mate_sym [of i "opp i'"] by (simp add: hop_iff)

lemma way_distinct:
  assumes "way xs" "\<forall>t < length xs. t \<noteq> 0 \<longrightarrow> xs ! t \<noteq> xs ! 0"
  shows "distinct xs"
proof -
  have "xs ! a \<noteq> xs ! b" if "a < b" "b < length xs" for a b
    using that
  proof (induction a arbitrary: b)
    case (Suc a)
    then obtain c where c: "b = Suc c" "a < c" by (cases b) auto
    have h: "hop (xs ! a) = Some (xs ! Suc a)" "hop (xs ! c) = Some (xs ! b)" "xs ! a < 2 * sz" "xs ! c < 2 * sz"
      using assms(1) Suc.prems c by (auto simp: way_def subset_iff)
    show ?case
    proof
      assume "xs ! Suc a = xs ! b"
      then have "xs ! a = xs ! c" using h hop_inj [of "xs ! a" "xs ! c"] by simp
      then show False using Suc.IH [of c] c Suc.prems by simp
    qed
  qed (use assms(2) in auto)
  then show ?thesis by (metis distinct_conv_nth linorder_neqE_nat)
qed

text \<open>No edge is walked in both directions: the two visits would have to meet in the middle.\<close>

lemma way_no_reversal:
  assumes "way xs" "a \<le> b" "b < length xs"
  shows "xs ! b \<noteq> opp (xs ! a)"
  using assms(2,3)
proof (induction "b - a" arbitrary: a b rule: less_induct)
  case less
  show ?case
  proof
    assume eq: "xs ! b = opp (xs ! a)"
    then have "a \<noteq> b" by (metis opp_simps(2))
    then obtain c where c: "b = Suc c" "a \<le> c" using less.prems by (cases b) auto
    have h: "hop (xs ! a) = Some (xs ! Suc a)" "hop (xs ! c) = Some (xs ! b)"
      and bd: "xs ! a < 2 * sz" "xs ! c < 2 * sz" "xs ! Suc a < 2 * sz"
      using assms(1) less.prems c by (auto simp: way_def subset_iff)
    have "hop (opp (xs ! Suc a)) = Some (xs ! b)" using hop_back [OF bd(1) h(1)] eq by simp
    then have meet: "xs ! c = opp (xs ! Suc a)" using hop_inj [OF bd(2) _ h(2)] bd(3) by simp
    show False
    proof (cases "a = c")
      case True
      with meet h(1) have "mate (xs ! a) = Some (xs ! a)" by (simp add: hop_iff)
      then show False using mate_other bd(1) by blast
    next
      case False
      then have "c - Suc a < b - a" "Suc a \<le> c" "c < length xs" using c less.prems by auto
      then show False using less.hyps [of c "Suc a"] meet by simp
    qed
  qed
qed

lemma way_edges_distinct:
  assumes "way xs" "\<forall>t < length xs. t \<noteq> 0 \<longrightarrow> xs ! t \<noteq> xs ! 0"
  shows "distinct (map (\<lambda>i. i div 2) xs)"
  unfolding distinct_map
proof (intro conjI inj_onI)
  show "distinct xs" using way_distinct [OF assms] .
  fix x y
  assume "x \<in> set xs" "y \<in> set xs" and e: "x div 2 = y div 2"
  then obtain a b where "x = xs ! a" "a < length xs" "y = xs ! b" "b < length xs" by (metis in_set_conv_nth)
  then have "x \<noteq> opp y"
    using way_no_reversal [OF assms(1), of a b] way_no_reversal [OF assms(1), of b a] nat_le_linear [of a b]
    by (auto simp: opp_swap [of "xs ! a", symmetric])
  with e show "x = y" by (simp add: same_edge)
qed

lemma way_snoc:
  assumes "way xs" "xs \<noteq> []" "hop (last xs) = Some i"
  shows "way (xs @ [i])"
  unfolding way_def
proof (intro conjI allI impI)
  have "last xs < 2 * sz" using assms(1) last_in_set [OF assms(2)] unfolding way_def by blast
  then have "i < 2 * sz" using assms(3) hop_bound by blast
  then show "set (xs @ [i]) \<subseteq> {..<2 * sz}" using assms(1) by (simp add: way_def)
  fix t
  assume "Suc t < length (xs @ [i])"
  then consider "Suc t < length xs" | "Suc t = length xs" by fastforce
  then show "hop ((xs @ [i]) ! t) = Some ((xs @ [i]) ! Suc t)"
  proof cases
    case 1
    then show ?thesis using assms(1) by (simp add: way_def nth_append)
  next
    case 2
    then have "last xs = xs ! t" using assms(2) by (simp add: last_conv_nth flip: 2)
    then show ?thesis using 2 assms(3) by (simp add: nth_append flip: 2)
  qed
qed

lemma way_length:
  assumes "way xs" "\<forall>t < length xs. t \<noteq> 0 \<longrightarrow> xs ! t \<noteq> xs ! 0"
  shows "length xs \<le> sz"
proof -
  have "set (map (\<lambda>i. i div 2) xs) \<subseteq> {..<sz}" using assms(1) by (auto simp: way_def)
  then have "card (set (map (\<lambda>i. i div 2) xs)) \<le> sz" by (metis card_lessThan card_mono finite_lessThan)
  then show ?thesis using distinct_card [OF way_edges_distinct [OF assms]] by simp
qed

text \<open>\<open>closed ys\<close>: a walk from endpoint 0 that is back at 0 after its last step, and not before.\<close>

definition closed :: "nat list \<Rightarrow> bool" where
  "closed ys \<longleftrightarrow> way ys \<and> ys \<noteq> [] \<and> ys ! 0 = 0 \<and> (\<forall>t < length ys. t \<noteq> 0 \<longrightarrow> ys ! t \<noteq> 0) \<and> hop (last ys) = Some 0"

text \<open>The outer loop of the verifiers takes this walk, or stops with an error: it always ends.\<close>

definition steps_along :: "(nat \<Rightarrow> (pow_error + nat) option) \<Rightarrow> bool" where
  "steps_along step \<longleftrightarrow> (\<forall>i < 2 * sz. case hop i of None \<Rightarrow> \<exists>e. step i = Some (Inl e) | Some i' \<Rightarrow> step i = Some (Inr i'))"

lemma follow_way:
  assumes "steps_along step" "way xs" "xs \<noteq> []" "xs ! 0 = 0" "\<forall>t < length xs. t \<noteq> 0 \<longrightarrow> xs ! t \<noteq> 0"
  shows "(\<exists>e. follow step (length xs - 1) (last xs) = Some (Inl e)) \<or>
    (\<exists>ys. follow step (length xs - 1) (last xs) = Some (Inr (length ys)) \<and> closed ys)"
  using assms(2-)
proof (induction "sz - length xs" arbitrary: xs rule: less_induct)
  case less
  have last: "last xs < 2 * sz" using less.prems(1) last_in_set [OF less.prems(2)] unfolding way_def by blast
  show ?case
  proof (cases "hop (last xs)")
    case None
    then obtain e where "step (last xs) = Some (Inl e)" using assms(1) last by (fastforce simp: steps_along_def)
    then show ?thesis by (subst (1 2) follow.simps) simp
  next
    case (Some i)
    then have st: "step (last xs) = Some (Inr i)" using assms(1) last by (auto simp: steps_along_def)
    show ?thesis
    proof (cases "i = 0")
      case True
      then have "closed xs" using less.prems Some by (simp add: closed_def)
      then show ?thesis using st True less.prems(2) by (subst (1 2) follow.simps) (auto intro!: exI [of _ xs])
    next
      case False
      have w: "way (xs @ [i])" using way_snoc less.prems(1,2) Some by blast
      have nr: "\<forall>t < length (xs @ [i]). t \<noteq> 0 \<longrightarrow> (xs @ [i]) ! t \<noteq> 0" "(xs @ [i]) ! 0 = 0"
        using less.prems False by (auto simp: nth_append)
      have "length (xs @ [i]) \<le> sz" using way_length [OF w] nr by simp
      then have "sz - length (xs @ [i]) < sz - length xs" by simp
      from less.hyps [OF this w _ nr(2,1)]
      have "(\<exists>e. follow step (length xs) i = Some (Inl e)) \<or>
        (\<exists>ys. follow step (length xs) i = Some (Inr (length ys)) \<and> closed ys)" by simp
      moreover have "follow step (length xs - 1) (last xs) = follow step (length xs) i"
        using st False less.prems(2) by (subst follow.simps) simp
      ultimately show ?thesis by simp
    qed
  qed
qed

lemma follow_ends:
  assumes "steps_along step" "0 < sz"
  shows "(\<exists>e. follow step 0 0 = Some (Inl e)) \<or> (\<exists>ys. follow step 0 0 = Some (Inr (length ys)) \<and> closed ys)"
  using follow_way [OF assms(1), of "[0]"] assms(2) by (simp add: way_def)

lemma follow_closed:
  assumes "steps_along step" "closed ys" "t < length ys"
  shows "follow step t (ys ! t) = Some (Inr (length ys))"
  using assms(3)
proof (induction "length ys - t" arbitrary: t rule: less_induct)
  case less
  have bd: "ys ! t < 2 * sz" using assms(2) less.prems by (auto simp: closed_def way_def subset_iff)
  show ?case
  proof (cases "Suc t < length ys")
    case True
    then have "hop (ys ! t) = Some (ys ! Suc t)" "ys ! Suc t \<noteq> 0" using assms(2) by (auto simp: closed_def way_def)
    then have "follow step t (ys ! t) = follow step (Suc t) (ys ! Suc t)"
      using assms(1) bd by (subst follow.simps) (auto simp: steps_along_def)
    then show ?thesis using less.hyps [of "Suc t"] True by simp
  next
    case False
    then have t: "Suc t = length ys" using less.prems by simp
    then have "last ys = ys ! t" using assms(2) by (simp add: closed_def last_conv_nth flip: t)
    then have "hop (ys ! t) = Some 0" using assms(2) by (simp add: closed_def)
    then show ?thesis using assms(1) bd t by (subst follow.simps) (auto simp: steps_along_def)
  qed
qed

end

text \<open>
  The edges form one cycle: a closed walk from endpoint 0 that goes through every edge once, in which the
  partner of each endpoint left from is the endpoint entered next.
\<close>

definition single_cycle :: "(nat \<Rightarrow> nat option) \<Rightarrow> nat \<Rightarrow> bool" where
  "single_cycle mate sz \<longleftrightarrow>
     (\<exists>ws. length ws = sz \<and> ws ! 0 = 0 \<and> set (map (\<lambda>i. i div 2) ws) = {..<sz} \<and>
        (\<forall>t < sz. mate (ws ! t) = Some (opp (ws ! (Suc t mod sz)))))"

context pairing
begin

lemma single_cycle_closed:
  assumes "0 < sz"
  shows "single_cycle mate sz \<longleftrightarrow> (\<exists>ys. closed ys \<and> length ys = sz)"
proof
  assume "single_cycle mate sz"
  then obtain ws where ws: "length ws = sz" "ws ! 0 = 0" "set (map (\<lambda>i. i div 2) ws) = {..<sz}"
    "\<And>t. t < sz \<Longrightarrow> hop (ws ! t) = Some (ws ! (Suc t mod sz))"
    by (auto simp: single_cycle_def hop_iff)
  have ne: "ws \<noteq> []" using ws(1) assms by auto
  have d: "distinct (map (\<lambda>i. i div 2) ws)" using ws(1,3) by (intro card_distinct) simp
  have ret: "ws ! t \<noteq> 0" if "t < length ws" "t \<noteq> 0" for t
    using distinct_map [THEN iffD1, OF d] that ws(2) ne nth_eq_iff_index_eq [of ws t 0] by auto
  have bd: "set ws \<subseteq> {..<2 * sz}"
  proof
    fix x
    assume "x \<in> set ws"
    then have "x div 2 < sz" using ws(3) by fastforce
    then show "x \<in> {..<2 * sz}" by auto
  qed
  have "last ws = ws ! (sz - 1)" using ws(1) last_conv_nth [OF ne] by simp
  then have home: "hop (last ws) = Some 0" using ws(2) ws(4) [of "sz - 1"] assms by simp
  have "hop (ws ! t) = Some (ws ! Suc t)" if "Suc t < length ws" for t
    using ws(4) [of t] that ws(1) by simp
  then have "way ws" using bd by (simp add: way_def)
  then have "closed ws" using ne ws(2) ret home by (simp add: closed_def)
  then show "\<exists>ys. closed ys \<and> length ys = sz" using ws(1) by blast
next
  assume "\<exists>ys. closed ys \<and> length ys = sz"
  then obtain ys where ys: "closed ys" "length ys = sz" by blast
  have e: "set (map (\<lambda>i. i div 2) ys) = {..<sz}"
  proof (rule card_subset_eq)
    show "set (map (\<lambda>i. i div 2) ys) \<subseteq> {..<sz}" using ys(1) by (auto simp: closed_def way_def)
    show "card (set (map (\<lambda>i. i div 2) ys)) = card {..<sz}"
      using distinct_card [OF way_edges_distinct [of ys]] ys by (simp add: closed_def)
  qed simp
  have "mate (ys ! t) = Some (opp (ys ! (Suc t mod sz)))" if "t < sz" for t
  proof (cases "Suc t < sz")
    case True
    then show ?thesis using ys by (simp add: closed_def way_def hop_iff)
  next
    case False
    then have "Suc t = sz" using that by simp
    moreover have "last ys = ys ! (sz - 1)" using ys by (simp add: closed_def last_conv_nth)
    ultimately show ?thesis using ys by (auto simp: closed_def hop_iff)
  qed
  moreover have "ys ! 0 = 0" using ys(1) by (simp add: closed_def)
  ultimately show "single_cycle mate sz" unfolding single_cycle_def
    by (intro exI [of _ ys] conjI allI impI ys(2) e) auto
qed

lemma follow_cycle_iff:
  assumes "steps_along step" "0 < sz"
  shows "follow_cycle step sz = Some (Inr ()) \<longleftrightarrow> single_cycle mate sz"
proof
  assume "follow_cycle step sz = Some (Inr ())"
  then have "follow step 0 0 = Some (Inr sz)"
    by (auto simp: follow_cycle_def split: option.splits sum.splits if_splits)
  then obtain ys where "closed ys" "length ys = sz" using follow_ends [OF assms] by auto
  then show "single_cycle mate sz" unfolding single_cycle_closed [OF assms(2)] by blast
next
  assume "single_cycle mate sz"
  then obtain ys where "closed ys" "length ys = sz" using single_cycle_closed [OF assms(2)] by blast
  moreover from this have "ys ! 0 = 0" by (simp add: closed_def)
  ultimately have "follow step 0 0 = Some (Inr sz)" using follow_closed [OF assms(1), of ys 0] assms(2) by simp
  then show "follow_cycle step sz = Some (Inr ())" by (simp add: follow_cycle_def)
qed

lemma follow_cycle_ends:
  assumes "steps_along step" "0 < sz"
  shows "\<exists>r. follow_cycle step n = Some r"
proof -
  obtain r where "follow step 0 0 = Some r" using follow_ends [OF assms] by blast
  then show ?thesis by (cases r) (simp_all add: follow_cycle_def)
qed

end

section \<open>Partners\<close>

definition partner :: "(nat \<Rightarrow> 'k) \<Rightarrow> (nat \<Rightarrow> nat \<Rightarrow> bool) \<Rightarrow> nat \<Rightarrow> nat \<Rightarrow> nat option" where
  "partner node joined n i =
     (case filter (\<lambda>k. k \<noteq> i \<and> node k = node i) [0..<n] of [j] \<Rightarrow> if joined i j then Some j else None | _ \<Rightarrow> None)"

lemma partner_Some_iff:
  "partner node joined n i = Some j \<longleftrightarrow> {k. k < n \<and> k \<noteq> i \<and> node k = node i} = {j} \<and> joined i j"
proof -
  let ?xs = "filter (\<lambda>k. k \<noteq> i \<and> node k = node i) [0..<n]"
  have s: "set ?xs = {k. k < n \<and> k \<noteq> i \<and> node k = node i}" and d: "distinct ?xs" by auto
  have "?xs = [j] \<longleftrightarrow> set ?xs = {j}"
  proof
    assume "set ?xs = {j}"
    moreover from this have "length ?xs = 1" using distinct_card [OF d] by simp
    ultimately show "?xs = [j]" by (cases ?xs) auto
  qed simp
  moreover have "partner node joined n i = Some j \<longleftrightarrow> ?xs = [j] \<and> joined i j"
    unfolding partner_def by (cases ?xs; cases "tl ?xs") (simp_all, blast)
  ultimately show ?thesis by (simp only: s)
qed

lemma partner_pairing:
  assumes "\<And>i j. joined i j \<Longrightarrow> joined j i"
  shows "pairing (partner node joined (2 * sz)) sz"
proof
  fix i j
  assume i: "i < 2 * sz" "partner node joined (2 * sz) i = Some j"
  then have j: "{k. k < 2 * sz \<and> k \<noteq> i \<and> node k = node i} = {j}" "joined i j"
    unfolding partner_Some_iff by blast+
  then have mem: "k < 2 * sz \<and> k \<noteq> i \<and> node k = node i \<longleftrightarrow> k = j" for k
    unfolding set_eq_iff mem_Collect_eq singleton_iff by blast
  from mem [of j] show "j < 2 * sz" "j \<noteq> i" by simp_all
  have "k < 2 * sz \<and> k \<noteq> j \<and> node k = node j \<longleftrightarrow> k = i" for k
    using mem [of k] mem [of j] i(1) by metis
  then show "partner node joined (2 * sz) j = Some i" using assms [OF j(2)] by (simp add: partner_Some_iff)
qed

section \<open>Buckets as linked lists\<close>

text \<open>
  \<open>latest nil key b m\<close> is the last of the endpoints below \<open>m\<close> that are in bucket \<open>b\<close>: what \<open>head\<close> holds
  for the bucket once these endpoints are linked, and \<open>prev\<close> for endpoint \<open>m\<close> itself.
\<close>

primrec latest :: "nat \<Rightarrow> (nat \<Rightarrow> 'k) \<Rightarrow> 'k \<Rightarrow> nat \<Rightarrow> nat" where
  "latest nil key b 0 = nil"
| "latest nil key b (Suc m) = (if key m = b then m else latest nil key b m)"

lemma latest_ge: "i < m \<Longrightarrow> key i = b \<Longrightarrow> i \<le> latest nil key b m"
  by (induction m) (auto simp: less_Suc_eq)

lemma latest_cases:
  obtains (none) "latest nil key b m = nil" "\<forall>x < m. key x \<noteq> b"
  | (some) x where "latest nil key b m = x" "x < m" "key x = b"
      "\<And>l. l \<le> x \<Longrightarrow> filter (\<lambda>k. key k = b) [l..<m] = filter (\<lambda>k. key k = b) [l..<x] @ [x]"
proof -
  have "(latest nil key b m = nil \<and> (\<forall>x < m. key x \<noteq> b)) \<or>
    (\<exists>x. latest nil key b m = x \<and> x < m \<and> key x = b \<and>
      (\<forall>l \<le> x. filter (\<lambda>k. key k = b) [l..<m] = filter (\<lambda>k. key k = b) [l..<x] @ [x]))"
  proof (induction m)
    case (Suc m)
    then show ?case by (cases "key m = b") (auto simp: less_Suc_eq)
  qed simp
  then show ?thesis using none some by blast
qed

text \<open>In the closed ring, the first endpoint of a bucket points to the last one.\<close>

definition is_ring :: "(nat \<Rightarrow> 'k) \<Rightarrow> nat \<Rightarrow> nat list \<Rightarrow> bool" where
  "is_ring key n pr \<longleftrightarrow> (\<forall>k < n. pr ! k =
     (let p = latest n key (key k) k in if p = n then latest n key (key k) n else p))"

text \<open>\<open>path pr i k xs\<close>: from \<open>k\<close> the links lead through \<open>xs\<close> to \<open>i\<close>.\<close>

fun path :: "nat list \<Rightarrow> nat \<Rightarrow> nat \<Rightarrow> nat list \<Rightarrow> bool" where
  "path pr i k [] \<longleftrightarrow> pr ! k = i"
| "path pr i k (x # xs) \<longleftrightarrow> pr ! k = x \<and> x \<noteq> i \<and> path pr i x xs"

lemma ring_path_down:
  assumes "is_ring key n pr" "i < k" "k < n" "key k = key i"
  shows "path pr i k (rev (filter (\<lambda>x. key x = key i) [Suc i..<k]))"
  using assms(2-)
proof (induction k rule: less_induct)
  case (less k)
  show ?case
  proof (cases rule: latest_cases [of n key "key i" k])
    case none
    then show ?thesis using less.prems by auto
  next
    case (some x)
    then have x: "pr ! k = x" using assms(1) less.prems by (simp add: is_ring_def)
    have "i \<le> x" using latest_ge [of i k key "key i" n] some(1) less.prems by simp
    then consider "x = i" | "i < x" by linarith
    then show ?thesis
    proof cases
      case 1
      then have "filter (\<lambda>y. key y = key i) [i..<k] = [i]" using some(4) [of i] by simp
      then have "filter (\<lambda>y. key y = key i) [Suc i..<k] = []" using less.prems by (simp add: upt_conv_Cons)
      then show ?thesis using x 1 by simp
    next
      case 2
      then have "filter (\<lambda>y. key y = key i) [Suc i..<k] = filter (\<lambda>y. key y = key i) [Suc i..<x] @ [x]"
        using some(4) [of "Suc i"] by simp
      then show ?thesis using x 2 less.IH [of x] some(2,3) less.prems by simp
    qed
  qed
qed

lemma ring_path:
  assumes "is_ring key n pr" "k \<le> i" "i < n" "key k = key i"
  shows "path pr i k (rev (filter (\<lambda>x. key x = key i) [0..<k]) @ rev (filter (\<lambda>x. key x = key i) [Suc i..<n]))"
  using assms(2-)
proof (induction k rule: less_induct)
  case (less k)
  show ?case
  proof (cases rule: latest_cases [of n key "key i" k])
    case none
    then have below: "filter (\<lambda>x. key x = key i) [0..<k] = []" by (simp add: filter_empty_conv)
    have top: "pr ! k = latest n key (key i) n" using none assms(1) less.prems by (simp add: is_ring_def)
    show ?thesis
    proof (cases rule: latest_cases [of n key "key i" n])
      case none
      then show ?thesis using less.prems by auto
    next
      case (some x)
      have "i \<le> x" using latest_ge [of i n key "key i" n] some(1) less.prems by simp
      then consider "x = i" | "i < x" by linarith
      then show ?thesis
      proof cases
        case 1
        then have "filter (\<lambda>y. key y = key i) [i..<n] = [i]" using some(4) [of i] by simp
        then have "filter (\<lambda>y. key y = key i) [Suc i..<n] = []" using less.prems by (simp add: upt_conv_Cons)
        then show ?thesis using top some(1) 1 below by simp
      next
        case 2
        then have "filter (\<lambda>y. key y = key i) [Suc i..<n] = filter (\<lambda>y. key y = key i) [Suc i..<x] @ [x]"
          using some(4) [of "Suc i"] by simp
        then show ?thesis
          using top some(1-3) 2 below ring_path_down [OF assms(1) 2] by simp
      qed
    qed
  next
    case (some x)
    then have x: "pr ! k = x" using assms(1) less.prems by (simp add: is_ring_def)
    have "filter (\<lambda>y. key y = key i) [0..<k] = filter (\<lambda>y. key y = key i) [0..<x] @ [x]" using some(4) [of 0] by simp
    then show ?thesis using x less.IH [of x] some(2,3) less.prems by simp
  qed
qed

text \<open>The inner loop along a path.\<close>

fun scan_list :: "(nat \<Rightarrow> bool) \<Rightarrow> nat \<Rightarrow> nat \<Rightarrow> nat list \<Rightarrow> pow_error + nat" where
  "scan_list same i j [] = Inr j"
| "scan_list same i j (k # ks) =
     (if same k then (if j \<noteq> i then Inl (Verification ''branch in cycle'') else scan_list same i k ks)
      else scan_list same i j ks)"

lemma scan_path: "path pr i k ks \<Longrightarrow> scan same pr i j k = Some (scan_list same i j ks)"
  by (induction ks arbitrary: j k) (subst scan.simps, auto simp: Let_def)+

lemma scan_list_found: "j \<noteq> i \<Longrightarrow>
    scan_list same i j ks = (if filter same ks = [] then Inr j else Inl (Verification ''branch in cycle''))"
  by (induction ks) auto

lemma scan_list_result: "i \<notin> set ks \<Longrightarrow>
    scan_list same i i ks = (case filter same ks of [] \<Rightarrow> Inr i | [j] \<Rightarrow> Inr j | _ \<Rightarrow> Inl (Verification ''branch in cycle''))"
  by (induction ks) (auto simp: scan_list_found neq_Nil_conv split: list.splits)

lemma case_list_mset:
  assumes "mset xs = mset ys"
  shows "(case xs of [] \<Rightarrow> a | [j] \<Rightarrow> f j | _ \<Rightarrow> b) = (case ys of [] \<Rightarrow> a | [j] \<Rightarrow> f j | _ \<Rightarrow> b)"
  using assms mset_eq_length [OF assms] by (cases xs; cases ys; cases "tl xs"; cases "tl ys") auto

text \<open>
  With the buckets of all endpoints closed to rings, and endpoints at the same node in the same
  bucket, one step of the verifier goes to the partner and across its edge.
\<close>

lemma match_step_partner:
  assumes ring: "is_ring key n pr" and i: "i < n"
    and node: "\<And>k. k < n \<Longrightarrow> node k = node i \<longleftrightarrow> key k = key i \<and> part (us ! k) = part (us ! i)"
  shows "case partner node (\<lambda>i j. joined (us ! i) (us ! j)) n i of
      None \<Rightarrow> \<exists>e. match_step part joined us pr i = Some (Inl e)
    | Some j \<Rightarrow> match_step part joined us pr i = Some (Inr (opp j))"
proof -
  let ?same = "\<lambda>k. part (us ! k) = part (us ! i)"
  define ks where "ks = rev (filter (\<lambda>x. key x = key i) [0..<i]) @ rev (filter (\<lambda>x. key x = key i) [Suc i..<n])"
  define xs where "xs = filter (\<lambda>k. k \<noteq> i \<and> node k = node i) [0..<n]"
  have "scan ?same pr i i i = Some (scan_list ?same i i ks)"
    using scan_path ring_path [OF ring order_refl i] unfolding ks_def by blast
  also have "scan_list ?same i i ks = (case filter ?same ks of [] \<Rightarrow> Inr i | [j] \<Rightarrow> Inr j | _ \<Rightarrow> Inl (Verification ''branch in cycle''))"
    by (rule scan_list_result) (simp add: ks_def)
  also have "\<dots> = (case xs of [] \<Rightarrow> Inr i | [j] \<Rightarrow> Inr j | _ \<Rightarrow> Inl (Verification ''branch in cycle''))"
  proof (rule case_list_mset)
    have split: "[0..<n] = [0..<i] @ i # [Suc i..<n]"
      using i by (metis le_add_same_cancel1 less_imp_le upt_conv_Cons upt_add_eq_append le_add1 add_0 bot_nat_0.extremum le_add_diff_inverse)
    have f: "filter (\<lambda>k. k \<noteq> i \<and> node k = node i) zs = filter (\<lambda>k. ?same k \<and> key k = key i) zs"
      if "\<And>z. z \<in> set zs \<Longrightarrow> z < n \<and> z \<noteq> i" for zs
      using that node by (intro filter_cong) auto
    have "filter (\<lambda>k. k \<noteq> i \<and> node k = node i) [0..<i] = filter (\<lambda>k. ?same k \<and> key k = key i) [0..<i]"
      by (rule f) (use i in auto)
    moreover have "filter (\<lambda>k. k \<noteq> i \<and> node k = node i) [Suc i..<n] = filter (\<lambda>k. ?same k \<and> key k = key i) [Suc i..<n]"
      by (rule f) (use i in auto)
    ultimately have "xs = filter (\<lambda>k. ?same k \<and> key k = key i) [0..<i] @ filter (\<lambda>k. ?same k \<and> key k = key i) [Suc i..<n]"
      unfolding xs_def split by simp
    then show "mset (filter ?same ks) = mset xs" by (simp add: ks_def rev_filter [symmetric] conj_commute)
  qed
  finally show ?thesis
    unfolding partner_def xs_def [symmetric] match_step_def using i
    by (cases xs; cases "tl xs") (auto simp: xor_one_opp xs_def dest: filter_eq_ConsD)
qed

section \<open>Exclusive or over paired endpoints\<close>

interpretation xorsum: comm_monoid_set "(XOR) :: u64 \<Rightarrow> u64 \<Rightarrow> u64" 0
  by unfold_locales (simp_all add: xor.assoc xor.commute)

lemma xorsum_paired:
  assumes "finite S" "\<And>i. i \<in> S \<Longrightarrow> m i \<in> S \<and> m i \<noteq> i \<and> m (m i) = i" "\<And>i. i \<in> S \<Longrightarrow> f i XOR f (m i) = c"
  shows "xorsum.F f S = (if odd (card S div 2) then c else 0)"
  using assms
proof (induction "card S" arbitrary: S rule: less_induct)
  case less
  show ?case
  proof (cases "S = {}")
    case False
    then obtain i where i: "i \<in> S" by blast
    define T where "T = S - {i, m i}"
    have mi: "m i \<in> S" "m i \<noteq> i" "m (m i) = i" using less.prems(2) [OF i] by auto
    have S: "S = insert i (insert (m i) T)" "i \<notin> insert (m i) T" "m i \<notin> T" "finite T"
      using i mi less.prems(1) by (auto simp: T_def)
    then have card: "card S = Suc (Suc (card T))" by simp
    have "m j \<in> T \<and> m j \<noteq> j \<and> m (m j) = j" if "j \<in> T" for j
    proof -
      have j: "j \<in> S" "j \<noteq> i" "j \<noteq> m i" using that by (auto simp: T_def)
      then have "m j \<in> S" "m j \<noteq> j" "m (m j) = j" using less.prems(2) by auto
      moreover have "m j \<noteq> i" "m j \<noteq> m i" using calculation(3) j mi(3) by auto
      ultimately show ?thesis by (simp add: T_def)
    qed
    moreover have "f j XOR f (m j) = c" if "j \<in> T" for j using that less.prems(3) by (simp add: T_def)
    ultimately have "xorsum.F f T = (if odd (card T div 2) then c else 0)"
      using less.hyps [of T] card S(4) by simp
    moreover have "xorsum.F f S = (f i XOR f (m i)) XOR xorsum.F f T"
      using S by (simp add: xor.assoc)
    ultimately show ?thesis using less.prems(3) [OF i] card by simp
  qed simp
qed

section \<open>Loading\<close>

text \<open>Endpoint \<open>k\<close> of the edges the nonces select.\<close>

definition ends :: "(u64 \<Rightarrow> u64 \<times> u64) \<Rightarrow> u64 list \<Rightarrow> nat \<Rightarrow> u64" where
  "ends ep ns k = (if even k then fst (ep (ns ! (k div 2))) else snd (ep (ns ! (k div 2))))"

lemma ends_simps [simp]:
  "ends ep ns (2 * n) = fst (ep (ns ! n))" "ends ep ns (Suc (2 * n)) = snd (ep (ns ! n))"
  by (simp_all add: ends_def)

definition nonces_ok :: "u64 \<Rightarrow> u64 list \<Rightarrow> bool" where
  "nonces_ok emask ns \<longleftrightarrow> sorted_wrt (<) ns \<and> (\<forall>n \<in> set ns. n \<le> emask)"

lemma check_nonce_iff:
  "check_nonce emask ns n = Inr u \<longleftrightarrow> ns ! n \<le> emask \<and> (0 < n \<longrightarrow> ns ! (n - 1) < ns ! n)"
  by (auto simp: check_nonce_def not_less not_le)

lemma check_nonces: "(\<forall>n < length ns. check_nonce emask ns n = Inr ()) \<longleftrightarrow> nonces_ok emask ns"
proof -
  have "(\<forall>n < length ns. 0 < n \<longrightarrow> ns ! (n - 1) < ns ! n) \<longleftrightarrow> sorted_wrt (<) ns"
    by (subst sorted_wrt_iff_nth_Suc_transp) (auto simp: transp_def gr0_conv_Suc)
  then show ?thesis by (auto simp: check_nonce_iff nonces_ok_def in_set_conv_nth Ball_def all_set_conv_all_nth)
qed

lemma try_fold_checked:
  assumes "\<And>n s. n \<in> set xs \<Longrightarrow> f n s = rbind (chk n) (\<lambda>_. Inr (g n s))"
  shows "(\<exists>t. try_fold f xs s = Inr t) \<longleftrightarrow> (\<forall>n \<in> set xs. chk n = Inr ())"
  using assms
proof (induction xs arbitrary: s)
  case (Cons x xs)
  show ?case
  proof (cases "chk x")
    case (Inr u)
    then show ?thesis using Cons by simp
  qed (use Cons.prems in simp)
qed simp

lemma bucket_le: "bucket msk node \<le> unat msk"
  unfolding bucket_def by (metis word_and_le1 word_le_nat_alt)

text \<open>The bucket of endpoint \<open>k\<close> in the bipartite graphs: one set of buckets for each side.\<close>

abbreviation side_key :: "(u64 \<Rightarrow> u64 \<times> u64) \<Rightarrow> (u64 \<Rightarrow> u64) \<Rightarrow> u64 \<Rightarrow> u64 list \<Rightarrow> nat \<Rightarrow> bool \<times> nat" where
  "side_key ep part msk ns k \<equiv> (even k, bucket msk (part (ends ep ns k)))"

definition loaded :: "(u64 \<Rightarrow> u64 \<times> u64) \<Rightarrow> (u64 \<Rightarrow> u64) \<Rightarrow> u64 \<Rightarrow> u64 \<Rightarrow> u64 list \<Rightarrow> nat \<Rightarrow> nat \<Rightarrow> lists \<Rightarrow> bool" where
  "loaded ep part msk x0 ns sz n l \<longleftrightarrow>
     length (uvs l) = 2 * sz \<and> length (prev l) = 2 * sz \<and>
     length (headu l) = Suc (unat msk) \<and> length (headv l) = Suc (unat msk) \<and>
     (\<forall>k < 2 * n. uvs l ! k = ends ep ns k \<and>
        prev l ! k = latest (2 * sz) (side_key ep part msk ns) (side_key ep part msk ns k) k) \<and>
     (\<forall>b \<le> unat msk. headu l ! b = latest (2 * sz) (side_key ep part msk ns) (True, b) (2 * n) \<and>
        headv l ! b = latest (2 * sz) (side_key ep part msk ns) (False, b) (2 * n)) \<and>
     xor0 l = x0 XOR xorsum.F (\<lambda>m. ends ep ns (2 * m)) {..<n} \<and>
     xor1 l = x0 XOR xorsum.F (\<lambda>m. ends ep ns (Suc (2 * m))) {..<n}"

lemma loaded_new: "loaded ep part msk x0 ns sz 0 (lists_new sz msk x0)"
  by (simp add: loaded_def lists_new_def del: replicate_Suc)

lemma less_two_Suc: "k < 2 * Suc n \<longleftrightarrow> k < 2 * n \<or> k = 2 * n \<or> k = Suc (2 * n)"
  by auto

lemma load_edge_loaded:
  assumes "loaded ep part msk x0 ns sz n l" "load_edge ep part msk emask ns n l = Inr l'" "n < sz"
  shows "loaded ep part msk x0 ns sz (Suc n) l'"
proof -
  obtain u v where uv: "ep (ns ! n) = (u, v)" by fastforce
  have e [simp]: "ends ep ns (2 * n) = u" "ends ep ns (Suc (2 * n)) = v" by (simp_all add: uv)
  note b = bucket_le [of msk]
  let ?bu = "bucket msk (part u)" and ?bv = "bucket msk (part v)"
  have l': "l' = \<lparr> uvs = (uvs l)[2 * n := u, 2 * n + 1 := v], headu = (headu l)[?bu := 2 * n],
      headv = (headv l)[?bv := 2 * n + 1], prev = (prev l)[2 * n := headu l ! ?bu, 2 * n + 1 := headv l ! ?bv],
      xor0 = xor0 l XOR u, xor1 = xor1 l XOR v \<rparr>"
    using assms(2) by (simp add: load_edge_def link_def uv rbind_Inr_iff)
  have x: "xorsum.F g {..<Suc n} = xorsum.F g {..<n} XOR g n" for g :: "nat \<Rightarrow> u64"
    by (simp add: lessThan_Suc xor.commute)
  have xs: "xor0 l' = x0 XOR xorsum.F (\<lambda>m. ends ep ns (2 * m)) {..<Suc n}"
    "xor1 l' = x0 XOR xorsum.F (\<lambda>m. ends ep ns (Suc (2 * m))) {..<Suc n}"
    using assms(1) unfolding x by (simp_all add: l' loaded_def xor.assoc uv)
  have heads: "headu l' ! c = latest (2 * sz) (side_key ep part msk ns) (True, c) (2 * Suc n) \<and>
      headv l' ! c = latest (2 * sz) (side_key ep part msk ns) (False, c) (2 * Suc n)" if "c \<le> unat msk" for c
    using assms(1,3) b [of "part u"] b [of "part v"] that by (simp add: l' loaded_def nth_list_update uv)
  have old: "uvs l' ! k = uvs l ! k" "prev l' ! k = prev l ! k" if "k < 2 * n" for k
    using that by (simp_all add: l')
  have new: "uvs l' ! (2 * n) = u" "uvs l' ! Suc (2 * n) = v" "prev l' ! (2 * n) = headu l ! ?bu"
    "prev l' ! Suc (2 * n) = headv l ! ?bv"
    using assms(1,3) by (simp_all add: l' loaded_def)
  have "uvs l' ! k = ends ep ns k \<and> prev l' ! k = latest (2 * sz) (side_key ep part msk ns) (side_key ep part msk ns k) k"
    if "k < 2 * Suc n" for k
    using that unfolding less_two_Suc
  proof (elim disjE)
    assume "k < 2 * n"
    then show ?thesis using assms(1) old by (simp add: loaded_def)
  next
    assume "k = 2 * n"
    then show ?thesis using assms(1) new b [of "part u"] by (simp add: loaded_def uv)
  next
    assume "k = Suc (2 * n)"
    then show ?thesis using assms(1) new b [of "part v"] by (simp add: loaded_def uv)
  qed
  then show ?thesis using assms(1) xs heads unfolding loaded_def by (simp add: l')
qed

lemma loading:
  assumes "try_fold (load_edge ep part msk emask ns) [0..<sz] (lists_new sz msk x0) = Inr l"
  shows "loaded ep part msk x0 ns sz sz l"
  using assms loaded_new by (rule try_fold_upt) (rule load_edge_loaded)

lemma load_ok:
  "(\<exists>l. try_fold (load_edge ep part msk emask ns) [0..<length ns] s = Inr l) \<longleftrightarrow> nonces_ok emask ns"
  unfolding check_nonces [symmetric]
  by (subst try_fold_checked [where chk = "check_nonce emask ns" and
        g = "\<lambda>n l. projr (load_edge ep part msk emask ns n l)"])
    (auto simp: load_edge_def rbind_def link_def split: sum.splits prod.splits)

lemma close_ring_nth:
  assumes "loaded ep part msk x0 ns sz sz l"
  shows "is_ring (side_key ep part msk ns) (2 * sz) (fold (close_ring part msk sz l) [0..<sz] (prev l))"
proof -
  let ?key = "side_key ep part msk ns"
  define ring where "ring k = (let p = latest (2 * sz) ?key (?key k) k in if p = 2 * sz then latest (2 * sz) ?key (?key k) (2 * sz) else p)" for k
  define kept where "kept n pr \<longleftrightarrow> length pr = 2 * sz \<and> (\<forall>k < 2 * n. pr ! k = ring k) \<and>
    (\<forall>k < 2 * sz. 2 * n \<le> k \<longrightarrow> pr ! k = prev l ! k)" for n pr
  have prev: "prev l ! k = latest (2 * sz) ?key (?key k) k" if "k < 2 * sz" for k
    using assms that by (simp add: loaded_def)
  have top: "headu l ! bucket msk (part (uvs l ! k)) = latest (2 * sz) ?key (?key k) (2 * sz)" if "k < 2 * sz" "even k" for k
    using assms that bucket_le [of msk] by (simp add: loaded_def)
  have top': "headv l ! bucket msk (part (uvs l ! k)) = latest (2 * sz) ?key (?key k) (2 * sz)" if "k < 2 * sz" "odd k" for k
    using assms that bucket_le [of msk] by (simp add: loaded_def)
  have step: "kept (Suc n) (close_ring part msk sz l n pr)" if "kept n pr" "n < sz" for n pr
  proof -
    let ?pr = "close_ring part msk sz l n pr"
    have len: "length pr = 2 * sz" using that(1) by (simp add: kept_def)
    have at: "pr ! (2 * n) = prev l ! (2 * n)" "pr ! Suc (2 * n) = prev l ! Suc (2 * n)"
      using that by (simp_all add: kept_def)
    have "ring (2 * n) = (if prev l ! (2 * n) = 2 * sz then headu l ! bucket msk (part (uvs l ! (2 * n))) else prev l ! (2 * n))"
      "ring (Suc (2 * n)) = (if prev l ! Suc (2 * n) = 2 * sz then headv l ! bucket msk (part (uvs l ! Suc (2 * n))) else prev l ! Suc (2 * n))"
      using that(2) prev [of "2 * n"] prev [of "Suc (2 * n)"] top [of "2 * n"] top' [of "Suc (2 * n)"]
      by (simp_all add: ring_def Let_def)
    then have pr: "?pr ! k = (if k = 2 * n \<or> k = Suc (2 * n) then ring k else pr ! k)" if "k < 2 * sz" for k
      using that at len by (simp add: close_ring_def Let_def nth_list_update)
    have "?pr ! k = ring k" if "k < 2 * Suc n" for k
      using that \<open>n < sz\<close> pr [of k] \<open>kept n pr\<close> unfolding less_two_Suc by (auto simp: kept_def)
    moreover have "?pr ! k = prev l ! k" if "k < 2 * sz" "2 * Suc n \<le> k" for k
      using that pr [of k] \<open>kept n pr\<close> by (simp add: kept_def)
    ultimately show ?thesis using len by (simp add: kept_def close_ring_def Let_def)
  qed
  have "n \<le> sz \<Longrightarrow> kept n (fold (close_ring part msk sz l) [0..<n] (prev l))" for n
  proof (induction n)
    case 0
    then show ?case using assms by (simp add: kept_def loaded_def)
  next
    case (Suc n)
    then show ?case using step by simp
  qed
  from this [OF order_refl] show ?thesis unfolding kept_def is_ring_def ring_def by blast
qed

section \<open>What the verifiers accept\<close>

lemma cyclic_pred:
  assumes "t < sz"
  obtains s where "s < sz" "Suc s mod sz = t"
proof (cases t)
  case 0
  then show ?thesis using assms that [of "sz - 1"] by simp
next
  case (Suc m)
  then show ?thesis using assms that [of m] by simp
qed

text \<open>
  When two endpoints count as meeting: their nodes agree in the part that is compared and are joined, and
  then differ by a constant, so that the checksum over all endpoints is known.
\<close>

locale node_rule =
  fixes part :: "u64 \<Rightarrow> u64" and joined :: "u64 \<Rightarrow> u64 \<Rightarrow> bool" and c :: u64
  assumes joined_sym: "\<And>a b. joined a b \<Longrightarrow> joined b a"
    and joined_xor: "\<And>a b. part a = part b \<Longrightarrow> joined a b \<Longrightarrow> a XOR b = c"
begin

sublocale mates: pairing "partner node (\<lambda>i j. joined (f i) (f j)) (2 * sz)" sz for node :: "nat \<Rightarrow> bool \<times> u64" and f sz
  by (rule partner_pairing) (rule joined_sym)

text \<open>In a single cycle every endpoint has a partner.\<close>

lemma cycle_mates:
  fixes node :: "nat \<Rightarrow> bool \<times> u64"
  assumes "single_cycle (partner node (\<lambda>i j. joined (f i) (f j)) (2 * sz)) sz" "k < 2 * sz"
  shows "\<exists>j. partner node (\<lambda>i j. joined (f i) (f j)) (2 * sz) k = Some j"
proof -
  let ?m = "partner node (\<lambda>i j. joined (f i) (f j)) (2 * sz)"
  obtain ws where ws: "length ws = sz" "set (map (\<lambda>i. i div 2) ws) = {..<sz}"
    "\<And>t. t < sz \<Longrightarrow> ?m (ws ! t) = Some (opp (ws ! (Suc t mod sz)))"
    using assms(1) unfolding single_cycle_def by blast
  have "k div 2 \<in> set (map (\<lambda>i. i div 2) ws)" using assms(2) ws(2) by auto
  then obtain t where t: "t < sz" "ws ! t div 2 = k div 2" using ws(1) by (auto simp: in_set_conv_nth)
  show ?thesis
  proof (cases "k = ws ! t")
    case True
    then show ?thesis using ws(3) t(1) by blast
  next
    case False
    then have k: "k = opp (ws ! t)" using t(2) same_edge [of "ws ! t" k] by (auto simp: opp_swap)
    obtain s where s: "s < sz" "Suc s mod sz = t" using cyclic_pred [OF t(1)] .
    then have "?m (ws ! s) = Some k" using ws(3) k by simp
    moreover have "ws ! s < 2 * sz"
      using ws(1,2) s(1) by (metis (no_types, lifting) imageE lessThan_iff nth_mem set_map image_eqI
          less_mult_imp_div_less div_less_iff_less_mult mult.commute zero_less_numeral)
    ultimately show ?thesis using mates.mate_sym by blast
  qed
qed

end

text \<open>The partner of an endpoint in a bipartite graph: the only other endpoint at the same node on the same side.\<close>

definition side_mate :: "(u64 \<Rightarrow> u64) \<Rightarrow> (u64 \<Rightarrow> u64 \<Rightarrow> bool) \<Rightarrow> (u64 \<Rightarrow> u64 \<times> u64) \<Rightarrow> u64 list \<Rightarrow> nat \<Rightarrow> nat \<Rightarrow> nat option" where
  "side_mate part joined ep ns sz =
     partner (\<lambda>k. (even k, part (ends ep ns k))) (\<lambda>i j. joined (ends ep ns i) (ends ep ns j)) (2 * sz)"

lemma partner_cong:
  assumes "\<And>k. k < n \<Longrightarrow> f k = g k" "i < n"
  shows "partner node (\<lambda>i j. joined (f i) (f j)) n i = partner node (\<lambda>i j. joined (g i) (g j)) n i"
proof (cases "filter (\<lambda>k. k \<noteq> i \<and> node k = node i) [0..<n]")
  case (Cons j js)
  then have "j \<in> set (filter (\<lambda>k. k \<noteq> i \<and> node k = node i) [0..<n])" by simp
  then have "j < n" by simp
  then show ?thesis using Cons assms by (auto simp: partner_def split: list.splits)
qed (simp add: partner_def)

context node_rule
begin

lemma side_steps:
  assumes "loaded ep part msk x0 ns sz sz l"
  shows "mates.steps_along (\<lambda>k. (even k, part (ends ep ns k))) (ends ep ns) sz
    (match_step part joined (uvs l) (fold (close_ring part msk sz l) [0..<sz] (prev l)))"
  unfolding mates.steps_along_def
proof (intro allI impI)
  fix i
  assume i: "i < 2 * sz"
  let ?node = "\<lambda>k. (even k, part (ends ep ns k))"
  have us: "uvs l ! k = ends ep ns k" if "k < 2 * sz" for k using assms that by (simp add: loaded_def)
  have mate: "partner ?node (\<lambda>i j. joined (uvs l ! i) (uvs l ! j)) (2 * sz) i =
      partner ?node (\<lambda>i j. joined (ends ep ns i) (ends ep ns j)) (2 * sz) i"
    by (rule partner_cong [OF us i])
  have "?node k = ?node i \<longleftrightarrow> side_key ep part msk ns k = side_key ep part msk ns i \<and> part (uvs l ! k) = part (uvs l ! i)"
    if "k < 2 * sz" for k
    using us [OF that] us [OF i] by auto
  from match_step_partner [OF close_ring_nth [OF assms] i this, of joined]
  show "case mates.hop ?node (ends ep ns) sz i of
      None \<Rightarrow> \<exists>e. match_step part joined (uvs l) (fold (close_ring part msk sz l) [0..<sz] (prev l)) i = Some (Inl e)
    | Some i' \<Rightarrow> match_step part joined (uvs l) (fold (close_ring part msk sz l) [0..<sz] (prev l)) i = Some (Inr i')"
    unfolding mate mates.hop_def by (auto split: option.splits)
qed

lemma side_checksum:
  assumes "single_cycle (side_mate part joined ep ns sz) sz" "s < 2"
  shows "xorsum.F (\<lambda>m. ends ep ns (2 * m + s)) {..<sz} = (if odd (sz div 2) then c else 0)"
proof -
  note \<open>s < 2\<close>
  let ?mate = "side_mate part joined ep ns sz"
  define m where "m t = the (?mate (2 * t + s)) div 2" for t
  have m: "?mate (2 * t + s) = Some (2 * m t + s)" "m t < sz" "m t \<noteq> t"
    "part (ends ep ns (2 * m t + s)) = part (ends ep ns (2 * t + s))"
    "joined (ends ep ns (2 * t + s)) (ends ep ns (2 * m t + s))" if "t < sz" for t
  proof -
    have t: "2 * t + s < 2 * sz" using that \<open>s < 2\<close> by simp
    then obtain j where j: "?mate (2 * t + s) = Some j"
      using cycle_mates assms(1) unfolding side_mate_def by blast
    then have J: "{k. k < 2 * sz \<and> k \<noteq> 2 * t + s \<and> (even k, part (ends ep ns k)) = (even (2 * t + s), part (ends ep ns (2 * t + s)))} = {j}"
      "joined (ends ep ns (2 * t + s)) (ends ep ns j)" unfolding side_mate_def partner_Some_iff by blast+
    then have j': "j < 2 * sz" "j \<noteq> 2 * t + s" "even j = even s" "part (ends ep ns j) = part (ends ep ns (2 * t + s))"
      by auto
    have e: "j = 2 * m t + s" using j j'(3) \<open>s < 2\<close> unfolding m_def by (simp, cases s) (auto elim!: evenE oddE simp: less_Suc_eq)
    show "?mate (2 * t + s) = Some (2 * m t + s)" "m t < sz" "m t \<noteq> t"
      "part (ends ep ns (2 * m t + s)) = part (ends ep ns (2 * t + s))"
      "joined (ends ep ns (2 * t + s)) (ends ep ns (2 * m t + s))"
      using j j' J(2) by (auto simp: e [symmetric]) (auto simp: e)
  qed
  have "xorsum.F (\<lambda>m. ends ep ns (2 * m + s)) {..<sz} = (if odd (card {..<sz} div 2) then c else 0)"
  proof (rule xorsum_paired [where m = m])
    fix t
    assume "t \<in> {..<sz}"
    then have t: "t < sz" by simp
    have "?mate (2 * m t + s) = Some (2 * t + s)"
      using m(1) [OF t] t \<open>s < 2\<close> mates.mate_sym unfolding side_mate_def by simp
    then have "2 * t + s = 2 * m (m t) + s" using m(1) [OF m(2) [OF t]] by simp
    then show "m t \<in> {..<sz} \<and> m t \<noteq> t \<and> m (m t) = t" using m(2,3) [OF t] by simp
    show "ends ep ns (2 * t + s) XOR ends ep ns (2 * m t + s) = c"
      using joined_xor [OF m(4) [OF t, symmetric] m(5) [OF t]] .
  qed simp
  then show ?thesis by simp
qed

text \<open>The verifier of bipartite graphs ends, and accepts the ascending proofs whose edges form one cycle.\<close>

lemma bipartite_ends:
  assumes "0 < sz"
  shows "\<exists>r. bipartite_verify ep part joined x0 emask sz ns = Some r"
proof (cases "length ns = sz")
  case True
  show ?thesis
  proof (cases "try_fold (load_edge ep part (size_mask sz) emask ns) [0..<sz] (lists_new sz (size_mask sz) x0)")
    case (Inr l)
    then obtain r where "follow_cycle (match_step part joined (uvs l)
        (fold (close_ring part (size_mask sz) sz l) [0..<sz] (prev l))) sz = Some r"
      using mates.follow_cycle_ends [OF side_steps [OF loading [OF Inr]] assms] by blast
    then show ?thesis using True Inr by (simp add: bipartite_verify_def)
  qed (simp add: bipartite_verify_def True)
qed (simp add: bipartite_verify_def)

lemma bipartite_iff:
  assumes "0 < sz" "x0 = (if odd (sz div 2) then c else 0)"
  shows "bipartite_verify ep part joined x0 emask sz ns = Some (Inr ()) \<longleftrightarrow>
    length ns = sz \<and> nonces_ok emask ns \<and> single_cycle (side_mate part joined ep ns sz) sz"
proof (cases "length ns = sz \<and> nonces_ok emask ns")
  case True
  then obtain l where l: "try_fold (load_edge ep part (size_mask sz) emask ns) [0..<sz] (lists_new sz (size_mask sz) x0) = Inr l"
    using load_ok [of ep part "size_mask sz" emask ns] by blast
  have walk: "follow_cycle (match_step part joined (uvs l)
      (fold (close_ring part (size_mask sz) sz l) [0..<sz] (prev l))) sz = Some (Inr ()) \<longleftrightarrow>
      single_cycle (side_mate part joined ep ns sz) sz"
    unfolding side_mate_def by (rule mates.follow_cycle_iff [OF side_steps [OF loading [OF l]] assms(1)])
  have "xor0 l OR xor1 l = 0" if "single_cycle (side_mate part joined ep ns sz) sz"
    using side_checksum [OF that, of 0] side_checksum [OF that, of 1] loading [OF l] assms(2)
    by (simp add: loaded_def)
  then show ?thesis using True l walk by (auto simp: bipartite_verify_def Let_def)
next
  case False
  show ?thesis
  proof (cases "length ns = sz")
    case True
    then obtain e where "try_fold (load_edge ep part (size_mask sz) emask ns) [0..<sz] (lists_new sz (size_mask sz) x0) = Inl e"
      using False load_ok [of ep part "size_mask sz" emask ns "lists_new sz (size_mask sz) x0"] by (metis sum.exhaust)
    then show ?thesis using False True by (simp add: bipartite_verify_def Let_def)
  qed (simp add: bipartite_verify_def)
qed

end

interpretation cuckatoo: node_rule "drop_bit 1" "(\<noteq>)" 1
proof
  fix a b :: u64
  assume ab: "drop_bit 1 a = drop_bit 1 b" "a \<noteq> b"
  have high: "bit a (Suc m) = bit b (Suc m)" for m
    using arg_cong [OF ab(1), of "\<lambda>w. bit w m"] unfolding bit_drop_bit_eq by simp
  have low: "bit a 0 \<noteq> bit b 0"
  proof
    assume "bit a 0 = bit b 0"
    then have "bit a n = bit b n" for n using high by (cases n) auto
    then show False using ab(2) bit_eqI by blast
  qed
  show "a XOR b = 1"
  proof (rule bit_eqI)
    fix n
    show "bit (a XOR b) n \<longleftrightarrow> bit 1 n" using high low by (cases n) (auto simp: bit_xor_iff bit_1_iff)
  qed
qed auto

interpretation cuckaroo: node_rule "\<lambda>u. u" "\<lambda>_ _. True" 0
  by unfold_locales auto

subsection \<open>Cuckarooz\<close>

abbreviation z_key :: "(u64 \<Rightarrow> u64 \<times> u64) \<Rightarrow> u64 \<Rightarrow> u64 list \<Rightarrow> nat \<Rightarrow> nat" where
  "z_key ep msk ns k \<equiv> bucket msk (ends ep ns k)"

definition z_loaded :: "(u64 \<Rightarrow> u64 \<times> u64) \<Rightarrow> u64 \<Rightarrow> u64 list \<Rightarrow> nat \<Rightarrow> nat \<Rightarrow> z_lists \<Rightarrow> bool" where
  "z_loaded ep msk ns sz n l \<longleftrightarrow>
     length (z_uvs l) = 2 * sz \<and> length (z_prev l) = 2 * sz \<and> length (z_head l) = Suc (unat msk) \<and>
     (\<forall>k < 2 * n. z_uvs l ! k = ends ep ns k \<and> z_prev l ! k = latest (2 * sz) (z_key ep msk ns) (z_key ep msk ns k) k) \<and>
     (\<forall>b \<le> unat msk. z_head l ! b = latest (2 * sz) (z_key ep msk ns) b (2 * n)) \<and>
     xoruv l = xorsum.F (ends ep ns) {..<2 * n}"

lemma z_load_edge_loaded:
  assumes "z_loaded ep msk ns sz n l" "z_load_edge ep msk emask ns n l = Inr l'" "n < sz"
  shows "z_loaded ep msk ns sz (Suc n) l'"
proof -
  obtain u v where uv: "ep (ns ! n) = (u, v)" by fastforce
  note b = bucket_le [of msk]
  let ?bu = "bucket msk u" and ?bv = "bucket msk v"
  have l': "l' = \<lparr> z_uvs = (z_uvs l)[2 * n := u, 2 * n + 1 := v], z_head = (z_head l)[?bu := 2 * n, ?bv := 2 * n + 1],
      z_prev = (z_prev l)[2 * n := z_head l ! ?bu, 2 * n + 1 := (z_head l)[?bu := 2 * n] ! ?bv],
      xoruv = xoruv l XOR (u XOR v) \<rparr>"
    using assms(2) by (simp add: z_load_edge_def link_def uv rbind_Inr_iff)
  have x: "xoruv l' = xorsum.F (ends ep ns) {..<2 * Suc n}"
    using assms(1) by (simp add: l' z_loaded_def lessThan_Suc uv xor.assoc xor.commute xor.left_commute)
  have heads: "z_head l' ! c = latest (2 * sz) (z_key ep msk ns) c (2 * Suc n)" if "c \<le> unat msk" for c
    using assms(1,3) b [of u] b [of v] that by (simp add: l' z_loaded_def nth_list_update uv)
  have old: "z_uvs l' ! k = z_uvs l ! k" "z_prev l' ! k = z_prev l ! k" if "k < 2 * n" for k
    using that by (simp_all add: l')
  have new: "z_uvs l' ! (2 * n) = u" "z_uvs l' ! Suc (2 * n) = v" "z_prev l' ! (2 * n) = z_head l ! ?bu"
    "z_prev l' ! Suc (2 * n) = (z_head l)[?bu := 2 * n] ! ?bv"
    using assms(1,3) by (simp_all add: l' z_loaded_def)
  have "z_uvs l' ! k = ends ep ns k \<and> z_prev l' ! k = latest (2 * sz) (z_key ep msk ns) (z_key ep msk ns k) k"
    if "k < 2 * Suc n" for k
    using that unfolding less_two_Suc
  proof (elim disjE)
    assume "k < 2 * n"
    then show ?thesis using assms(1) old by (simp add: z_loaded_def)
  next
    assume "k = 2 * n"
    then show ?thesis using assms(1) new b [of u] by (simp add: z_loaded_def uv)
  next
    assume "k = Suc (2 * n)"
    then show ?thesis using assms(1) new b [of u] b [of v] by (simp add: z_loaded_def uv nth_list_update)
  qed
  then show ?thesis using assms(1) x heads unfolding z_loaded_def by (simp add: l')
qed

abbreviation z_new :: "nat \<Rightarrow> u64 \<Rightarrow> z_lists" where
  "z_new sz msk \<equiv> \<lparr> z_uvs = replicate (2 * sz) 0, z_head = replicate (1 + unat msk) (2 * sz),
     z_prev = replicate (2 * sz) 0, xoruv = 0 \<rparr>"

lemma z_loading:
  assumes "try_fold (z_load_edge ep msk emask ns) [0..<sz] (z_new sz msk) = Inr l"
  shows "z_loaded ep msk ns sz sz l"
proof (rule try_fold_upt [OF assms, where P = "z_loaded ep msk ns sz"])
  show "z_loaded ep msk ns sz 0 (z_new sz msk)" by (simp add: z_loaded_def del: replicate_Suc)
qed (rule z_load_edge_loaded)

lemma z_load_ok:
  "(\<exists>l. try_fold (z_load_edge ep msk emask ns) [0..<length ns] s = Inr l) \<longleftrightarrow> nonces_ok emask ns"
  unfolding check_nonces [symmetric]
  by (subst try_fold_checked [where chk = "check_nonce emask ns" and
        g = "\<lambda>n l. projr (z_load_edge ep msk emask ns n l)"])
    (auto simp: z_load_edge_def rbind_def link_def split: sum.splits prod.splits)

lemma z_close_ring_nth:
  assumes "z_loaded ep msk ns sz sz l"
  shows "is_ring (z_key ep msk ns) (2 * sz) (fold (z_close_ring msk sz l) [0..<2 * sz] (z_prev l))"
proof -
  let ?key = "z_key ep msk ns"
  define ring where "ring k = (let p = latest (2 * sz) ?key (?key k) k in if p = 2 * sz then latest (2 * sz) ?key (?key k) (2 * sz) else p)" for k
  define kept where "kept n pr \<longleftrightarrow> length pr = 2 * sz \<and> (\<forall>k < n. pr ! k = ring k) \<and>
    (\<forall>k < 2 * sz. n \<le> k \<longrightarrow> pr ! k = z_prev l ! k)" for n pr
  have ring: "ring k = (if z_prev l ! k = 2 * sz then z_head l ! bucket msk (z_uvs l ! k) else z_prev l ! k)" if "k < 2 * sz" for k
    using assms that bucket_le [of msk] by (simp add: z_loaded_def ring_def Let_def)
  have "n \<le> 2 * sz \<Longrightarrow> kept n (fold (z_close_ring msk sz l) [0..<n] (z_prev l))" for n
  proof (induction n)
    case 0
    then show ?case using assms by (simp add: kept_def z_loaded_def)
  next
    case (Suc n)
    define pr where "pr = fold (z_close_ring msk sz l) [0..<n] (z_prev l)"
    have "kept n pr" using Suc by (simp add: pr_def)
    then have "kept (Suc n) (z_close_ring msk sz l n pr)"
      using Suc.prems ring [of n] by (auto simp: kept_def z_close_ring_def nth_list_update less_Suc_eq)
    then show ?case by (simp add: pr_def)
  qed
  from this [OF order_refl] show ?thesis unfolding kept_def is_ring_def ring_def by blast
qed

definition z_mate :: "(u64 \<Rightarrow> u64 \<times> u64) \<Rightarrow> u64 list \<Rightarrow> nat \<Rightarrow> nat \<Rightarrow> nat option" where
  "z_mate ep ns sz = partner (\<lambda>k. (True, ends ep ns k)) (\<lambda>i j. True) (2 * sz)"

lemma z_steps:
  assumes "z_loaded ep msk ns sz sz l"
  shows "cuckaroo.mates.steps_along (\<lambda>k. (True, ends ep ns k)) sz
    (match_step (\<lambda>u. u) (\<lambda>_ _. True) (z_uvs l) (fold (z_close_ring msk sz l) [0..<2 * sz] (z_prev l)))"
  unfolding cuckaroo.mates.steps_along_def
proof (intro allI impI)
  fix i
  assume i: "i < 2 * sz"
  let ?node = "\<lambda>k. (True, ends ep ns k)" and ?pr = "fold (z_close_ring msk sz l) [0..<2 * sz] (z_prev l)"
  have us: "z_uvs l ! k = ends ep ns k" if "k < 2 * sz" for k using assms that by (simp add: z_loaded_def)
  have "?node k = ?node i \<longleftrightarrow> z_key ep msk ns k = z_key ep msk ns i \<and> z_uvs l ! k = z_uvs l ! i" if "k < 2 * sz" for k
    using us [OF that] us [OF i] by auto
  from match_step_partner [OF z_close_ring_nth [OF assms] i, of ?node "\<lambda>u. u", OF this, of "\<lambda>_ _. True"]
  show "case cuckaroo.mates.hop ?node sz i of
      None \<Rightarrow> \<exists>e. match_step (\<lambda>u. u) (\<lambda>_ _. True) (z_uvs l) ?pr i = Some (Inl e)
    | Some i' \<Rightarrow> match_step (\<lambda>u. u) (\<lambda>_ _. True) (z_uvs l) ?pr i = Some (Inr i')"
    unfolding cuckaroo.mates.hop_def by (auto split: option.splits)
qed

lemma z_checksum:
  assumes "single_cycle (z_mate ep ns sz) sz"
  shows "xorsum.F (ends ep ns) {..<2 * sz} = 0"
proof -
  define m where "m k = the (z_mate ep ns sz k)" for k
  have m: "z_mate ep ns sz k = Some (m k)" if "k < 2 * sz" for k
    using cuckaroo.cycle_mates [of "\<lambda>k. (True, ends ep ns k)" sz k] assms that
    by (auto simp: z_mate_def m_def)
  have "xorsum.F (ends ep ns) {..<2 * sz} = (if odd (card {..<2 * sz} div 2) then 0 else 0)"
  proof (rule xorsum_paired [where m = m])
    fix k
    assume "k \<in> {..<2 * sz}"
    then have k: "k < 2 * sz" by simp
    note mk = m [OF k, unfolded z_mate_def]
    have b: "m k < 2 * sz" "m k \<noteq> k" "partner (\<lambda>k. (True, ends ep ns k)) (\<lambda>i j. True) (2 * sz) (m k) = Some k"
      using cuckaroo.mates.mate_bound [OF k mk] cuckaroo.mates.mate_other [OF k mk] cuckaroo.mates.mate_sym [OF k mk] .
    then show "m k \<in> {..<2 * sz} \<and> m k \<noteq> k \<and> m (m k) = k"
      using m [OF b(1), unfolded z_mate_def] by simp
    have "{k'. k' < 2 * sz \<and> k' \<noteq> k \<and> (True, ends ep ns k') = (True, ends ep ns k)} = {m k}"
      using mk unfolding partner_Some_iff by blast
    then have "ends ep ns (m k) = ends ep ns k" by blast
    then show "ends ep ns k XOR ends ep ns (m k) = 0" by simp
  qed simp
  then show ?thesis by simp
qed

lemma z_ends:
  assumes "0 < sz"
  shows "\<exists>r. z_verify ep emask psize sz ns = Some r"
proof (cases "length ns = sz")
  case True
  show ?thesis
  proof (cases "try_fold (z_load_edge ep (size_mask sz) emask ns) [0..<sz] (z_new sz (size_mask sz))")
    case (Inr l)
    then obtain r where "follow_cycle (match_step (\<lambda>u. u) (\<lambda>_ _. True) (z_uvs l)
        (fold (z_close_ring (size_mask sz) sz l) [0..<2 * sz] (z_prev l))) psize = Some r"
      using cuckaroo.mates.follow_cycle_ends [OF z_steps [OF z_loading [OF Inr]] assms] by blast
    then show ?thesis using True Inr by (simp add: z_verify_def)
  qed (simp add: z_verify_def True)
qed (simp add: z_verify_def)

lemma z_iff:
  assumes "0 < sz"
  shows "z_verify ep emask sz sz ns = Some (Inr ()) \<longleftrightarrow>
    length ns = sz \<and> nonces_ok emask ns \<and> single_cycle (z_mate ep ns sz) sz"
proof (cases "length ns = sz")
  case len: True
  show ?thesis
  proof (cases "try_fold (z_load_edge ep (size_mask sz) emask ns) [0..<sz] (z_new sz (size_mask sz))")
    case (Inl e)
    then have "\<not> nonces_ok emask ns" using z_load_ok [of ep "size_mask sz" emask ns "z_new sz (size_mask sz)"] len by auto
    then show ?thesis using len Inl by (simp add: z_verify_def)
  next
    case (Inr l)
    then have ok: "nonces_ok emask ns" using z_load_ok [of ep "size_mask sz" emask ns "z_new sz (size_mask sz)"] len by auto
    have walk: "follow_cycle (match_step (\<lambda>u. u) (\<lambda>_ _. True) (z_uvs l)
        (fold (z_close_ring (size_mask sz) sz l) [0..<2 * sz] (z_prev l))) sz = Some (Inr ()) \<longleftrightarrow>
        single_cycle (z_mate ep ns sz) sz"
      unfolding z_mate_def by (rule cuckaroo.mates.follow_cycle_iff [OF z_steps [OF z_loading [OF Inr]] assms])
    have "xoruv l = 0" if "single_cycle (z_mate ep ns sz) sz"
      using z_checksum [OF that] z_loading [OF Inr] by (simp add: z_loaded_def)
    then show ?thesis using len ok walk Inr by (auto simp: z_verify_def Let_def)
  qed
qed (simp add: z_verify_def)

subsection \<open>Cuckaroom\<close>

text \<open>The inner loop finds the last edge that starts where edge \<open>i\<close> ends.\<close>

lemma mono_scan_latest:
  assumes "\<And>k. k < sz \<Longrightarrow> pr ! k = latest sz (\<lambda>k. bucket msk (fr k)) (bucket msk (fr k)) k"
    and "\<And>k. k < sz \<Longrightarrow> same k \<longleftrightarrow> fr k = target" "m \<le> sz"
  shows "mono_scan same pr sz (latest sz (\<lambda>k. bucket msk (fr k)) (bucket msk target) m) =
    Some (let k = latest sz fr target m in if k = sz then Inl (Verification ''cycle dead ends'') else Inr k)"
  using assms(3)
proof (induction m)
  case 0
  then show ?case by (subst mono_scan.simps) simp
next
  case (Suc m)
  then have m: "m < sz" by simp
  show ?case
  proof (cases "bucket msk (fr m) = bucket msk target")
    case True
    then have "mono_scan same pr sz m = (if fr m = target then Some (Inr m)
        else mono_scan same pr sz (latest sz (\<lambda>k. bucket msk (fr k)) (bucket msk target) m))"
      using assms(1,2) [OF m] m by (subst mono_scan.simps) simp
    then show ?thesis using Suc True m by simp
  next
    case False
    then have "fr m \<noteq> target" by auto
    then show ?thesis using Suc False by simp
  qed
qed

text \<open>The outer loop marks the edges it passes, so it ends; the edges it passed are distinct.\<close>

definition unvisited :: "bool list \<Rightarrow> nat" where
  "unvisited vs = length (filter Not vs)"

lemma unvisited_mark: "i < length vs \<Longrightarrow> \<not> vs ! i \<Longrightarrow> unvisited (vs[i := True]) < unvisited vs"
  unfolding unvisited_def
  by (induction vs arbitrary: i) (auto simp: nth_Cons split: nat.splits)

text \<open>\<open>trail step xs\<close>: each step leads from one edge of \<open>xs\<close> to the next, and from the last one to edge 0.\<close>

fun trail :: "(nat \<Rightarrow> (pow_error + nat) option) \<Rightarrow> nat list \<Rightarrow> bool" where
  "trail step [] \<longleftrightarrow> False"
| "trail step [x] \<longleftrightarrow> step x = Some (Inr 0)"
| "trail step (x # y # zs) \<longleftrightarrow> step x = Some (Inr y) \<and> y \<noteq> 0 \<and> trail step (y # zs)"

lemma mono_follow_result:
  assumes "\<And>i. i < sz \<Longrightarrow> \<exists>r. step i = Some r \<and> (\<forall>k. r = Inr k \<longrightarrow> k < sz)" "length vs = sz" "i < sz"
  shows "(\<exists>e. mono_follow step vs n i = Some (Inl e)) \<or>
    (\<exists>xs. mono_follow step vs n i = Some (Inr (n + length xs)) \<and> trail step xs \<and> hd xs = i \<and>
       distinct xs \<and> set xs \<subseteq> {..<sz} \<and> (\<forall>x \<in> set xs. \<not> vs ! x))"
  using assms(2,3)
proof (induction "unvisited vs" arbitrary: vs n i rule: less_induct)
  case less
  obtain r where r: "step i = Some r" "\<And>k. r = Inr k \<Longrightarrow> k < sz" using assms(1) less.prems(2) by blast
  consider "vs ! i" | (err) e where "\<not> vs ! i" "r = Inl e" | (home) "\<not> vs ! i" "r = Inr 0" | (on) k where "\<not> vs ! i" "r = Inr k" "k \<noteq> 0"
    by (cases r) auto
  then show ?case
  proof cases
    case 1
    then show ?thesis by (subst mono_follow.simps) simp
  next
    case err
    then show ?thesis using r by (subst mono_follow.simps) simp
  next
    case home
    then have "mono_follow step vs n i = Some (Inr (n + length [i]))" using r by (subst mono_follow.simps) simp
    then show ?thesis using home r less.prems by (intro disjI2 exI [of _ "[i]"]) simp
  next
    case on
    have k: "k < sz" using r(2) on(2) by simp
    have eq: "mono_follow step vs n i = mono_follow step (vs[i := True]) (n + 1) k"
      using r on by (subst mono_follow.simps) simp
    have "unvisited (vs[i := True]) < unvisited vs" using unvisited_mark less.prems on(1) by simp
    from less.hyps [OF this, of k "n + 1"]
    have "(\<exists>e. mono_follow step vs n i = Some (Inl e)) \<or>
      (\<exists>xs. mono_follow step vs n i = Some (Inr (n + 1 + length xs)) \<and> trail step xs \<and> hd xs = k \<and>
        distinct xs \<and> set xs \<subseteq> {..<sz} \<and> (\<forall>x \<in> set xs. \<not> vs[i := True] ! x))"
      using k less.prems(1) unfolding eq by simp
    then show ?thesis
    proof (elim disjE exE conjE)
      fix xs
      assume xs: "mono_follow step vs n i = Some (Inr (n + 1 + length xs))" "trail step xs" "hd xs = k" "distinct xs"
        "set xs \<subseteq> {..<sz}" "\<forall>x \<in> set xs. \<not> vs[i := True] ! x"
      then obtain ys where ys: "xs = k # ys" by (cases xs) auto
      have i: "i \<notin> set xs" using xs(6) less.prems by auto
      then have "\<forall>x \<in> set xs. \<not> vs ! x" using xs(6) by (metis nth_list_update_neq)
      then show ?thesis using xs i ys r(1) on less.prems by (intro disjI2 exI [of _ "i # xs"]) auto
    qed blast
  qed
qed

lemma mono_follow_trail:
  assumes "trail step xs" "distinct xs" "set xs \<subseteq> {..<length vs}" "\<forall>x \<in> set xs. \<not> vs ! x"
  shows "mono_follow step vs n (hd xs) = Some (Inr (n + length xs))"
  using assms
proof (induction step xs arbitrary: vs n rule: trail.induct)
  case (2 step x)
  then show ?case by (subst mono_follow.simps) simp
next
  case (3 step x y zs)
  have "mono_follow step vs n x = mono_follow step (vs[x := True]) (n + 1) y"
    using "3.prems" by (subst mono_follow.simps) simp
  moreover have "\<forall>z \<in> set (y # zs). \<not> vs[x := True] ! z"
  proof
    fix z
    assume "z \<in> set (y # zs)"
    then show "\<not> vs[x := True] ! z" using "3.prems"(2,4) by (cases "z = x") auto
  qed
  then have "mono_follow step (vs[x := True]) (n + 1) y = Some (Inr (n + 1 + length (y # zs)))"
    using "3.IH" [of "vs[x := True]" "n + 1"] "3.prems" by simp
  ultimately show ?case by simp
qed simp

text \<open>The edges form one directed cycle: they start at pairwise distinct nodes, and a walk through all of them
  ends each edge where the next one starts.\<close>

definition directed_cycle :: "(u64 \<Rightarrow> u64 \<times> u64) \<Rightarrow> u64 list \<Rightarrow> nat \<Rightarrow> bool" where
  "directed_cycle ep ns sz \<longleftrightarrow> inj_on (\<lambda>k. fst (ep (ns ! k))) {..<sz} \<and>
     (\<exists>ws. length ws = sz \<and> ws ! 0 = 0 \<and> set ws = {..<sz} \<and>
        (\<forall>t < sz. snd (ep (ns ! (ws ! t))) = fst (ep (ns ! (ws ! (Suc t mod sz))))))"

lemma trail_nth:
  "trail step xs \<longleftrightarrow> xs \<noteq> [] \<and> (\<forall>t < length xs. step (xs ! t) = Some (Inr ((xs @ [0]) ! Suc t))) \<and>
     (\<forall>t < length xs. 0 < t \<longrightarrow> xs ! t \<noteq> 0)"
proof (induction step xs rule: trail.induct)
  case (3 step x y zs)
  then show ?case by (auto simp: All_less_Suc2 nth_Cons' simp del: upt_Suc)
qed auto

definition mono_loaded :: "(u64 \<Rightarrow> u64 \<times> u64) \<Rightarrow> u64 \<Rightarrow> u64 list \<Rightarrow> nat \<Rightarrow> nat \<Rightarrow> mono_lists \<Rightarrow> bool" where
  "mono_loaded ep msk ns sz n l \<longleftrightarrow>
     length (from_nodes l) = sz \<and> length (to_nodes l) = sz \<and> length (mono_prev l) = sz \<and>
     length (mono_head l) = Suc (unat msk) \<and>
     (\<forall>k < n. from_nodes l ! k = fst (ep (ns ! k)) \<and> to_nodes l ! k = snd (ep (ns ! k)) \<and>
        mono_prev l ! k = latest sz (\<lambda>k. bucket msk (fst (ep (ns ! k)))) (bucket msk (fst (ep (ns ! k)))) k) \<and>
     (\<forall>b \<le> unat msk. mono_head l ! b = latest sz (\<lambda>k. bucket msk (fst (ep (ns ! k)))) b n) \<and>
     xor_from l = xorsum.F (\<lambda>k. fst (ep (ns ! k))) {..<n} \<and> xor_to l = xorsum.F (\<lambda>k. snd (ep (ns ! k))) {..<n}"

abbreviation mono_new :: "nat \<Rightarrow> u64 \<Rightarrow> mono_lists" where
  "mono_new sz msk \<equiv> \<lparr> from_nodes = replicate sz 0, to_nodes = replicate sz 0, mono_head = replicate (1 + unat msk) sz,
     mono_prev = replicate sz 0, xor_from = 0, xor_to = 0 \<rparr>"

lemma mono_loading:
  assumes "try_fold (mono_load_edge ep msk emask ns) [0..<sz] (mono_new sz msk) = Inr l"
  shows "mono_loaded ep msk ns sz sz l"
proof (rule try_fold_upt [OF assms, where P = "mono_loaded ep msk ns sz"])
  show "mono_loaded ep msk ns sz 0 (mono_new sz msk)" by (simp add: mono_loaded_def del: replicate_Suc)
next
  fix n l l'
  assume a: "n < sz" "mono_loaded ep msk ns sz n l" "mono_load_edge ep msk emask ns n l = Inr l'"
  obtain u v where uv: "ep (ns ! n) = (u, v)" by fastforce
  have l': "l' = \<lparr> from_nodes = (from_nodes l)[n := u], to_nodes = (to_nodes l)[n := v],
      mono_head = (mono_head l)[bucket msk u := n], mono_prev = (mono_prev l)[n := mono_head l ! bucket msk u],
      xor_from = xor_from l XOR u, xor_to = xor_to l XOR v \<rparr>"
    using a(3) by (simp add: mono_load_edge_def link_def uv rbind_Inr_iff)
  have "from_nodes l' ! k = fst (ep (ns ! k)) \<and> to_nodes l' ! k = snd (ep (ns ! k)) \<and>
      mono_prev l' ! k = latest sz (\<lambda>k. bucket msk (fst (ep (ns ! k)))) (bucket msk (fst (ep (ns ! k)))) k"
    if "k < Suc n" for k
    using a(1,2) bucket_le [of msk u] that unfolding mono_loaded_def
    by (cases "k = n") (simp_all add: l' uv)
  moreover have "mono_head l' ! b = latest sz (\<lambda>k. bucket msk (fst (ep (ns ! k)))) b (Suc n)" if "b \<le> unat msk" for b
    using a(1,2) that unfolding mono_loaded_def by (simp add: l' uv nth_list_update)
  ultimately show "mono_loaded ep msk ns sz (Suc n) l'"
    using a(1,2) unfolding mono_loaded_def by (simp add: l' lessThan_Suc uv xor.commute)
qed

lemma mono_load_ok:
  "(\<exists>l. try_fold (mono_load_edge ep msk emask ns) [0..<length ns] s = Inr l) \<longleftrightarrow> nonces_ok emask ns"
  unfolding check_nonces [symmetric]
  by (subst try_fold_checked [where chk = "check_nonce emask ns" and
        g = "\<lambda>n l. projr (mono_load_edge ep msk emask ns n l)"])
    (auto simp: mono_load_edge_def rbind_def link_def split: sum.splits prod.splits)

abbreviation mono_step :: "u64 \<Rightarrow> nat \<Rightarrow> mono_lists \<Rightarrow> nat \<Rightarrow> (pow_error + nat) option" where
  "mono_step msk sz l i \<equiv> mono_scan (\<lambda>k. from_nodes l ! k = to_nodes l ! i) (mono_prev l) sz
     (mono_head l ! bucket msk (to_nodes l ! i))"

lemma mono_step_eq:
  assumes "mono_loaded ep msk ns sz sz l" "i < sz"
  shows "mono_step msk sz l i = Some (let k = latest sz (\<lambda>k. fst (ep (ns ! k))) (snd (ep (ns ! i))) sz
    in if k = sz then Inl (Verification ''cycle dead ends'') else Inr k)"
proof -
  have to: "to_nodes l ! i = snd (ep (ns ! i))" using assms by (simp add: mono_loaded_def)
  have "mono_head l ! bucket msk (to_nodes l ! i) =
      latest sz (\<lambda>k. bucket msk (fst (ep (ns ! k)))) (bucket msk (snd (ep (ns ! i)))) sz"
    using assms(1) bucket_le [of msk] by (simp add: mono_loaded_def to)
  then show ?thesis
    using assms(1) by (subst mono_scan_latest [where fr = "\<lambda>k. fst (ep (ns ! k))" and target = "snd (ep (ns ! i))", symmetric])
      (auto simp: mono_loaded_def to)
qed

lemma latest_eq_iff:
  "inj_on key {..<m} \<Longrightarrow> k < m \<Longrightarrow> latest nil key (key k) m = k"
  by (cases rule: latest_cases [of nil key "key k" m]) (auto simp: inj_on_def)

lemma latest_unreached:
  assumes "a < b" "b < m" "key a = key b" "a \<noteq> nil"
  shows "latest nil key x m \<noteq> a"
proof (cases rule: latest_cases [of nil key x m])
  case none
  then show ?thesis using assms(4) by simp
next
  case (some y)
  then show ?thesis using assms latest_ge [of b m key x nil] by auto
qed

lemma xorsum_list: "distinct xs \<Longrightarrow> xorsum.F f (set xs) = foldr (XOR) (map f xs) 0"
  by (induction xs) auto

lemma append_hd_nth: "xs ! 0 = x \<Longrightarrow> t < length xs \<Longrightarrow> (xs @ [x]) ! Suc t = xs ! (Suc t mod length xs)"
  by (cases "Suc t = length xs") (auto simp: nth_append)

lemma directed_cycle_checksum:
  assumes "directed_cycle ep ns sz"
  shows "xorsum.F (\<lambda>k. fst (ep (ns ! k))) {..<sz} = xorsum.F (\<lambda>k. snd (ep (ns ! k))) {..<sz}"
proof -
  obtain ws where ws: "length ws = sz" "set ws = {..<sz}"
    "\<And>t. t < sz \<Longrightarrow> snd (ep (ns ! (ws ! t))) = fst (ep (ns ! (ws ! (Suc t mod sz))))"
    using assms unfolding directed_cycle_def by blast
  have d: "distinct ws" using ws(1,2) by (intro card_distinct) simp
  have "map (\<lambda>k. snd (ep (ns ! k))) ws = map (\<lambda>k. fst (ep (ns ! k))) (rotate1 ws)"
    by (rule nth_equalityI) (use ws(1,3) in \<open>auto simp: nth_rotate1\<close>)
  then have "foldr (XOR) (map (\<lambda>k. fst (ep (ns ! k))) (rotate1 ws)) 0 = foldr (XOR) (map (\<lambda>k. snd (ep (ns ! k))) ws) 0"
    by (simp only:)
  moreover have "distinct (rotate1 ws)" "set (rotate1 ws) = {..<sz}" using d ws(2) by simp_all
  ultimately show ?thesis using xorsum_list [OF d] xorsum_list [of "rotate1 ws"] unfolding ws(2) by metis
qed

text \<open>The edges of a walk of the verifier that takes in all edges.\<close>

lemma trail_directed_cycle:
  assumes "mono_loaded ep msk ns sz sz l" "trail (mono_step msk sz l) xs" "hd xs = 0" "distinct xs"
    "set xs \<subseteq> {..<sz}" "length xs = sz"
  shows "directed_cycle ep ns sz"
proof -
  let ?fr = "\<lambda>k. fst (ep (ns ! k))" and ?to = "\<lambda>k. snd (ep (ns ! k))"
  have xs: "xs \<noteq> []" "xs ! 0 = 0" using assms(2,3) by (auto simp: trail_nth hd_conv_nth)
  have set: "set xs = {..<sz}" using assms(4-6) by (simp add: card_subset_eq distinct_card)
  have nxt: "latest sz ?fr (?to (xs ! t)) sz = xs ! (Suc t mod sz)" "xs ! (Suc t mod sz) < sz" if "t < sz" for t
  proof -
    have "xs ! t < sz" "xs ! (Suc t mod sz) < sz" using that assms(5,6) nth_mem [of _ xs] by (auto simp: subset_iff)
    then show "latest sz ?fr (?to (xs ! t)) sz = xs ! (Suc t mod sz)" "xs ! (Suc t mod sz) < sz"
      using assms(2,6) that mono_step_eq [OF assms(1), of "xs ! t"] append_hd_nth [OF xs(2), of t]
      by (auto simp: trail_nth Let_def split: if_splits)
  qed
  have "?to (xs ! t) = ?fr (xs ! (Suc t mod sz))" if "t < sz" for t
    using nxt [OF that] by (cases rule: latest_cases [of sz ?fr "?to (xs ! t)" sz]) auto
  moreover have "?fr a \<noteq> ?fr b" if "a < b" "b < sz" for a b
  proof
    assume eq: "?fr a = ?fr b"
    have "a \<in> set xs" using set that by simp
    then obtain s where s: "s < sz" "xs ! s = a" using assms(6) by (auto simp: in_set_conv_nth)
    obtain t where "t < sz" "Suc t mod sz = s" using cyclic_pred [OF s(1)] .
    then show False using nxt(1) [of t] latest_unreached [OF that eq, of sz "?to (xs ! t)"] s that by simp
  qed
  then have "inj_on ?fr {..<sz}" by (intro linorder_inj_onI) auto
  ultimately show ?thesis unfolding directed_cycle_def using set xs(2) assms(6) by blast
qed

lemma directed_cycle_trail:
  assumes "mono_loaded ep msk ns sz sz l" "directed_cycle ep ns sz" "0 < sz"
  shows "\<exists>xs. trail (mono_step msk sz l) xs \<and> hd xs = 0 \<and> distinct xs \<and> set xs \<subseteq> {..<sz} \<and> length xs = sz"
proof -
  let ?fr = "\<lambda>k. fst (ep (ns ! k))"
  obtain ws where ws: "inj_on ?fr {..<sz}" "length ws = sz" "ws ! 0 = 0" "set ws = {..<sz}"
    "\<And>t. t < sz \<Longrightarrow> snd (ep (ns ! (ws ! t))) = ?fr (ws ! (Suc t mod sz))"
    using assms(2) unfolding directed_cycle_def by blast
  have d: "distinct ws" using ws(2,4) by (intro card_distinct) simp
  have bd: "ws ! t < sz" if "t < sz" for t using ws(2,4) that nth_mem [of t ws] by simp
  have "mono_step msk sz l (ws ! t) = Some (Inr ((ws @ [0]) ! Suc t))" if "t < sz" for t
  proof -
    have "ws ! (Suc t mod sz) < sz" using bd that by simp
    then show ?thesis
      using mono_step_eq [OF assms(1) bd [OF that]] ws(2,5) that latest_eq_iff [OF ws(1)] append_hd_nth [OF ws(3)]
      by simp
  qed
  moreover have "ws ! t \<noteq> 0" if "t < sz" "0 < t" for t
    using nth_eq_iff_index_eq [OF d, of t 0] that ws(2,3) by auto
  moreover have "ws \<noteq> []" using ws(2) assms(3) by auto
  ultimately show ?thesis using ws(2-4) d by (intro exI [of _ ws]) (simp add: trail_nth hd_conv_nth)
qed

lemma mono_steps_defined:
  assumes "mono_loaded ep msk ns sz sz l" "i < sz"
  shows "\<exists>r. mono_step msk sz l i = Some r \<and> (\<forall>k. r = Inr k \<longrightarrow> k < sz)"
  unfolding mono_step_eq [OF assms]
  by (cases rule: latest_cases [of sz "\<lambda>k. fst (ep (ns ! k))" "snd (ep (ns ! i))" sz]) (auto simp: Let_def)

lemma mono_walk:
  assumes "mono_loaded ep msk ns sz sz l" "0 < sz"
  shows "(\<exists>e. mono_follow (mono_step msk sz l) (replicate sz False) 0 0 = Some (Inl e)) \<or>
    (\<exists>xs. mono_follow (mono_step msk sz l) (replicate sz False) 0 0 = Some (Inr (length xs)) \<and>
       trail (mono_step msk sz l) xs \<and> hd xs = 0 \<and> distinct xs \<and> set xs \<subseteq> {..<sz})"
  using mono_follow_result [where step = "mono_step msk sz l" and vs = "replicate sz False" and n = 0 and i = 0,
      OF mono_steps_defined [OF assms(1)]] assms(2) by auto

lemma mono_ends:
  assumes "0 < sz"
  shows "\<exists>r. mono_verify ep emask sz ns = Some r"
proof (cases "length ns = sz")
  case True
  show ?thesis
  proof (cases "try_fold (mono_load_edge ep (size_mask sz) emask ns) [0..<sz] (mono_new sz (size_mask sz))")
    case (Inr l)
    obtain r where "mono_follow (mono_step (size_mask sz) sz l) (replicate sz False) 0 0 = Some r"
      using mono_walk [OF mono_loading [OF Inr] assms] by blast
    then show ?thesis using True Inr by (cases r) (simp_all add: mono_verify_def)
  qed (simp add: mono_verify_def True)
qed (simp add: mono_verify_def)

lemma mono_iff:
  assumes "0 < sz"
  shows "mono_verify ep emask sz ns = Some (Inr ()) \<longleftrightarrow> length ns = sz \<and> nonces_ok emask ns \<and> directed_cycle ep ns sz"
proof (cases "length ns = sz")
  case len: True
  show ?thesis
  proof (cases "try_fold (mono_load_edge ep (size_mask sz) emask ns) [0..<sz] (mono_new sz (size_mask sz))")
    case (Inl e)
    then have "\<not> nonces_ok emask ns" using mono_load_ok [of ep "size_mask sz" emask ns "mono_new sz (size_mask sz)"] len by auto
    then show ?thesis using len Inl by (simp add: mono_verify_def)
  next
    case (Inr l)
    note l = mono_loading [OF Inr]
    have ok: "nonces_ok emask ns" using mono_load_ok [of ep "size_mask sz" emask ns "mono_new sz (size_mask sz)"] len Inr by auto
    have walk: "mono_follow (mono_step (size_mask sz) sz l) (replicate sz False) 0 0 = Some (Inr sz) \<longleftrightarrow> directed_cycle ep ns sz"
    proof
      assume "mono_follow (mono_step (size_mask sz) sz l) (replicate sz False) 0 0 = Some (Inr sz)"
      then show "directed_cycle ep ns sz"
        using mono_walk [OF l assms] trail_directed_cycle [OF l] by auto
    next
      assume "directed_cycle ep ns sz"
      from directed_cycle_trail [OF l this assms] obtain xs
        where "trail (mono_step (size_mask sz) sz l) xs" "hd xs = 0" "distinct xs" "set xs \<subseteq> {..<sz}" "length xs = sz" by blast
      then show "mono_follow (mono_step (size_mask sz) sz l) (replicate sz False) 0 0 = Some (Inr sz)"
        using mono_follow_trail [of "mono_step (size_mask sz) sz l" xs "replicate sz False" 0] by (auto simp: subset_iff)
    qed
    have "xor_from l = xor_to l" if "directed_cycle ep ns sz"
      using directed_cycle_checksum [OF that] l by (simp add: mono_loaded_def)
    then show ?thesis
      using len ok walk Inr by (auto simp: mono_verify_def Let_def split: option.splits sum.splits if_splits)
  qed
qed (simp add: mono_verify_def)


section \<open>Properties\<close>

lemma proofsize_pos: "0 < proofsize ct"
  by (cases ct) (simp_all add: proofsize_def proofsize_const_def automated_testing_proof_size_def user_testing_proof_size_def)

lemma cuckatoo_start: "(of_nat (proofsize ct) div 2 AND 1 :: u64) = (if odd (proofsize ct div 2) then 1 else 0)"
  by (cases ct) (simp_all add: proofsize_def proofsize_const_def automated_testing_proof_size_def user_testing_proof_size_def)

text \<open>C36: The Cuckatoo verifier accepts a proof if and only if it has the chain's number of nonces, they are
  ascending edge indices of the graph, and their edges form one single cycle: walking from the first endpoint,
  every endpoint meets exactly one other one on its side whose node agrees in all but the last bit and differs in
  that one, and the walk closes after it has taken in every edge once. The checksum over the endpoints rejects
  none of these.\<close>

theorem cuckatoo_verify_iff:
  "cuckatoo_verify ct p pf = Some (Inr ()) \<longleftrightarrow>
     length (nonces pf) = proofsize ct \<and> nonces_ok (edge_mask p) (nonces pf) \<and>
     single_cycle (side_mate (drop_bit 1) (\<noteq>) (\<lambda>e. (sipnode p e 0, sipnode p e 1)) (nonces pf) (proofsize ct)) (proofsize ct)"
  unfolding cuckatoo_verify_def by (rule cuckatoo.bipartite_iff [OF proofsize_pos cuckatoo_start])

text \<open>C37: The three Cuckaroo variants that are still needed to check old headers and compare whole nodes accept
  exactly the ascending proofs whose edges form one cycle: an undirected one in the bipartite graph
  (Cuckaroo) or in one set of nodes (Cuckarooz, with the proof size of its context that of the proof), and a
  directed one (Cuckaroom).\<close>

theorem cuckaroo_verify_iff:
  "(cuckaroo_verify ct p pf = Some (Inr ()) \<longleftrightarrow>
      length (nonces pf) = proofsize ct \<and> nonces_ok (edge_mask p) (nonces pf) \<and>
      single_cycle (side_mate (\<lambda>u. u) (\<lambda>_ _. True) (cuckaroo_endpoints 21 False p) (nonces pf) (proofsize ct)) (proofsize ct)) \<and>
   (cuckaroom_verify ct p pf = Some (Inr ()) \<longleftrightarrow>
      length (nonces pf) = proofsize ct \<and> nonces_ok (edge_mask p) (nonces pf) \<and>
      directed_cycle (cuckaroo_endpoints 21 True p) (nonces pf) (proofsize ct)) \<and>
   (cuckarooz_verify ct (p \<lparr> proof_size := proofsize ct \<rparr>) pf = Some (Inr ()) \<longleftrightarrow>
      length (nonces pf) = proofsize ct \<and> nonces_ok (edge_mask p) (nonces pf) \<and>
      single_cycle (z_mate (cuckaroo_endpoints 21 True p) (nonces pf) (proofsize ct)) (proofsize ct))"
proof (intro conjI)
  have "cuckaroo_endpoints 21 True (p \<lparr> proof_size := proofsize ct \<rparr>) = cuckaroo_endpoints 21 True p"
    by (simp add: cuckaroo_endpoints_def fun_eq_iff)
  then show "cuckarooz_verify ct (p \<lparr> proof_size := proofsize ct \<rparr>) pf = Some (Inr ()) \<longleftrightarrow>
      length (nonces pf) = proofsize ct \<and> nonces_ok (edge_mask p) (nonces pf) \<and>
      single_cycle (z_mate (cuckaroo_endpoints 21 True p) (nonces pf) (proofsize ct)) (proofsize ct)"
    unfolding cuckarooz_verify_def using z_iff [OF proofsize_pos] by simp
  show "cuckaroom_verify ct p pf = Some (Inr ()) \<longleftrightarrow>
      length (nonces pf) = proofsize ct \<and> nonces_ok (edge_mask p) (nonces pf) \<and>
      directed_cycle (cuckaroo_endpoints 21 True p) (nonces pf) (proofsize ct)"
    unfolding cuckaroom_verify_def by (rule mono_iff [OF proofsize_pos])
  show "cuckaroo_verify ct p pf = Some (Inr ()) \<longleftrightarrow>
      length (nonces pf) = proofsize ct \<and> nonces_ok (edge_mask p) (nonces pf) \<and>
      single_cycle (side_mate (\<lambda>u. u) (\<lambda>_ _. True) (cuckaroo_endpoints 21 False p) (nonces pf) (proofsize ct)) (proofsize ct)"
    unfolding cuckaroo_verify_def by (rule cuckaroo.bipartite_iff [OF proofsize_pos]) simp
qed

text \<open>C38: Checking a proof ends, whatever the header, the nonces and the graph: every context but
  Cuckarood's returns a verdict.\<close>

theorem pow_verify_ends:
  "case ctx of CuckaroodContext _ \<Rightarrow> True | _ \<Rightarrow> \<exists>verdict. ctx_verify ct ctx pf = Some verdict"
  using cuckatoo.bipartite_ends [OF proofsize_pos] cuckaroo.bipartite_ends [OF proofsize_pos]
    mono_ends [OF proofsize_pos] z_ends [OF proofsize_pos]
  by (cases ctx) (simp_all add: ctx_verify_def cuckatoo_verify_def cuckaroo_verify_def cuckaroom_verify_def cuckarooz_verify_def)

text \<open>A graph in which the Cuckarood walk enters a loop that does not contain its start: edges 0 and 2 leave
  the same node as the reverse edge 1, and edges 1 and 2 have both endpoints in common.\<close>

definition rho_graph :: "u64 \<Rightarrow> u64 \<times> u64" where
  "rho_graph e = (if e = 0 then (1, 2) else if e \<le> 2 then (1, 1) else if e = 41 then (42, 41) else (e, e))"

definition rho_nonces :: "u64 list" where
  "rho_nonces = [0, 1, 2, 3, 4, 5, 6, 7, 8, 9, 10, 11, 12, 13, 14, 15, 16, 17, 18, 19, 20, 21,
     22, 23, 24, 25, 26, 27, 28, 29, 30, 31, 32, 33, 34, 35, 36, 37, 38, 39, 40, 41]"

lemma follow_loop:
  assumes "follow step n i = Some r" "i \<in> S" "\<And>i. i \<in> S \<Longrightarrow> \<exists>i' \<in> S. step i = Some (Inr i') \<and> i' \<noteq> 0"
  shows False
proof -
  have "step = step \<longrightarrow> i \<notin> S"
  proof (rule follow.raw_induct [where P = "\<lambda>st n i r. st = step \<longrightarrow> i \<notin> S", OF _ assms(1)])
    fix f st n i r
    assume IH: "\<And>st n i r. f st n i = Some r \<Longrightarrow> st = step \<longrightarrow> i \<notin> S"
      and r: "(case st i of None \<Rightarrow> None | Some (Inl e) \<Rightarrow> Some (Inl e)
        | Some (Inr i') \<Rightarrow> if i' = 0 then Some (Inr (n + 1)) else f st (n + 1) i') = Some r"
    show "st = step \<longrightarrow> i \<notin> S"
    proof (intro impI notI)
      assume "st = step" "i \<in> S"
      then obtain i' where "i' \<in> S" "st i = Some (Inr i')" "i' \<noteq> 0" using assms(3) by blast
      then show False using r IH [of st "n + 1" i' r] \<open>st = step\<close> by simp
    qed
  qed
  then show ?thesis using assms(2) by blast
qed

definition rho_lists :: dir_lists where
  "rho_lists =
   \<lparr> uvs = [1, 2, 1, 1, 1, 1, 3, 3, 4, 4, 5, 5, 6, 6, 7, 7, 8, 8, 9, 9, 10, 10, 11, 11, 12, 12, 13, 13, 14,
       14, 15, 15, 16, 16, 17, 17, 18, 18, 19, 19, 20, 20, 21, 21, 22, 22, 23, 23, 24, 24, 25, 25, 26,
       26, 27, 27, 28, 28, 29, 29, 30, 30, 31, 31, 32, 32, 33, 33, 34, 34, 35, 35, 36, 36, 37, 37, 38,
       38, 39, 39, 40, 40, 42, 41],
     headu = [64, 84, 4, 66, 68, 84, 84, 70, 72, 84, 84, 74, 76, 84, 84, 78, 80, 84, 84, 18, 20, 82, 84, 22, 24,
       84, 84, 26, 28, 84, 84, 30, 32, 84, 84, 34, 36, 84, 84, 38, 40, 84, 84, 42, 44, 84, 84, 46, 48,
       84, 84, 50, 52, 84, 84, 54, 56, 84, 84, 58, 60, 84, 84, 62],
     headv = [65, 84, 5, 67, 69, 84, 84, 71, 73, 84, 84, 75, 77, 84, 84, 79, 81, 84, 84, 83, 21, 84, 84, 23, 25,
       84, 84, 27, 29, 84, 84, 31, 33, 84, 84, 35, 37, 84, 84, 39, 41, 84, 84, 43, 45, 84, 84, 47, 49,
       84, 84, 51, 53, 84, 84, 55, 57, 84, 84, 59, 61, 84, 84, 63],
     prev = [84, 84, 84, 84, 0, 84, 84, 84, 84, 84, 84, 84, 84, 84, 84, 84, 84, 84, 84, 84, 84, 84, 84, 84, 84,
       84, 84, 84, 84, 84, 84, 84, 84, 84, 84, 84, 84, 84, 84, 84, 84, 84, 84, 84, 84, 84, 84, 84, 84,
       84, 84, 84, 84, 84, 84, 84, 84, 84, 84, 84, 84, 84, 84, 84, 84, 84, 2, 3, 84, 1, 6, 7, 8, 9, 10,
       11, 12, 13, 14, 15, 16, 17, 84, 19],
     xor0 = 0, xor1 = 0, ndir = [21, 21] \<rparr>"

lemma rho_loads:
  "try_fold (dir_load_edge rho_graph (size_mask 42) 536870911 rho_nonces 42) [0..<42]
     (lists.extend (lists_new 42 (size_mask 42) 0) \<lparr> ndir = [0, 0] \<rparr>) = Inr rho_lists"
  by code_simp

lemma rho_steps:
  "dir_step (size_mask 42) 42 rho_lists 0 = Some (Inr 3)"
  "dir_step (size_mask 42) 42 rho_lists 3 = Some (Inr 4)"
  "dir_step (size_mask 42) 42 rho_lists 4 = Some (Inr 3)"
  by code_simp+


end
