(* ===== verification/Block.thy ===== *)
theory Block
  imports Cut_Through Cuckoo_Cycle Util Pmmr_Pos
begin

unbundle bit_operations_syntax

text \<open>
  Blocks, block headers and compact blocks (\<open>core/src/core/block.rs\<close>, \<open>compact_block.rs\<close>, \<open>id.rs\<close>, and
  \<open>verify_size\<close> of \<open>core/src/pow.rs\<close>).

  A timestamp is the number of seconds an \<open>i64\<close> holds, as a word. The date library enters as the record
  \<open>clock\<close>: the range of its dates, the timestamps it can represent, and the current time; the configured
  future time limit is kept beside it. Reading an untrusted header verifies its proof of work, which need not
  end; such reads have an \<open>option\<close> around their result. The keyed hash of short ids (the \<open>siphasher\<close> crate) is
  the parameter \<open>sip\<close>.
\<close>

datatype block_error =
    BlockKernelSumMismatch
  | InvalidTotalKernelSum
  | CoinbaseSumMismatch
  | BlockTooHeavy
  | BlockInvalidBlockVersion u16
  | InvalidBlockTime
  | InvalidPow
  | KernelLockHeight u64
  | NRDKernelPreHF3
  | BlockNRDKernelNotEnabled
  | BlockTransaction tx_error
  | BlockSecp secp_error
  | BlockKeychain keychain_error
  | BlockMerkleProof
  | BlockCommitted committed_error
  | BlockCutThrough
  | BlockSerialization ser_error
  | BlockOther string

record clock =
  date_min :: u64
  date_max :: u64
  representable :: "u64 \<Rightarrow> bool"
  utc_now :: u64
  ftl :: u64

section \<open>Header entries\<close>

record header_entry =
  entry_hash :: hash
  entry_timestamp :: u64
  entry_total_difficulty :: difficulty
  entry_secondary_scaling :: u32
  entry_is_secondary :: bool

definition header_entry_read :: "header_entry readable_fn" where
  "header_entry_read r =
     rbind (hash_read r) (\<lambda>(h, r). rbind (read_u64 r) (\<lambda>(ts, r). rbind (difficulty_read r) (\<lambda>(td, r).
       rbind (read_u32 r) (\<lambda>(sc, r). rbind (read_u8 r) (\<lambda>(b, r).
         Inr (\<lparr> entry_hash = h, entry_timestamp = ts, entry_total_difficulty = td, entry_secondary_scaling = sc,
                entry_is_secondary = (b \<noteq> 0) \<rparr>, r))))))"

definition header_entry_write :: "header_entry writeable" where
  "header_entry_write c e =
     rbind (hash_write c (entry_hash e)) (\<lambda>h. rbind (difficulty_write c (entry_total_difficulty e)) (\<lambda>td.
       Inr (h @ write_u64 (entry_timestamp e) @ td @ write_u32 (entry_secondary_scaling e) @
            (if entry_is_secondary e then write_u8 1 else write_u8 0))))"

section \<open>Headers\<close>

record block_header =
  hdr_version :: u16
  hdr_height :: u64
  prev_hash :: hash
  prev_root :: hash
  timestamp :: u64
  output_root :: hash
  range_proof_root :: hash
  kernel_root :: hash
  total_kernel_offset :: bytes
  output_mmr_size :: u64
  kernel_mmr_size :: u64
  hdr_pow :: proof_of_work

definition header_default :: "tx_env \<Rightarrow> block_header" where
  "header_default env =
     \<lparr> hdr_version = 1, hdr_height = 0, prev_hash = zero_hash, prev_root = zero_hash, timestamp = 0,
       output_root = zero_hash, range_proof_root = zero_hash, kernel_root = zero_hash,
       total_kernel_offset = blinding_zero (env_lib env), output_mmr_size = 0, kernel_mmr_size = 0,
       hdr_pow = pow_default (env_chain env) \<rparr>"

definition header_write_pre_pow :: "block_header \<Rightarrow> bytes" where
  "header_write_pre_pow h =
     write_u16 (hdr_version h) @ write_u64 (hdr_height h) @ write_i64 (timestamp h) @
     write_fixed_bytes (prev_hash h) @ write_fixed_bytes (prev_root h) @ write_fixed_bytes (output_root h) @
     write_fixed_bytes (range_proof_root h) @ write_fixed_bytes (kernel_root h) @
     write_fixed_bytes (total_kernel_offset h) @ write_u64 (output_mmr_size h) @ write_u64 (kernel_mmr_size h)"

definition header_write :: "tx_env \<Rightarrow> block_header writeable" where
  "header_write env c h =
     rbind (pow_write (env_chain env) c (hdr_pow h)) (\<lambda>p.
       if wr_mode c \<noteq> SerHash then Inr (header_write_pre_pow h @ p) else Inr p)"

definition read_block_header :: "tx_env \<Rightarrow> clock \<Rightarrow> block_header readable_fn" where
  "read_block_header env clk r =
     rbind (read_u16 r) (\<lambda>(ver, r). rbind (read_u64 r) (\<lambda>(hgt, r). rbind (read_i64 r) (\<lambda>(ts, r).
     rbind (hash_read r) (\<lambda>(ph, r). rbind (hash_read r) (\<lambda>(pr, r). rbind (hash_read r) (\<lambda>(oroot, r).
     rbind (hash_read r) (\<lambda>(rroot, r). rbind (hash_read r) (\<lambda>(kroot, r).
     rbind (blinding_factor_read (sizes (env_lib env)) r) (\<lambda>(off, r).
     rbind (read_u64 r) (\<lambda>(osize, r). rbind (read_u64 r) (\<lambda>(ksize, r).
     rbind (pow_read (env_chain env) r) (\<lambda>(p, r).
       if date_max clk <s ts \<or> ts <s date_min clk then Inl CorruptedData
       else if \<not> representable clk ts then Inl CorruptedData
       else Inr (\<lparr> hdr_version = ver, hdr_height = hgt, prev_hash = ph, prev_root = pr, timestamp = ts,
                   output_root = oroot, range_proof_root = rroot, kernel_root = kroot, total_kernel_offset = off,
                   output_mmr_size = osize, kernel_mmr_size = ksize, hdr_pow = p \<rparr>, r)))))))))))))"

definition header_hash :: "tx_env \<Rightarrow> block_header \<Rightarrow> hash" where
  "header_hash env h = hash_of (env_blake2b env) (header_write env) h"

definition header_as_elmt :: "tx_env \<Rightarrow> block_header \<Rightarrow> header_entry" where
  "header_as_elmt env h =
     \<lparr> entry_hash = header_hash env h, entry_timestamp = timestamp h,
       entry_total_difficulty = total_difficulty (hdr_pow h),
       entry_secondary_scaling = secondary_scaling (hdr_pow h), entry_is_secondary = is_secondary (hdr_pow h) \<rparr>"

definition header_elmt_size :: "nat option" where
  "header_elmt_size = Some (hash_len + 8 + 8 + 4 + 1)"

definition pre_pow :: "block_header \<Rightarrow> bytes" where
  "pre_pow h = header_write_pre_pow h @ write_pre_pow (hdr_pow h) @ write_u64 (pow_nonce (hdr_pow h))"

definition from_pre_pow_and_proof ::
    "tx_env \<Rightarrow> clock \<Rightarrow> string \<Rightarrow> u64 \<Rightarrow> pow_proof \<Rightarrow> block_error + block_header" where
  "from_pre_pow_and_proof env clk pre nonce pf =
     rbind (map_err (\<lambda>e. BlockSerialization (HexError e)) (from_hex pre)) (\<lambda>bs.
       rbind (map_err BlockSerialization (ser_vec u64_write nonce local_version)) (\<lambda>n.
         rbind (map_err BlockSerialization (ser_vec (proof_write (env_chain env)) pf local_version)) (\<lambda>p.
           map_err BlockSerialization (deserialize_default (read_block_header env clk) (bs @ n @ p)))))"

definition output_mmr_count :: "block_header \<Rightarrow> u64" where
  "output_mmr_count h = of_nat (n_leaves (unat (output_mmr_size h)))"

definition kernel_mmr_count :: "block_header \<Rightarrow> u64" where
  "kernel_mmr_count h = of_nat (n_leaves (unat (kernel_mmr_size h)))"

definition checked_neg :: "u64 \<Rightarrow> u64 option" where
  "checked_neg n = (if n = 0x8000000000000000 then None else Some (- n))"

definition header_overage :: "block_header \<Rightarrow> u64" where
  "header_overage h = (case checked_neg reward_base of Some n \<Rightarrow> n | None \<Rightarrow> 0)"

definition total_overage :: "block_header \<Rightarrow> bool \<Rightarrow> u64" where
  "total_overage h genesis_had_reward =
     (let reward_count = (if genesis_had_reward then hdr_height h + 1 else hdr_height h)
      in case checked_neg (reward_count * reward_base) of Some n \<Rightarrow> n | None \<Rightarrow> 0)"

section \<open>Proof of work of a header\<close>

definition max_sols_const :: u32 where "max_sols_const = 10"

definition verify_size :: "tx_env \<Rightarrow> block_header \<Rightarrow> (pow_error + unit) option" where
  "verify_size env h =
     (case create_pow_context (env_chain env) (hdr_height h) (edge_bits (proof_of (hdr_pow h)))
             (length (nonces (proof_of (hdr_pow h)))) max_sols_const of
        Inl e \<Rightarrow> Some (Inl e)
      | Inr ctx \<Rightarrow>
          ctx_verify (env_chain env)
            (ctx_set_header_nonce (env_blake2b env) (env_chain env) (pre_pow h) None False ctx) (proof_of (hdr_pow h)))"

definition untrusted_header_read :: "tx_env \<Rightarrow> clock \<Rightarrow> reader \<Rightarrow> (ser_error + block_header \<times> reader) option" where
  "untrusted_header_read env clk r =
     (case read_block_header env clk r of
        Inl e \<Rightarrow> Some (Inl e)
      | Inr (h, r) \<Rightarrow>
          if sint (utc_now clk) + sint (ftl clk) < sint (timestamp h) then Some (Inl CorruptedData)
          else if \<not> valid_header_version (env_chain env) (hdr_height h) (hdr_version h) then Some (Inl InvalidBlockVersion)
          else if \<not> is_primary (env_chain env) (hdr_pow h) \<and> \<not> is_secondary (hdr_pow h) then Some (Inl CorruptedData)
          else case verify_size env h of
            None \<Rightarrow> None
          | Some (Inl _) \<Rightarrow> Some (Inl CorruptedData)
          | Some (Inr _) \<Rightarrow>
              let global_weight = weight_by_iok 0 (output_mmr_count h) (kernel_mmr_count h)
              in if max_block_weight (env_chain env) * (hdr_height h + 1) < global_weight
                 then Some (Inl CorruptedData)
                 else Some (Inr (h, r)))"

section \<open>Short ids\<close>

definition short_id_size :: nat where "short_id_size = 6"

definition short_id_from_bytes :: "bytes \<Rightarrow> bytes" where
  "short_id_from_bytes bs = pad_bytes short_id_size bs"

definition short_id :: "tx_env \<Rightarrow> (u64 \<Rightarrow> u64 \<Rightarrow> bytes \<Rightarrow> u64) \<Rightarrow> hash \<Rightarrow> hash \<Rightarrow> u64 \<Rightarrow> bytes" where
  "short_id env sip self_hash h nonce =
     (let hash_with_nonce = hash_of (env_blake2b env) (pair_write hash_write u64_write) (h, nonce);
          k0 = from_le_bytes (take 8 hash_with_nonce);
          k1 = from_le_bytes (take 8 (drop 8 hash_with_nonce));
          res = sip k0 k1 self_hash
      in short_id_from_bytes (take 6 (to_le_bytes res)))"

definition short_id_read :: "bytes readable_fn" where
  "short_id_read r = read_fixed_bytes short_id_size r"

definition short_id_write :: "bytes writeable" where
  "short_id_write c i = Inr (write_fixed_bytes i)"

definition short_id_key :: "tx_env \<Rightarrow> bytes \<Rightarrow> hash" where
  "short_id_key env i = hash_of (env_blake2b env) short_id_write i"

section \<open>Compact blocks\<close>

record compact_block_body =
  out_full :: "tx_output list"
  kern_full :: "tx_kernel list"
  kern_ids :: "bytes list"

definition cbody_verify_sorted :: "tx_env \<Rightarrow> compact_block_body \<Rightarrow> block_error + unit" where
  "cbody_verify_sorted env b =
     map_err BlockSerialization
       (rbind (verify_sorted_and_unique (output_key env) (out_full b)) (\<lambda>_.
          rbind (verify_sorted_and_unique (tx_kernel_key env) (kern_full b)) (\<lambda>_.
            rbind (verify_sorted_and_unique (short_id_key env) (kern_ids b)) Inr)))"

definition cbody_sort :: "tx_env \<Rightarrow> compact_block_body \<Rightarrow> compact_block_body" where
  "cbody_sort env b =
     \<lparr> out_full = sort_key (output_key env) (out_full b), kern_full = sort_key (tx_kernel_key env) (kern_full b),
       kern_ids = sort_key (short_id_key env) (kern_ids b) \<rparr>"

definition cbody_init ::
    "tx_env \<Rightarrow> tx_output list \<Rightarrow> tx_kernel list \<Rightarrow> bytes list \<Rightarrow> bool \<Rightarrow> block_error + compact_block_body" where
  "cbody_init env outs ks ids verify_sorted =
     (let body = \<lparr> out_full = outs, kern_full = ks, kern_ids = ids \<rparr>
      in if verify_sorted then rbind (cbody_verify_sorted env body) (\<lambda>_. Inr body) else Inr (cbody_sort env body))"

definition cbody_validate_read :: "tx_env \<Rightarrow> compact_block_body \<Rightarrow> block_error + unit" where
  "cbody_validate_read env b = rbind (cbody_verify_sorted env b) Inr"

definition cbody_read :: "tx_env \<Rightarrow> compact_block_body readable_fn" where
  "cbody_read env r =
     rbind (triple_read read_u64 read_u64 read_u64 r) (\<lambda>((n_out, n_kern, n_ids), r).
       rbind (read_multi (output_read (sizes (env_lib env))) n_out r) (\<lambda>(outs, r).
         rbind (read_multi (tx_kernel_read env) n_kern r) (\<lambda>(ks, r).
           rbind (read_multi short_id_read n_ids r) (\<lambda>(ids, r).
             rbind (map_err (\<lambda>_. CorruptedData) (cbody_init env outs ks ids True)) (\<lambda>body. Inr (body, r))))))"

definition cbody_write :: "compact_block_body writeable" where
  "cbody_write c b =
     rbind (vec_write output_write c (out_full b)) (\<lambda>outs.
       rbind (vec_write tx_kernel_write c (kern_full b)) (\<lambda>ks.
         rbind (vec_write short_id_write c (kern_ids b)) (\<lambda>ids.
           Inr (write_u64 (of_nat (length (out_full b))) @ write_u64 (of_nat (length (kern_full b))) @
                write_u64 (of_nat (length (kern_ids b))) @ outs @ ks @ ids))))"

record compact_block =
  cb_header :: block_header
  cb_nonce :: u64
  cb_body :: compact_block_body

definition cb_validate_read :: "tx_env \<Rightarrow> compact_block \<Rightarrow> block_error + unit" where
  "cb_validate_read env cb = rbind (cbody_validate_read env (cb_body cb)) Inr"

definition cb_write :: "tx_env \<Rightarrow> compact_block writeable" where
  "cb_write env c cb =
     rbind (header_write env c (cb_header cb)) (\<lambda>h.
       if wr_mode c \<noteq> SerHash
       then rbind (cbody_write c (cb_body cb)) (\<lambda>b. Inr (h @ write_u64 (cb_nonce cb) @ b))
       else Inr h)"

definition cb_read :: "tx_env \<Rightarrow> clock \<Rightarrow> compact_block readable_fn" where
  "cb_read env clk r =
     rbind (read_block_header env clk r) (\<lambda>(h, r). rbind (read_u64 r) (\<lambda>(n, r). rbind (cbody_read env r) (\<lambda>(b, r).
       Inr (\<lparr> cb_header = h, cb_nonce = n, cb_body = b \<rparr>, r))))"

definition untrusted_cb_read :: "tx_env \<Rightarrow> clock \<Rightarrow> reader \<Rightarrow> (ser_error + compact_block \<times> reader) option" where
  "untrusted_cb_read env clk r =
     (case untrusted_header_read env clk r of
        None \<Rightarrow> None
      | Some (Inl e) \<Rightarrow> Some (Inl e)
      | Some (Inr (h, r)) \<Rightarrow>
          Some (rbind (read_u64 r) (\<lambda>(n, r). rbind (cbody_read env r) (\<lambda>(b, r).
            let cb = \<lparr> cb_header = h, cb_nonce = n, cb_body = b \<rparr>
            in rbind (map_err (\<lambda>_. CorruptedData) (cb_validate_read env cb)) (\<lambda>_. Inr (cb, r))))))"

section \<open>Blocks\<close>

record block =
  blk_header :: block_header
  blk_body :: transaction_body

definition block_default :: "tx_env \<Rightarrow> block" where
  "block_default env = \<lparr> blk_header = header_default env, blk_body = body_empty \<rparr>"

definition block_hash :: "tx_env \<Rightarrow> block \<Rightarrow> hash" where
  "block_hash env b = header_hash env (blk_header b)"

definition block_write :: "tx_env \<Rightarrow> block writeable" where
  "block_write env c b =
     rbind (header_write env c (blk_header b)) (\<lambda>h.
       if wr_mode c \<noteq> SerHash
       then rbind (transaction_body_write env c (blk_body b)) (\<lambda>bs. Inr (h @ bs))
       else Inr h)"

definition block_read :: "tx_env \<Rightarrow> clock \<Rightarrow> block readable_fn" where
  "block_read env clk r =
     rbind (read_block_header env clk r) (\<lambda>(h, r). rbind (transaction_body_read env r) (\<lambda>(b, r).
       Inr (\<lparr> blk_header = h, blk_body = b \<rparr>, r)))"

definition block_committed :: "tx_env \<Rightarrow> block \<Rightarrow> committed" where
  "block_committed env b = body_committed env (blk_body b)"

text \<open>The nonce of the short ids is drawn at random: an argument.\<close>

definition compact_from_block :: "tx_env \<Rightarrow> (u64 \<Rightarrow> u64 \<Rightarrow> bytes \<Rightarrow> u64) \<Rightarrow> u64 \<Rightarrow> block \<Rightarrow> compact_block" where
  "compact_from_block env sip nonce b =
     (let header = blk_header b;
          outs = filter output_is_coinbase (body_outputs (blk_body b));
          ks = filter (\<lambda>k. kf_is_coinbase (k_features k)) (body_kernels (blk_body b));
          ids = map (\<lambda>k. short_id env sip (tx_kernel_key env k) (header_hash env header) nonce)
                  (filter (\<lambda>k. \<not> kf_is_coinbase (k_features k)) (body_kernels (blk_body b)))
      in \<lparr> cb_header = header, cb_nonce = nonce, cb_body = projr (cbody_init env outs ks ids False) \<rparr>)"

definition hydrate_from :: "tx_env \<Rightarrow> compact_block \<Rightarrow> transaction list \<Rightarrow> block_error + block" where
  "hydrate_from env cb txs =
     (let ins = concat (map (\<lambda>tx. inputs_to_wrappers env (body_inputs (tx_body tx))) txs);
          outs = concat (map (\<lambda>tx. body_outputs (tx_body tx)) txs);
          ks = concat (map (\<lambda>tx. body_kernels (tx_body tx)) txs)
      in rbind (map_err BlockTransaction
             (cut_through cw_commit output_commitment (commit_wrapper_key env) (output_key env) ins outs))
           (\<lambda>(ins, outs, _, _).
              rbind (map_err BlockTransaction
                  (body_init env (CommitOnly ins) (outs @ out_full (cb_body cb)) (ks @ kern_full (cb_body cb)) False))
                (\<lambda>body. Inr \<lparr> blk_header = cb_header cb, blk_body = body \<rparr>)))"

definition block_with_header :: "tx_env \<Rightarrow> block_header \<Rightarrow> block" where
  "block_with_header env h = (block_default env) \<lparr> blk_header := h \<rparr>"

definition from_reward ::
    "tx_env \<Rightarrow> clock \<Rightarrow> block_header \<Rightarrow> transaction list \<Rightarrow> tx_output \<Rightarrow> tx_kernel \<Rightarrow> difficulty \<Rightarrow> block_error + block" where
  "from_reward env clk prev_hdr txs reward_out reward_kern diff =
     rbind (map_err BlockTransaction (aggregate env txs)) (\<lambda>agg.
       let agg_tx = tx_with_kernel env reward_kern (tx_with_output env reward_out agg)
       in rbind (map_err BlockCommitted
              (sum_kernel_offsets (env_lib env) [offset agg_tx, total_kernel_offset prev_hdr] [])) (\<lambda>total_offset.
            let hgt = hdr_height prev_hdr + 1;
                ver = header_version (env_chain env) hgt;
                now = utc_now clk
            in if \<not> representable clk now then Inl (BlockOther ''Converting Utc::now() into timestamp'')
               else Inr \<lparr> blk_header = (header_default env) \<lparr> hdr_version := ver, hdr_height := hgt, timestamp := now,
                            prev_hash := header_hash env prev_hdr, total_kernel_offset := total_offset,
                            hdr_pow := (pow_default (env_chain env)) \<lparr> total_difficulty :=
                              Difficulty (to_num diff + to_num (total_difficulty (hdr_pow prev_hdr))) \<rparr> \<rparr>,
                          blk_body = tx_body agg_tx \<rparr>))"

text \<open>The proof of work is drawn at random: an argument.\<close>

definition block_new ::
    "tx_env \<Rightarrow> clock \<Rightarrow> block_header \<Rightarrow> transaction list \<Rightarrow> difficulty \<Rightarrow> tx_output \<times> tx_kernel \<Rightarrow> pow_proof \<Rightarrow> block_error + block" where
  "block_new env clk prev_hdr txs diff reward_output random_proof =
     rbind (from_reward env clk prev_hdr txs (fst reward_output) (snd reward_output) diff) (\<lambda>b.
       Inr (b \<lparr> blk_header := (blk_header b) \<lparr> hdr_pow := (hdr_pow (blk_header b)) \<lparr> proof_of := random_proof \<rparr> \<rparr> \<rparr>))"

definition block_with_reward :: "tx_output \<Rightarrow> tx_kernel \<Rightarrow> block \<Rightarrow> block" where
  "block_with_reward reward_out reward_kern b =
     b \<lparr> blk_body := (blk_body b) \<lparr> body_outputs := [reward_out], body_kernels := [reward_kern] \<rparr> \<rparr>"

definition total_fees :: "block \<Rightarrow> u64" where
  "total_fees b = body_fee (blk_body b)"

definition verify_kernel_lock_heights :: "block \<Rightarrow> block_error + unit" where
  "verify_kernel_lock_heights b =
     try_fold (\<lambda>k _. case k_features k of
         HeightLocked fee lock_height \<Rightarrow>
           if hdr_height (blk_header b) < lock_height then Inl (KernelLockHeight lock_height) else Inr ()
       | _ \<Rightarrow> Inr ()) (body_kernels (blk_body b)) ()"

definition verify_nrd_kernels_for_header_version :: "tx_env \<Rightarrow> block \<Rightarrow> block_error + unit" where
  "verify_nrd_kernels_for_header_version env b =
     (if list_ex (\<lambda>k. kf_is_nrd (k_features k)) (body_kernels (blk_body b))
      then (if \<not> env_nrd env then Inl BlockNRDKernelNotEnabled
            else if hdr_version (blk_header b) < 4 then Inl NRDKernelPreHF3
            else Inr ())
      else Inr ())"

definition verify_coinbase :: "tx_env \<Rightarrow> block \<Rightarrow> block_error + unit" where
  "verify_coinbase env b =
     (let cb_outs = filter output_is_coinbase (body_outputs (blk_body b));
          cb_kerns = filter (\<lambda>k. kf_is_coinbase (k_features k)) (body_kernels (blk_body b))
      in rbind (map_err BlockSecp (lib_commit_value (env_lib env) (reward (total_fees b)))) (\<lambda>over_commit.
           rbind (map_err BlockSecp (lib_commit_sum (env_lib env) (map output_commitment cb_outs) [over_commit])) (\<lambda>out_adjust_sum.
             rbind (map_err BlockSecp (lib_commit_sum (env_lib env) (map excess cb_kerns) [])) (\<lambda>kerns_sum.
               if kerns_sum \<noteq> out_adjust_sum then Inl CoinbaseSumMismatch else Inr ()))))"

definition block_validate_read :: "tx_env \<Rightarrow> block \<Rightarrow> block_error + unit" where
  "block_validate_read env b =
     rbind (map_err BlockTransaction (body_validate_read env (blk_body b) AsBlock)) (\<lambda>_.
       rbind (verify_kernel_lock_heights b) Inr)"

definition block_kernel_offset :: "tx_env \<Rightarrow> block \<Rightarrow> bytes \<Rightarrow> block_error + bytes" where
  "block_kernel_offset env b prev_kernel_offset =
     (if total_kernel_offset (blk_header b) = prev_kernel_offset then Inr (blinding_zero (env_lib env))
      else map_err BlockCommitted
             (sum_kernel_offsets (env_lib env) [total_kernel_offset (blk_header b)] [prev_kernel_offset]))"

definition block_validate :: "tx_env \<Rightarrow> block \<Rightarrow> bytes \<Rightarrow> block_error + unit" where
  "block_validate env b prev_kernel_offset =
     rbind (map_err BlockTransaction (body_validate env (blk_body b) AsBlock)) (\<lambda>_.
       rbind (verify_kernel_lock_heights b) (\<lambda>_.
         rbind (verify_nrd_kernels_for_header_version env b) (\<lambda>_.
           rbind (verify_coinbase env b) (\<lambda>_.
             rbind (block_kernel_offset env b prev_kernel_offset) (\<lambda>off.
               rbind (map_err BlockCommitted
                   (verify_kernel_sums (env_lib env) (block_committed env b) (header_overage (blk_header b)) off)) (\<lambda>_.
                 Inr ()))))))"

definition untrusted_block_read :: "tx_env \<Rightarrow> clock \<Rightarrow> reader \<Rightarrow> (ser_error + block \<times> reader) option" where
  "untrusted_block_read env clk r =
     (case untrusted_header_read env clk r of
        None \<Rightarrow> None
      | Some (Inl e) \<Rightarrow> Some (Inl e)
      | Some (Inr (h, r)) \<Rightarrow>
          Some (rbind (transaction_body_read env r) (\<lambda>(b, r).
            rbind (map_err (\<lambda>_. CorruptedData) (body_validate_read env b AsBlock)) (\<lambda>_.
              Inr (\<lparr> blk_header = h, blk_body = b \<rparr>, r)))))"

section \<open>Headers and blocks can be read back\<close>

definition header_valid :: "tx_env \<Rightarrow> clock \<Rightarrow> block_header \<Rightarrow> bool" where
  "header_valid env clk h \<longleftrightarrow>
     sizes_ok (sizes (env_lib env)) \<and>
     (\<forall>x \<in> {prev_hash h, prev_root h, output_root h, range_proof_root h, kernel_root h}. length x = 32) \<and>
     length (total_kernel_offset h) = secret_key_size (sizes (env_lib env)) \<and>
     \<not> date_max clk <s timestamp h \<and> \<not> timestamp h <s date_min clk \<and> representable clk (timestamp h) \<and>
     pow_valid (env_chain env) (hdr_pow h)"

lemma hash_read_upcoming: "upcoming h r \<Longrightarrow> length h = 32 \<Longrightarrow> hash_read r = Inr (h, advance 32 r)"
  by (simp add: hash_read_def read_upcoming max_read_size_def)

lemma blinding_read_upcoming:
  "upcoming b r \<Longrightarrow> length b = secret_key_size sz \<Longrightarrow> sizes_ok sz \<Longrightarrow>
   blinding_factor_read sz r = Inr (b, advance (length b) r)"
  by (simp add: blinding_factor_read_def read_upcoming sizes_ok_def pad_bytes_def)

text \<open>Everything before the proof of work is read back, in either deserialization mode.\<close>

lemma read_header_pre_pow:
  assumes "header_valid env clk h" "upcoming (header_write_pre_pow h) r"
  shows "read_block_header env clk r =
    rbind (pow_read (env_chain env) (advance (length (header_write_pre_pow h)) r)) (\<lambda>(p, r). Inr (h \<lparr> hdr_pow := p \<rparr>, r))"
proof -
  define n where "n = length (total_kernel_offset h)"
  have up: "upcoming (write_u16 (hdr_version h)) r" "upcoming (write_u64 (hdr_height h)) (advance 2 r)"
    "upcoming (write_i64 (timestamp h)) (advance 10 r)" "upcoming (prev_hash h) (advance 18 r)"
    "upcoming (prev_root h) (advance 50 r)" "upcoming (output_root h) (advance 82 r)"
    "upcoming (range_proof_root h) (advance 114 r)" "upcoming (kernel_root h) (advance 146 r)"
    "upcoming (total_kernel_offset h) (advance 178 r)" "upcoming (write_u64 (output_mmr_size h)) (advance (178 + n) r)"
    "upcoming (write_u64 (kernel_mmr_size h)) (advance (186 + n) r)"
    using assms
    by (simp_all add: header_write_pre_pow_def write_fixed_bytes_def upcoming_append header_valid_def n_def add.assoc [symmetric])
  have l: "length (header_write_pre_pow h) = 194 + n"
    using assms(1) by (simp add: header_write_pre_pow_def write_fixed_bytes_def header_valid_def n_def)
  show ?thesis
    using up assms(1) unfolding l
    by (cases "pow_read (env_chain env) (advance (194 + n) r)")
      (auto simp: read_block_header_def read_upcoming hash_read_upcoming blinding_read_upcoming header_valid_def
        n_def [symmetric] add.assoc)
qed

lemma header_codec: "codec (header_write env) (read_block_header env clk) (\<lambda>_. header_valid env clk)"
proof
  fix v h
  assume h: "header_valid env clk h"
  then obtain bs where bs: "pow_write (env_chain env) (full_ctx v) (hdr_pow h) = Inr bs"
    "\<And>r rest. reads v r \<Longrightarrow> rd_input r = bs @ rest \<Longrightarrow> pow_read (env_chain env) r = Inr (hdr_pow h, advance (length bs) r)"
    using pow.codecE [of "env_chain env" "hdr_pow h" v] by (auto simp: header_valid_def)
  have "read_block_header env clk r = Inr (h, advance (length (header_write_pre_pow h @ bs)) r)"
    if r: "reads v r" "rd_input r = (header_write_pre_pow h @ bs) @ rest" for r rest
    using read_header_pre_pow [OF h, of r] bs(2) [of "advance (length (header_write_pre_pow h)) r" rest] r
    by (simp add: upcoming_def)
  then show "\<exists>bs. header_write env (full_ctx v) h = Inr bs \<and>
      (\<forall>r rest. reads v r \<and> rd_input r = bs @ rest \<longrightarrow> read_block_header env clk r = Inr (h, advance (length bs) r))"
    using bs(1) by (auto simp: header_write_def)
qed

text \<open>A header that is read without its proof keeps everything but the nonces.\<close>

definition without_nonces :: "block_header \<Rightarrow> block_header" where
  "without_nonces h = h \<lparr> hdr_pow := (hdr_pow h) \<lparr> proof_of := (proof_of (hdr_pow h)) \<lparr> nonces := [] \<rparr> \<rparr> \<rparr>"

lemma header_skip_pow:
  assumes "header_valid env clk h" "header_write env (full_ctx v) h = Inr bs" "rd_mode r = SkipPow" "rd_input r = bs @ rest"
  shows "\<exists>r'. read_block_header env clk r = Inr (without_nonces h, r')"
proof -
  define q where "q = advance (length (header_write_pre_pow h)) r"
  obtain ps where ps: "pow_write (env_chain env) (full_ctx v) (hdr_pow h) = Inr ps" "bs = header_write_pre_pow h @ ps"
    using assms(2) by (auto simp: header_write_def rbind_Inr_iff)
  have v: "pow_proof_valid (env_chain env) (proof_of (hdr_pow h))" using assms(1) by (simp add: header_valid_def pow_valid_def)
  then obtain ns where ns: "pack_nonces (env_chain env) (proof_of (hdr_pow h)) = Some ns" using pack_nonces_val by blast
  have "ps = write_pre_pow (hdr_pow h) @ write_u64 (pow_nonce (hdr_pow h)) @ write_u8 (edge_bits (proof_of (hdr_pow h))) @ ns"
    using ps(1) ns v by (simp add: pow_write_def proof_write_full write_u8_def write_fixed_bytes_def)
  then have "rd_input q = (write_pre_pow (hdr_pow h) @ write_u64 (pow_nonce (hdr_pow h)) @ write_u8 (edge_bits (proof_of (hdr_pow h)))) @ ns @ rest"
    using assms(4) ps(2) by (simp add: q_def)
  from upcomingI [OF this] have up: "upcoming (write_u64 (to_num (total_difficulty (hdr_pow h)))) q"
    "upcoming (write_u32 (secondary_scaling (hdr_pow h))) (advance 8 q)"
    "upcoming (write_u64 (pow_nonce (hdr_pow h))) (advance 12 q)" "upcoming (write_u8 (edge_bits (proof_of (hdr_pow h)))) (advance 20 q)"
    by (simp_all add: write_pre_pow_def upcoming_append)
  have "rd_mode q = SkipPow" by (simp add: q_def assms(3))
  then have "\<exists>r'. pow_read (env_chain env) q =
      Inr ((hdr_pow h) \<lparr> proof_of := (proof_of (hdr_pow h)) \<lparr> nonces := [] \<rparr> \<rparr>, r')"
    using up v by (auto simp: pow_read_def difficulty_read_def read_upcoming proof_read_def pow_proof_valid_def)
  then show ?thesis
    using read_header_pre_pow [OF assms(1), of r] assms(4) ps(2) by (auto simp: upcoming_def without_nonces_def q_def)
qed

interpretation header: codec "header_write env" "read_block_header env clk" "\<lambda>_. header_valid env clk" for env clk
  by (rule header_codec)

definition block_valid :: "tx_env \<Rightarrow> clock \<Rightarrow> protocol_version \<Rightarrow> block \<Rightarrow> bool" where
  "block_valid env clk v b \<longleftrightarrow> header_valid env clk (blk_header b) \<and> body_valid env v (blk_body b)"

interpretation block: codec "block_write env" "block_read env clk" "block_valid env clk" for env clk
proof
  fix v b
  assume b: "block_valid env clk v b"
  then obtain hs bs where hs: "header_write env (full_ctx v) (blk_header b) = Inr hs"
    "\<And>r rest. reads v r \<Longrightarrow> rd_input r = hs @ rest \<Longrightarrow> read_block_header env clk r = Inr (blk_header b, advance (length hs) r)"
    and bs: "transaction_body_write env (full_ctx v) (blk_body b) = Inr bs"
    "\<And>r rest. reads v r \<Longrightarrow> rd_input r = bs @ rest \<Longrightarrow> transaction_body_read env r = Inr (blk_body b, advance (length bs) r)"
    using header.codecE [of env clk "blk_header b" v] transaction_body_codec.codecE [of env v "blk_body b"]
    by (metis block_valid_def)
  have "block_read env clk r = Inr (b, advance (length (hs @ bs)) r)" if "reads v r" "rd_input r = (hs @ bs) @ rest" for r rest
    using hs(2) [of r "bs @ rest"] bs(2) [of "advance (length hs) r" rest] that by (simp add: block_read_def)
  then show "\<exists>bs. block_write env (full_ctx v) b = Inr bs \<and>
      (\<forall>r rest. reads v r \<and> rd_input r = bs @ rest \<longrightarrow> block_read env clk r = Inr (b, advance (length bs) r))"
    using hs(1) bs(1) by (auto simp: block_write_def)
qed

section \<open>What validation guarantees\<close>

definition coinbase_outs :: "block \<Rightarrow> tx_output list" where
  "coinbase_outs b = filter output_is_coinbase (body_outputs (blk_body b))"

definition coinbase_kernels :: "block \<Rightarrow> tx_kernel list" where
  "coinbase_kernels b = filter (\<lambda>k. kf_is_coinbase (k_features k)) (body_kernels (blk_body b))"

lemma verify_coinbase_point:
  assumes "homomorphic (env_lib env) point" "verify_coinbase env b = Inr ()"
  shows "sum_list (map (point \<circ> output_commitment) (coinbase_outs b)) -
      point (projr (lib_commit_value (env_lib env) (reward (total_fees b)))) =
    sum_list (map (point \<circ> excess) (coinbase_kernels b))"
proof -
  obtain oc s where s: "lib_commit_value (env_lib env) (reward (total_fees b)) = Inr oc"
    "lib_commit_sum (env_lib env) (map output_commitment (coinbase_outs b)) [oc] = Inr s"
    "lib_commit_sum (env_lib env) (map excess (coinbase_kernels b)) [] = Inr s"
    using assms(2) by (auto simp: verify_coinbase_def Let_def rbind_Inr_iff coinbase_outs_def coinbase_kernels_def split: if_splits)
  then show ?thesis using homomorphicD(1) [OF assms(1) s(2)] homomorphicD(1) [OF assms(1) s(3)] by (simp add: o_def)
qed

lemma verify_kernel_lock_heights_iff:
  "verify_kernel_lock_heights b = Inr () \<longleftrightarrow>
     (\<forall>k \<in> set (body_kernels (blk_body b)). case k_features k of
        HeightLocked _ lock_height \<Rightarrow> lock_height \<le> hdr_height (blk_header b) | _ \<Rightarrow> True)"
proof -
  have "try_fold (\<lambda>k _. case k_features k of
         HeightLocked fee lock_height \<Rightarrow>
           if hdr_height (blk_header b) < lock_height then Inl (KernelLockHeight lock_height) else Inr ()
       | _ \<Rightarrow> Inr ()) ks u = Inr () \<longleftrightarrow> (\<forall>k \<in> set ks. case k_features k of
        HeightLocked _ lock_height \<Rightarrow> lock_height \<le> hdr_height (blk_header b) | _ \<Rightarrow> True)" for ks u
    by (induction ks arbitrary: u) (auto simp: rbind_def not_less split: kernel_features.splits sum.splits if_splits)
  then show ?thesis by (simp add: verify_kernel_lock_heights_def)
qed

lemma verify_nrd_iff:
  "verify_nrd_kernels_for_header_version env b = Inr () \<longleftrightarrow>
     (\<forall>k \<in> set (body_kernels (blk_body b)). kf_is_nrd (k_features k) \<longrightarrow> env_nrd env \<and> 4 \<le> hdr_version (blk_header b))"
  by (auto simp: verify_nrd_kernels_for_header_version_def list_ex_iff not_less)

lemma header_overage_eq: "header_overage h = - reward_base" "header_overage h \<noteq> 0" "header_overage h <s 0"
  by (simp_all add: header_overage_def checked_neg_def reward_base_def block_time_sec_def grin_base_def word_sless_alt)

lemma block_validate_parts:
  assumes "block_validate env b prev_off = Inr ()"
  obtains off u where "body_validate env (blk_body b) AsBlock = Inr ()" "verify_kernel_lock_heights b = Inr ()"
    "verify_nrd_kernels_for_header_version env b = Inr ()" "verify_coinbase env b = Inr ()"
    "block_kernel_offset env b prev_off = Inr off"
    "verify_kernel_sums (env_lib env) (block_committed env b) (header_overage (blk_header b)) off = Inr u"
  using assms that by (auto simp: block_validate_def rbind_Inr_iff)

section \<open>Hydration\<close>

lemma sort_key_restores:
  assumes "sorted_wrt (\<lambda>a b. key a < key b) xs" "mset ys = mset xs"
  shows "sort_key key ys = xs"
proof (rule properties_for_sort_key)
  show "mset xs = mset ys" using assms(2) by simp
  have "sorted_wrt (<) (map key xs)" using assms(1) by (simp add: sorted_wrt_map)
  then show "sorted (map key xs)" by (rule strict_sorted_imp_sorted)
  have d: "distinct (map key ys)"
    using \<open>sorted_wrt (<) (map key xs)\<close> assms(2) by (metis mset_eq_imp_distinct_iff mset_map strict_sorted_iff)
  have d': "distinct (map key xs)" using \<open>sorted_wrt (<) (map key xs)\<close> by (simp add: strict_sorted_iff)
  fix k
  assume k: "k \<in> set xs"
  have one: "filter (\<lambda>x. key k = key x) zs = [k]" if "k \<in> set zs" "distinct (map key zs)" for zs
    using that
  proof (induction zs)
    case (Cons z zs)
    show ?case
    proof (cases "k = z")
      case True
      then have "filter (\<lambda>x. key k = key x) zs = []" using Cons.prems by (auto simp: filter_empty_conv)
      then show ?thesis using True by simp
    next
      case False
      then have k': "k \<in> set zs" using Cons.prems by simp
      then have "key k \<noteq> key z" using Cons.prems by (metis distinct.simps(2) imageI list.set_map list.simps(9))
      then show ?thesis using Cons k' by simp
    qed
  qed simp
  have "k \<in> set ys" using k assms(2) by (metis set_mset_mset)
  then show "filter (\<lambda>x. key k = key x) xs = filter (\<lambda>x. key k = key x) ys" using one k d d' by metis
qed

section \<open>Properties\<close>

text \<open>The parameters of the graph a header's proof is checked in, with node indices of \<open>nb\<close> bits.\<close>

definition header_params :: "tx_env \<Rightarrow> block_header \<Rightarrow> u8 \<Rightarrow> cuckoo_params" where
  "header_params env h nb =
     reset_header_nonce (env_blake2b env) (pre_pow h) None
       (params_new (edge_bits (proof_of (hdr_pow h))) nb (length (nonces (proof_of (hdr_pow h)))))"

text \<open>The cycle that the proof of a header has to be: in the Cuckatoo graph of the header on a test chain and
  with more than 29 edge bits, otherwise in the graph of the Cuckaroo variant that its height asks for.\<close>

definition pow_cycle :: "tx_env \<Rightarrow> block_header \<Rightarrow> bool" where
  "pow_cycle env h =
     (let eb = edge_bits (proof_of (hdr_pow h)); ns = nonces (proof_of (hdr_pow h)); sz = proofsize (env_chain env);
          ver = header_version (env_chain env) (hdr_height h)
      in if env_chain env \<notin> {Mainnet, Testnet} \<or> 29 < eb
         then num_edges (header_params env h eb) < (- 1) div 2 \<and>
           length ns = sz \<and> nonces_ok (edge_mask (header_params env h eb)) ns \<and>
           single_cycle (side_mate (drop_bit 1) (\<noteq>)
             (\<lambda>e. (sipnode (header_params env h eb) e 0, sipnode (header_params env h eb) e 1)) ns sz) sz
         else if ver = 1
         then length ns = sz \<and> nonces_ok (edge_mask (header_params env h eb)) ns \<and>
           single_cycle (side_mate (\<lambda>u. u) (\<lambda>_ _. True) (cuckaroo_endpoints 21 False (header_params env h eb)) ns sz) sz
         else if ver = 2 then cuckarood_verify (env_chain env) (header_params env h (eb - 1)) (proof_of (hdr_pow h)) = Some (Inr ())
         else if ver = 3
         then length ns = sz \<and> nonces_ok (edge_mask (header_params env h eb)) ns \<and>
           directed_cycle (cuckaroo_endpoints 21 True (header_params env h eb)) ns sz
         else if ver = 4
         then length ns = sz \<and> nonces_ok (edge_mask (header_params env h (eb + 1))) ns \<and>
           single_cycle (z_mate (cuckaroo_endpoints 21 True (header_params env h (eb + 1))) ns sz) sz
         else False)"

lemma cuckarooz_any_size:
  "proof_size p = length (nonces pf) \<Longrightarrow> cuckarooz_verify ct p pf = Some (Inr ()) \<longleftrightarrow>
     length (nonces pf) = proofsize ct \<and> nonces_ok (edge_mask p) (nonces pf) \<and>
     single_cycle (z_mate (cuckaroo_endpoints 21 True p) (nonces pf) (proofsize ct)) (proofsize ct)"
proof (cases "length (nonces pf) = proofsize ct")
  case True
  then show "proof_size p = length (nonces pf) \<Longrightarrow> ?thesis" unfolding cuckarooz_verify_def by (simp add: z_iff [OF proofsize_pos])
qed (simp add: cuckarooz_verify_def z_verify_def)

lemma num_edges_header_params:
  "num_edges (header_params env h nb) =
     num_edges (params_new (edge_bits (proof_of (hdr_pow h))) nb (length (nonces (proof_of (hdr_pow h)))))"
  by (simp add: header_params_def reset_header_nonce_def)

lemma verify_size_iff: "verify_size env h = Some (Inr ()) \<longleftrightarrow> pow_cycle env h"
proof -
  have n: "proof_size (header_params env h nb) = length (nonces (proof_of (hdr_pow h)))" for nb
    by (simp add: header_params_def reset_header_nonce_def params_new_def Let_def)
  have c: "cuckatoo_verify ct p pf = Some (Inr ()) \<longleftrightarrow>
     length (nonces pf) = proofsize ct \<and> nonces_ok (edge_mask p) (nonces pf) \<and>
     single_cycle (side_mate (drop_bit 1) (\<noteq>) (\<lambda>e. (sipnode p e 0, sipnode p e 1)) (nonces pf) (proofsize ct)) (proofsize ct)"
    for ct p pf unfolding cuckatoo_verify_def by (rule cuckatoo.bipartite_iff [OF proofsize_pos cuckatoo_start])
  have r: "cuckaroo_verify ct p pf = Some (Inr ()) \<longleftrightarrow>
      length (nonces pf) = proofsize ct \<and> nonces_ok (edge_mask p) (nonces pf) \<and>
      single_cycle (side_mate (\<lambda>u. u) (\<lambda>_ _. True) (cuckaroo_endpoints 21 False p) (nonces pf) (proofsize ct)) (proofsize ct)"
    for ct p pf unfolding cuckaroo_verify_def by (rule cuckaroo.bipartite_iff [OF proofsize_pos]) simp
  have m: "cuckaroom_verify ct p pf = Some (Inr ()) \<longleftrightarrow>
      length (nonces pf) = proofsize ct \<and> nonces_ok (edge_mask p) (nonces pf) \<and>
      directed_cycle (cuckaroo_endpoints 21 True p) (nonces pf) (proofsize ct)" for ct p pf
    unfolding cuckaroom_verify_def by (rule mono_iff [OF proofsize_pos])
  show ?thesis
    unfolding verify_size_def pow_cycle_def create_pow_context_def new_cuckatoo_ctx_def Let_def graph_new_def
    by (auto simp: ctx_set_header_nonce_def ctx_verify_def c r m cuckarooz_any_size [OF n] header_params_def [symmetric]
        no_cuckaroo_ctx_def not_le num_edges_header_params)
qed



definition demo_coinbase :: tx_output where
  "demo_coinbase = \<lparr> out_identifier = \<lparr> oi_features = CoinbaseOutput, oi_commit = [7] \<rparr>, out_proof = \<lparr> plen = 1, proof_bytes = [1] \<rparr> \<rparr>"

definition demo_coinbase_kernel :: tx_kernel where
  "demo_coinbase_kernel = \<lparr> k_features = Coinbase, excess = [7], excess_sig = [0] \<rparr>"

definition demo_block :: block where
  "demo_block = \<lparr> blk_header = header_default demo_env,
     blk_body = \<lparr> body_inputs = CommitOnly [], body_outputs = [demo_coinbase], body_kernels = [demo_coinbase_kernel] \<rparr> \<rparr>"

lemma demo_block_valid: "block_validate demo_env demo_block [0] = Inr ()"
proof -
  have "body_sorted demo_env (blk_body demo_block)" by (simp add: body_sorted_def inputs_sorted_def demo_block_def)
  moreover have "body_weight (blk_body demo_block) = 24"
    by (simp add: body_weight_def weight_by_iok_def sat_add_def sat_mul_def demo_block_def inputs_len_def
        input_weight_def output_weight_def kernel_weight_def)
  ultimately have "body_acceptable demo_env (blk_body demo_block) AsBlock"
    by (simp add: body_acceptable_def weight_limit_def demo_env_def demo_block_def nrd_excesses_def max_block_weight_def
        max_block_weight_const_def body_committed_def inputs_to_wrappers_def)
  then have "body_validate_read demo_env (blk_body demo_block) AsBlock = Inr ()" by (simp add: body_validate_read_iff)
  moreover have "batch_verify_proofs demo_env (map output_commitment [demo_coinbase]) (map out_proof [demo_coinbase]) = Inr ()"
    by code_simp
  moreover have "batch_sig_verify demo_env [demo_coinbase_kernel] = Inr ()" by code_simp
  ultimately have "body_validate demo_env (blk_body demo_block) AsBlock = Inr ()" by (simp add: body_validate_def demo_block_def)
  moreover have "verify_kernel_lock_heights demo_block = Inr ()" by code_simp
  moreover have "verify_nrd_kernels_for_header_version demo_env demo_block = Inr ()" by code_simp
  moreover have "block_kernel_offset demo_env demo_block [0] = Inr [0]" by code_simp
  moreover have "map_kernels_fees (blk_body demo_block) = []" by code_simp
  then have "reward (total_fees demo_block) = 60000000000"
    by (simp add: total_fees_def body_fee_def reward_def sat_add_def reward_base_def block_time_sec_def grin_base_def)
  then have "verify_coinbase demo_env demo_block = Inr ()"
    by (simp add: verify_coinbase_def demo_block_def demo_coinbase_def demo_coinbase_kernel_def demo_env_def byte_lib_def
        output_is_coinbase_def of_is_coinbase_def kf_is_coinbase_def output_commitment_def)
  moreover have "verify_kernel_sums (env_lib demo_env) (block_committed demo_env demo_block) (header_overage (blk_header demo_block)) [0]
    = Inr ([7], [7])" by code_simp
  ultimately show ?thesis by (simp add: block_validate_def)
qed


lemma cut_through_outputs:
  assumes "cut_through ci co ki ko ins outs = Inr (ins', outs', c, d)"
  shows "set outs' \<subseteq> set outs"
proof -
  obtain K C L D where "mset (L @ D) = mset outs" "cut_through ci co ki ko ins outs =
       (if distinct (map ki K) \<and> distinct (map ko L)
        then Inr (sort_key ki K, sort_key ko L, sort_key ki C, sort_key ko D) else Inl CutThrough)"
    using cut_through_cases [of ins outs ci co ki ko] by metis
  moreover from this have "set (L @ D) = set outs" by (metis set_mset_mset)
  ultimately show ?thesis using assms by (auto split: if_splits)
qed

lemma sorted_insert_mset:
  "sorted_insert key x xs = xs \<or> mset (sorted_insert key x xs) = add_mset x (mset xs)"
proof -
  have "mset (insert_at e x xs) = add_mset x (mset xs)" for e
    by (metis insert_at_def append_take_drop_id mset_append mset.simps(2) union_mset_add_mset_right)
  then show ?thesis by (auto simp: sorted_insert_def split: sum.splits)
qed

lemma mset_sorted_insert_filter:
  assumes "P x" "\<forall>y \<in> set xs. \<not> P y"
  shows "mset xs + filter_mset P (mset (sorted_insert key x xs)) = mset (sorted_insert key x xs)"
proof -
  have "filter_mset P (mset xs) = {#}" using assms(2) by (metis filter_False mset.simps(1) mset_filter)
  then show ?thesis using sorted_insert_mset [of key x xs] assms(1) by auto
qed

text \<open>C27: A block mined from two or more transactions survives its relay as a compact block: a peer that has the
  transactions restores exactly this block from the header, the coinbase parts and the transactions.\<close>

theorem compact_block_hydrates:
  assumes "from_reward env clk prev_hdr txs reward_out reward_kern diff = Inr b" "2 \<le> length txs"
    and "output_is_coinbase reward_out" "kf_is_coinbase (k_features reward_kern)"
    and "\<forall>tx \<in> set txs. (\<forall>out \<in> set (body_outputs (tx_body tx)). \<not> output_is_coinbase out) \<and>
      (\<forall>k \<in> set (body_kernels (tx_body tx)). \<not> kf_is_coinbase (k_features k))"
    and "body_sorted env (blk_body b)"
  shows "hydrate_from env (compact_from_block env sip nonce b) txs = Inr b"
proof -
  define ks where "ks = concat (map (\<lambda>tx. body_kernels (tx_body tx)) txs)"
  obtain t1 t2 ts where txs: "txs = t1 # t2 # ts" using assms(2) by (metis Suc_le_length_iff numeral_2_eq_2)
  obtain agg ins outs c d where agg: "aggregate env txs = Inr agg"
    and cut: "cut_through cw_commit output_commitment (commit_wrapper_key env) (output_key env)
        (concat (map (\<lambda>tx. inputs_to_wrappers env (body_inputs (tx_body tx))) txs))
        (concat (map (\<lambda>tx. body_outputs (tx_body tx)) txs)) = Inr (ins, outs, c, d)"
    and body: "tx_body agg = body_sort env \<lparr> body_inputs = CommitOnly ins, body_outputs = outs, body_kernels = ks \<rparr>"
    using assms(1) txs
    by (fastforce simp: from_reward_def aggregate_def rbind_Inr_iff tx_with_offset_def tx_new_def body_init_def ks_def)
  have hdr: "blk_body b = body_with_kernel env reward_kern (body_with_output env reward_out (tx_body agg))"
    using assms(1) agg
    by (auto simp: from_reward_def rbind_Inr_iff Let_def tx_with_kernel_def tx_with_output_def split: if_splits)
  have "set outs \<subseteq> (\<Union>tx \<in> set txs. set (body_outputs (tx_body tx)))"
    using cut_through_outputs [OF cut] by simp
  then have o: "mset outs + mset (filter output_is_coinbase (body_outputs (blk_body b))) = mset (body_outputs (blk_body b))"
    using mset_sorted_insert_filter [of output_is_coinbase reward_out "sort_key (output_key env) outs" "output_key env"] assms(3,5)
    by (auto simp: hdr body body_sort_def body_with_kernel_def body_with_output_def)
  have k: "mset ks + mset (filter (\<lambda>k. kf_is_coinbase (k_features k)) (body_kernels (blk_body b))) = mset (body_kernels (blk_body b))"
    using mset_sorted_insert_filter [of "\<lambda>k. kf_is_coinbase (k_features k)" reward_kern
        "sort_key (tx_kernel_key env) ks" "tx_kernel_key env"] assms(4,5)
    by (auto simp: hdr body body_sort_def body_with_kernel_def body_with_output_def ks_def)
  have i: "body_inputs (blk_body b) = CommitOnly (sort_key (commit_wrapper_key env) ins)"
    by (simp add: hdr body body_sort_def body_with_kernel_def body_with_output_def inputs_sort_unstable_def)
  have s: "sorted_wrt (\<lambda>a b. output_key env a < output_key env b) (body_outputs (blk_body b))"
    "sorted_wrt (\<lambda>a b. tx_kernel_key env a < tx_kernel_key env b) (body_kernels (blk_body b))"
    using assms(6) by (simp_all add: body_sorted_def)
  have "blk_body b = body_sort env \<lparr> body_inputs = CommitOnly ins,
      body_outputs = outs @ out_full (cb_body (compact_from_block env sip nonce b)),
      body_kernels = ks @ kern_full (cb_body (compact_from_block env sip nonce b)) \<rparr>"
    using sort_key_restores [OF s(1), of "outs @ out_full (cb_body (compact_from_block env sip nonce b))"]
      sort_key_restores [OF s(2), of "ks @ kern_full (cb_body (compact_from_block env sip nonce b))"] i o k
    by (simp add: body_sort_def compact_from_block_def cbody_init_def cbody_sort_def Let_def inputs_sort_unstable_def)
  then show ?thesis
    by (simp add: hydrate_from_def cut body_init_def ks_def [symmetric] compact_from_block_def Let_def)
qed

definition demo_clock :: clock where
  "demo_clock = \<lparr> date_min = 0, date_max = 100, representable = (\<lambda>_. True), utc_now = 50, ftl = 10 \<rparr>"

lemma compact_block_hydrates_witness:
  "\<exists>b. from_reward demo_env demo_clock (header_default demo_env) [demo_tx, demo_tx2] demo_coinbase demo_coinbase_kernel (Difficulty 1) = Inr b \<and>
     hydrate_from demo_env (compact_from_block demo_env (\<lambda>k0 k1 bs. k0 + k1) 5 b) [demo_tx, demo_tx2] = Inr b"
proof -
  let ?body = "tx_body (tx_with_kernel demo_env demo_coinbase_kernel (tx_with_output demo_env demo_coinbase demo_agg))"
  have "is_ok (sum_kernel_offsets (env_lib demo_env) [offset demo_agg, total_kernel_offset (header_default demo_env)] [])"
    by code_simp
  then obtain off where "sum_kernel_offsets (env_lib demo_env) [offset demo_agg, total_kernel_offset (header_default demo_env)] [] = Inr off"
    using is_ok_projr by blast
  then obtain b where b: "from_reward demo_env demo_clock (header_default demo_env) [demo_tx, demo_tx2] demo_coinbase
      demo_coinbase_kernel (Difficulty 1) = Inr b" "blk_body b = ?body"
    by (auto simp: from_reward_def demo_aggregate Let_def demo_clock_def tx_with_kernel_def tx_with_output_def)
  have "body_sorted demo_env ?body" by code_simp
  moreover have "\<forall>tx \<in> set [demo_tx, demo_tx2]. (\<forall>out \<in> set (body_outputs (tx_body tx)). \<not> output_is_coinbase out) \<and>
      (\<forall>k \<in> set (body_kernels (tx_body tx)). \<not> kf_is_coinbase (k_features k))" by code_simp
  moreover have "output_is_coinbase demo_coinbase" "kf_is_coinbase (k_features demo_coinbase_kernel)" by code_simp+
  ultimately show ?thesis using compact_block_hydrates [OF b(1)] b by auto
qed

end
