(* ===== verification/Kv_Store.thy ===== *)
theory Kv_Store
  imports Ser
begin

text \<open>
  The key-value store under the chain (\<open>store/src/lmdb.rs\<close>): a batch over one write transaction with one
  database per prefix and a default database, typed reading and writing through the serialization of
  \<open>ser.rs\<close>, the paged iterator over a database, and the migration of records whose keys carry their prefix.

  The transactions themselves are LMDB's, reached through the crate \<open>heed\<close>: they are a parameter
  (\<open>heed_lib\<close>). \<open>heed_ok lib view\<close> states what its documentation promises of a working environment: a
  transaction is a finite map from keys to values, which \<open>get\<close> reads, \<open>put\<close> and \<open>delete\<close> change at one key
  and \<open>iter\<close> lists without repetition.
\<close>

section \<open>The library\<close>

type_synonym db_key = "u8 option"

record 't heed_lib =
  heed_get :: "'t \<Rightarrow> db_key \<Rightarrow> bytes \<Rightarrow> string + bytes option"
  heed_put :: "'t \<Rightarrow> db_key \<Rightarrow> bytes \<Rightarrow> bytes \<Rightarrow> string + 't"
  heed_delete :: "'t \<Rightarrow> db_key \<Rightarrow> bytes \<Rightarrow> string + 't"
  heed_keys :: "'t \<Rightarrow> db_key \<Rightarrow> string + bytes list"

definition heed_ok :: "'t heed_lib \<Rightarrow> ('t \<Rightarrow> db_key \<times> bytes \<Rightarrow> bytes option) \<Rightarrow> bool" where
  "heed_ok lib view \<longleftrightarrow>
     (\<forall>t d k. heed_get lib t d k = Inr (view t (d, k))) \<and>
     (\<forall>t d k v. \<exists>t'. heed_put lib t d k v = Inr t' \<and> view t' = (view t) ((d, k) \<mapsto> v)) \<and>
     (\<forall>t d k. \<exists>t'. heed_delete lib t d k = Inr t' \<and> view t' = (view t) ((d, k) := None)) \<and>
     (\<forall>t d. \<exists>ks. heed_keys lib t d = Inr ks \<and> distinct ks \<and> set ks = {k. view t (d, k) \<noteq> None})"

section \<open>Batches\<close>

datatype store_error = NotFoundErr string | LmdbErr string | SerErr ser_error | FileErr string | OtherErr string

definition option_to_not_found :: "store_error + 'a option \<Rightarrow> string \<Rightarrow> store_error + 'a" where
  "option_to_not_found res field_name =
     (case res of Inr None \<Rightarrow> Inl (NotFoundErr field_name) | Inr (Some x) \<Rightarrow> Inr x | Inl e \<Rightarrow> Inl e)"

definition default_db_version :: protocol_version where "default_db_version = 3"

definition prefix_key_separator :: u8 where "prefix_key_separator = 58"

text \<open>A batch knows the prefixes for which the store has a database and holds its transaction.\<close>

record 't batch =
  pre_dbs :: "u8 list"
  txn :: 't

definition get_db :: "'t batch \<Rightarrow> db_key \<Rightarrow> store_error + db_key" where
  "get_db b d =
     (case d of
        Some p \<Rightarrow> if p \<in> set (pre_dbs b) then Inr (Some p) else Inl (OtherErr ''db for provided key not found'')
      | None \<Rightarrow> Inr None)"

definition batch_put :: "'t heed_lib \<Rightarrow> 't batch \<Rightarrow> db_key \<Rightarrow> bytes \<Rightarrow> bytes \<Rightarrow> store_error + 't batch" where
  "batch_put lib b d key value =
     rbind (get_db b d) (\<lambda>db. rbind (map_err LmdbErr (heed_put lib (txn b) db key value)) (\<lambda>t. Inr (b \<lparr> txn := t \<rparr>)))"

definition put_ser_with_version ::
    "'t heed_lib \<Rightarrow> 'a writeable \<Rightarrow> 't batch \<Rightarrow> db_key \<Rightarrow> bytes \<Rightarrow> 'a \<Rightarrow> protocol_version \<Rightarrow> store_error + 't batch" where
  "put_ser_with_version lib wr b d key value version =
     (case ser_vec wr value version of Inr data \<Rightarrow> batch_put lib b d key data | Inl err \<Rightarrow> Inl (SerErr err))"

definition put_ser :: "'t heed_lib \<Rightarrow> 'a writeable \<Rightarrow> 't batch \<Rightarrow> db_key \<Rightarrow> bytes \<Rightarrow> 'a \<Rightarrow> store_error + 't batch" where
  "put_ser lib wr b d key value = put_ser_with_version lib wr b d key value default_db_version"

definition get_with ::
    "'t heed_lib \<Rightarrow> 't batch \<Rightarrow> db_key \<Rightarrow> bytes \<Rightarrow> (bytes \<Rightarrow> bytes \<Rightarrow> store_error + 'a) \<Rightarrow> store_error + 'a option" where
  "get_with lib b d key deser =
     rbind (get_db b d) (\<lambda>db.
       rbind (map_err LmdbErr (heed_get lib (txn b) db key)) (\<lambda>res.
         case res of None \<Rightarrow> Inr None | Some res \<Rightarrow> rbind (deser key res) (\<lambda>x. Inr (Some x))))"

definition get_ser ::
    "'t heed_lib \<Rightarrow> 'a readable_fn \<Rightarrow> 't batch \<Rightarrow> db_key \<Rightarrow> bytes \<Rightarrow> deserialization_mode option \<Rightarrow> store_error + 'a option" where
  "get_ser lib rd b d key deser_mode =
     (let m = (case deser_mode of None \<Rightarrow> DeserFull | Some m \<Rightarrow> m)
      in get_with lib b d key (\<lambda>_ data. map_err SerErr (deserialize rd data default_db_version m)))"

definition batch_exists :: "'t heed_lib \<Rightarrow> 't batch \<Rightarrow> db_key \<Rightarrow> bytes \<Rightarrow> store_error + bool" where
  "batch_exists lib b d key =
     rbind (get_db b d) (\<lambda>db. rbind (map_err LmdbErr (heed_get lib (txn b) db key)) (\<lambda>res. Inr (res \<noteq> None)))"

definition batch_delete :: "'t heed_lib \<Rightarrow> 't batch \<Rightarrow> db_key \<Rightarrow> bytes \<Rightarrow> store_error + 't batch" where
  "batch_delete lib b d key =
     rbind (get_db b d) (\<lambda>db. rbind (map_err LmdbErr (heed_delete lib (txn b) db key)) (\<lambda>t. Inr (b \<lparr> txn := t \<rparr>)))"

section \<open>Iteration\<close>

text \<open>The iterator reads the keys of a database page by page and looks up the value of each.\<close>

record db_iter =
  iter_db :: db_key
  iter_keys :: "bytes list"
  skip_cur :: nat
  skip_total :: nat
  iter_done :: bool

definition key_page_size :: nat where "key_page_size = 10000"

definition read_key_page :: "'t heed_lib \<Rightarrow> 't \<Rightarrow> nat \<Rightarrow> db_key \<Rightarrow> nat \<Rightarrow> store_error + bytes list" where
  "read_key_page lib t page db skip =
     rbind (map_err LmdbErr (heed_keys lib t db)) (\<lambda>ks. Inr (take page (drop skip ks)))"

definition iter_new :: "'t heed_lib \<Rightarrow> 't \<Rightarrow> nat \<Rightarrow> db_key \<Rightarrow> store_error + db_iter" where
  "iter_new lib t page db =
     rbind (read_key_page lib t page db 0) (\<lambda>ks.
       Inr \<lparr> iter_db = db, iter_keys = ks, skip_cur = 0, skip_total = 0, iter_done = (ks = []) \<rparr>)"

definition batch_iter :: "'t heed_lib \<Rightarrow> 't batch \<Rightarrow> nat \<Rightarrow> db_key \<Rightarrow> store_error + db_iter" where
  "batch_iter lib b page d = rbind (get_db b d) (iter_new lib (txn b) page)"

definition load_next_keys :: "'t heed_lib \<Rightarrow> 't \<Rightarrow> nat \<Rightarrow> db_iter \<Rightarrow> store_error + db_iter" where
  "load_next_keys lib t page it =
     rbind (read_key_page lib t page (iter_db it) (skip_total it)) (\<lambda>ks.
       Inr (it \<lparr> iter_keys := ks, skip_cur := 0, iter_done := (ks = []) \<rparr>))"

text \<open>\<open>next\<close> loops until it has an item, an error or the end; the outer \<open>None\<close> is a loop that does not end.\<close>

partial_function (option) iter_next ::
    "'t heed_lib \<Rightarrow> 't \<Rightarrow> nat \<Rightarrow> (bytes \<Rightarrow> bytes \<Rightarrow> store_error + 'a) \<Rightarrow> db_iter \<Rightarrow>
     ((store_error + 'a) option \<times> db_iter) option" where
  "iter_next lib t page deser it =
     (if iter_done it then Some (None, it)
      else if skip_cur it < length (iter_keys it)
      then let k = iter_keys it ! skip_cur it;
               it = it \<lparr> skip_total := skip_total it + 1, skip_cur := skip_cur it + 1 \<rparr>
           in case heed_get lib t (iter_db it) k of
                Inr (Some v) \<Rightarrow> Some (Some (deser k v), it)
              | Inr None \<Rightarrow> iter_next lib t page deser it
              | Inl e \<Rightarrow> Some (Some (Inl (LmdbErr e)), it)
      else case load_next_keys lib t page it of
             Inl e \<Rightarrow> Some (Some (Inl e), it \<lparr> iter_done := True \<rparr>)
           | Inr it \<Rightarrow> iter_next lib t page deser it)"

text \<open>A \<open>for\<close> loop over the iterator that collects its items.\<close>

partial_function (option) iter_collect ::
    "'t heed_lib \<Rightarrow> 't \<Rightarrow> nat \<Rightarrow> (bytes \<Rightarrow> bytes \<Rightarrow> store_error + 'a) \<Rightarrow> db_iter \<Rightarrow> (store_error + 'a) list \<Rightarrow>
     (store_error + 'a) list option" where
  "iter_collect lib t page deser it acc =
     (case iter_next lib t page deser it of
        None \<Rightarrow> None
      | Some (None, _) \<Rightarrow> Some acc
      | Some (Some x, it) \<Rightarrow> iter_collect lib t page deser it (acc @ [x]))"

section \<open>Migration\<close>

text \<open>One record of the old store, in which the prefix and a colon started the key.\<close>

definition migrate_record :: "'t heed_lib \<Rightarrow> bytes \<times> bytes \<Rightarrow> 't batch \<times> nat \<Rightarrow> store_error + 't batch \<times> nat" where
  "migrate_record lib kv state =
     (let (k, v) = kv; (b, n) = state
      in if 1 < length k \<and> k ! 1 = prefix_key_separator
         then (if hd k \<in> set (pre_dbs b)
               then rbind (map_err LmdbErr (heed_put lib (txn b) (Some (hd k)) (drop 2 k) v)) (\<lambda>t.
                      Inr (b \<lparr> txn := t \<rparr>, n + 1))
               else Inr (b, n))
         else rbind (map_err LmdbErr (heed_put lib (txn b) None k v)) (\<lambda>t. Inr (b \<lparr> txn := t \<rparr>, n + 1)))"

definition migrate_records :: "'t heed_lib \<Rightarrow> (bytes \<times> bytes) list \<Rightarrow> 't batch \<Rightarrow> store_error + 't batch \<times> nat" where
  "migrate_records lib kvs b = try_fold (migrate_record lib) kvs (b, 0)"

section \<open>Sizes\<close>

definition round_size_to_chunk :: "nat \<Rightarrow> nat \<Rightarrow> nat" where
  "round_size_to_chunk sz chunk_size =
     (let rem = sz mod chunk_size in if rem = 0 then sz else sz + (chunk_size - rem))"

lemma round_size_to_chunk_least:
  assumes "0 < chunk"
  shows "sz \<le> round_size_to_chunk sz chunk" "chunk dvd round_size_to_chunk sz chunk" "round_size_to_chunk sz chunk < sz + chunk"
proof -
  define q r where "q = sz div chunk" and "r = sz mod chunk"
  have sz: "sz = q * chunk + r" "r < chunk" using assms by (simp_all add: q_def r_def)
  have "round_size_to_chunk sz chunk = (if r = 0 then q * chunk else (q + 1) * chunk)"
    using sz unfolding round_size_to_chunk_def Let_def r_def [symmetric] by simp
  then show "sz \<le> round_size_to_chunk sz chunk" "chunk dvd round_size_to_chunk sz chunk"
    "round_size_to_chunk sz chunk < sz + chunk"
    using sz by auto
qed

section \<open>Reading what was written\<close>

lemma heed_okD:
  assumes "heed_ok lib view"
  shows "heed_get lib t d k = Inr (view t (d, k))"
    and "\<exists>t'. heed_put lib t d k v = Inr t' \<and> view t' = (view t) ((d, k) \<mapsto> v)"
    and "\<exists>t'. heed_delete lib t d k = Inr t' \<and> view t' = (view t) ((d, k) := None)"
    and "\<exists>ks. heed_keys lib t d = Inr ks \<and> distinct ks \<and> set ks = {k. view t (d, k) \<noteq> None}"
  using assms by (auto simp: heed_ok_def)

text \<open>The databases a batch can reach.\<close>

definition has_db :: "'t batch \<Rightarrow> db_key \<Rightarrow> bool" where
  "has_db b d = (case d of Some p \<Rightarrow> p \<in> set (pre_dbs b) | None \<Rightarrow> True)"

lemma get_db_eq: "get_db b d = (if has_db b d then Inr d else Inl (OtherErr ''db for provided key not found''))"
  by (auto simp: get_db_def has_db_def split: option.splits)

definition stored :: "('t \<Rightarrow> db_key \<times> bytes \<Rightarrow> bytes option) \<Rightarrow> 't batch \<Rightarrow> db_key \<times> bytes \<Rightarrow> bytes option" where
  "stored view b = view (txn b)"

text \<open>\<open>holds\<close>: a key holds a value of a type, as the type's reader sees it.\<close>

definition holds ::
    "('t \<Rightarrow> db_key \<times> bytes \<Rightarrow> bytes option) \<Rightarrow> 'a readable_fn \<Rightarrow> 't batch \<Rightarrow> db_key \<Rightarrow> bytes \<Rightarrow> 'a \<Rightarrow> bool" where
  "holds view rd b d key x \<longleftrightarrow>
     (\<exists>data. stored view b (d, key) = Some data \<and> deserialize rd data default_db_version DeserFull = Inr x)"

lemma get_ser_holds:
  "heed_ok lib view \<Longrightarrow> has_db b d \<Longrightarrow> holds view rd b d key x \<Longrightarrow> get_ser lib rd b d key None = Inr (Some x)"
  by (auto simp: get_ser_def get_with_def get_db_eq holds_def stored_def heed_okD)

lemma get_ser_absent:
  "heed_ok lib view \<Longrightarrow> has_db b d \<Longrightarrow> stored view b (d, key) = None \<Longrightarrow> get_ser lib rd b d key None = Inr None"
  by (simp add: get_ser_def get_with_def get_db_eq stored_def heed_okD)

lemma put_ser_bytes:
  assumes "heed_ok lib view" "has_db b d" "wr (full_ctx default_db_version) x = Inr data"
  obtains b' where "put_ser lib wr b d key x = Inr b'" "pre_dbs b' = pre_dbs b"
    "stored view b' = (stored view b) ((d, key) \<mapsto> data)"
proof -
  obtain t where t: "heed_put lib (txn b) d key data = Inr t" "view t = (view (txn b)) ((d, key) \<mapsto> data)"
    using heed_okD(2) [OF assms(1)] by metis
  show thesis
    by (rule that [of "b \<lparr> txn := t \<rparr>"])
      (use assms(2,3) t in \<open>simp_all add: put_ser_def put_ser_with_version_def ser_vec_def batch_put_def get_db_eq
        stored_def fun_upd_def\<close>)
qed

lemma put_ser_stores:
  assumes "heed_ok lib view" "has_db b d" "codec wr rd valid" "valid default_db_version x"
  obtains b' where "put_ser lib wr b d key x = Inr b'" "pre_dbs b' = pre_dbs b" "holds view rd b' d key x"
    "\<And>k. k \<noteq> (d, key) \<Longrightarrow> stored view b' k = stored view b k"
proof -
  have "rbind (ser_vec wr x default_db_version) (\<lambda>bs. deserialize rd (bs @ []) default_db_version DeserFull) = Inr x"
    by (rule codec.ser_deserialize [OF assms(3,4)])
  then obtain data where data: "wr (full_ctx default_db_version) x = Inr data"
    "deserialize rd data default_db_version DeserFull = Inr x"
    by (auto simp: rbind_Inr_iff ser_vec_def)
  obtain b' where "put_ser lib wr b d key x = Inr b'" "pre_dbs b' = pre_dbs b"
    "stored view b' = (stored view b) ((d, key) \<mapsto> data)" using put_ser_bytes [where wr = wr, OF assms(1,2) data(1)] .
  then show thesis using that data(2) by (simp add: holds_def)
qed

lemma delete_stores:
  assumes "heed_ok lib view" "has_db b d"
  obtains b' where "batch_delete lib b d key = Inr b'" "pre_dbs b' = pre_dbs b"
    "stored view b' = (stored view b) ((d, key) := None)"
proof -
  obtain t where t: "heed_delete lib (txn b) d key = Inr t" "view t = (view (txn b)) ((d, key) := None)"
    using heed_okD(3) [OF assms(1)] by metis
  show thesis
    by (rule that [of "b \<lparr> txn := t \<rparr>"]) (use assms(2) t in \<open>simp_all add: batch_delete_def get_db_eq stored_def fun_upd_def\<close>)
qed

lemma holds_cong: "stored view b (d, key) = stored view b' (d, key) \<Longrightarrow> holds view rd b d key x = holds view rd b' d key x"
  by (simp add: holds_def)

lemma has_db_cong: "pre_dbs b = pre_dbs b' \<Longrightarrow> has_db b d = has_db b' d"
  by (simp add: has_db_def split: option.splits)

section \<open>Iteration visits every record once\<close>

definition iter_inv :: "nat \<Rightarrow> bytes list \<Rightarrow> db_key \<Rightarrow> db_iter \<Rightarrow> bool" where
  "iter_inv page ks d it \<longleftrightarrow>
     (\<exists>s. iter_db it = d \<and> skip_total it = s + skip_cur it \<and> skip_cur it \<le> length (iter_keys it) \<and>
       iter_keys it = take page (drop s ks) \<and> iter_done it = (iter_keys it = []))"

lemma iter_next_at_key:
  assumes "heed_ok lib view" "heed_keys lib t d = Inr ks" "iter_inv page ks d it" "skip_cur it < length (iter_keys it)"
  obtains it' v where "iter_next lib t page deser it = Some (Some (deser (ks ! skip_total it) v), it')"
    "view t (d, ks ! skip_total it) = Some v"
    "iter_inv page ks d it'" "skip_total it' = skip_total it + 1" "skip_total it < length ks"
proof -
  obtain s where s: "iter_db it = d" "skip_total it = s + skip_cur it" "iter_keys it = take page (drop s ks)"
    "iter_done it = (iter_keys it = [])" using assms(3) by (auto simp: iter_inv_def)
  have lt: "s + skip_cur it < length ks" "skip_cur it < page" using assms(4) s by auto
  have k: "iter_keys it ! skip_cur it = ks ! skip_total it" using s lt by simp
  have "set ks = {k. view t (d, k) \<noteq> None}" using heed_okD(4) [OF assms(1), of t d] assms(2) by auto
  then obtain v where v: "view t (d, ks ! skip_total it) = Some v" using nth_mem [of "skip_total it" ks] lt s by auto
  let ?it = "it \<lparr> skip_total := skip_total it + 1, skip_cur := skip_cur it + 1 \<rparr>"
  have "iter_inv page ks d ?it" using s assms(4) by (auto simp: iter_inv_def)
  moreover have "iter_next lib t page deser it = Some (Some (deser (ks ! skip_total it) v), ?it)"
    using assms(4) s k v by (subst iter_next.simps) (auto simp: Let_def heed_okD(1) [OF assms(1)])
  ultimately show thesis using that [of v ?it] v lt s by simp
qed

lemma iter_next_item:
  assumes "heed_ok lib view" "heed_keys lib t d = Inr ks" "iter_inv page ks d it" "0 < page"
  shows "if skip_total it < length ks
    then \<exists>it' v. iter_next lib t page deser it = Some (Some (deser (ks ! skip_total it) v), it') \<and>
      view t (d, ks ! skip_total it) = Some v \<and> iter_inv page ks d it' \<and> skip_total it' = skip_total it + 1
    else \<exists>it'. iter_next lib t page deser it = Some (None, it')"
proof (cases "skip_cur it < length (iter_keys it)")
  case True
  then show ?thesis using iter_next_at_key [OF assms(1-3), of deser] by (metis (no_types, lifting))
next
  case False
  obtain s where s: "iter_db it = d" "skip_total it = s + skip_cur it" "iter_keys it = take page (drop s ks)"
    "iter_done it = (iter_keys it = [])" "skip_cur it = length (iter_keys it)"
    using assms(3) False by (auto simp: iter_inv_def)
  show ?thesis
  proof (cases "iter_done it")
    case True
    then have "length ks \<le> skip_total it" using s assms(4) by auto
    then show ?thesis using True by (subst iter_next.simps) simp
  next
    case more: False
    let ?it = "it \<lparr> iter_keys := take page (drop (skip_total it) ks), skip_cur := 0,
      iter_done := (take page (drop (skip_total it) ks) = []) \<rparr>"
    have step: "iter_next lib t page deser it = iter_next lib t page deser ?it"
      using more False s(1) by (subst iter_next.simps) (simp add: load_next_keys_def read_key_page_def assms(2))
    have inv: "iter_inv page ks d ?it" using s(1) by (auto simp: iter_inv_def)
    show ?thesis
    proof (cases "skip_total it < length ks")
      case True
      then have "skip_cur ?it < length (iter_keys ?it)" using assms(4) by simp
      then obtain it' v where "iter_next lib t page deser ?it = Some (Some (deser (ks ! skip_total ?it) v), it')"
        "view t (d, ks ! skip_total ?it) = Some v" "iter_inv page ks d it'" "skip_total it' = skip_total ?it + 1"
        using iter_next_at_key [OF assms(1,2) inv, of deser] by metis
      then show ?thesis using True step by auto
    next
      case False
      then have "iter_next lib t page deser ?it = Some (None, ?it)" by (subst iter_next.simps) simp
      then show ?thesis using False step by simp
    qed
  qed
qed

lemma iter_collect_items:
  assumes "heed_ok lib view" "heed_keys lib t d = Inr ks" "0 < page" "iter_inv page ks d it"
  shows "iter_collect lib t page deser it acc =
    Some (acc @ map (\<lambda>k. deser k (the (view t (d, k)))) (drop (skip_total it) ks))"
  using assms(4)
proof (induction "length ks - skip_total it" arbitrary: it acc)
  case 0
  then show ?case using iter_next_item [OF assms(1,2) 0(2) assms(3), of deser] by (subst iter_collect.simps) auto
next
  case (Suc n)
  then have lt: "skip_total it < length ks" by simp
  then obtain it' v where n: "iter_next lib t page deser it = Some (Some (deser (ks ! skip_total it) v), it')"
    "view t (d, ks ! skip_total it) = Some v" "iter_inv page ks d it'" "skip_total it' = skip_total it + 1"
    using iter_next_item [OF assms(1,2) Suc.prems assms(3), of deser] by auto
  have "n = length ks - skip_total it'" using Suc(2) n(4) by simp
  from Suc(1) [OF this n(3)] show ?case
    using n lt by (subst iter_collect.simps) (simp add: Cons_nth_drop_Suc [symmetric])
qed

section \<open>Migration keeps every record of a known prefix\<close>

text \<open>Where a record of the old store belongs: nowhere when its prefix has no database.\<close>

definition migrated_key :: "u8 list \<Rightarrow> bytes \<Rightarrow> (db_key \<times> bytes) option" where
  "migrated_key prefixes k =
     (if 1 < length k \<and> k ! 1 = prefix_key_separator
      then (if hd k \<in> set prefixes then Some (Some (hd k), drop 2 k) else None)
      else Some (None, k))"

lemma migrated_key_inj:
  assumes "migrated_key ps k = Some x" "migrated_key ps k' = Some x"
  shows "k = k'"
proof -
  have split: "k = hd k # prefix_key_separator # drop 2 k" if "1 < length k" "k ! 1 = prefix_key_separator" for k :: bytes
    using that by (cases k; cases "tl k") auto
  show ?thesis using assms split [of k] split [of k'] by (auto simp: migrated_key_def split: if_splits)
qed

lemma migrate_record_step:
  assumes "heed_ok lib view"
  obtains b' n' where "migrate_record lib (k, v) (b, n) = Inr (b', n')" "pre_dbs b' = pre_dbs b"
    "stored view b' = (case migrated_key (pre_dbs b) k of None \<Rightarrow> stored view b | Some x \<Rightarrow> (stored view b) (x \<mapsto> v))"
    "n' = n + (if migrated_key (pre_dbs b) k = None then 0 else 1)"
proof -
  show thesis
  proof (cases "migrated_key (pre_dbs b) k")
    case None
    then have "migrate_record lib (k, v) (b, n) = Inr (b, n)"
      by (auto simp: migrated_key_def migrate_record_def split: if_splits)
    then show thesis using that None by simp
  next
    case (Some x)
    obtain d k' where x: "x = (d, k')" by (cases x)
    obtain t where t: "heed_put lib (txn b) d k' v = Inr t" "view t = (view (txn b)) ((d, k') \<mapsto> v)"
      using heed_okD(2) [OF assms] by metis
    have "migrate_record lib (k, v) (b, n) = Inr (b \<lparr> txn := t \<rparr>, n + 1)"
      using Some t(1) x by (auto simp: migrated_key_def migrate_record_def split: if_splits)
    then show thesis using that [of "b \<lparr> txn := t \<rparr>" "n + 1"] Some x t(2) by (simp add: stored_def fun_upd_def)
  qed
qed

lemma migrate_records_store:
  assumes "heed_ok lib view" "distinct (map fst kvs)"
  shows "\<exists>b' n'. try_fold (migrate_record lib) kvs (b, n) = Inr (b', n') \<and> pre_dbs b' = pre_dbs b \<and>
    (\<forall>(k, v) \<in> set kvs. \<forall>x. migrated_key (pre_dbs b) k = Some x \<longrightarrow> stored view b' x = Some v) \<and>
    (\<forall>x. (\<forall>k \<in> fst ` set kvs. migrated_key (pre_dbs b) k \<noteq> Some x) \<longrightarrow> stored view b' x = stored view b x) \<and>
    n' = n + length (filter (\<lambda>kv. migrated_key (pre_dbs b) (fst kv) \<noteq> None) kvs)"
  using assms(2)
proof (induction kvs arbitrary: b n)
  case (Cons kv kvs)
  obtain k v where kv: "kv = (k, v)" by (cases kv)
  obtain b1 n1 where one: "migrate_record lib (k, v) (b, n) = Inr (b1, n1)" "pre_dbs b1 = pre_dbs b"
    "stored view b1 = (case migrated_key (pre_dbs b) k of None \<Rightarrow> stored view b | Some x \<Rightarrow> (stored view b) (x \<mapsto> v))"
    "n1 = n + (if migrated_key (pre_dbs b) k = None then 0 else 1)"
    using migrate_record_step [OF assms(1)] by metis
  obtain b' n' where ih: "try_fold (migrate_record lib) kvs (b1, n1) = Inr (b', n')" "pre_dbs b' = pre_dbs b1"
    "\<forall>(k, v) \<in> set kvs. \<forall>x. migrated_key (pre_dbs b1) k = Some x \<longrightarrow> stored view b' x = Some v"
    "\<forall>x. (\<forall>k \<in> fst ` set kvs. migrated_key (pre_dbs b1) k \<noteq> Some x) \<longrightarrow> stored view b' x = stored view b1 x"
    "n' = n1 + length (filter (\<lambda>kv. migrated_key (pre_dbs b1) (fst kv) \<noteq> None) kvs)"
    using Cons.IH [of b1 n1] Cons.prems by auto
  have new: "stored view b' x = Some v" if "migrated_key (pre_dbs b) k = Some x" for x
  proof -
    have "migrated_key (pre_dbs b) k' \<noteq> Some x" if "k' \<in> fst ` set kvs" for k'
      using migrated_key_inj [OF \<open>migrated_key (pre_dbs b) k = Some x\<close>, of k'] that Cons.prems kv by auto
    then have "stored view b' x = stored view b1 x" by (intro ih(4) [rule_format]) (simp add: one(2))
    then show ?thesis using one(3) that by simp
  qed
  have old: "stored view b' x = stored view b x" if "\<forall>k \<in> fst ` set (kv # kvs). migrated_key (pre_dbs b) k \<noteq> Some x" for x
  proof -
    have "stored view b' x = stored view b1 x" by (intro ih(4) [rule_format]) (use that in \<open>auto simp: one(2)\<close>)
    then show ?thesis using that one(3) kv by (auto split: option.splits)
  qed
  show ?case using ih one new old kv by (auto simp: case_prod_beta)
qed simp

section \<open>Properties\<close>


text \<open>A transaction that is an association list without duplicate keys.\<close>

definition alist_lib :: "((db_key \<times> bytes) \<times> bytes) list heed_lib" where
  "alist_lib =
     \<lparr> heed_get = (\<lambda>t d k. Inr (map_of t (d, k))),
       heed_put = (\<lambda>t d k v. Inr (((d, k), v) # filter (\<lambda>(x, _). x \<noteq> (d, k)) t)),
       heed_delete = (\<lambda>t d k. Inr (filter (\<lambda>(x, _). x \<noteq> (d, k)) t)),
       heed_keys = (\<lambda>t d. Inr (remdups (map (snd \<circ> fst) (filter (\<lambda>((d', _), _). d' = d) t)))) \<rparr>"

lemma map_of_filter_key: "map_of (filter (\<lambda>(x, _). x \<noteq> k) t) = (map_of t) (k := None)"
  by (induction t) (auto simp: fun_eq_iff)

lemma heed_ok_alist: "heed_ok alist_lib map_of"
proof -
  have "set (remdups (map (snd \<circ> fst) (filter (\<lambda>((d', _), _). d' = d) t))) = {k. map_of t (d, k) \<noteq> None}"
    for d and t :: "((db_key \<times> bytes) \<times> bytes) list"
    by (force simp: map_of_eq_None_iff)
  then show ?thesis unfolding heed_ok_def by (simp add: alist_lib_def map_of_filter_key fun_eq_iff)
qed

definition demo_batch :: "((db_key \<times> bytes) \<times> bytes) list batch" where
  "demo_batch = \<lparr> pre_dbs = [2], txn = [((None, [1]), [5]), ((Some 2, [7]), [6]), ((None, [3]), [8])] \<rparr>"


text \<open>The migration of an old database loses nothing of a known prefix: every record ends up under its key
  in the database of its prefix, or in the default one, and nothing else in the new store changes.\<close>

theorem migration_keeps_records:
  assumes "heed_ok lib view" "distinct (map fst kvs)"
  shows "\<exists>b' n. migrate_records lib kvs b = Inr (b', n) \<and>
    (\<forall>(k, v) \<in> set kvs. \<forall>x. migrated_key (pre_dbs b) k = Some x \<longrightarrow> stored view b' x = Some v) \<and>
    (\<forall>x. (\<forall>k \<in> fst ` set kvs. migrated_key (pre_dbs b) k \<noteq> Some x) \<longrightarrow> stored view b' x = stored view b x) \<and>
    n = length (filter (\<lambda>kv. migrated_key (pre_dbs b) (fst kv) \<noteq> None) kvs)"
  using migrate_records_store [OF assms, of b 0] unfolding migrate_records_def by auto

lemma migration_keeps_records_witness:
  "\<exists>b' n. migrate_records alist_lib [([2, 58, 9], [1]), ([4, 58, 9], [2]), ([72], [3])] demo_batch = Inr (b', n) \<and>
     stored map_of b' (Some 2, [9]) = Some [1] \<and> stored map_of b' (None, [72]) = Some [3] \<and>
     stored map_of b' (None, [1]) = Some [5] \<and> n = 2"
proof -
  have "migrated_key (pre_dbs demo_batch) [2, 58, 9] = Some (Some 2, [9])"
    "migrated_key (pre_dbs demo_batch) [4, 58, 9] = None"
    "migrated_key (pre_dbs demo_batch) [72] = Some (None, [72])"
    by (simp_all add: migrated_key_def prefix_key_separator_def demo_batch_def)
  then show ?thesis
    using migration_keeps_records [OF heed_ok_alist, of "[([2, 58, 9], [1]), ([4, 58, 9], [2]), ([72], [3])]" demo_batch]
    by (fastforce simp: stored_def demo_batch_def)
qed

end
