(* ===== verification/Linked_List.thy ===== *)
theory Linked_List
  imports Kv_Store
begin

text \<open>
  The index of recent kernels (\<open>chain/src/linked_list.rs\<close>): for every excess commitment a doubly linked list
  of positions in the key-value store, newest first, with a shorter form for the frequent list of one entry.
  The list type and its operations are generic in the source and used at \<open>CommitPos\<close> (\<open>chain/src/types.rs\<close>)
  only, which is the type of a position here.

  The locale \<open>pos_stack\<close> is the contract of the trait \<open>ListIndex\<close>: the operations of an index implement those
  of a list of positions in decreasing order. Rewinding is proved from this contract; the interpretation shows
  that \<open>MultiIndex\<close> keeps it.
\<close>

section \<open>Positions\<close>

record commit_pos =
  cp_pos :: u64
  cp_height :: u64

definition commit_pos_write :: "commit_pos writeable" where
  "commit_pos_write c p = Inr (write_u64 (cp_pos p) @ write_u64 (cp_height p))"

definition commit_pos_read :: "commit_pos readable_fn" where
  "commit_pos_read r =
     rbind (read_u64 r) (\<lambda>(p, r). rbind (read_u64 r) (\<lambda>(h, r). Inr (\<lparr> cp_pos = p, cp_height = h \<rparr>, r)))"

section \<open>The list and its entries\<close>

datatype list_wrapper = Single commit_pos | Multi u64 u64

text \<open>An entry has its position and its neighbours: \<open>Head pos next\<close>, \<open>Tail pos prev\<close>, \<open>Middle pos next prev\<close>.\<close>

datatype list_entry = Head commit_pos u64 | Tail commit_pos u64 | Middle commit_pos u64 u64

definition list_wrapper_write :: "list_wrapper writeable" where
  "list_wrapper_write c l =
     (case l of
        Single p \<Rightarrow> rbind (commit_pos_write c p) (\<lambda>bs. Inr (write_u8 0 @ bs))
      | Multi hd_pos tl_pos \<Rightarrow> Inr (write_u8 1 @ write_u64 hd_pos @ write_u64 tl_pos))"

definition list_wrapper_read :: "list_wrapper readable_fn" where
  "list_wrapper_read r =
     rbind (read_u8 r) (\<lambda>(variant, r).
       if variant = 0 then rbind (commit_pos_read r) (\<lambda>(p, r). Inr (Single p, r))
       else if variant = 1
       then rbind (read_u64 r) (\<lambda>(h, r). rbind (read_u64 r) (\<lambda>(t, r). Inr (Multi h t, r)))
       else Inl CorruptedData)"

definition list_entry_write :: "list_entry writeable" where
  "list_entry_write c e =
     (case e of
        Head p nx \<Rightarrow> rbind (commit_pos_write c p) (\<lambda>bs. Inr (write_u8 2 @ bs @ write_u64 nx))
      | Tail p pv \<Rightarrow> rbind (commit_pos_write c p) (\<lambda>bs. Inr (write_u8 3 @ bs @ write_u64 pv))
      | Middle p nx pv \<Rightarrow> rbind (commit_pos_write c p) (\<lambda>bs. Inr (write_u8 4 @ bs @ write_u64 nx @ write_u64 pv)))"

definition list_entry_read :: "list_entry readable_fn" where
  "list_entry_read r =
     rbind (read_u8 r) (\<lambda>(variant, r).
       if variant = 2
       then rbind (commit_pos_read r) (\<lambda>(p, r). rbind (read_u64 r) (\<lambda>(nx, r). Inr (Head p nx, r)))
       else if variant = 3
       then rbind (commit_pos_read r) (\<lambda>(p, r). rbind (read_u64 r) (\<lambda>(pv, r). Inr (Tail p pv, r)))
       else if variant = 4
       then rbind (commit_pos_read r) (\<lambda>(p, r). rbind (read_u64 r) (\<lambda>(nx, r). rbind (read_u64 r) (\<lambda>(pv, r).
              Inr (Middle p nx pv, r))))
       else Inl CorruptedData)"

definition entry_get_pos :: "list_entry \<Rightarrow> commit_pos" where
  "entry_get_pos e = (case e of Head p _ \<Rightarrow> p | Tail p _ \<Rightarrow> p | Middle p _ _ \<Rightarrow> p)"

section \<open>The index\<close>

record multi_index =
  list_prefix :: u8
  entry_prefix :: u8

definition multi_index_init :: "u8 \<Rightarrow> u8 \<Rightarrow> multi_index" where
  "multi_index_init lp ep = \<lparr> list_prefix = lp, entry_prefix = ep \<rparr>"

definition entry_key :: "multi_index \<Rightarrow> bytes \<Rightarrow> u64 \<Rightarrow> db_key \<times> bytes" where
  "entry_key ix commit p = (Some (entry_prefix ix), commit @ be_bytes 8 (unat p))"

definition get_list :: "'t heed_lib \<Rightarrow> multi_index \<Rightarrow> 't batch \<Rightarrow> bytes \<Rightarrow> store_error + list_wrapper option" where
  "get_list lib ix b commit = get_ser lib list_wrapper_read b (Some (list_prefix ix)) commit None"

definition get_entry :: "'t heed_lib \<Rightarrow> multi_index \<Rightarrow> 't batch \<Rightarrow> bytes \<Rightarrow> u64 \<Rightarrow> store_error + list_entry option" where
  "get_entry lib ix b commit p =
     (let (d, key) = entry_key ix commit p in get_ser lib list_entry_read b d key None)"

definition put_list :: "'t heed_lib \<Rightarrow> multi_index \<Rightarrow> 't batch \<Rightarrow> bytes \<Rightarrow> list_wrapper \<Rightarrow> store_error + 't batch" where
  "put_list lib ix b commit l = put_ser lib list_wrapper_write b (Some (list_prefix ix)) commit l"

definition put_entry :: "'t heed_lib \<Rightarrow> multi_index \<Rightarrow> 't batch \<Rightarrow> bytes \<Rightarrow> u64 \<Rightarrow> list_entry \<Rightarrow> store_error + 't batch" where
  "put_entry lib ix b commit p e =
     (let (d, key) = entry_key ix commit p in put_ser lib list_entry_write b d key e)"

definition delete_entry :: "'t heed_lib \<Rightarrow> multi_index \<Rightarrow> 't batch \<Rightarrow> bytes \<Rightarrow> u64 \<Rightarrow> store_error + 't batch" where
  "delete_entry lib ix b commit p = (let (d, key) = entry_key ix commit p in batch_delete lib b d key)"

definition peek_pos :: "'t heed_lib \<Rightarrow> multi_index \<Rightarrow> 't batch \<Rightarrow> bytes \<Rightarrow> store_error + commit_pos option" where
  "peek_pos lib ix b commit =
     rbind (get_list lib ix b commit) (\<lambda>l. case l of
         None \<Rightarrow> Inr None
       | Some (Single p) \<Rightarrow> Inr (Some p)
       | Some (Multi hd_pos _) \<Rightarrow>
           rbind (get_entry lib ix b commit hd_pos) (\<lambda>e. case e of
               Some (Head p _) \<Rightarrow> Inr (Some p)
             | _ \<Rightarrow> Inl (OtherErr ''expected head to be head variant'')))"

definition push_pos :: "'t heed_lib \<Rightarrow> multi_index \<Rightarrow> 't batch \<Rightarrow> bytes \<Rightarrow> commit_pos \<Rightarrow> store_error + 't batch" where
  "push_pos lib ix b commit new_pos =
     rbind (get_list lib ix b commit) (\<lambda>l. case l of
         None \<Rightarrow> put_list lib ix b commit (Single new_pos)
       | Some (Single current_pos) \<Rightarrow>
           if cp_pos new_pos \<le> cp_pos current_pos then Inl (OtherErr ''pos must be increasing'')
           else rbind (put_entry lib ix b commit (cp_pos new_pos) (Head new_pos (cp_pos current_pos))) (\<lambda>b.
                  rbind (put_entry lib ix b commit (cp_pos current_pos) (Tail current_pos (cp_pos new_pos))) (\<lambda>b.
                    put_list lib ix b commit (Multi (cp_pos new_pos) (cp_pos current_pos))))
       | Some (Multi hd_pos tl_pos) \<Rightarrow>
           if cp_pos new_pos \<le> hd_pos then Inl (OtherErr ''pos must be increasing'')
           else rbind (get_entry lib ix b commit hd_pos) (\<lambda>e. case e of
                    Some (Head current_pos current_next) \<Rightarrow>
                      rbind (put_entry lib ix b commit (cp_pos new_pos) (Head new_pos (cp_pos current_pos))) (\<lambda>b.
                        rbind (put_entry lib ix b commit (cp_pos current_pos)
                                 (Middle current_pos current_next (cp_pos new_pos))) (\<lambda>b.
                          put_list lib ix b commit (Multi (cp_pos new_pos) tl_pos)))
                  | _ \<Rightarrow> Inl (OtherErr ''expected head to be head variant'')))"

definition pop_pos ::
    "'t heed_lib \<Rightarrow> multi_index \<Rightarrow> 't batch \<Rightarrow> bytes \<Rightarrow> store_error + 't batch \<times> commit_pos option" where
  "pop_pos lib ix b commit =
     rbind (get_list lib ix b commit) (\<lambda>l. case l of
         None \<Rightarrow> Inr (b, None)
       | Some (Single p) \<Rightarrow>
           rbind (batch_delete lib b (Some (list_prefix ix)) commit) (\<lambda>b. Inr (b, Some p))
       | Some (Multi hd_pos tl_pos) \<Rightarrow>
           rbind (get_entry lib ix b commit hd_pos) (\<lambda>e. case e of
               Some (Head current_pos current_next) \<Rightarrow>
                 rbind (get_entry lib ix b commit current_next) (\<lambda>e. case e of
                     Some (Middle p nx _) \<Rightarrow>
                       rbind (delete_entry lib ix b commit (cp_pos current_pos)) (\<lambda>b.
                         rbind (put_entry lib ix b commit (cp_pos p) (Head p nx)) (\<lambda>b.
                           rbind (put_list lib ix b commit (Multi (cp_pos p) tl_pos)) (\<lambda>b.
                             Inr (b, Some current_pos))))
                   | Some (Tail p _) \<Rightarrow>
                       rbind (delete_entry lib ix b commit (cp_pos current_pos)) (\<lambda>b.
                         rbind (put_list lib ix b commit (Single p)) (\<lambda>b. Inr (b, Some current_pos)))
                   | Some (Head _ _) \<Rightarrow> Inl (OtherErr ''next was unexpected'')
                   | None \<Rightarrow> Inl (OtherErr ''next missing''))
             | _ \<Rightarrow> Inl (OtherErr ''expected head to be head variant'')))"

definition pop_pos_back ::
    "'t heed_lib \<Rightarrow> multi_index \<Rightarrow> 't batch \<Rightarrow> bytes \<Rightarrow> store_error + 't batch \<times> commit_pos option" where
  "pop_pos_back lib ix b commit =
     rbind (get_list lib ix b commit) (\<lambda>l. case l of
         None \<Rightarrow> Inr (b, None)
       | Some (Single p) \<Rightarrow>
           rbind (batch_delete lib b (Some (list_prefix ix)) commit) (\<lambda>b. Inr (b, Some p))
       | Some (Multi hd_pos tl_pos) \<Rightarrow>
           rbind (get_entry lib ix b commit tl_pos) (\<lambda>e. case e of
               Some (Tail current_pos current_prev) \<Rightarrow>
                 rbind (get_entry lib ix b commit current_prev) (\<lambda>e. case e of
                     Some (Middle p _ pv) \<Rightarrow>
                       rbind (delete_entry lib ix b commit (cp_pos current_pos)) (\<lambda>b.
                         rbind (put_entry lib ix b commit (cp_pos p) (Tail p pv)) (\<lambda>b.
                           rbind (put_list lib ix b commit (Multi hd_pos (cp_pos p))) (\<lambda>b.
                             Inr (b, Some current_pos))))
                   | Some (Head p _) \<Rightarrow>
                       rbind (delete_entry lib ix b commit (cp_pos current_pos)) (\<lambda>b.
                         rbind (put_list lib ix b commit (Single p)) (\<lambda>b. Inr (b, Some current_pos)))
                   | Some (Tail _ _) \<Rightarrow> Inl (OtherErr ''prev was unexpected'')
                   | None \<Rightarrow> Inl (OtherErr ''prev missing''))
             | _ \<Rightarrow> Inl (OtherErr ''expected tail to be tail variant'')))"

text \<open>The loop of \<open>rewind\<close> over the two operations it calls; \<open>None\<close> is a loop that does not end.\<close>

partial_function (option) rewind_loop ::
    "('s \<Rightarrow> 'e + commit_pos option) \<Rightarrow> ('s \<Rightarrow> 'e + 's \<times> commit_pos option) \<Rightarrow> u64 \<Rightarrow> 's \<Rightarrow> ('e + 's) option" where
  "rewind_loop peek pop rewind_pos s =
     (case peek s of
        Inl e \<Rightarrow> Some (Inl e)
      | Inr None \<Rightarrow> Some (Inr s)
      | Inr (Some p) \<Rightarrow>
          if rewind_pos < cp_pos p
          then (case pop s of Inl e \<Rightarrow> Some (Inl e) | Inr (s, _) \<Rightarrow> rewind_loop peek pop rewind_pos s)
          else Some (Inr s))"

definition list_rewind :: "'t heed_lib \<Rightarrow> multi_index \<Rightarrow> 't batch \<Rightarrow> bytes \<Rightarrow> u64 \<Rightarrow> (store_error + 't batch) option" where
  "list_rewind lib ix b commit rewind_pos =
     rewind_loop (\<lambda>b. peek_pos lib ix b commit) (\<lambda>b. pop_pos lib ix b commit) rewind_pos b"

text \<open>All keys of a database, as the iterator collects them (\<open>flatten\<close> drops the errors), and the deletion of
  each, whose failure is not an error.\<close>

definition delete_all :: "'t heed_lib \<Rightarrow> db_key \<Rightarrow> bytes list \<Rightarrow> 't batch \<Rightarrow> 't batch" where
  "delete_all lib d keys b =
     foldl (\<lambda>b key. case batch_delete lib b d key of Inr b' \<Rightarrow> b' | Inl _ \<Rightarrow> b) b keys"

definition db_keys :: "'t heed_lib \<Rightarrow> 't batch \<Rightarrow> db_key \<Rightarrow> (store_error + bytes list) option" where
  "db_keys lib b d =
     (case batch_iter lib b key_page_size d of
        Inl e \<Rightarrow> Some (Inl e)
      | Inr it \<Rightarrow>
          (case iter_collect lib (txn b) key_page_size (\<lambda>k _. Inr k) it [] of
             None \<Rightarrow> None
           | Some xs \<Rightarrow> Some (Inr (map projr (filter is_ok xs)))))"

definition list_clear :: "'t heed_lib \<Rightarrow> multi_index \<Rightarrow> 't batch \<Rightarrow> (store_error + 't batch) option" where
  "list_clear lib ix b =
     (case db_keys lib b (Some (list_prefix ix)) of
        None \<Rightarrow> None
      | Some (Inl e) \<Rightarrow> Some (Inl e)
      | Some (Inr lists_to_delete) \<Rightarrow>
          let b = delete_all lib (Some (list_prefix ix)) lists_to_delete b
          in case db_keys lib b (Some (entry_prefix ix)) of
               None \<Rightarrow> None
             | Some (Inl e) \<Rightarrow> Some (Inl e)
             | Some (Inr entries_to_delete) \<Rightarrow>
                 Some (Inr (delete_all lib (Some (entry_prefix ix)) entries_to_delete b)))"

section \<open>The records of the index can be read back\<close>

interpretation commit_pos: codec commit_pos_write commit_pos_read "\<lambda>_ _. True"
  by (rule codec_upcomingI [where enc = "\<lambda>_ p. write_u64 (cp_pos p) @ write_u64 (cp_height p)"])
    (auto simp: commit_pos_write_def commit_pos_read_def upcoming_append read_upcoming)

lemma commit_pos_read_upcoming:
  "upcoming (write_u64 (cp_pos p) @ write_u64 (cp_height p)) r \<Longrightarrow> commit_pos_read r = Inr (p, advance 16 r)"
  by (auto simp: commit_pos_read_def upcoming_append read_upcoming)

interpretation list_wrapper: codec list_wrapper_write list_wrapper_read "\<lambda>_ _. True"
  by (rule codec_upcomingI [where enc = "\<lambda>v l. projr (list_wrapper_write (full_ctx v) l)"])
    (auto simp: list_wrapper_write_def list_wrapper_read_def commit_pos_write_def upcoming_append read_upcoming
      commit_pos_read_upcoming split: list_wrapper.splits)

interpretation list_entry: codec list_entry_write list_entry_read "\<lambda>_ _. True"
  by (rule codec_upcomingI [where enc = "\<lambda>v e. projr (list_entry_write (full_ctx v) e)"])
    (auto simp: list_entry_write_def list_entry_read_def commit_pos_write_def upcoming_append read_upcoming
      commit_pos_read_upcoming split: list_entry.splits)

section \<open>What a batch holds of a list\<close>

definition index_ok :: "multi_index \<Rightarrow> 't batch \<Rightarrow> bool" where
  "index_ok ix b \<longleftrightarrow> list_prefix ix \<noteq> entry_prefix ix \<and> {list_prefix ix, entry_prefix ix} \<subseteq> set (pre_dbs b)"

text \<open>\<open>sees\<close>: the batch holds this wrapper for the commitment and at least these entries, by position.\<close>

definition sees ::
    "('t \<Rightarrow> db_key \<times> bytes \<Rightarrow> bytes option) \<Rightarrow> multi_index \<Rightarrow> 't batch \<Rightarrow> bytes \<Rightarrow> list_wrapper option \<Rightarrow> (u64 \<Rightarrow> list_entry option) \<Rightarrow> bool" where
  "sees view ix b commit l es \<longleftrightarrow>
     index_ok ix b \<and>
     (case l of
        None \<Rightarrow> stored view b (Some (list_prefix ix), commit) = None
      | Some w \<Rightarrow> holds view list_wrapper_read b (Some (list_prefix ix)) commit w) \<and>
     (\<forall>p e. es p = Some e \<longrightarrow> holds view list_entry_read b (Some (entry_prefix ix)) (commit @ be_bytes 8 (unat p)) e)"

text \<open>\<open>others_kept\<close>: the lists of the other commitments are as before.\<close>

definition others_kept :: "('t \<Rightarrow> db_key \<times> bytes \<Rightarrow> bytes option) \<Rightarrow> multi_index \<Rightarrow> bytes \<Rightarrow> 't batch \<Rightarrow> 't batch \<Rightarrow> bool" where
  "others_kept view ix commit b b' \<longleftrightarrow>
     (\<forall>c l es. length c = length commit \<and> c \<noteq> commit \<and> sees view ix b c l es \<longrightarrow> sees view ix b' c l es)"

lemma others_kept_refl [simp]: "others_kept view ix c b b"
  by (simp add: others_kept_def)

lemma others_kept_trans: "others_kept view ix c b b' \<Longrightarrow> others_kept view ix c b' b'' \<Longrightarrow> others_kept view ix c b b''"
  unfolding others_kept_def by blast

lemma be_bytes8_inj: "be_bytes 8 (unat p) = be_bytes 8 (unat q) \<Longrightarrow> p = (q :: u64)"
proof -
  assume "be_bytes 8 (unat p) = be_bytes 8 (unat q)"
  then have "unat p mod 256 ^ 8 = unat q mod 256 ^ 8" by (metis be_val_be_bytes)
  then show "p = q" using unat_less_pow [of p] unat_less_pow [of q] by (simp add: word_unat_eq_iff)
qed

lemma entry_keys_differ:
  fixes p q :: u64
  assumes "length c = length commit" "c @ be_bytes 8 (unat p) = commit @ be_bytes 8 (unat q)"
  shows "c = commit \<and> p = q"
  using assms be_bytes8_inj by auto

lemma get_list_sees: "heed_ok lib view \<Longrightarrow> sees view ix b commit l es \<Longrightarrow> get_list lib ix b commit = Inr l"
  by (auto simp: get_list_def sees_def index_ok_def has_db_def get_ser_holds get_ser_absent split: option.splits)

lemma get_entry_sees:
  "heed_ok lib view \<Longrightarrow> sees view ix b commit l es \<Longrightarrow> es p = Some e \<Longrightarrow> get_entry lib ix b commit p = Inr (Some e)"
  by (auto simp: get_entry_def entry_key_def sees_def index_ok_def has_db_def get_ser_holds)

lemma sees_mono: "sees view ix b commit l es \<Longrightarrow> es' \<subseteq>\<^sub>m es \<Longrightarrow> sees view ix b commit l es'"
  unfolding sees_def map_le_def by (metis domI)

lemma sees_forget: "sees view ix b commit l es \<Longrightarrow> sees view ix b commit l Map.empty"
  by (rule sees_mono) simp_all

text \<open>The four ways in which the operations change a batch.\<close>

lemma put_list_sees:
  assumes "heed_ok lib view" "sees view ix b commit l es"
  obtains b' where "put_list lib ix b commit w = Inr b'" "sees view ix b' commit (Some w) es" "others_kept view ix commit b b'"
proof -
  have ix: "list_prefix ix \<noteq> entry_prefix ix" "has_db b (Some (list_prefix ix))"
    using assms(2) by (auto simp: sees_def index_ok_def has_db_def)
  obtain b' where b': "put_ser lib list_wrapper_write b (Some (list_prefix ix)) commit w = Inr b'" "pre_dbs b' = pre_dbs b"
    "holds view list_wrapper_read b' (Some (list_prefix ix)) commit w"
    "\<And>k. k \<noteq> (Some (list_prefix ix), commit) \<Longrightarrow> stored view b' k = stored view b k"
    using put_ser_stores [OF assms(1) ix(2) list_wrapper.codec_axioms, where x = w and key = commit] by auto
  have "others_kept view ix commit b b'"
    unfolding others_kept_def sees_def holds_def index_ok_def using b'(2,4) ix(1) by (auto split: option.splits)
  moreover have "sees view ix b' commit (Some w) es"
    using assms(2) b'(2,3,4) ix(1) unfolding sees_def holds_def index_ok_def by (auto split: option.splits)
  ultimately show thesis using that b'(1) by (simp add: put_list_def)
qed

lemma delete_list_sees:
  assumes "heed_ok lib view" "sees view ix b commit l es"
  obtains b' where "batch_delete lib b (Some (list_prefix ix)) commit = Inr b'" "sees view ix b' commit None es"
    "others_kept view ix commit b b'"
proof -
  have ix: "list_prefix ix \<noteq> entry_prefix ix" "has_db b (Some (list_prefix ix))"
    using assms(2) by (auto simp: sees_def index_ok_def has_db_def)
  obtain b' where b': "batch_delete lib b (Some (list_prefix ix)) commit = Inr b'" "pre_dbs b' = pre_dbs b"
    "stored view b' = (stored view b) ((Some (list_prefix ix), commit) := None)"
    using delete_stores [OF assms(1) ix(2)] by blast
  have "others_kept view ix commit b b'"
    unfolding others_kept_def sees_def holds_def index_ok_def using b'(2,3) ix(1) by (auto split: option.splits)
  moreover have "sees view ix b' commit None es"
    using assms(2) b'(2,3) ix(1) unfolding sees_def holds_def index_ok_def by (auto split: option.splits)
  ultimately show thesis using that b'(1) by simp
qed

lemma put_entry_sees:
  assumes "heed_ok lib view" "sees view ix b commit l es"
  obtains b' where "put_entry lib ix b commit p e = Inr b'" "sees view ix b' commit l (es (p \<mapsto> e))"
    "others_kept view ix commit b b'"
proof -
  have ix: "list_prefix ix \<noteq> entry_prefix ix" "has_db b (Some (entry_prefix ix))"
    using assms(2) by (auto simp: sees_def index_ok_def has_db_def)
  obtain b' where b': "put_ser lib list_entry_write b (Some (entry_prefix ix)) (commit @ be_bytes 8 (unat p)) e = Inr b'"
    "pre_dbs b' = pre_dbs b" "holds view list_entry_read b' (Some (entry_prefix ix)) (commit @ be_bytes 8 (unat p)) e"
    "\<And>k. k \<noteq> (Some (entry_prefix ix), commit @ be_bytes 8 (unat p)) \<Longrightarrow> stored view b' k = stored view b k"
    using put_ser_stores [OF assms(1) ix(2) list_entry.codec_axioms, where x = e and key = "commit @ be_bytes 8 (unat p)"] by auto
  have "stored view b' (Some (entry_prefix ix), c @ be_bytes 8 (unat q)) = stored view b (Some (entry_prefix ix), c @ be_bytes 8 (unat q))"
    if "length c = length commit" "c \<noteq> commit \<or> q \<noteq> p" for c q
    using entry_keys_differ [OF that(1)] that(2) by (intro b'(4)) auto
  note kept = this
  have lists: "stored view b' (Some (list_prefix ix), c) = stored view b (Some (list_prefix ix), c)" for c
    using ix(1) by (intro b'(4)) auto
  have "others_kept view ix commit b b'"
    unfolding others_kept_def sees_def index_ok_def
    using b'(2) holds_cong [OF lists, where rd = list_wrapper_read] holds_cong [OF kept, where rd = list_entry_read] lists
    by (auto split: option.splits)
  moreover have "sees view ix b' commit l (es (p \<mapsto> e))"
    using assms(2) b'(2,3) holds_cong [OF lists, where rd = list_wrapper_read]
      holds_cong [OF kept [OF refl], where rd = list_entry_read] lists
    unfolding sees_def index_ok_def by (auto split: option.splits)
  ultimately show thesis using that b'(1) by (simp add: put_entry_def entry_key_def)
qed

lemma delete_entry_sees:
  assumes "heed_ok lib view" "sees view ix b commit l es"
  obtains b' where "delete_entry lib ix b commit p = Inr b'" "sees view ix b' commit l (es (p := None))"
    "others_kept view ix commit b b'"
proof -
  have ix: "list_prefix ix \<noteq> entry_prefix ix" "has_db b (Some (entry_prefix ix))"
    using assms(2) by (auto simp: sees_def index_ok_def has_db_def)
  obtain b' where b': "batch_delete lib b (Some (entry_prefix ix)) (commit @ be_bytes 8 (unat p)) = Inr b'"
    "pre_dbs b' = pre_dbs b" "stored view b' = (stored view b) ((Some (entry_prefix ix), commit @ be_bytes 8 (unat p)) := None)"
    using delete_stores [OF assms(1) ix(2)] by blast
  have "stored view b' (Some (entry_prefix ix), c @ be_bytes 8 (unat q)) = stored view b (Some (entry_prefix ix), c @ be_bytes 8 (unat q))"
    if "length c = length commit" "c \<noteq> commit \<or> q \<noteq> p" for c q
    using entry_keys_differ [OF that(1)] that(2) by (auto simp: b'(3))
  note kept = this
  have lists: "stored view b' (Some (list_prefix ix), c) = stored view b (Some (list_prefix ix), c)" for c
    using ix(1) by (simp add: b'(3))
  have "others_kept view ix commit b b'"
    unfolding others_kept_def sees_def index_ok_def
    using b'(2) holds_cong [OF lists, where rd = list_wrapper_read] holds_cong [OF kept, where rd = list_entry_read] lists
    by (auto split: option.splits)
  moreover have "sees view ix b' commit l (es (p := None))"
    using assms(2) b'(2) holds_cong [OF lists, where rd = list_wrapper_read]
      holds_cong [OF kept [OF refl], where rd = list_entry_read] lists
    unfolding sees_def index_ok_def by (auto split: option.splits)
  ultimately show thesis using that b'(1) by (simp add: delete_entry_def entry_key_def)
qed

section \<open>A list of positions in the store\<close>

definition dec :: "commit_pos list \<Rightarrow> bool" where
  "dec ps \<longleftrightarrow> sorted_wrt (\<lambda>p q. cp_pos q < cp_pos p) ps"

fun wrapper_of :: "commit_pos list \<Rightarrow> list_wrapper option" where
  "wrapper_of [] = None"
| "wrapper_of [p] = Some (Single p)"
| "wrapper_of (p # q # ps) = Some (Multi (cp_pos p) (cp_pos (last (q # ps))))"

text \<open>The entries of a list, by position: those behind the head, after a position \<open>pv\<close>, and all of them.\<close>

fun tail_entries :: "u64 \<Rightarrow> commit_pos list \<Rightarrow> u64 \<Rightarrow> list_entry option" where
  "tail_entries pv [] = Map.empty"
| "tail_entries pv [p] = [cp_pos p \<mapsto> Tail p pv]"
| "tail_entries pv (p # q # ps) = (tail_entries (cp_pos p) (q # ps)) (cp_pos p \<mapsto> Middle p (cp_pos q) pv)"

fun entries_of :: "commit_pos list \<Rightarrow> u64 \<Rightarrow> list_entry option" where
  "entries_of (p # q # ps) = (tail_entries (cp_pos p) (q # ps)) (cp_pos p \<mapsto> Head p (cp_pos q))"
| "entries_of _ = Map.empty"

definition list_repr ::
    "('t \<Rightarrow> db_key \<times> bytes \<Rightarrow> bytes option) \<Rightarrow> multi_index \<Rightarrow> 't batch \<Rightarrow> bytes \<Rightarrow> commit_pos list \<Rightarrow> bool" where
  "list_repr view ix b commit ps \<longleftrightarrow> dec ps \<and> sees view ix b commit (wrapper_of ps) (entries_of ps)"

lemma dec_simps [simp]:
  "dec []" "dec [p]" "dec (p # q # ps) \<longleftrightarrow> cp_pos q < cp_pos p \<and> dec (q # ps)"
  by (auto simp: dec_def)

lemma dec_Cons: "dec (p # ps) \<Longrightarrow> dec ps" "dec (p # ps) \<Longrightarrow> q \<in> set ps \<Longrightarrow> cp_pos q < cp_pos p"
  by (simp_all add: dec_def)

lemma dec_butlast: "dec ps \<Longrightarrow> dec (butlast ps)"
  by (induction ps rule: rev_induct) (auto simp: dec_def sorted_wrt_append)

lemma dom_tail_entries: "tail_entries pv ps k = Some e \<Longrightarrow> \<exists>p \<in> set ps. k = cp_pos p"
  by (induction pv ps rule: tail_entries.induct) (auto split: if_splits)

lemma tail_entries_fresh: "dec (p # ps) \<Longrightarrow> tail_entries pv ps (cp_pos p) = None"
  using dom_tail_entries [of pv ps "cp_pos p"] dec_Cons(2) [of p ps]
  by (cases "tail_entries pv ps (cp_pos p)") fastforce+

lemma map_le_alt: "m \<subseteq>\<^sub>m m' \<longleftrightarrow> (\<forall>a y. m a = Some y \<longrightarrow> m' a = Some y)"
  by (auto simp: map_le_def dom_def)

lemma map_le_upd_outer:
  assumes "m \<subseteq>\<^sub>m m' (t := None, p \<mapsto> x)" "h \<noteq> t" "h \<noteq> p"
  shows "m (h \<mapsto> y) \<subseteq>\<^sub>m (m' (h \<mapsto> y)) (t := None, p \<mapsto> x)"
proof -
  have "(m' (h \<mapsto> y)) (t := None, p \<mapsto> x) = (m' (t := None, p \<mapsto> x)) (h \<mapsto> y)" using assms(2,3) by auto
  then show ?thesis using assms(1) by (simp add: Map.map_le_upd)
qed

lemma tail_entries_pop:
  assumes "dec (p # q # ps)"
  shows "entries_of (q # ps) \<subseteq>\<^sub>m
    (case ps of [] \<Rightarrow> Map.empty | r # _ \<Rightarrow> (entries_of (p # q # ps)) (cp_pos p := None, cp_pos q \<mapsto> Head q (cp_pos r)))"
proof (cases ps)
  case (Cons r rs)
  have "tail_entries (cp_pos q) (r # rs) (cp_pos p) = None" using assms Cons by (intro tail_entries_fresh) auto
  then show ?thesis using assms Cons by (auto simp: map_le_alt)
qed (simp add: map_le_alt)

lemma tail_entries_back:
  assumes "dec (ps @ [p, t])"
  shows "tail_entries pv (ps @ [p, t]) (cp_pos t) = Some (Tail t (cp_pos p)) \<and>
    tail_entries pv (ps @ [p, t]) (cp_pos p) = Some (Middle p (cp_pos t) (last (pv # map cp_pos ps))) \<and>
    tail_entries pv (ps @ [p]) \<subseteq>\<^sub>m
      (tail_entries pv (ps @ [p, t])) (cp_pos t := None, cp_pos p \<mapsto> Tail p (last (pv # map cp_pos ps)))"
  using assms
proof (induction ps arbitrary: pv)
  case (Cons q ps)
  have lt: "cp_pos t < cp_pos q" "cp_pos p < cp_pos q" and d: "dec (ps @ [p, t])"
    using Cons.prems dec_Cons [of q "ps @ [p, t]"] by auto
  obtain r rs where r: "ps @ [p] = r # rs" by (cases "ps @ [p]") auto
  then have r': "ps @ [p, t] = r # rs @ [t]" by simp
  have l: "last (pv # map cp_pos (q # ps)) = last (cp_pos q # map cp_pos ps)" by simp
  note ih = Cons.IH [OF d, of "cp_pos q"]
  have "tail_entries pv ((q # ps) @ [p]) \<subseteq>\<^sub>m
      (tail_entries pv ((q # ps) @ [p, t])) (cp_pos t := None, cp_pos p \<mapsto> Tail p (last (cp_pos q # map cp_pos ps)))"
    unfolding append_Cons r r' tail_entries.simps
    by (rule map_le_upd_outer, rule conjunct2 [OF conjunct2 [OF ih [unfolded r r']]]) (use lt in auto)
  moreover have "tail_entries pv ((q # ps) @ [p, t]) x = tail_entries (cp_pos q) (ps @ [p, t]) x" if "x \<noteq> cp_pos q" for x
    using that by (simp add: r')
  ultimately show ?case using ih lt unfolding l by (metis less_irrefl)
qed (auto simp: map_le_alt)

section \<open>The operations on a list in the store\<close>

text \<open>The sequences of writes of the operations: two entries and the list; an entry removed, one changed and the
  list; an entry removed and the list.\<close>

lemma link_sees:
  assumes "heed_ok lib view" "sees view ix b commit l es"
  obtains b' where "rbind (put_entry lib ix b commit p e) (\<lambda>b. rbind (put_entry lib ix b commit q f) (\<lambda>b.
      put_list lib ix b commit w)) = Inr b'"
    "sees view ix b' commit (Some w) (es (p \<mapsto> e, q \<mapsto> f))" "others_kept view ix commit b b'"
proof -
  obtain b1 where b1: "put_entry lib ix b commit p e = Inr b1" "sees view ix b1 commit l (es (p \<mapsto> e))"
    "others_kept view ix commit b b1" using put_entry_sees [OF assms] by blast
  obtain b2 where b2: "put_entry lib ix b1 commit q f = Inr b2" "sees view ix b2 commit l (es (p \<mapsto> e, q \<mapsto> f))"
    "others_kept view ix commit b1 b2" using put_entry_sees [OF assms(1) b1(2)] by blast
  obtain b3 where "put_list lib ix b2 commit w = Inr b3" "sees view ix b3 commit (Some w) (es (p \<mapsto> e, q \<mapsto> f))"
    "others_kept view ix commit b2 b3" using put_list_sees [OF assms(1) b2(2)] by blast
  then show thesis using that [of b3] b1 b2 by (auto intro: others_kept_trans)
qed

lemma unlink_sees:
  assumes "heed_ok lib view" "sees view ix b commit l es"
  obtains b' where "rbind (delete_entry lib ix b commit p) (\<lambda>b. put_list lib ix b commit w) = Inr b'"
    "sees view ix b' commit (Some w) (es (p := None))" "others_kept view ix commit b b'"
proof -
  obtain b1 where b1: "delete_entry lib ix b commit p = Inr b1" "sees view ix b1 commit l (es (p := None))"
    "others_kept view ix commit b b1" using delete_entry_sees [OF assms] by blast
  obtain b2 where "put_list lib ix b1 commit w = Inr b2" "sees view ix b2 commit (Some w) (es (p := None))"
    "others_kept view ix commit b1 b2" using put_list_sees [OF assms(1) b1(2)] by blast
  then show thesis using that [of b2] b1 by (auto intro: others_kept_trans)
qed

lemma relink_sees:
  assumes "heed_ok lib view" "sees view ix b commit l es"
  obtains b' where "rbind (delete_entry lib ix b commit p) (\<lambda>b. rbind (put_entry lib ix b commit q f) (\<lambda>b.
      put_list lib ix b commit w)) = Inr b'"
    "sees view ix b' commit (Some w) (es (p := None, q \<mapsto> f))" "others_kept view ix commit b b'"
proof -
  obtain b1 where b1: "delete_entry lib ix b commit p = Inr b1" "sees view ix b1 commit l (es (p := None))"
    "others_kept view ix commit b b1" using delete_entry_sees [OF assms] by blast
  obtain b2 where b2: "put_entry lib ix b1 commit q f = Inr b2" "sees view ix b2 commit l (es (p := None, q \<mapsto> f))"
    "others_kept view ix commit b1 b2" using put_entry_sees [OF assms(1) b1(2)] by blast
  obtain b3 where "put_list lib ix b2 commit w = Inr b3" "sees view ix b3 commit (Some w) (es (p := None, q \<mapsto> f))"
    "others_kept view ix commit b2 b3" using put_list_sees [OF assms(1) b2(2)] by blast
  then show thesis using that [of b3] b1 b2 by (auto intro: others_kept_trans)
qed

lemma peek_pos_repr:
  assumes "heed_ok lib view" "list_repr view ix b commit ps"
  shows "peek_pos lib ix b commit = Inr (case ps of [] \<Rightarrow> None | p # _ \<Rightarrow> Some p)"
proof -
  have s: "sees view ix b commit (wrapper_of ps) (entries_of ps)" using assms(2) by (simp add: list_repr_def)
  show ?thesis
    using get_list_sees [OF assms(1) s] get_entry_sees [OF assms(1) s]
    by (cases ps rule: wrapper_of.cases) (auto simp: peek_pos_def)
qed

lemma push_pos_stale:
  assumes "heed_ok lib view" "list_repr view ix b commit (p # ps)" "cp_pos n \<le> cp_pos p"
  shows "push_pos lib ix b commit n = Inl (OtherErr ''pos must be increasing'')"
proof -
  have s: "sees view ix b commit (wrapper_of (p # ps)) (entries_of (p # ps))" using assms(2) by (simp add: list_repr_def)
  show ?thesis using get_list_sees [OF assms(1) s] assms(3) by (cases ps) (auto simp: push_pos_def)
qed

lemma push_pos_repr:
  assumes "heed_ok lib view" "list_repr view ix b commit ps" "ps \<noteq> [] \<Longrightarrow> cp_pos (hd ps) < cp_pos n"
  obtains b' where "push_pos lib ix b commit n = Inr b'" "list_repr view ix b' commit (n # ps)" "others_kept view ix commit b b'"
proof -
  have d: "dec ps" and s: "sees view ix b commit (wrapper_of ps) (entries_of ps)" using assms(2) by (simp_all add: list_repr_def)
  note gl = get_list_sees [OF assms(1) s] and ge = get_entry_sees [OF assms(1) s]
  show thesis
  proof (cases ps rule: wrapper_of.cases)
    case 1
    then obtain b' where "put_list lib ix b commit (Single n) = Inr b'" "sees view ix b' commit (Some (Single n)) Map.empty"
      "others_kept view ix commit b b'" using put_list_sees [OF assms(1) s] by auto
    then show thesis using that 1 gl by (simp add: push_pos_def list_repr_def)
  next
    case (2 p)
    have lt: "cp_pos p < cp_pos n" using assms(3) 2 by simp
    let ?es = "(entries_of ps) (cp_pos n \<mapsto> Head n (cp_pos p), cp_pos p \<mapsto> Tail p (cp_pos n))"
    obtain b' where b': "rbind (put_entry lib ix b commit (cp_pos n) (Head n (cp_pos p))) (\<lambda>b.
        rbind (put_entry lib ix b commit (cp_pos p) (Tail p (cp_pos n))) (\<lambda>b.
          put_list lib ix b commit (Multi (cp_pos n) (cp_pos p)))) = Inr b'"
      "sees view ix b' commit (Some (Multi (cp_pos n) (cp_pos p))) ?es" "others_kept view ix commit b b'"
      using link_sees [OF assms(1) s] by blast
    have "sees view ix b' commit (wrapper_of (n # ps)) (entries_of (n # ps))"
      by (rule sees_mono [where es = ?es]) (use b'(2) 2 lt in \<open>auto simp: map_le_alt\<close>)
    then show thesis using that [of b'] 2 gl lt b'(1,3) by (simp add: push_pos_def list_repr_def not_le [symmetric])
  next
    case (3 p q rs)
    have lt: "cp_pos p < cp_pos n" using assms(3) 3 by simp
    have h: "get_entry lib ix b commit (cp_pos p) = Inr (Some (Head p (cp_pos q)))" using ge 3 by simp
    let ?es = "(entries_of ps) (cp_pos n \<mapsto> Head n (cp_pos p), cp_pos p \<mapsto> Middle p (cp_pos q) (cp_pos n))"
    obtain b' where b': "rbind (put_entry lib ix b commit (cp_pos n) (Head n (cp_pos p))) (\<lambda>b.
        rbind (put_entry lib ix b commit (cp_pos p) (Middle p (cp_pos q) (cp_pos n))) (\<lambda>b.
          put_list lib ix b commit (Multi (cp_pos n) (cp_pos (last (q # rs)))))) = Inr b'"
      "sees view ix b' commit (Some (Multi (cp_pos n) (cp_pos (last (q # rs))))) ?es" "others_kept view ix commit b b'"
      using link_sees [OF assms(1) s] by blast
    have "sees view ix b' commit (wrapper_of (n # ps)) (entries_of (n # ps))"
      by (rule sees_mono [where es = ?es]) (use b'(2) 3 lt in \<open>auto simp: map_le_alt\<close>)
    then show thesis using that [of b'] 3 gl lt h b'(1,3) d
      by (simp add: push_pos_def list_repr_def not_le [symmetric] del: last.simps)
  qed
qed

lemma pop_pos_repr:
  assumes "heed_ok lib view" "list_repr view ix b commit ps"
  obtains b' where "pop_pos lib ix b commit = Inr (b', case ps of [] \<Rightarrow> None | p # _ \<Rightarrow> Some p)"
    "list_repr view ix b' commit (tl ps)" "others_kept view ix commit b b'"
proof -
  have d: "dec ps" and s: "sees view ix b commit (wrapper_of ps) (entries_of ps)" using assms(2) by (simp_all add: list_repr_def)
  note gl = get_list_sees [OF assms(1) s] and ge = get_entry_sees [OF assms(1) s]
  consider "ps = []" | p where "ps = [p]" | p q where "ps = [p, q]" | p q r rs where "ps = p # q # r # rs"
    by (cases ps rule: wrapper_of.cases; metis list.exhaust)
  then show thesis
  proof cases
    case 1
    then show thesis using that [of b] gl assms(2) by (simp add: pop_pos_def)
  next
    case (2 p)
    obtain b' where "batch_delete lib b (Some (list_prefix ix)) commit = Inr b'" "sees view ix b' commit None (entries_of ps)"
      "others_kept view ix commit b b'" using delete_list_sees [OF assms(1) s] by blast
    then show thesis using that [of b'] 2 gl by (simp add: pop_pos_def list_repr_def)
  next
    case (3 p q)
    have "get_entry lib ix b commit (cp_pos p) = Inr (Some (Head p (cp_pos q)))"
      "get_entry lib ix b commit (cp_pos q) = Inr (Some (Tail q (cp_pos p)))" using ge 3 d by auto
    moreover obtain b' where "rbind (delete_entry lib ix b commit (cp_pos p)) (\<lambda>b. put_list lib ix b commit (Single q)) = Inr b'"
      "sees view ix b' commit (Some (Single q)) ((entries_of ps) (cp_pos p := None))" "others_kept view ix commit b b'"
      using unlink_sees [OF assms(1) s] by blast
    ultimately show thesis using that [of b'] 3 gl
      by (auto simp: pop_pos_def list_repr_def rbind_Inr_iff dest: sees_forget)
  next
    case (4 p q r rs)
    have g: "get_entry lib ix b commit (cp_pos p) = Inr (Some (Head p (cp_pos q)))"
      "get_entry lib ix b commit (cp_pos q) = Inr (Some (Middle q (cp_pos r) (cp_pos p)))" using ge 4 d by auto
    let ?es = "(entries_of ps) (cp_pos p := None, cp_pos q \<mapsto> Head q (cp_pos r))"
    obtain b' where b': "rbind (delete_entry lib ix b commit (cp_pos p)) (\<lambda>b.
        rbind (put_entry lib ix b commit (cp_pos q) (Head q (cp_pos r))) (\<lambda>b.
          put_list lib ix b commit (Multi (cp_pos q) (cp_pos (last (r # rs)))))) = Inr b'"
      "sees view ix b' commit (Some (Multi (cp_pos q) (cp_pos (last (r # rs))))) ?es" "others_kept view ix commit b b'"
      using relink_sees [OF assms(1) s] by blast
    have "sees view ix b' commit (wrapper_of (tl ps)) (entries_of (tl ps))"
      by (rule sees_mono [where es = ?es]) (use b'(2) 4 tail_entries_pop [of p q "r # rs"] d in auto)
    then show thesis using that [of b'] 4 gl g b'(1,3) d
      by (auto simp: pop_pos_def list_repr_def rbind_Inr_iff)
  qed
qed

lemma pop_pos_back_repr:
  assumes "heed_ok lib view" "list_repr view ix b commit ps"
  obtains b' where "pop_pos_back lib ix b commit = Inr (b', if ps = [] then None else Some (last ps))"
    "list_repr view ix b' commit (butlast ps)" "others_kept view ix commit b b'"
proof -
  have d: "dec ps" and s: "sees view ix b commit (wrapper_of ps) (entries_of ps)" using assms(2) by (simp_all add: list_repr_def)
  note gl = get_list_sees [OF assms(1) s] and ge = get_entry_sees [OF assms(1) s]
  consider "ps = []" | p where "ps = [p]" | p t where "ps = [p, t]" | h qs p t where "ps = h # qs @ [p, t]"
  proof (cases ps rule: wrapper_of.cases)
    case (3 h q rs)
    then show ?thesis using that by (cases rs rule: rev_cases; cases "butlast rs" rule: rev_cases) auto
  qed (use that in auto)
  then show thesis
  proof cases
    case 1
    then show thesis using that [of b] gl assms(2) by (simp add: pop_pos_back_def)
  next
    case (2 p)
    obtain b' where "batch_delete lib b (Some (list_prefix ix)) commit = Inr b'" "sees view ix b' commit None (entries_of ps)"
      "others_kept view ix commit b b'" using delete_list_sees [OF assms(1) s] by blast
    then show thesis using that [of b'] 2 gl by (simp add: pop_pos_back_def list_repr_def)
  next
    case (3 p t)
    have "get_entry lib ix b commit (cp_pos p) = Inr (Some (Head p (cp_pos t)))"
      "get_entry lib ix b commit (cp_pos t) = Inr (Some (Tail t (cp_pos p)))" using ge 3 d by auto
    moreover obtain b' where "rbind (delete_entry lib ix b commit (cp_pos t)) (\<lambda>b. put_list lib ix b commit (Single p)) = Inr b'"
      "sees view ix b' commit (Some (Single p)) ((entries_of ps) (cp_pos t := None))" "others_kept view ix commit b b'"
      using unlink_sees [OF assms(1) s] by blast
    ultimately show thesis using that [of b'] 3 gl
      by (auto simp: pop_pos_back_def list_repr_def rbind_Inr_iff dest: sees_forget)
  next
    case (4 h qs p t)
    define l where "l = last (cp_pos h # map cp_pos qs)"
    have dq: "dec (qs @ [p, t])" using dec_Cons(1) d 4 by blast
    have lt: "cp_pos p < cp_pos h" "cp_pos t < cp_pos h" using dec_Cons(2) [of h "qs @ [p, t]"] d 4 by auto
    obtain r rs where r: "qs @ [p] = r # rs" by (cases "qs @ [p]") auto
    then have r': "qs @ [p, t] = r # rs @ [t]" by simp
    note bk = tail_entries_back [OF dq, of "cp_pos h", folded l_def]
    have g: "get_entry lib ix b commit (cp_pos t) = Inr (Some (Tail t (cp_pos p)))"
      "get_entry lib ix b commit (cp_pos p) = Inr (Some (Middle p (cp_pos t) l))"
      using ge bk 4 lt by (auto simp: r')
    have w: "wrapper_of ps = Some (Multi (cp_pos h) (cp_pos t))" using 4 by (simp add: r')
    let ?es = "(entries_of ps) (cp_pos t := None, cp_pos p \<mapsto> Tail p l)"
    obtain b' where b': "rbind (delete_entry lib ix b commit (cp_pos t)) (\<lambda>b.
        rbind (put_entry lib ix b commit (cp_pos p) (Tail p l)) (\<lambda>b.
          put_list lib ix b commit (Multi (cp_pos h) (cp_pos p)))) = Inr b'"
      "sees view ix b' commit (Some (Multi (cp_pos h) (cp_pos p))) ?es" "others_kept view ix commit b b'"
      using relink_sees [OF assms(1) s] by blast
    have "sees view ix b' commit (wrapper_of (butlast ps)) (entries_of (butlast ps))"
    proof (rule sees_mono [where es = ?es])
      have bl: "butlast ps = h # r # rs" "last (r # rs) = p" using 4 r by (auto simp: butlast_append dest: arg_cong [where f = last])
      show "sees view ix b' commit (wrapper_of (butlast ps)) ?es" using b'(2) bl by simp
      show "entries_of (butlast ps) \<subseteq>\<^sub>m ?es"
        unfolding bl(1) unfolding 4 r' entries_of.simps by (rule map_le_upd_outer) (use bk lt in \<open>auto simp: r r'\<close>)
    qed
    then show thesis using that [of b'] 4 gl g w b'(1,3) dec_butlast [OF d]
      by (auto simp: pop_pos_back_def list_repr_def rbind_Inr_iff butlast_append)
  qed
qed

section \<open>The contract of a list index\<close>

locale pos_stack =
  fixes peek :: "'s \<Rightarrow> 'e + commit_pos option" and push :: "'s \<Rightarrow> commit_pos \<Rightarrow> 'e + 's"
    and pop :: "'s \<Rightarrow> 'e + 's \<times> commit_pos option" and stale :: 'e and repr :: "'s \<Rightarrow> commit_pos list \<Rightarrow> bool"
  assumes decreasing: "repr s ps \<Longrightarrow> dec ps"
    and peek_head: "repr s ps \<Longrightarrow> peek s = Inr (case ps of [] \<Rightarrow> None | p # _ \<Rightarrow> Some p)"
    and push_new: "repr s ps \<Longrightarrow> ps = [] \<or> cp_pos (hd ps) < cp_pos n \<Longrightarrow> \<exists>s'. push s n = Inr s' \<and> repr s' (n # ps)"
    and push_stale: "repr s (p # ps) \<Longrightarrow> cp_pos n \<le> cp_pos p \<Longrightarrow> push s n = Inl stale"
    and pop_head: "repr s ps \<Longrightarrow> \<exists>s'. pop s = Inr (s', case ps of [] \<Rightarrow> None | p # _ \<Rightarrow> Some p) \<and> repr s' (tl ps)"
begin

lemma pop_push: "repr s ps \<Longrightarrow> push s n = Inr s' \<Longrightarrow> \<exists>s''. pop s' = Inr (s'', Some n) \<and> repr s'' ps"
proof -
  assume r: "repr s ps" and p: "push s n = Inr s'"
  then have "ps = [] \<or> cp_pos (hd ps) < cp_pos n" using push_stale by (cases ps) (auto simp: not_le [symmetric])
  then have "repr s' (n # ps)" using push_new [OF r, of n] p by auto
  then show ?thesis using pop_head [of s' "n # ps"] by simp
qed

lemma rewind_drops:
  assumes "repr s ps"
  shows "\<exists>s'. rewind_loop peek pop r s = Some (Inr s') \<and> repr s' (dropWhile (\<lambda>p. r < cp_pos p) ps)"
  using assms
proof (induction ps arbitrary: s)
  case Nil
  then show ?case using peek_head [OF Nil] by (subst rewind_loop.simps) simp
next
  case (Cons p ps)
  show ?case
  proof (cases "r < cp_pos p")
    case True
    obtain s1 where s1: "pop s = Inr (s1, Some p)" "repr s1 ps" using pop_head [OF Cons.prems] by auto
    have "rewind_loop peek pop r s = rewind_loop peek pop r s1"
      using True peek_head [OF Cons.prems] s1(1) by (subst rewind_loop.simps) simp
    then show ?thesis using Cons.IH [OF s1(2)] True by simp
  next
    case False
    then show ?thesis using peek_head [OF Cons.prems] Cons.prems by (subst rewind_loop.simps) simp
  qed
qed

lemma rewind_keeps_older:
  "repr s ps \<Longrightarrow> dropWhile (\<lambda>p. r < cp_pos p) ps = filter (\<lambda>p. cp_pos p \<le> r) ps"
proof -
  assume "repr s ps"
  then have "dec ps" by (rule decreasing)
  then show ?thesis
  proof (induction ps)
    case (Cons p ps)
    have "filter (\<lambda>p. cp_pos p \<le> r) ps = ps" if "cp_pos p \<le> r"
      using dec_Cons(2) [OF Cons.prems] that by (fastforce intro: filter_True)
    then show ?case using Cons dec_Cons(1) [OF Cons.prems] by (auto simp: not_less)
  qed simp
qed

end

text \<open>The list of one commitment, in a batch that has changed no other list since \<open>b0\<close>.\<close>

interpretation nrd: pos_stack "\<lambda>b. peek_pos lib ix b commit" "\<lambda>b. push_pos lib ix b commit" "\<lambda>b. pop_pos lib ix b commit"
    "OtherErr ''pos must be increasing''"
    "\<lambda>b ps. heed_ok lib view \<and> list_repr view ix b commit ps \<and> others_kept view ix commit b0 b"
  for lib view ix commit b0
proof
  fix b ps n
  assume r: "heed_ok lib view \<and> list_repr view ix b commit ps \<and> others_kept view ix commit b0 b"
  then show "dec ps" by (simp add: list_repr_def)
  show "peek_pos lib ix b commit = Inr (case ps of [] \<Rightarrow> None | p # _ \<Rightarrow> Some p)" using peek_pos_repr r by blast
  show "\<exists>b'. pop_pos lib ix b commit = Inr (b', case ps of [] \<Rightarrow> None | p # _ \<Rightarrow> Some p) \<and>
      heed_ok lib view \<and> list_repr view ix b' commit (tl ps) \<and> others_kept view ix commit b0 b'"
    using pop_pos_repr r others_kept_trans by metis
  show "\<exists>b'. push_pos lib ix b commit n = Inr b' \<and> heed_ok lib view \<and> list_repr view ix b' commit (n # ps) \<and>
      others_kept view ix commit b0 b'"
    if n: "ps = [] \<or> cp_pos (hd ps) < cp_pos n"
  proof -
    obtain b' where "push_pos lib ix b commit n = Inr b'" "list_repr view ix b' commit (n # ps)" "others_kept view ix commit b b'"
      using push_pos_repr [of lib view ix b commit ps n] r n by blast
    then show ?thesis using r others_kept_trans by blast
  qed
qed (use push_pos_stale in blast)

section \<open>Properties\<close>

text \<open>The operations of the index on the lists of all commitments: in the store, and as lists.\<close>

datatype index_op = Push bytes commit_pos | Pop bytes | PopBack bytes | Peek bytes | Rewind bytes u64

definition op_commit :: "index_op \<Rightarrow> bytes" where
  "op_commit op = (case op of Push c _ \<Rightarrow> c | Pop c \<Rightarrow> c | PopBack c \<Rightarrow> c | Peek c \<Rightarrow> c | Rewind c _ \<Rightarrow> c)"

definition index_step ::
    "'t heed_lib \<Rightarrow> multi_index \<Rightarrow> index_op \<Rightarrow> 't batch \<Rightarrow> (store_error + 't batch \<times> commit_pos option) option" where
  "index_step lib ix op b =
     (case op of
        Push c p \<Rightarrow> Some (rbind (push_pos lib ix b c p) (\<lambda>b. Inr (b, None)))
      | Pop c \<Rightarrow> Some (pop_pos lib ix b c)
      | PopBack c \<Rightarrow> Some (pop_pos_back lib ix b c)
      | Peek c \<Rightarrow> Some (rbind (peek_pos lib ix b c) (\<lambda>p. Inr (b, p)))
      | Rewind c r \<Rightarrow> map_option (\<lambda>res. rbind res (\<lambda>b. Inr (b, None))) (list_rewind lib ix b c r))"

definition lists_step ::
    "index_op \<Rightarrow> (bytes \<Rightarrow> commit_pos list) \<Rightarrow> store_error + (bytes \<Rightarrow> commit_pos list) \<times> commit_pos option" where
  "lists_step op f =
     (case op of
        Push c p \<Rightarrow>
          if f c \<noteq> [] \<and> cp_pos p \<le> cp_pos (hd (f c)) then Inl (OtherErr ''pos must be increasing'')
          else Inr (f (c := p # f c), None)
      | Pop c \<Rightarrow> Inr (f (c := tl (f c)), case f c of [] \<Rightarrow> None | p # _ \<Rightarrow> Some p)
      | PopBack c \<Rightarrow> Inr (f (c := butlast (f c)), if f c = [] then None else Some (last (f c)))
      | Peek c \<Rightarrow> Inr (f, case f c of [] \<Rightarrow> None | p # _ \<Rightarrow> Some p)
      | Rewind c r \<Rightarrow> Inr (f (c := filter (\<lambda>p. cp_pos p \<le> r) (f c)), None))"

text \<open>A sequence of operations, with the answers it gives; it stops at the first error.\<close>

fun index_run ::
    "'t heed_lib \<Rightarrow> multi_index \<Rightarrow> index_op list \<Rightarrow> 't batch \<Rightarrow> (store_error + 't batch \<times> commit_pos option list) option" where
  "index_run lib ix [] b = Some (Inr (b, []))"
| "index_run lib ix (op # ops) b =
     (case index_step lib ix op b of
        None \<Rightarrow> None
      | Some (Inl e) \<Rightarrow> Some (Inl e)
      | Some (Inr (b, out)) \<Rightarrow> map_option (\<lambda>res. rbind res (\<lambda>(b, outs). Inr (b, out # outs))) (index_run lib ix ops b))"

fun lists_run ::
    "index_op list \<Rightarrow> (bytes \<Rightarrow> commit_pos list) \<Rightarrow> store_error + (bytes \<Rightarrow> commit_pos list) \<times> commit_pos option list" where
  "lists_run [] f = Inr (f, [])"
| "lists_run (op # ops) f =
     rbind (lists_step op f) (\<lambda>(f, out). rbind (lists_run ops f) (\<lambda>(f, outs). Inr (f, out # outs)))"

definition index_repr ::
    "('t \<Rightarrow> db_key \<times> bytes \<Rightarrow> bytes option) \<Rightarrow> multi_index \<Rightarrow> nat \<Rightarrow> 't batch \<Rightarrow> (bytes \<Rightarrow> commit_pos list) \<Rightarrow> bool" where
  "index_repr view ix n b f \<longleftrightarrow> (\<forall>c. length c = n \<longrightarrow> list_repr view ix b c (f c))"

lemma index_repr_step:
  assumes "index_repr view ix n b f" "length c = n" "list_repr view ix b' c ps" "others_kept view ix c b b'"
  shows "index_repr view ix n b' (f (c := ps))"
  using assms by (auto simp: index_repr_def list_repr_def others_kept_def)

lemma list_rewind_repr:
  assumes "heed_ok lib view" "list_repr view ix b commit ps"
  shows "\<exists>b'. list_rewind lib ix b commit r = Some (Inr b') \<and>
    list_repr view ix b' commit (filter (\<lambda>p. cp_pos p \<le> r) ps) \<and> others_kept view ix commit b b'"
proof -
  have "heed_ok lib view \<and> list_repr view ix b commit ps \<and> others_kept view ix commit b b" using assms by simp
  from nrd.rewind_drops [OF this, of r] nrd.rewind_keeps_older [OF this, of r] show ?thesis by (auto simp: list_rewind_def)
qed

lemma index_step_simulates:
  assumes "heed_ok lib view" "index_repr view ix n b f" "length (op_commit op) = n"
  shows "case lists_step op f of
      Inl e \<Rightarrow> index_step lib ix op b = Some (Inl e)
    | Inr (f', out) \<Rightarrow> \<exists>b'. index_step lib ix op b = Some (Inr (b', out)) \<and> index_repr view ix n b' f'"
proof -
  define c where "c = op_commit op"
  have c: "length c = n" and r: "list_repr view ix b c (f c)" using assms(2,3) by (simp_all add: index_repr_def c_def)
  note keep = index_repr_step [OF assms(2) c]
  show ?thesis
  proof (cases op)
    case (Push c' p)
    then have [simp]: "c' = c" by (simp add: c_def op_commit_def)
    show ?thesis
    proof (cases "f c \<noteq> [] \<and> cp_pos p \<le> cp_pos (hd (f c))")
      case True
      then show ?thesis using push_pos_stale [OF assms(1), of ix b c "hd (f c)" "tl (f c)" p] r Push
        by (simp add: lists_step_def index_step_def)
    next
      case False
      then obtain b' where "push_pos lib ix b c p = Inr b'" "list_repr view ix b' c (p # f c)" "others_kept view ix c b b'"
        using push_pos_repr [OF assms(1) r, of p] by (metis not_le)
      then show ?thesis using False Push keep by (auto simp: lists_step_def index_step_def)
    qed
  next
    case (Pop c')
    then have [simp]: "c' = c" by (simp add: c_def op_commit_def)
    obtain b' where "pop_pos lib ix b c = Inr (b', case f c of [] \<Rightarrow> None | p # _ \<Rightarrow> Some p)"
      "list_repr view ix b' c (tl (f c))" "others_kept view ix c b b'" using pop_pos_repr [OF assms(1) r] .
    then show ?thesis using Pop keep by (simp add: lists_step_def index_step_def)
  next
    case (PopBack c')
    then have [simp]: "c' = c" by (simp add: c_def op_commit_def)
    obtain b' where "pop_pos_back lib ix b c = Inr (b', if f c = [] then None else Some (last (f c)))"
      "list_repr view ix b' c (butlast (f c))" "others_kept view ix c b b'" using pop_pos_back_repr [OF assms(1) r] .
    then show ?thesis using PopBack keep by (simp add: lists_step_def index_step_def)
  next
    case (Peek c')
    then show ?thesis using peek_pos_repr [OF assms(1) r] assms(2) by (auto simp: lists_step_def index_step_def c_def op_commit_def)
  next
    case (Rewind c' q)
    then have [simp]: "c' = c" by (simp add: c_def op_commit_def)
    show ?thesis using list_rewind_repr [OF assms(1) r, of q] Rewind keep by (auto simp: lists_step_def index_step_def)
  qed
qed

text \<open>C32: The index of recent kernels in the key-value store answers every sequence of pushes, pops at either end,
  peeks and rewinds, on any number of commitments, as plain lists of positions in decreasing order do: it gives the
  same answers, fails at the same operation with the same error, rewinding always ends, and no operation touches the
  list of another commitment.\<close>

theorem nrd_index_refines_lists:
  assumes "heed_ok lib view" "index_repr view ix n b f" "\<forall>op \<in> set ops. length (op_commit op) = n"
  shows "case lists_run ops f of
      Inl e \<Rightarrow> index_run lib ix ops b = Some (Inl e)
    | Inr (f', outs) \<Rightarrow> \<exists>b'. index_run lib ix ops b = Some (Inr (b', outs)) \<and> index_repr view ix n b' f'"
  using assms(2,3)
proof (induction ops arbitrary: b f)
  case (Cons op ops)
  have op: "length (op_commit op) = n" using Cons.prems by simp
  note step = index_step_simulates [OF assms(1) Cons.prems(1) op]
  show ?case
  proof (cases "lists_step op f")
    case (Inl e)
    then show ?thesis using step by simp
  next
    case (Inr r)
    obtain f1 out where r: "r = (f1, out)" by (cases r)
    then obtain b1 where b1: "index_step lib ix op b = Some (Inr (b1, out))" "index_repr view ix n b1 f1" using step Inr by auto
    show ?thesis using Cons.IH [OF b1(2)] Cons.prems(2) b1(1) Inr r by (auto split: sum.splits)
  qed
qed simp

text \<open>An empty index, and what a sequence of operations on it answers.\<close>

definition demo_index_batch :: "((db_key \<times> bytes) \<times> bytes) list batch" where
  "demo_index_batch = \<lparr> pre_dbs = [75, 107], txn = [] \<rparr>"

definition demo_ops :: "index_op list" where
  "demo_ops =
     [Push [1] \<lparr> cp_pos = 5, cp_height = 1 \<rparr>, Push [1] \<lparr> cp_pos = 8, cp_height = 2 \<rparr>, Push [2] \<lparr> cp_pos = 9, cp_height = 2 \<rparr>,
      Push [1] \<lparr> cp_pos = 12, cp_height = 3 \<rparr>, PopBack [1], Rewind [1] 11, Peek [1], Pop [2]]"

lemma nrd_index_refines_lists_witness:
  "\<exists>b'. index_run alist_lib (multi_index_init 75 107) demo_ops demo_index_batch =
     Some (Inr (b', [None, None, None, None, Some \<lparr> cp_pos = 5, cp_height = 1 \<rparr>, None,
       Some \<lparr> cp_pos = 8, cp_height = 2 \<rparr>, Some \<lparr> cp_pos = 9, cp_height = 2 \<rparr>]))"
proof -
  have r: "index_repr map_of (multi_index_init 75 107) 1 demo_index_batch (\<lambda>_. [])"
    by (simp add: index_repr_def list_repr_def sees_def index_ok_def demo_index_batch_def multi_index_init_def stored_def)
  have "\<exists>f. lists_run demo_ops (\<lambda>_. []) = Inr (f, [None, None, None, None, Some \<lparr> cp_pos = 5, cp_height = 1 \<rparr>, None,
       Some \<lparr> cp_pos = 8, cp_height = 2 \<rparr>, Some \<lparr> cp_pos = 9, cp_height = 2 \<rparr>])"
    by (simp add: demo_ops_def lists_step_def)
  moreover have "\<forall>op \<in> set demo_ops. length (op_commit op) = 1" by (simp add: demo_ops_def op_commit_def)
  ultimately show ?thesis using nrd_index_refines_lists [OF heed_ok_alist r, of demo_ops] by auto
qed

end
