(* ===== verification/Chain_Store.thy ===== *)
theory Chain_Store
  imports Block Linked_List
begin

text \<open>
  The database of the chain (\<open>chain/src/store.rs\<close>) over the key-value store: heads, headers, blocks, block sums,
  positions of outputs and the outputs a block has spent, each under its prefix, and the iterator that walks back
  over the headers of a fork and feeds the difficulty adjustment of \<open>consensus.rs\<close>. The tips of forks are those of
  \<open>chain/src/types.rs\<close>. \<open>ChainStore\<close> offers the reading operations of \<open>Batch\<close> on a read transaction: they are the
  same definitions, up to the text of two messages.
\<close>

section \<open>Tips\<close>

record tip =
  tip_height :: u64
  last_block_h :: hash
  prev_block_h :: hash
  tip_total_difficulty :: difficulty

definition tip_from_header :: "tx_env \<Rightarrow> block_header \<Rightarrow> tip" where
  "tip_from_header env h =
     \<lparr> tip_height = hdr_height h, last_block_h = header_hash env h, prev_block_h = prev_hash h,
       tip_total_difficulty = total_difficulty (hdr_pow h) \<rparr>"

definition tip_default :: tip where
  "tip_default =
     \<lparr> tip_height = 0, last_block_h = zero_hash, prev_block_h = zero_hash, tip_total_difficulty = min_dma \<rparr>"

definition tip_write :: "tip writeable" where
  "tip_write c t =
     Inr (write_u64 (tip_height t) @ write_fixed_bytes (last_block_h t) @ write_fixed_bytes (prev_block_h t) @
          write_u64 (to_num (tip_total_difficulty t)))"

definition tip_read :: "tip readable_fn" where
  "tip_read r =
     rbind (read_u64 r) (\<lambda>(h, r). rbind (hash_read r) (\<lambda>(l, r). rbind (hash_read r) (\<lambda>(p, r).
       rbind (difficulty_read r) (\<lambda>(d, r).
         Inr (\<lparr> tip_height = h, last_block_h = l, prev_block_h = p, tip_total_difficulty = d \<rparr>, r)))))"

section \<open>Keys\<close>

definition block_header_prefix :: u8 where "block_header_prefix = 104"
definition block_prefix :: u8 where "block_prefix = 98"
definition head_prefix :: u8 where "head_prefix = 72"
definition tail_prefix :: u8 where "tail_prefix = 84"
definition pibd_head_prefix :: u8 where "pibd_head_prefix = 73"
definition header_head_prefix :: u8 where "header_head_prefix = 71"
definition output_pos_prefix :: u8 where "output_pos_prefix = 112"
definition nrd_kernel_list_prefix :: u8 where "nrd_kernel_list_prefix = 75"
definition nrd_kernel_entry_prefix :: u8 where "nrd_kernel_entry_prefix = 107"
definition block_sums_prefix :: u8 where "block_sums_prefix = 77"
definition block_spent_prefix :: u8 where "block_spent_prefix = 83"

definition db_prefixes :: "u8 list" where
  "db_prefixes =
     [block_header_prefix, block_prefix, output_pos_prefix, nrd_kernel_list_prefix, nrd_kernel_entry_prefix,
      block_sums_prefix, block_spent_prefix]"

lemmas prefix_defs = block_header_prefix_def block_prefix_def head_prefix_def tail_prefix_def pibd_head_prefix_def
  header_head_prefix_def output_pos_prefix_def nrd_kernel_list_prefix_def nrd_kernel_entry_prefix_def
  block_sums_prefix_def block_spent_prefix_def

definition nrd_recent_kernel_index :: multi_index where
  "nrd_recent_kernel_index = multi_index_init nrd_kernel_list_prefix nrd_kernel_entry_prefix"

section \<open>Heads\<close>

definition hash_display :: "hash \<Rightarrow> string" where
  "hash_display h = take 12 (to_hex h)"

definition cs_head :: "'t heed_lib \<Rightarrow> 't batch \<Rightarrow> store_error + tip" where
  "cs_head lib b = option_to_not_found (get_ser lib tip_read b None [head_prefix] None) ''HEAD''"

definition cs_tail :: "'t heed_lib \<Rightarrow> 't batch \<Rightarrow> store_error + tip" where
  "cs_tail lib b = option_to_not_found (get_ser lib tip_read b None [tail_prefix] None) ''TAIL''"

definition cs_header_head :: "'t heed_lib \<Rightarrow> 't batch \<Rightarrow> store_error + tip" where
  "cs_header_head lib b = option_to_not_found (get_ser lib tip_read b None [header_head_prefix] None) ''HEADER_HEAD''"

text \<open>The genesis block is a global of the node: its header is an argument.\<close>

definition cs_pibd_head :: "'t heed_lib \<Rightarrow> tx_env \<Rightarrow> block_header \<Rightarrow> 't batch \<Rightarrow> store_error + tip" where
  "cs_pibd_head lib env genesis_header b =
     (case option_to_not_found (get_ser lib tip_read b None [pibd_head_prefix] None) ''PIBD_HEAD'' of
        Inr r \<Rightarrow> Inr r
      | Inl _ \<Rightarrow> Inr (tip_from_header env genesis_header))"

definition save_body_head :: "'t heed_lib \<Rightarrow> 't batch \<Rightarrow> tip \<Rightarrow> store_error + 't batch" where
  "save_body_head lib b t = put_ser lib tip_write b None [head_prefix] t"

definition save_body_tail :: "'t heed_lib \<Rightarrow> 't batch \<Rightarrow> tip \<Rightarrow> store_error + 't batch" where
  "save_body_tail lib b t = put_ser lib tip_write b None [tail_prefix] t"

definition save_header_head :: "'t heed_lib \<Rightarrow> 't batch \<Rightarrow> tip \<Rightarrow> store_error + 't batch" where
  "save_header_head lib b t = put_ser lib tip_write b None [header_head_prefix] t"

definition save_pibd_head :: "'t heed_lib \<Rightarrow> 't batch \<Rightarrow> tip \<Rightarrow> store_error + 't batch" where
  "save_pibd_head lib b t = put_ser lib tip_write b None [pibd_head_prefix] t"

section \<open>Headers, blocks and what belongs to a block\<close>

definition get_block_header :: "'t heed_lib \<Rightarrow> tx_env \<Rightarrow> clock \<Rightarrow> 't batch \<Rightarrow> hash \<Rightarrow> store_error + block_header" where
  "get_block_header lib env clk b h =
     option_to_not_found (get_ser lib (read_block_header env clk) b (Some block_header_prefix) h None)
       (''BLOCK HEADER: '' @ hash_display h)"

definition get_block_header_skip_proof ::
    "'t heed_lib \<Rightarrow> tx_env \<Rightarrow> clock \<Rightarrow> 't batch \<Rightarrow> hash \<Rightarrow> store_error + block_header" where
  "get_block_header_skip_proof lib env clk b h =
     option_to_not_found (get_ser lib (read_block_header env clk) b (Some block_header_prefix) h (Some SkipPow))
       (''BLOCK HEADER: '' @ hash_display h)"

definition head_header :: "'t heed_lib \<Rightarrow> tx_env \<Rightarrow> clock \<Rightarrow> 't batch \<Rightarrow> store_error + block_header" where
  "head_header lib env clk b = rbind (cs_head lib b) (\<lambda>t. get_block_header lib env clk b (last_block_h t))"

definition get_previous_header ::
    "'t heed_lib \<Rightarrow> tx_env \<Rightarrow> clock \<Rightarrow> 't batch \<Rightarrow> block_header \<Rightarrow> store_error + block_header" where
  "get_previous_header lib env clk b h = get_block_header lib env clk b (prev_hash h)"

definition get_previous_header_skip_proof ::
    "'t heed_lib \<Rightarrow> tx_env \<Rightarrow> clock \<Rightarrow> 't batch \<Rightarrow> block_header \<Rightarrow> store_error + block_header" where
  "get_previous_header_skip_proof lib env clk b h = get_block_header_skip_proof lib env clk b (prev_hash h)"

definition save_block_header :: "'t heed_lib \<Rightarrow> tx_env \<Rightarrow> 't batch \<Rightarrow> block_header \<Rightarrow> store_error + 't batch" where
  "save_block_header lib env b h =
     put_ser lib (header_write env) b (Some block_header_prefix) (header_hash env h) h"

definition get_block :: "'t heed_lib \<Rightarrow> tx_env \<Rightarrow> clock \<Rightarrow> 't batch \<Rightarrow> hash \<Rightarrow> store_error + block" where
  "get_block lib env clk b h =
     option_to_not_found (get_ser lib (block_read env clk) b (Some block_prefix) h None)
       (''Block with hash: '' @ hash_display h)"

definition block_exists :: "'t heed_lib \<Rightarrow> 't batch \<Rightarrow> hash \<Rightarrow> store_error + bool" where
  "block_exists lib b h = batch_exists lib b (Some block_prefix) h"

definition save_block :: "'t heed_lib \<Rightarrow> tx_env \<Rightarrow> 't batch \<Rightarrow> block \<Rightarrow> store_error + 't batch" where
  "save_block lib env b blk = put_ser lib (block_write env) b (Some block_prefix) (block_hash env blk) blk"

definition save_spent_index :: "'t heed_lib \<Rightarrow> 't batch \<Rightarrow> hash \<Rightarrow> commit_pos list \<Rightarrow> store_error + 't batch" where
  "save_spent_index lib b h spent = put_ser lib (vec_write commit_pos_write) b (Some block_spent_prefix) h spent"

text \<open>A vector is read until the end of its bytes; the outer \<open>None\<close> is a reading that does not end.\<close>

definition get_spent_index :: "'t heed_lib \<Rightarrow> 't batch \<Rightarrow> hash \<Rightarrow> (store_error + commit_pos list) option" where
  "get_spent_index lib b h =
     (case get_with lib b (Some block_spent_prefix) h (\<lambda>_ data. Inr data) of
        Inl e \<Rightarrow> Some (Inl e)
      | Inr None \<Rightarrow> Some (Inl (NotFoundErr (''spent index: '' @ hash_display h)))
      | Inr (Some data) \<Rightarrow>
          map_option (\<lambda>res. rbind (map_err SerErr res) (\<lambda>(xs, _). Inr xs))
            (vec_read commit_pos_read (bin_new data default_db_version DeserFull)))"

definition get_block_sums :: "'t heed_lib \<Rightarrow> secp_sizes \<Rightarrow> 't batch \<Rightarrow> hash \<Rightarrow> store_error + block_sums" where
  "get_block_sums lib sz b h =
     option_to_not_found (get_ser lib (block_sums_read sz) b (Some block_sums_prefix) h None)
       (''Block sums for block: '' @ hash_display h)"

definition save_block_sums :: "'t heed_lib \<Rightarrow> 't batch \<Rightarrow> hash \<Rightarrow> block_sums \<Rightarrow> store_error + 't batch" where
  "save_block_sums lib b h sums = put_ser lib block_sums_write b (Some block_sums_prefix) h sums"

definition delete_block_sums :: "'t heed_lib \<Rightarrow> 't batch \<Rightarrow> hash \<Rightarrow> store_error + 't batch" where
  "delete_block_sums lib b h = batch_delete lib b (Some block_sums_prefix) h"

definition delete_spent_index :: "'t heed_lib \<Rightarrow> 't batch \<Rightarrow> hash \<Rightarrow> store_error + 't batch" where
  "delete_spent_index lib b h = batch_delete lib b (Some block_spent_prefix) h"

text \<open>The data that belongs to a block is deleted as far as possible: a failure is ignored.\<close>

definition or_keep :: "'t batch \<Rightarrow> store_error + 't batch \<Rightarrow> 't batch" where
  "or_keep b r = (case r of Inr b' \<Rightarrow> b' | Inl _ \<Rightarrow> b)"

definition delete_block :: "'t heed_lib \<Rightarrow> 't batch \<Rightarrow> hash \<Rightarrow> store_error + 't batch" where
  "delete_block lib b h =
     rbind (batch_delete lib b (Some block_prefix) h) (\<lambda>b.
       let b = or_keep b (delete_block_sums lib b h);
           b = or_keep b (delete_spent_index lib b h)
       in Inr b)"

section \<open>Positions of outputs\<close>

definition save_output_pos_height :: "'t heed_lib \<Rightarrow> 't batch \<Rightarrow> commitment \<Rightarrow> commit_pos \<Rightarrow> store_error + 't batch" where
  "save_output_pos_height lib b commit p = put_ser lib commit_pos_write b (Some output_pos_prefix) commit p"

definition delete_output_pos_height :: "'t heed_lib \<Rightarrow> 't batch \<Rightarrow> commitment \<Rightarrow> store_error + 't batch" where
  "delete_output_pos_height lib b commit = batch_delete lib b (Some output_pos_prefix) commit"

definition get_output_pos_height :: "'t heed_lib \<Rightarrow> 't batch \<Rightarrow> commitment \<Rightarrow> store_error + commit_pos option" where
  "get_output_pos_height lib b commit = get_ser lib commit_pos_read b (Some output_pos_prefix) commit None"

text \<open>\<open>show_commit\<close> is the debug format of a commitment, which the library defines.\<close>

definition get_output_pos ::
    "'t heed_lib \<Rightarrow> (commitment \<Rightarrow> string) \<Rightarrow> 't batch \<Rightarrow> commitment \<Rightarrow> store_error + u64" where
  "get_output_pos lib show_commit b commit =
     rbind (get_output_pos_height lib b commit) (\<lambda>p. case p of
         Some p \<Rightarrow> Inr (cp_pos p - 1)
       | None \<Rightarrow> Inl (NotFoundErr (''Output position for: '' @ show_commit commit)))"

section \<open>Walking back over a fork\<close>

record difficulty_iter =
  di_start :: hash
  di_header :: "block_header option"
  di_prev_header :: "block_header option"
  di_prev_header_hash :: "hash option"

definition difficulty_iter_from :: "hash \<Rightarrow> difficulty_iter" where
  "difficulty_iter_from start =
     \<lparr> di_start = start, di_header = None, di_prev_header = None, di_prev_header_hash = None \<rparr>"

definition ok :: "'e + 'a \<Rightarrow> 'a option" where
  "ok r = (case r of Inr x \<Rightarrow> Some x | Inl _ \<Rightarrow> None)"

definition difficulty_iter_next ::
    "'t heed_lib \<Rightarrow> tx_env \<Rightarrow> clock \<Rightarrow> 't batch \<Rightarrow> difficulty_iter \<Rightarrow> header_difficulty_info option \<times> difficulty_iter" where
  "difficulty_iter_next lib env clk b it =
     (let (cur_header, cur_header_hash) =
            (if di_header it = None
             then (ok (get_block_header_skip_proof lib env clk b (di_start it)), Some (di_start it))
             else (di_prev_header it, di_prev_header_hash it));
          it = it \<lparr> di_header := cur_header \<rparr>
      in case cur_header of
           None \<Rightarrow> (None, it)
         | Some header \<Rightarrow>
             let prev_header = ok (get_previous_header_skip_proof lib env clk b header);
                 it = it \<lparr> di_prev_header := prev_header, di_prev_header_hash := Some (prev_hash header) \<rparr>;
                 prev_difficulty = (case prev_header of None \<Rightarrow> difficulty_zero | Some x \<Rightarrow> total_difficulty (hdr_pow x));
                 diff = difficulty_sub (total_difficulty (hdr_pow header)) prev_difficulty
             in (Some \<lparr> hdi_hash = cur_header_hash, hdi_timestamp = timestamp header, hdi_difficulty = diff,
                        hdi_secondary_scaling = secondary_scaling (hdr_pow header),
                        hdi_is_secondary = is_secondary (hdr_pow header) \<rparr>, it))"

text \<open>The first \<open>n\<close> items, as \<open>Iterator::take\<close> gives them.\<close>

primrec difficulty_take ::
    "nat \<Rightarrow> 't heed_lib \<Rightarrow> tx_env \<Rightarrow> clock \<Rightarrow> 't batch \<Rightarrow> difficulty_iter \<Rightarrow> header_difficulty_info list" where
  "difficulty_take 0 lib env clk b it = []"
| "difficulty_take (Suc n) lib env clk b it =
     (case difficulty_iter_next lib env clk b it of
        (None, _) \<Rightarrow> []
      | (Some x, it) \<Rightarrow> x # difficulty_take n lib env clk b it)"

section \<open>What is saved can be read back\<close>

interpretation tip: codec tip_write tip_read "\<lambda>_ t. length (last_block_h t) = 32 \<and> length (prev_block_h t) = 32"
  by (rule codec_upcomingI [where enc = "\<lambda>_ t. write_u64 (tip_height t) @ write_fixed_bytes (last_block_h t) @
      write_fixed_bytes (prev_block_h t) @ write_u64 (to_num (tip_total_difficulty t))"])
    (auto simp: tip_write_def tip_read_def write_fixed_bytes_def upcoming_append read_upcoming hash_read_upcoming difficulty_read_def)

interpretation commit_pos: eof_codec commit_pos_write commit_pos_read "\<lambda>_ _. True"
  by unfold_locales (simp add: commit_pos_read_def read_u64_def read_int_bytes_eq)

definition chain_batch :: "'t batch \<Rightarrow> bool" where
  "chain_batch b \<longleftrightarrow> pre_dbs b = db_prefixes"

lemma chain_batch_dbs:
  "chain_batch b \<Longrightarrow> has_db b None" "chain_batch b \<Longrightarrow> has_db b (Some block_header_prefix)" "chain_batch b \<Longrightarrow> has_db b (Some block_prefix)"
  "chain_batch b \<Longrightarrow> has_db b (Some block_sums_prefix)" "chain_batch b \<Longrightarrow> has_db b (Some block_spent_prefix)"
  "chain_batch b \<Longrightarrow> has_db b (Some output_pos_prefix)"
  by (simp_all add: chain_batch_def has_db_def db_prefixes_def)

lemma commit_pos_list_written: "\<exists>bs. vec_write commit_pos_write (full_ctx v) ps = Inr bs"
  using commit_pos.iterating_round_trip [of ps v] by auto

lemma get_spent_index_stored:
  assumes "heed_ok lib view" "chain_batch b" "vec_write commit_pos_write (full_ctx default_db_version) spent = Inr bs"
    "stored view b (Some block_spent_prefix, h) = Some bs"
  shows "get_spent_index lib b h = Some (Inr spent)"
proof -
  have "vec_read_loop commit_pos_read [] (bin_new bs default_db_version DeserFull) =
      Some (Inr ([] @ spent, advance (length bs) (bin_new bs default_db_version DeserFull)))"
    by (rule commit_pos.vec_read_loop_round_trip [where v = default_db_version])
      (use assms(3) in \<open>simp_all add: reads_def bin_new_def\<close>)
  then show ?thesis
    using assms(1,4) chain_batch_dbs(5) [OF assms(2)]
    by (simp add: get_spent_index_def get_with_def get_db_eq heed_okD stored_def vec_read_def)
qed

section \<open>A fork in the store\<close>

text \<open>\<open>header_chain\<close>: the headers, newest first, are saved, each follows the next, and the last one follows none
  that is saved.\<close>

definition header_saved :: "('t \<Rightarrow> db_key \<times> bytes \<Rightarrow> bytes option) \<Rightarrow> tx_env \<Rightarrow> clock \<Rightarrow> 't batch \<Rightarrow> block_header \<Rightarrow> bool" where
  "header_saved view env clk b h \<longleftrightarrow>
     header_valid env clk h \<and>
     (\<exists>bs. header_write env (full_ctx default_db_version) h = Inr bs \<and>
       stored view b (Some block_header_prefix, header_hash env h) = Some bs)"

fun header_chain :: "('t \<Rightarrow> db_key \<times> bytes \<Rightarrow> bytes option) \<Rightarrow> tx_env \<Rightarrow> clock \<Rightarrow> 't batch \<Rightarrow> block_header list \<Rightarrow> bool" where
  "header_chain view env clk b [] \<longleftrightarrow> False"
| "header_chain view env clk b [h] \<longleftrightarrow> header_saved view env clk b h \<and> stored view b (Some block_header_prefix, prev_hash h) = None"
| "header_chain view env clk b (h # h' # hs) \<longleftrightarrow>
     header_saved view env clk b h \<and> prev_hash h = header_hash env h' \<and> header_chain view env clk b (h' # hs)"

text \<open>What the difficulty adjustment has to know of each block: its own difficulty is its total less that of the
  block before.\<close>

fun difficulty_infos :: "tx_env \<Rightarrow> block_header list \<Rightarrow> header_difficulty_info list" where
  "difficulty_infos env [] = []"
| "difficulty_infos env (h # hs) =
     \<lparr> hdi_hash = Some (header_hash env h), hdi_timestamp = timestamp h,
       hdi_difficulty = difficulty_sub (total_difficulty (hdr_pow h))
         (case hs of [] \<Rightarrow> difficulty_zero | h' # _ \<Rightarrow> total_difficulty (hdr_pow h')),
       hdi_secondary_scaling = secondary_scaling (hdr_pow h), hdi_is_secondary = is_secondary (hdr_pow h) \<rparr> #
     difficulty_infos env hs"

lemma get_header_skip_proof:
  assumes "heed_ok lib view" "chain_batch b" "header_saved view env clk b h"
  shows "get_block_header_skip_proof lib env clk b (header_hash env h) = Inr (without_nonces h)"
proof -
  obtain bs where bs: "header_valid env clk h" "header_write env (full_ctx default_db_version) h = Inr bs"
    "stored view b (Some block_header_prefix, header_hash env h) = Some bs"
    using assms(3) by (auto simp: header_saved_def)
  obtain r' where "read_block_header env clk (bin_new bs default_db_version SkipPow) = Inr (without_nonces h, r')"
    using header_skip_pow [OF bs(1,2), of "bin_new bs default_db_version SkipPow" "[]"] by (auto simp: bin_new_def)
  then show ?thesis
    using assms(1) bs(3) chain_batch_dbs(2) [OF assms(2)]
    by (simp add: get_block_header_skip_proof_def get_ser_def get_with_def get_db_eq heed_okD stored_def deserialize_def
        option_to_not_found_def)
qed

lemma get_header_missing:
  assumes "heed_ok lib view" "chain_batch b" "stored view b (Some block_header_prefix, k) = None"
  shows "get_block_header_skip_proof lib env clk b k = Inl (NotFoundErr (''BLOCK HEADER: '' @ hash_display k))"
  using assms chain_batch_dbs(2) [OF assms(2)]
  by (simp add: get_block_header_skip_proof_def get_ser_def get_with_def get_db_eq heed_okD stored_def option_to_not_found_def)

lemma without_nonces_sel [simp]:
  "prev_hash (without_nonces h) = prev_hash h" "timestamp (without_nonces h) = timestamp h"
  "total_difficulty (hdr_pow (without_nonces h)) = total_difficulty (hdr_pow h)"
  "secondary_scaling (hdr_pow (without_nonces h)) = secondary_scaling (hdr_pow h)"
  "is_secondary (hdr_pow (without_nonces h)) = is_secondary (hdr_pow h)"
  by (simp_all add: without_nonces_def is_secondary_def)

lemma header_chain_saved: "header_chain view env clk b (h # hs) \<Longrightarrow> header_saved view env clk b h"
  by (cases hs) auto

text \<open>The state of the iterator when the next block it answers is the first of \<open>hs\<close>.\<close>

definition iter_at :: "tx_env \<Rightarrow> block_header list \<Rightarrow> difficulty_iter \<Rightarrow> bool" where
  "iter_at env hs it \<longleftrightarrow>
     (case hs of
        [] \<Rightarrow> di_header it \<noteq> None \<and> di_prev_header it = None
      | h # _ \<Rightarrow>
          if di_header it = None then di_start it = header_hash env h
          else di_prev_header it = Some (without_nonces h) \<and> di_prev_header_hash it = Some (header_hash env h))"

lemma difficulty_iter_step:
  assumes "heed_ok lib view" "chain_batch b" "header_chain view env clk b (h # hs)" "iter_at env (h # hs) it"
  shows "\<exists>it'. difficulty_iter_next lib env clk b it = (Some (hd (difficulty_infos env (h # hs))), it') \<and> iter_at env hs it'"
proof -
  have cur: "get_block_header_skip_proof lib env clk b (header_hash env h) = Inr (without_nonces h)"
    by (rule get_header_skip_proof [OF assms(1,2) header_chain_saved [OF assms(3)]])
  show ?thesis
  proof (cases hs)
    case Nil
    then have "get_block_header_skip_proof lib env clk b (prev_hash h) = Inl (NotFoundErr (''BLOCK HEADER: '' @ hash_display (prev_hash h)))"
      using get_header_missing [OF assms(1,2)] assms(3) by simp
    then show ?thesis using cur assms(4) Nil
      by (auto simp: difficulty_iter_next_def iter_at_def ok_def get_previous_header_skip_proof_def Let_def)
  next
    case (Cons h' hs')
    then have "get_block_header_skip_proof lib env clk b (prev_hash h) = Inr (without_nonces h')" "prev_hash h = header_hash env h'"
      using get_header_skip_proof [OF assms(1,2)] header_chain_saved [of view env clk b h' hs'] assms(3) by simp_all
    then show ?thesis using cur assms(4) Cons
      by (auto simp: difficulty_iter_next_def iter_at_def ok_def get_previous_header_skip_proof_def Let_def)
  qed
qed

lemma difficulty_take_infos:
  assumes "heed_ok lib view" "chain_batch b" "hs = [] \<or> header_chain view env clk b hs" "iter_at env hs it"
  shows "difficulty_take n lib env clk b it = take n (difficulty_infos env hs)"
  using assms(3,4)
proof (induction n arbitrary: hs it)
  case (Suc n)
  show ?case
  proof (cases hs)
    case Nil
    then show ?thesis using Suc.prems(2) by (auto simp: iter_at_def difficulty_iter_next_def Let_def)
  next
    case (Cons h hs')
    then have chain: "header_chain view env clk b (h # hs')" using Suc.prems(1) by simp
    obtain it' where it': "difficulty_iter_next lib env clk b it = (Some (hd (difficulty_infos env (h # hs'))), it')" "iter_at env hs' it'"
      using difficulty_iter_step [OF assms(1,2) chain] Suc.prems(2) Cons by auto
    have "hs' = [] \<or> header_chain view env clk b hs'" using chain by (cases hs') auto
    from Suc.IH [OF this it'(2)] show ?thesis using it'(1) Cons by simp
  qed
qed simp

lemma sum_difficulty_infos:
  "hs \<noteq> [] \<Longrightarrow> sum_list (map (\<lambda>i. to_num (hdi_difficulty i)) (difficulty_infos env hs)) = to_num (total_difficulty (hdr_pow (hd hs)))"
proof (induction hs)
  case (Cons h hs)
  then show ?case by (cases hs) (simp_all add: difficulty_sub_def difficulty_zero_def)
qed simp

section \<open>Properties\<close>

text \<open>C33: Walking back from the head of a fork that is in the store, the difficulty iterator answers exactly the
  blocks of the fork down to the first one, each with its own hash, time, scaling and difficulty, although it reads
  the headers without their proofs; the difficulties it answers add up to the total difficulty of the head.\<close>

theorem difficulty_iter_walks_fork:
  assumes "heed_ok lib view" "chain_batch b" "header_chain view env clk b hs"
  shows "difficulty_take n lib env clk b (difficulty_iter_from (header_hash env (hd hs))) = take n (difficulty_infos env hs) \<and>
    length (difficulty_infos env hs) = length hs \<and>
    sum_list (map (\<lambda>i. to_num (hdi_difficulty i)) (difficulty_infos env hs)) = to_num (total_difficulty (hdr_pow (hd hs)))"
proof -
  have ne: "hs \<noteq> []" using assms(3) by (cases hs) auto
  then have "iter_at env hs (difficulty_iter_from (header_hash env (hd hs)))"
    by (cases hs) (simp_all add: iter_at_def difficulty_iter_from_def)
  moreover have "length (difficulty_infos env hs) = length hs" by (induction hs) auto
  ultimately show ?thesis using difficulty_take_infos [OF assms(1,2), of hs env clk _ n] assms(3) sum_difficulty_infos [OF ne] by simp
qed

text \<open>Two headers of the test chain, the second on top of the first.\<close>

definition test_env :: tx_env where
  "test_env = \<lparr> env_lib = byte_lib, env_blake2b = (\<lambda>bs. take 32 (bs @ replicate 32 0)), env_chain = AutomatedTesting, env_nrd = True \<rparr>"

definition test_header :: "pow_proof \<Rightarrow> hash \<Rightarrow> u64 \<Rightarrow> block_header" where
  "test_header pf ph diff = (header_default test_env) \<lparr> prev_hash := ph,
     hdr_pow := \<lparr> total_difficulty = Difficulty diff, secondary_scaling = 1, pow_nonce = 0, proof_of = pf \<rparr> \<rparr>"

definition test_genesis :: block_header where
  "test_genesis = test_header demo_pow_proof zero_hash 3"

definition test_proof2 :: pow_proof where
  "test_proof2 = \<lparr> edge_bits = 10, nonces = [4, 5, 9, 100, 200, 300, 400, 1023] \<rparr>"

definition test_second :: block_header where
  "test_second = test_header test_proof2 (header_hash test_env test_genesis) 10"

lemma test_proofs:
  "pow_proof_valid AutomatedTesting demo_pow_proof" "pow_proof_valid AutomatedTesting test_proof2"
  "pack_nonces AutomatedTesting test_proof2 = Some [4, 20, 144, 0, 25, 200, 176, 4, 217, 255]"
proof -
  show v: "pow_proof_valid AutomatedTesting demo_pow_proof" "pow_proof_valid AutomatedTesting test_proof2"
    by (simp_all add: pow_proof_valid_def demo_pow_proof_def test_proof2_def proofsize_def pack_len_def automated_testing_proof_size_def)
  show "pack_nonces AutomatedTesting test_proof2 = Some [4, 20, 144, 0, 25, 200, 176, 4, 217, 255]"
    by (rule pack_nonces_eqI [OF v(2)]) (simp_all add: test_proof2_def proofsize_def pack_len_def automated_testing_proof_size_def)
qed

text \<open>The hash of a header is that of its packed nonces.\<close>

lemma header_hash_nonces: "header_hash env h = env_blake2b env (the (pack_nonces (env_chain env) (proof_of (hdr_pow h))))"
  by (simp add: header_hash_def hash_of_def hash_ctx_def header_write_def pow_write_def proof_write_def write_fixed_bytes_def Let_def)

lemma test_hashes:
  "header_hash test_env test_genesis = [3, 20, 144, 0, 25, 200, 176, 4, 217, 255] @ replicate 22 0"
  "header_hash test_env test_second = [4, 20, 144, 0, 25, 200, 176, 4, 217, 255] @ replicate 22 0"
  using demo_proof_packed test_proofs(3)
  by (simp_all add: header_hash_nonces test_env_def test_genesis_def test_second_def test_header_def)

lemma test_headers_valid: "header_valid test_env demo_clock test_genesis" "header_valid test_env demo_clock test_second"
proof -
  have lib: "sizes_ok (sizes (env_lib test_env))" "length (blinding_zero (env_lib test_env)) = secret_key_size (sizes (env_lib test_env))"
    "\<not> date_max demo_clock <s 0" "\<not> 0 <s date_min demo_clock" "representable demo_clock 0" "env_chain test_env = AutomatedTesting"
    by (simp_all add: test_env_def sizes_ok_def max_read_size_def byte_lib_def demo_clock_def blinding_zero_def
        blinding_from_secret_key_def blinding_from_slice_def zero_key_def pad_bytes_def word_sless_alt)
  then show "header_valid test_env demo_clock test_genesis" "header_valid test_env demo_clock test_second"
    using test_proofs(1,2) test_hashes(1)
    by (simp_all add: header_valid_def test_genesis_def test_second_def test_header_def header_default_def zero_hash_def pow_valid_def)
qed

lemma difficulty_iter_walks_fork_witness:
  "\<exists>b. chain_batch b \<and> difficulty_take 5 alist_lib test_env demo_clock b (difficulty_iter_from (header_hash test_env test_second)) =
     difficulty_infos test_env [test_second, test_genesis] \<and>
   map hdi_difficulty (difficulty_infos test_env [test_second, test_genesis]) = [Difficulty 7, Difficulty 3]"
proof -
  obtain bs cs where bs: "header_write test_env (full_ctx default_db_version) test_genesis = Inr bs"
    "header_write test_env (full_ctx default_db_version) test_second = Inr cs"
    using header.codecE [OF test_headers_valid(1)] header.codecE [OF test_headers_valid(2)] by metis
  define b where "b = \<lparr> pre_dbs = db_prefixes, txn =
    [((Some block_header_prefix, header_hash test_env test_genesis), bs), ((Some block_header_prefix, header_hash test_env test_second), cs)] \<rparr>"
  have "prev_hash test_second = header_hash test_env test_genesis" "prev_hash test_genesis = zero_hash"
    by (simp_all add: test_second_def test_genesis_def test_header_def)
  moreover have "zero_hash = 0 # replicate 31 0" by (simp add: zero_hash_def numeral_eq_Suc)
  then have "zero_hash \<noteq> x # xs" if "x \<noteq> 0" for x xs using that by (metis list.inject)
  then have "zero_hash \<noteq> 3 # xs" "zero_hash \<noteq> 4 # xs" for xs by simp_all
  ultimately have "header_chain map_of test_env demo_clock b [test_second, test_genesis]"
    using test_headers_valid bs test_hashes by (simp add: header_saved_def b_def stored_def)
  moreover have "chain_batch b" by (simp add: chain_batch_def b_def)
  ultimately show ?thesis
    using difficulty_iter_walks_fork [OF heed_ok_alist, of b test_env demo_clock "[test_second, test_genesis]" 5]
    by (auto simp: difficulty_sub_def difficulty_zero_def test_second_def test_genesis_def test_header_def intro!: exI [of _ b])
qed



end
