(* ===== verification/Store_Files.thy ===== *)
theory Store_Files
  imports Ser
begin

text \<open>
  What the file backend of the ranges stands on: the file functions of \<open>store/src/lib.rs\<close> with what they
  use of \<open>std::fs\<close>, and the bitmaps of the crate \<open>croaring\<close>.

  The files are a map from paths to contents. A missing file is the only failure of an operation that the
  model has: a disk that is full or fails to write is not modelled, and after an error only the error is
  kept.

  The bitmaps are a parameter (\<open>croaring\<close>). \<open>croaring_ok lib els\<close> states what the documentation of the
  crate promises: a bitmap is a finite set of \<open>u32\<close> numbers, its operations are those of sets, \<open>rank\<close> and
  \<open>select\<close> count along the increasing order, and the portable serialization can be read back.
\<close>

section \<open>Bitmaps\<close>

record 'm croaring =
  rb_new :: 'm
  rb_of :: "nat list \<Rightarrow> 'm"
  rb_add :: "'m \<Rightarrow> nat \<Rightarrow> 'm"
  rb_remove :: "'m \<Rightarrow> nat \<Rightarrow> 'm"
  rb_remove_range :: "'m \<Rightarrow> nat \<Rightarrow> nat \<Rightarrow> 'm"
  rb_or :: "'m \<Rightarrow> 'm \<Rightarrow> 'm"
  rb_and :: "'m \<Rightarrow> 'm \<Rightarrow> 'm"
  rb_flip :: "'m \<Rightarrow> nat \<Rightarrow> nat \<Rightarrow> 'm"
  rb_run_optimize :: "'m \<Rightarrow> 'm"
  rb_contains :: "'m \<Rightarrow> nat \<Rightarrow> bool"
  rb_rank :: "'m \<Rightarrow> nat \<Rightarrow> nat"
  rb_select :: "'m \<Rightarrow> nat \<Rightarrow> nat option"
  rb_maximum :: "'m \<Rightarrow> nat option"
  rb_cardinality :: "'m \<Rightarrow> nat"
  rb_range_cardinality :: "'m \<Rightarrow> nat \<Rightarrow> nat \<Rightarrow> nat"
  rb_iter :: "'m \<Rightarrow> nat list"
  rb_serialize :: "'m \<Rightarrow> bytes"
  rb_deserialize :: "bytes \<Rightarrow> 'm"

text \<open>\<open>x as u32\<close>, and the position \<open>1 + pos0 as u32\<close> of a bitmap for the position \<open>pos0\<close> of a range.\<close>

definition as_u32 :: "nat \<Rightarrow> nat" where
  "as_u32 x = x mod 2 ^ 32"

definition pos1_u32 :: "nat \<Rightarrow> nat" where
  "pos1_u32 pos0 = (1 + as_u32 pos0) mod 2 ^ 32"

text \<open>
  The ranges of \<open>remove_range\<close> are inclusive, those of \<open>flip\<close> and \<open>range_cardinality\<close> exclude their end.
\<close>

definition croaring_sets :: "'m croaring \<Rightarrow> ('m \<Rightarrow> nat set) \<Rightarrow> bool" where
  "croaring_sets lib els \<longleftrightarrow>
     els (rb_new lib) = {} \<and>
     (\<forall>xs. els (rb_of lib xs) = set xs) \<and>
     (\<forall>b x. els (rb_add lib b x) = insert x (els b)) \<and>
     (\<forall>b x. els (rb_remove lib b x) = els b - {x}) \<and>
     (\<forall>b lo hi. els (rb_remove_range lib b lo hi) = els b - {lo..hi}) \<and>
     (\<forall>b c. els (rb_or lib b c) = els b \<union> els c) \<and>
     (\<forall>b c. els (rb_and lib b c) = els b \<inter> els c) \<and>
     (\<forall>b lo hi. els (rb_flip lib b lo hi) = (els b - {lo..<hi}) \<union> ({lo..<hi} - els b)) \<and>
     (\<forall>b. els (rb_run_optimize lib b) = els b) \<and>
     (\<forall>b. els (rb_deserialize lib (rb_serialize lib b)) = els b)"

definition croaring_queries :: "'m croaring \<Rightarrow> ('m \<Rightarrow> nat set) \<Rightarrow> bool" where
  "croaring_queries lib els \<longleftrightarrow>
     (\<forall>b. finite (els b)) \<and>
     (\<forall>b x. rb_contains lib b x \<longleftrightarrow> x \<in> els b) \<and>
     (\<forall>b x. rb_rank lib b x = card {y \<in> els b. y \<le> x}) \<and>
     (\<forall>b n. rb_select lib b n = (if n < card (els b) then Some (sorted_list_of_set (els b) ! n) else None)) \<and>
     (\<forall>b. rb_maximum lib b = (if els b = {} then None else Some (Max (els b)))) \<and>
     (\<forall>b. rb_cardinality lib b = card (els b)) \<and>
     (\<forall>b lo hi. rb_range_cardinality lib b lo hi = card (els b \<inter> {lo..<hi})) \<and>
     (\<forall>b. rb_iter lib b = sorted_list_of_set (els b))"

definition croaring_ok :: "'m croaring \<Rightarrow> ('m \<Rightarrow> nat set) \<Rightarrow> bool" where
  "croaring_ok lib els \<longleftrightarrow> croaring_sets lib els \<and> croaring_queries lib els"

lemma croaring_okD:
  assumes "croaring_ok lib els"
  shows "els (rb_new lib) = {}" "els (rb_of lib xs) = set xs" "els (rb_add lib b x) = insert x (els b)"
    "els (rb_remove lib b x) = els b - {x}" "els (rb_remove_range lib b lo hi) = els b - {lo..hi}"
    "els (rb_or lib b c) = els b \<union> els c" "els (rb_and lib b c) = els b \<inter> els c"
    "els (rb_flip lib b lo hi) = (els b - {lo..<hi}) \<union> ({lo..<hi} - els b)"
    "els (rb_run_optimize lib b) = els b" "els (rb_deserialize lib (rb_serialize lib b)) = els b"
    "finite (els b)" "rb_contains lib b x \<longleftrightarrow> x \<in> els b" "rb_rank lib b x = card {y \<in> els b. y \<le> x}"
    "rb_select lib b n = (if n < card (els b) then Some (sorted_list_of_set (els b) ! n) else None)"
    "rb_maximum lib b = (if els b = {} then None else Some (Max (els b)))"
    "rb_cardinality lib b = card (els b)" "rb_range_cardinality lib b lo hi = card (els b \<inter> {lo..<hi})"
    "rb_iter lib b = sorted_list_of_set (els b)"
  using assms by (auto simp: croaring_ok_def croaring_sets_def croaring_queries_def)

text \<open>A plain instance: a bitmap is a list of its members, written in unary.\<close>

fun unary_write :: "nat list \<Rightarrow> bytes" where
  "unary_write [] = []"
| "unary_write (x # xs) = replicate x 0 @ 1 # unary_write xs"

fun unary_read :: "nat \<Rightarrow> bytes \<Rightarrow> nat list" where
  "unary_read n [] = []"
| "unary_read n (b # bs) = (if b = 0 then unary_read (Suc n) bs else n # unary_read 0 bs)"

lemma unary_read_replicate: "unary_read n (replicate x 0 @ 1 # bs) = (n + x) # unary_read 0 bs"
  by (induction x arbitrary: n) auto

lemma unary_read_write [simp]: "unary_read 0 (unary_write xs) = xs"
  by (induction xs) (simp_all add: unary_read_replicate)

definition list_bitmap :: "nat list croaring" where
  "list_bitmap =
     \<lparr> rb_new = [], rb_of = (\<lambda>xs. xs), rb_add = (\<lambda>b x. x # b), rb_remove = (\<lambda>b x. filter (\<lambda>y. y \<noteq> x) b),
       rb_remove_range = (\<lambda>b lo hi. filter (\<lambda>y. \<not> (lo \<le> y \<and> y \<le> hi)) b), rb_or = (@),
       rb_and = (\<lambda>b c. filter (\<lambda>y. y \<in> set c) b),
       rb_flip = (\<lambda>b lo hi. filter (\<lambda>y. \<not> (lo \<le> y \<and> y < hi)) b @ filter (\<lambda>y. y \<notin> set b) [lo..<hi]),
       rb_run_optimize = (\<lambda>b. b), rb_contains = (\<lambda>b x. x \<in> set b),
       rb_rank = (\<lambda>b x. length (filter (\<lambda>y. y \<le> x) (remdups b))),
       rb_select = (\<lambda>b n. let xs = sort (remdups b) in if n < length xs then Some (xs ! n) else None),
       rb_maximum = (\<lambda>b. if b = [] then None else Some (fold max b 0)),
       rb_cardinality = (\<lambda>b. length (remdups b)),
       rb_range_cardinality = (\<lambda>b lo hi. length (filter (\<lambda>y. lo \<le> y \<and> y < hi) (remdups b))),
       rb_iter = (\<lambda>b. sort (remdups b)), rb_serialize = unary_write, rb_deserialize = unary_read 0 \<rparr>"

lemma length_filter_remdups: "length (filter P (remdups b)) = card {y \<in> set b. P y}"
  using length_remdups_card_conv [of "filter P b"] by (simp add: remdups_filter)

lemma fold_max_nat: "b \<noteq> [] \<Longrightarrow> fold max b (0 :: nat) = Max (set b)"
  using Max.set_eq_fold [of 0 b] by (cases b) (auto simp: Max_insert2 max_def)

lemma croaring_ok_list: "croaring_ok list_bitmap set"
proof -
  have sets: "croaring_sets list_bitmap set"
    by (auto simp: croaring_sets_def list_bitmap_def)
  have "croaring_queries list_bitmap set"
    unfolding croaring_queries_def
    by (auto simp: list_bitmap_def length_filter_remdups fold_max_nat sorted_list_of_set_sort_remdups
        length_remdups_card_conv Let_def Int_def atLeastLessThan_def atLeast_def lessThan_def)
  with sets show ?thesis by (simp add: croaring_ok_def)
qed

section \<open>Files\<close>

type_synonym fs = "string \<Rightarrow> bytes option"

datatype io_error = FileNotFound | IoOther ser_error

definition fs_read :: "fs \<Rightarrow> string \<Rightarrow> io_error + bytes" where
  "fs_read f p = ok_or FileNotFound (f p)"

definition fs_exists :: "fs \<Rightarrow> string \<Rightarrow> bool" where
  "fs_exists f p \<longleftrightarrow> f p \<noteq> None"

definition fs_create :: "fs \<Rightarrow> string \<Rightarrow> fs" where
  "fs_create f p = f (p \<mapsto> [])"

definition fs_remove :: "fs \<Rightarrow> string \<Rightarrow> io_error + fs" where
  "fs_remove f p = (if f p = None then Inl FileNotFound else Inr (f (p := None)))"

definition fs_rename :: "fs \<Rightarrow> string \<Rightarrow> string \<Rightarrow> io_error + fs" where
  "fs_rename f p q = (case f p of None \<Rightarrow> Inl FileNotFound | Some bs \<Rightarrow> Inr ((f (p := None)) (q \<mapsto> bs)))"

text \<open>
  The writer of \<open>save_via_temp_file\<close> extends the contents of the new file. The suffix is a non-empty literal
  at every call, which the assertion of the source checks.
\<close>

definition save_via_temp_file ::
    "fs \<Rightarrow> string \<Rightarrow> string \<Rightarrow> (bytes \<Rightarrow> io_error + bytes) \<Rightarrow> io_error + fs" where
  "save_via_temp_file f original temp_suffix writer =
     (let temp_path = original @ temp_suffix
      in rbind (if fs_exists f temp_path then fs_remove f temp_path else Inr f) (\<lambda>f.
         let f = fs_create f temp_path
         in rbind (rbind (fs_read f temp_path) writer) (\<lambda>bs.
            fs_rename (f (temp_path \<mapsto> bs)) temp_path original)))"

definition read_bitmap :: "'m croaring \<Rightarrow> fs \<Rightarrow> string \<Rightarrow> io_error + 'm" where
  "read_bitmap lib f file_path = rbind (fs_read f file_path) (\<lambda>buffer. Inr (rb_deserialize lib buffer))"

text \<open>The suffix under which the bitmaps are written before they replace the old file.\<close>

abbreviation tmp_suffix :: string where "tmp_suffix \<equiv> ''.tmp''"

lemma save_via_temp_file_ok:
  "t \<noteq> [] \<Longrightarrow> writer [] = Inr bs \<Longrightarrow>
   save_via_temp_file f p t writer = Inr ((f (p @ t := None)) (p \<mapsto> bs))"
  by (simp add: save_via_temp_file_def fs_exists_def fs_remove_def fs_create_def fs_read_def fs_rename_def
      Let_def fun_upd_twist)

text \<open>A bitmap that was saved is read back with the same members.\<close>

lemma read_saved_bitmap:
  assumes "croaring_ok lib els" and "save_via_temp_file f p tmp_suffix (\<lambda>bs. Inr (bs @ rb_serialize lib b)) = Inr f'"
  shows "\<exists>b'. read_bitmap lib f' p = Inr b' \<and> els b' = els b"
  using assms(2) by (auto simp: save_via_temp_file_ok read_bitmap_def fs_read_def croaring_okD [OF assms(1)])

end
