(* ===== verification/Prune_List.thy ===== *)
theory Prune_List
  imports Pmmr Store_Files
begin

text \<open>
  The prune list of \<open>store/src/prune_list.rs\<close>: the roots of the pruned subtrees of a range, kept in a bitmap
  of positions that count from one, with the shifts of the hash and of the data file cached per root.

  A panic of the source (an assertion, an index out of bounds) and a call that does not return are the value
  \<open>None\<close>. The theorems show that neither happens on positions that fit the bitmap, that \<open>append\<close> computes
  the closure of the pruned positions under the rule that a parent is pruned when both its children are, that
  the shifts count the positions that compaction removed, and that the iterators list what is not pruned.
\<close>

section \<open>Definitions\<close>

record 'm prune_list =
  pl_path :: "string option"
  pl_bitmap :: 'm
  shift_cache :: "nat list"
  leaf_shift_cache :: "nat list"

definition is_pruned_root :: "'m croaring \<Rightarrow> 'm prune_list \<Rightarrow> nat \<Rightarrow> bool" where
  "is_pruned_root lib pl pos0 = rb_contains lib (pl_bitmap pl) (pos1_u32 pos0)"

definition is_pruned :: "'m croaring \<Rightarrow> 'm prune_list \<Rightarrow> nat \<Rightarrow> bool" where
  "is_pruned lib pl pos0 =
     (if is_pruned_root lib pl pos0 then True
      else let rank = rb_rank lib (pl_bitmap pl) (pos1_u32 pos0)
           in case rb_select lib (pl_bitmap pl) rank of
                Some rt \<Rightarrow> let (start, stop) = bintree_range (rt - 1) in start \<le> pos0 \<and> pos0 < stop
              | None \<Rightarrow> False)"

definition get_shift :: "'m croaring \<Rightarrow> 'm prune_list \<Rightarrow> nat \<Rightarrow> nat option" where
  "get_shift lib pl pos0 =
     (let idx = rb_rank lib (pl_bitmap pl) (pos1_u32 pos0)
      in if idx = 0 then Some 0 else nth_opt (shift_cache pl) (min idx (length (shift_cache pl)) - 1))"

definition get_leaf_shift :: "'m croaring \<Rightarrow> 'm prune_list \<Rightarrow> nat \<Rightarrow> nat option" where
  "get_leaf_shift lib pl pos0 =
     (let idx = rb_rank lib (pl_bitmap pl) (pos1_u32 pos0)
      in if idx = 0 then Some 0 else nth_opt (leaf_shift_cache pl) (min idx (length (leaf_shift_cache pl)) - 1))"

definition get_total_shift :: "'m croaring \<Rightarrow> 'm prune_list \<Rightarrow> nat option" where
  "get_total_shift lib pl =
     get_shift lib pl ((case rb_maximum lib (pl_bitmap pl) of None \<Rightarrow> 1 | Some m \<Rightarrow> m) - 1)"

definition get_total_leaf_shift :: "'m croaring \<Rightarrow> 'm prune_list \<Rightarrow> nat option" where
  "get_total_leaf_shift lib pl =
     get_leaf_shift lib pl ((case rb_maximum lib (pl_bitmap pl) of None \<Rightarrow> 1 | Some m \<Rightarrow> m) - 1)"

definition calculate_next_shift :: "'m croaring \<Rightarrow> 'm prune_list \<Rightarrow> nat \<Rightarrow> nat option" where
  "calculate_next_shift lib pl pos0 =
     Option.bind (if pos0 = 0 then Some 0 else get_shift lib pl (pos0 - 1)) (\<lambda>prev_shift.
       let shift = (if is_pruned_root lib pl pos0
                    then let height = bintree_postorder_height pos0 in 2 * (2 ^ height - 1)
                    else 0)
       in Some (prev_shift + shift))"

definition calculate_next_leaf_shift :: "'m croaring \<Rightarrow> 'm prune_list \<Rightarrow> nat \<Rightarrow> nat option" where
  "calculate_next_leaf_shift lib pl pos0 =
     Option.bind (if pos0 = 0 then Some 0 else get_leaf_shift lib pl (pos0 - 1)) (\<lambda>prev_shift.
       let shift = (if is_pruned_root lib pl pos0
                    then let height = bintree_postorder_height pos0 in if height = 0 then 0 else 2 ^ height
                    else 0)
       in Some (prev_shift + shift))"

text \<open>The loops of the two functions that build the caches repeat the calculation of the next shift.\<close>

fun build_shift_loop :: "'m croaring \<Rightarrow> 'm prune_list \<Rightarrow> nat list \<Rightarrow> 'm prune_list option" where
  "build_shift_loop lib pl [] = Some pl"
| "build_shift_loop lib pl (pos1 # rest) =
     Option.bind (calculate_next_shift lib pl (pos1 - 1)) (\<lambda>shift.
       build_shift_loop lib (pl \<lparr> shift_cache := shift_cache pl @ [shift] \<rparr>) rest)"

definition build_shift_cache :: "'m croaring \<Rightarrow> 'm prune_list \<Rightarrow> 'm prune_list option" where
  "build_shift_cache lib pl = build_shift_loop lib (pl \<lparr> shift_cache := [] \<rparr>) (rb_iter lib (pl_bitmap pl))"

fun build_leaf_shift_loop :: "'m croaring \<Rightarrow> 'm prune_list \<Rightarrow> nat list \<Rightarrow> 'm prune_list option" where
  "build_leaf_shift_loop lib pl [] = Some pl"
| "build_leaf_shift_loop lib pl (pos1 # rest) =
     Option.bind (calculate_next_leaf_shift lib pl (pos1 - 1)) (\<lambda>shift.
       build_leaf_shift_loop lib (pl \<lparr> leaf_shift_cache := leaf_shift_cache pl @ [shift] \<rparr>) rest)"

definition build_leaf_shift_cache :: "'m croaring \<Rightarrow> 'm prune_list \<Rightarrow> 'm prune_list option" where
  "build_leaf_shift_cache lib pl =
     build_leaf_shift_loop lib (pl \<lparr> leaf_shift_cache := [] \<rparr>) (rb_iter lib (pl_bitmap pl))"

definition init_caches :: "'m croaring \<Rightarrow> 'm prune_list \<Rightarrow> 'm prune_list option" where
  "init_caches lib pl = Option.bind (build_shift_cache lib pl) (build_leaf_shift_cache lib)"

definition cleanup_subtree :: "'m croaring \<Rightarrow> 'm prune_list \<Rightarrow> nat \<Rightarrow> 'm prune_list" where
  "cleanup_subtree lib pl pos0 =
     (let lc0 = as_u32 (bintree_leftmost pos0);
          sz = (case rb_maximum lib (pl_bitmap pl) of None \<Rightarrow> 0 | Some m \<Rightarrow> m)
      in if sz \<le> lc0 then pl
         else let idx = rb_rank lib (pl_bitmap pl) lc0
              in pl \<lparr> shift_cache := take idx (shift_cache pl), leaf_shift_cache := take idx (leaf_shift_cache pl),
                     pl_bitmap := rb_remove_range lib (pl_bitmap pl) (lc0 + 1) sz \<rparr>)"

definition append_single :: "'m croaring \<Rightarrow> 'm prune_list \<Rightarrow> nat \<Rightarrow> 'm prune_list option" where
  "append_single lib pl pos0 =
     (if pos0 < (case rb_maximum lib (pl_bitmap pl) of None \<Rightarrow> 0 | Some m \<Rightarrow> m) then None
      else let pl = pl \<lparr> pl_bitmap := rb_add lib (pl_bitmap pl) (pos1_u32 pos0) \<rparr>
           in Option.bind (calculate_next_shift lib pl pos0) (\<lambda>shift.
              let pl = pl \<lparr> shift_cache := shift_cache pl @ [shift] \<rparr>
              in Option.bind (calculate_next_leaf_shift lib pl pos0) (\<lambda>leaf_shift.
                 Some (pl \<lparr> leaf_shift_cache := leaf_shift_cache pl @ [leaf_shift] \<rparr>))))"

partial_function (option) append :: "'m croaring \<Rightarrow> 'm prune_list \<Rightarrow> nat \<Rightarrow> 'm prune_list option" where
  "append lib pl pos0 =
     (let mx = (case rb_maximum lib (pl_bitmap pl) of None \<Rightarrow> 0 | Some m \<Rightarrow> m)
      in if pos0 < mx then None
         else let (parent0, sibling0) = family pos0
              in if is_pruned lib pl sibling0 then append lib pl parent0
                 else append_single lib (cleanup_subtree lib pl pos0) pos0)"

fun append_all :: "'m croaring \<Rightarrow> 'm prune_list \<Rightarrow> nat list \<Rightarrow> 'm prune_list option" where
  "append_all lib pl [] = Some pl"
| "append_all lib pl (pos1 # rest) = Option.bind (append lib pl (pos1 - 1)) (\<lambda>pl. append_all lib pl rest)"

definition prune_list_new :: "'m croaring \<Rightarrow> string option \<Rightarrow> 'm \<Rightarrow> 'm prune_list option" where
  "prune_list_new lib file_path bitmap =
     (if rb_contains lib bitmap 0 then None
      else Option.bind
             (append_all lib \<lparr> pl_path = file_path, pl_bitmap = rb_new lib, shift_cache = [], leaf_shift_cache = [] \<rparr>
               (rb_iter lib bitmap))
             (\<lambda>pl. Some (pl \<lparr> pl_bitmap := rb_run_optimize lib (pl_bitmap pl) \<rparr>)))"

definition prune_list_empty :: "'m croaring \<Rightarrow> 'm prune_list option" where
  "prune_list_empty lib = prune_list_new lib None (rb_new lib)"

text \<open>A result inside the option: the option is the panic, the sum the \<open>io::Result\<close>.\<close>

definition read_or_new :: "'m croaring \<Rightarrow> fs \<Rightarrow> string \<Rightarrow> io_error + 'm" where
  "read_or_new lib f file_path = (if fs_exists f file_path then read_bitmap lib f file_path else Inr (rb_new lib))"

definition prune_list_open :: "'m croaring \<Rightarrow> fs \<Rightarrow> string \<Rightarrow> (io_error + 'm prune_list) option" where
  "prune_list_open lib f file_path =
     (case read_or_new lib f file_path of
        Inl e \<Rightarrow> Some (Inl e)
      | Inr bitmap \<Rightarrow>
          if rb_contains lib bitmap 0 then None
          else Option.bind (prune_list_new lib (Some file_path) bitmap) (\<lambda>pl.
               Option.bind (init_caches lib pl) (\<lambda>pl. Some (Inr pl))))"

definition prune_list_flush :: "'m croaring \<Rightarrow> fs \<Rightarrow> 'm prune_list \<Rightarrow> io_error + 'm prune_list \<times> fs" where
  "prune_list_flush lib f pl =
     (let pl = pl \<lparr> pl_bitmap := rb_run_optimize lib (pl_bitmap pl) \<rparr>
      in case pl_path pl of
           Some file_path \<Rightarrow>
             rbind (save_via_temp_file f file_path tmp_suffix (\<lambda>bs. Inr (bs @ rb_serialize lib (pl_bitmap pl))))
               (\<lambda>f. Inr (pl, f))
         | None \<Rightarrow> Inr (pl, f))"

definition prune_list_discard :: "'m croaring \<Rightarrow> fs \<Rightarrow> 'm prune_list \<Rightarrow> (io_error + 'm prune_list) option" where
  "prune_list_discard lib f pl =
     (case pl_path pl of
        None \<Rightarrow> map_option Inr (prune_list_empty lib)
      | Some file_path \<Rightarrow>
          (case read_or_new lib f file_path of
             Inl e \<Rightarrow> Some (Inl e)
           | Inr bitmap \<Rightarrow> map_option Inr (prune_list_new lib (Some file_path) bitmap)))"

definition prune_list_len :: "'m croaring \<Rightarrow> 'm prune_list \<Rightarrow> nat" where
  "prune_list_len lib pl = rb_cardinality lib (pl_bitmap pl)"

definition prune_list_iter :: "'m croaring \<Rightarrow> 'm prune_list \<Rightarrow> nat list" where
  "prune_list_iter lib pl = rb_iter lib (pl_bitmap pl)"

definition pruned_bintree_range_iter :: "'m croaring \<Rightarrow> 'm prune_list \<Rightarrow> (nat \<times> nat) list" where
  "pruned_bintree_range_iter lib pl =
     map (\<lambda>x. let (start, stop) = bintree_range (x - 1) in (1 + start, 1 + stop)) (prune_list_iter lib pl)"

text \<open>\<open>UnprunedIterator\<close>: the current excluded range, the ranges after it and the current position.\<close>

record unpruned_iterator =
  current_excl_range :: "(nat \<times> nat) option"
  inner_ranges :: "(nat \<times> nat) list"
  current_pos :: nat

definition pop_range :: "(nat \<times> nat) list \<Rightarrow> (nat \<times> nat) option \<times> (nat \<times> nat) list" where
  "pop_range rs = (case rs of [] \<Rightarrow> (None, []) | r # rest \<Rightarrow> (Some r, rest))"

definition unpruned_iterator_new :: "(nat \<times> nat) list \<Rightarrow> unpruned_iterator" where
  "unpruned_iterator_new rs =
     (let (r, rest) = pop_range rs
      in \<lparr> current_excl_range = r, inner_ranges = rest, current_pos = 1 \<rparr>)"

function unpruned_next :: "unpruned_iterator \<Rightarrow> nat \<times> unpruned_iterator" where
  "unpruned_next it =
     (case current_excl_range it of
        Some (start, stop) \<Rightarrow>
          if current_pos it < start then (current_pos it, it \<lparr> current_pos := current_pos it + 1 \<rparr>)
          else let (r, rest) = pop_range (inner_ranges it)
               in unpruned_next (it \<lparr> current_pos := stop, current_excl_range := r, inner_ranges := rest \<rparr>)
      | None \<Rightarrow> (current_pos it, it \<lparr> current_pos := current_pos it + 1 \<rparr>))"
  by pat_completeness auto
termination
  by (relation "measure (\<lambda>it. length (inner_ranges it) + (if current_excl_range it = None then 0 else 1))")
    (auto simp: pop_range_def split: list.splits)

partial_function (option) unpruned_take :: "nat \<Rightarrow> unpruned_iterator \<Rightarrow> nat list option" where
  "unpruned_take cutoff_pos it =
     (let (x, it) = unpruned_next it
      in if x \<le> cutoff_pos then Option.bind (unpruned_take cutoff_pos it) (\<lambda>xs. Some (x # xs)) else Some [])"

definition unpruned_iter :: "'m croaring \<Rightarrow> 'm prune_list \<Rightarrow> nat \<Rightarrow> nat list option" where
  "unpruned_iter lib pl cutoff_pos = unpruned_take cutoff_pos (unpruned_iterator_new (pruned_bintree_range_iter lib pl))"

definition unpruned_leaf_iter :: "'m croaring \<Rightarrow> 'm prune_list \<Rightarrow> nat \<Rightarrow> nat list option" where
  "unpruned_leaf_iter lib pl cutoff_pos =
     map_option (filter (\<lambda>x. is_leaf (x - 1))) (unpruned_iter lib pl cutoff_pos)"

declare unpruned_next.simps [simp del]

section \<open>Subtrees of a range\<close>

lemma family_sibling: "family (snd (family p)) = (fst (family p), p)"
proof -
  obtain n h where n: "node_ok n h" "p = node_pos n h" by (rule peak_map_heightE [of p])
  define m where "m = (if bit n h then n else n + 2 ^ h)"
  have m: "node_ok m (Suc h)" using n(1) not_bit_sibling(1) node_ok_Suc_iff by (auto simp: m_def)
  show ?thesis using family_pair(1,2) [OF m] n(2) by (auto simp: m_def split: if_splits)
qed

lemma sibling_neq: "snd (family p) \<noteq> p"
proof -
  obtain n h where n: "node_ok n h" "p = node_pos n h" by (rule peak_map_heightE [of p])
  show ?thesis
  proof (cases "bit n h")
    case True
    then have "2 ^ h \<le> n" using count_ones_clear_bit by blast
    moreover have "n - 2 ^ h \<noteq> n" using \<open>2 ^ h \<le> n\<close> zero_less_power [of "2 :: nat" h] by linarith
    ultimately show ?thesis using True n by (auto simp: family_right)
  next
    case False
    then show ?thesis using n insertion_less_iff [of n "n + 2 ^ h"] by (auto simp: family_left)
  qed
qed

lemma in_subtree_parent_iff:
  "in_subtree q (fst (family p)) \<longleftrightarrow> q = fst (family p) \<or> in_subtree q p \<or> in_subtree q (snd (family p))"
proof -
  obtain n h where n: "node_ok n h" "p = node_pos n h" by (rule peak_map_heightE [of p])
  define m where "m = (if bit n h then n else n + 2 ^ h)"
  have m: "node_ok m (Suc h)" using n(1) not_bit_sibling(1) node_ok_Suc_iff by (auto simp: m_def)
  have *: "in_subtree q r \<longleftrightarrow> q \<in> set (bintree_pos_iter r)" for q r
    by (auto simp: in_subtree_def bintree_pos_iter_def)
  show ?thesis using family_pair(1,2,8) [OF m] n(2) unfolding * by (auto simp: m_def split: if_splits)
qed

lemma in_subtree_antisym: "in_subtree p q \<Longrightarrow> in_subtree q p \<Longrightarrow> p = q"
  by (simp add: in_subtree_def)

lemma sibling_not_in_subtree: "\<not> in_subtree p (snd (family p))"
proof
  assume a: "in_subtree p (snd (family p))"
  obtain n h where n: "node_ok n h" "p = node_pos n h" by (rule peak_map_heightE [of p])
  define m where "m = (if bit n h then n else n + 2 ^ h)"
  have m: "node_ok m (Suc h)" using n(1) not_bit_sibling(1) node_ok_Suc_iff by (auto simp: m_def)
  have le: "2 ^ h \<le> m" using count_ones_clear_bit [of n h] by (auto simp: m_def)
  have ok: "node_ok m h" "node_ok (m - 2 ^ h) h"
    using m node_ok_mono [of m "Suc h" h] node_ok_left_child [OF m] by auto
  have nh: "2 ^ h \<le> Suc m - 2 ^ h" using leftmost_leaf_le [OF m] by simp
  have eq: "node_pos m h = node_pos n h \<and> snd (family p) = node_pos (m - 2 ^ h) h \<or>
      node_pos (m - 2 ^ h) h = node_pos n h \<and> snd (family p) = node_pos m h"
    using family_pair(1,2) [OF m] n(2) by (auto simp: m_def split: if_splits)
  from a eq n(2) have "in_subtree (node_pos m h) (node_pos (m - 2 ^ h) h) \<or>
      in_subtree (node_pos (m - 2 ^ h) h) (node_pos m h)" by metis
  then have "m \<le> m - 2 ^ h \<or> Suc m - 2 ^ h \<le> Suc (m - 2 ^ h) - 2 ^ h"
    unfolding in_subtree_node [OF ok(1) ok(2)] in_subtree_node [OF ok(2) ok(1)] by blast
  then show False using le nh zero_less_power [of "2 :: nat" h] by linarith
qed

text \<open>A proper member of a subtree has its parent in the subtree.\<close>

lemma parent_in_subtree:
  assumes "in_subtree p r" and "p \<noteq> r"
  shows "in_subtree (fst (family p)) r"
proof -
  have "in_subtree p (fst (family p))" by (rule in_subtree_parent)
  then consider "in_subtree (fst (family p)) r" | "in_subtree r (fst (family p))"
    using in_subtree_laminar assms(1) by blast
  then show ?thesis
  proof cases
    case 2
    then consider "r = fst (family p)" | "in_subtree r p" | "in_subtree r (snd (family p))"
      using in_subtree_parent_iff by blast
    then show ?thesis
    proof cases
      case 3
      with assms(1) have "in_subtree p (snd (family p))" using in_subtree_trans by blast
      then show ?thesis using sibling_not_in_subtree by blast
    qed (use assms in_subtree_antisym in auto)
  qed simp
qed

lemma sibling_in_subtree:
  assumes "in_subtree p r" and "p \<noteq> r"
  shows "in_subtree (snd (family p)) r"
proof -
  have "in_subtree (snd (family p)) (fst (family p))"
    using in_subtree_parent [of "snd (family p)"] family_sibling [of p] by simp
  then show ?thesis using parent_in_subtree [OF assms] in_subtree_trans by blast
qed

text \<open>How many positions and leaves a subtree has beneath its root.\<close>

lemma finite_subtree [simp]: "finite {p. in_subtree p r}"
  by (rule finite_subset [of _ "{..r}"]) (auto simp: in_subtree_def)

lemma card_subtree: "card {p. in_subtree p r \<and> p \<noteq> r} = 2 * (2 ^ bintree_postorder_height r - 1)"
proof -
  obtain n h where n: "node_ok n h" "r = node_pos n h" by (rule peak_map_heightE [of r])
  have "{p. in_subtree p r \<and> p \<noteq> r} = {bintree_leftmost r..<r}"
    by (auto simp: in_subtree_def)
  then show ?thesis using n bintree_leftmost_node(2) [OF n(1)] by (simp add: bintree_leftmost_def)
qed

lemma card_leaves_subtree: "card {p. in_subtree p r \<and> p \<noteq> r \<and> is_leaf p} =
  (if bintree_postorder_height r = 0 then 0 else 2 ^ bintree_postorder_height r)"
proof -
  obtain n h where n: "node_ok n h" "r = node_pos n h" by (rule peak_map_heightE [of r])
  have ht: "bintree_postorder_height r = h" using n by simp
  have sub: "in_subtree (insertion_to_pmmr_index m) r \<longleftrightarrow> Suc n - 2 ^ h \<le> m \<and> m \<le> n" for m
    using in_subtree_node [OF n(1), of m 0] n(2) by simp
  show ?thesis
  proof (cases "h = 0")
    case True
    with n have "{p. in_subtree p r \<and> p \<noteq> r \<and> is_leaf p} = {}"
      using bintree_leftmost_node(1) [OF n(1)] by (auto simp: in_subtree_def)
    with True ht show ?thesis by simp
  next
    case False
    have nl: "\<not> is_leaf r" using False n by simp
    have "{p. in_subtree p r \<and> p \<noteq> r \<and> is_leaf p} = insertion_to_pmmr_index ` {Suc n - 2 ^ h..n}"
    proof (rule set_eqI)
      fix p
      show "p \<in> {p. in_subtree p r \<and> p \<noteq> r \<and> is_leaf p} \<longleftrightarrow> p \<in> insertion_to_pmmr_index ` {Suc n - 2 ^ h..n}"
      proof (cases "is_leaf p")
        case True
        then obtain m where m: "p = insertion_to_pmmr_index m" by (rule is_leafE)
        have "p \<noteq> r" using nl True by blast
        then show ?thesis using True sub [of m] unfolding m by (simp add: image_iff)
      next
        case False
        then have "p \<notin> range insertion_to_pmmr_index" by (metis imageE is_leaf_insertion)
        then show ?thesis using False by blast
      qed
    qed
    moreover have "card (insertion_to_pmmr_index ` {Suc n - 2 ^ h..n}) = card {Suc n - 2 ^ h..n}"
      by (rule card_image) (simp add: inj_on_def)
    moreover have "card {Suc n - 2 ^ h..n} = 2 ^ h" using leftmost_leaf_le [OF n(1)] by (simp only: card_atLeastAtMost)
    ultimately show ?thesis using False ht by (simp only: if_False)
  qed
qed

section \<open>Ranks and caches\<close>

lemma pos1_u32_small [simp]: "Suc pos0 < 2 ^ 32 \<Longrightarrow> pos1_u32 pos0 = Suc pos0"
  by (simp add: pos1_u32_def as_u32_def)

lemma as_u32_small [simp]: "x < 2 ^ 32 \<Longrightarrow> as_u32 x = x"
  by (simp add: as_u32_def)

lemma sorted_filter_le:
  "sorted (xs :: nat list) \<Longrightarrow> filter (\<lambda>y. y \<le> p) xs = take (length (filter (\<lambda>y. y \<le> p) xs)) xs"
proof (induction xs)
  case (Cons x xs)
  show ?case
  proof (cases "x \<le> p")
    case False
    with Cons.prems have "filter (\<lambda>y. y \<le> p) xs = []" by (auto simp: filter_empty_conv)
    with False show ?thesis by simp
  qed (use Cons in auto)
qed simp

lemma filter_sorted_list_of_set:
  assumes "finite (S :: nat set)"
  shows "filter P (sorted_list_of_set S) = sorted_list_of_set {y \<in> S. P y}"
  using assms by (intro sorted_distinct_set_unique) (auto intro: sorted_wrt_filter)

text \<open>The members up to \<open>p\<close> come first in the increasing order, and \<open>rank\<close> counts them.\<close>

lemma take_rank:
  assumes "finite (S :: nat set)"
  shows "take (card {y \<in> S. y \<le> p}) (sorted_list_of_set S) = sorted_list_of_set {y \<in> S. y \<le> p}"
proof -
  have "length (filter (\<lambda>y. y \<le> p) (sorted_list_of_set S)) = card {y \<in> S. y \<le> p}"
    unfolding filter_sorted_list_of_set [OF assms] using assms by simp
  then show ?thesis
    using sorted_filter_le [of "sorted_list_of_set S" p] assms by (simp add: filter_sorted_list_of_set)
qed

lemma nth_rank:
  assumes "finite (S :: nat set)" and "card {y \<in> S. y \<le> p} < card S"
  defines "x \<equiv> sorted_list_of_set S ! card {y \<in> S. y \<le> p}"
  shows "x \<in> S" and "p < x" and "\<forall>y\<in>S. p < y \<longrightarrow> x \<le> y"
proof -
  define xs where "xs = sorted_list_of_set S"
  define k where "k = card {y \<in> S. y \<le> p}"
  have xs: "sorted xs" "distinct xs" "set xs = S" "length xs = card S" using assms by (auto simp: xs_def)
  have k: "k < length xs" using assms(2) by (simp add: k_def xs(4))
  have t: "set (take k xs) = {y \<in> S. y \<le> p}"
    using take_rank [OF assms(1), of p] assms(1) by (simp add: k_def xs_def)
  show "x \<in> S" using nth_mem [OF k] xs(3) by (simp add: x_def k_def xs_def)
  have "xs ! k \<notin> set (take k xs)"
    using xs(2) k by (auto simp: in_set_conv_nth nth_eq_iff_index_eq)
  with t \<open>x \<in> S\<close> show "p < x" by (auto simp: x_def k_def xs_def)
  show "\<forall>y\<in>S. p < y \<longrightarrow> x \<le> y"
  proof (intro ballI impI)
    fix y assume "y \<in> S" "p < y"
    then obtain j where j: "j < length xs" "xs ! j = y" using xs(3) by (auto simp: in_set_conv_nth)
    have "k \<le> j"
    proof (rule ccontr)
      assume "\<not> k \<le> j"
      then have "y \<in> set (take k xs)" using j by (auto simp: in_set_conv_nth)
      with t \<open>p < y\<close> show False by auto
    qed
    then show "x \<le> y" using sorted_nth_mono [OF xs(1)] j by (auto simp: x_def k_def xs_def)
  qed
qed

text \<open>
  The shift at a position is the sum of the weights of the roots up to it. A cache holds it for the roots up
  to a limit.
\<close>

definition shift_sum :: "(nat \<Rightarrow> nat) \<Rightarrow> nat set \<Rightarrow> nat \<Rightarrow> nat" where
  "shift_sum w S p = (\<Sum>y | y \<in> S \<and> y \<le> p. w y)"

definition caches :: "(nat \<Rightarrow> nat) \<Rightarrow> nat set \<Rightarrow> nat \<Rightarrow> nat list \<Rightarrow> bool" where
  "caches w S q c \<longleftrightarrow> c = map (shift_sum w S) (sorted_list_of_set {y \<in> S. y \<le> q})"

lemma cached_lookup:
  assumes "finite S" and "caches w S q c" and "p \<le> q"
  shows "(let idx = card {y \<in> S. y \<le> p} in if idx = 0 then Some 0 else nth_opt c (min idx (length c) - 1)) =
    Some (shift_sum w S p)"
proof (cases "card {y \<in> S. y \<le> p} = 0")
  case True
  with assms(1) have "{y \<in> S. y \<le> p} = {}" by simp
  then have "shift_sum w S p = 0" unfolding shift_sum_def by (simp only: sum.empty)
  with True show ?thesis by simp
next
  case False
  define Q where "Q = {y \<in> S. y \<le> q}"
  have fin: "finite Q" using assms(1) by (simp add: Q_def)
  have P: "{y \<in> S. y \<le> p} = {y \<in> Q. y \<le> p}" using assms(3) by (auto simp: Q_def)
  define k where "k = card {y \<in> Q. y \<le> p}"
  have k0: "0 < k" using False by (simp only: P k_def)
  have kc: "k \<le> card Q" unfolding k_def by (rule card_mono [OF fin]) blast
  define xs where "xs = sorted_list_of_set Q"
  have xs: "sorted xs" "length xs = card Q" using fin by (auto simp: xs_def)
  have t: "set (take k xs) = {y \<in> Q. y \<le> p}" using take_rank [OF fin, of p] fin by (simp add: k_def xs_def)
  have c: "c = map (shift_sum w S) xs" using assms(2) by (simp add: caches_def xs_def Q_def)
  have mem: "xs ! (k - 1) \<in> set (take k xs)"
    using k0 kc xs(2) nth_mem [of "k - 1" "take k xs"] by simp
  have "{y \<in> S. y \<le> xs ! (k - 1)} = {y \<in> S. y \<le> p}"
  proof -
    have "y \<le> xs ! (k - 1)" if y: "y \<in> set (take k xs)" for y
    proof -
      obtain j where "j < length (take k xs)" "take k xs ! j = y" using y by (meson in_set_conv_nth)
      then show ?thesis using sorted_nth_mono [OF xs(1), of j "k - 1"] kc xs(2) k0 by simp
    qed
    then show ?thesis using mem t P by auto
  qed
  then have "shift_sum w S (xs ! (k - 1)) = shift_sum w S p" by (simp add: shift_sum_def)
  then show ?thesis
    using k0 kc xs(2) by (simp add: P k_def [symmetric] nth_opt_def Let_def min_def c del: card_eq_0_iff)
qed

definition cache_full :: "(nat \<Rightarrow> nat) \<Rightarrow> nat set \<Rightarrow> nat list \<Rightarrow> bool" where
  "cache_full w S c \<longleftrightarrow> c = map (shift_sum w S) (sorted_list_of_set S)"

lemma caches_full: "\<forall>x\<in>S. x \<le> q \<Longrightarrow> cache_full w S c \<Longrightarrow> caches w S q c"
  by (simp add: cache_full_def caches_def Collect_conj_eq Int_absorb2 subset_iff)

lemma shift_sum_restrict: "y \<le> l \<Longrightarrow> shift_sum w {x \<in> S. x \<le> l} y = shift_sum w S y"
  unfolding shift_sum_def by (rule sum.cong) auto

lemma shift_sum_insert: "y < x \<Longrightarrow> shift_sum w (insert x S) y = shift_sum w S y"
  unfolding shift_sum_def by (rule sum.cong) auto

lemma cache_full_take:
  assumes "finite S" and "cache_full w S c"
  shows "cache_full w {x \<in> S. x \<le> l} (take (card {y \<in> S. y \<le> l}) c)"
  using assms take_rank [OF assms(1), of l]
  by (auto simp: cache_full_def take_map shift_sum_restrict intro!: map_cong)

lemma caches_insert:
  assumes "finite S" and "\<forall>y\<in>S. y \<le> x" and "cache_full w S c"
  shows "caches w (insert (Suc x) S) x c"
proof -
  have "{y \<in> insert (Suc x) S. y \<le> x} = S" using assms(2) by auto
  with assms show ?thesis by (auto simp: cache_full_def caches_def shift_sum_insert intro!: map_cong)
qed

lemma cache_full_snoc:
  assumes "finite S" and "\<forall>y\<in>S. y \<le> x" and "cache_full w S c"
  shows "cache_full w (insert (Suc x) S) (c @ [shift_sum w (insert (Suc x) S) (Suc x)])"
proof -
  define T where "T = insert (Suc x) S"
  have "finite T" using assms(1) by (simp add: T_def)
  then have "sorted_list_of_set T = sorted_list_of_set S @ [Suc x]"
    using assms(1,2) by (intro sorted_distinct_set_unique) (auto simp: sorted_append le_SucI, auto simp: T_def)
  then have "sorted_list_of_set (insert (Suc x) S) = sorted_list_of_set S @ [Suc x]" by (simp only: T_def)
  with assms show ?thesis by (auto simp: cache_full_def shift_sum_insert intro!: map_cong)
qed

text \<open>Both caches are read and extended in the same way; they differ in the weight of a root.\<close>

locale shift_ops =
  fixes get next_shift :: "'m croaring \<Rightarrow> 'm prune_list \<Rightarrow> nat \<Rightarrow> nat option"
    and cache :: "'m prune_list \<Rightarrow> nat list"
    and w :: "nat \<Rightarrow> nat"
  assumes get: "get lib pl pos0 =
      (let idx = rb_rank lib (pl_bitmap pl) (pos1_u32 pos0)
       in if idx = 0 then Some 0 else nth_opt (cache pl) (min idx (length (cache pl)) - 1))"
    and next_shift: "next_shift lib pl pos0 =
      Option.bind (if pos0 = 0 then Some 0 else get lib pl (pos0 - 1)) (\<lambda>s.
        Some (s + (if is_pruned_root lib pl pos0 then w (Suc pos0) else 0)))"
begin

lemma get_sum:
  assumes "croaring_ok lib els" and "caches w (els (pl_bitmap pl)) q (cache pl)" and "Suc pos0 \<le> q" "Suc pos0 < 2 ^ 32"
  shows "get lib pl pos0 = Some (shift_sum w (els (pl_bitmap pl)) (Suc pos0))"
  using cached_lookup [OF croaring_okD(11) [OF assms(1)] assms(2,3)] assms(4)
  by (simp add: get croaring_okD [OF assms(1)] del: card_eq_0_iff)

lemma get_full:
  assumes "croaring_ok lib els" and "cache_full w (els (pl_bitmap pl)) (cache pl)" and "Suc pos0 < 2 ^ 32"
  shows "get lib pl pos0 = Some (shift_sum w (els (pl_bitmap pl)) (Suc pos0))"
proof -
  have fin: "finite (els (pl_bitmap pl))" by (rule croaring_okD(11) [OF assms(1)])
  define q where "q = max (Suc pos0) (Max (insert 0 (els (pl_bitmap pl))))"
  have "\<forall>x\<in>els (pl_bitmap pl). x \<le> q" using fin Max_ge [of "insert 0 (els (pl_bitmap pl))"] by (auto simp: q_def le_max_iff_disj)
  from get_sum [OF assms(1) caches_full [OF this assms(2)] _ assms(3)] show ?thesis by (simp add: q_def)
qed

lemma next_sum:
  assumes "croaring_ok lib els" and "caches w (els (pl_bitmap pl)) q (cache pl)" and "pos0 \<le> q" "Suc pos0 < 2 ^ 32"
    and "0 \<notin> els (pl_bitmap pl)" "Suc pos0 \<in> els (pl_bitmap pl)"
  shows "next_shift lib pl pos0 = Some (shift_sum w (els (pl_bitmap pl)) (Suc pos0))"
proof -
  let ?S = "els (pl_bitmap pl)"
  have "(if pos0 = 0 then Some 0 else get lib pl (pos0 - 1)) = Some (shift_sum w ?S pos0)"
  proof (cases "pos0 = 0")
    case True
    have "{y. y \<in> ?S \<and> y \<le> 0} = {}" using assms(5) by auto
    then have "shift_sum w ?S 0 = 0" unfolding shift_sum_def by (simp only: sum.empty)
    with True show ?thesis by simp
  next
    case False
    then show ?thesis using get_sum [OF assms(1,2), of "pos0 - 1"] assms(3,4) by simp
  qed
  moreover have "shift_sum w ?S (Suc pos0) = shift_sum w ?S pos0 + w (Suc pos0)"
  proof -
    have "{y. y \<in> ?S \<and> y \<le> Suc pos0} = insert (Suc pos0) {y. y \<in> ?S \<and> y \<le> pos0}" using assms(6) by auto
    then show ?thesis using croaring_okD(11) [OF assms(1)] by (simp add: shift_sum_def)
  qed
  ultimately show ?thesis using assms(4,6) by (simp add: next_shift is_pruned_root_def croaring_okD [OF assms(1)])
qed

end

definition shift_weight :: "nat \<Rightarrow> nat" where
  "shift_weight pos1 = 2 * (2 ^ bintree_postorder_height (pos1 - 1) - 1)"

definition leaf_shift_weight :: "nat \<Rightarrow> nat" where
  "leaf_shift_weight pos1 =
     (if bintree_postorder_height (pos1 - 1) = 0 then 0 else 2 ^ bintree_postorder_height (pos1 - 1))"

interpretation sh: shift_ops get_shift calculate_next_shift shift_cache shift_weight
  by unfold_locales
    (simp_all add: get_shift_def calculate_next_shift_def shift_weight_def Let_def)

interpretation lsh: shift_ops get_leaf_shift calculate_next_leaf_shift leaf_shift_cache leaf_shift_weight
  by unfold_locales
    (auto simp: get_leaf_shift_def calculate_next_leaf_shift_def leaf_shift_weight_def Let_def intro!: arg_cong [of _ _ "Option.bind _"])

section \<open>The invariant\<close>

text \<open>
  The pruned positions of a bitmap, and what a prune list keeps: no root lies beneath another, no two roots
  are siblings, and both caches are up to date.
\<close>

definition pruned :: "nat set \<Rightarrow> nat set" where
  "pruned S = {p. \<exists>x\<in>S. in_subtree p (x - 1)}"

definition no_nesting :: "nat set \<Rightarrow> bool" where
  "no_nesting S \<longleftrightarrow> 0 \<notin> S \<and> (\<forall>x\<in>S. \<forall>y\<in>S. in_subtree (x - 1) (y - 1) \<longrightarrow> x = y)"

definition rolled_up :: "nat set \<Rightarrow> bool" where
  "rolled_up S \<longleftrightarrow> no_nesting S \<and> (\<forall>x\<in>S. Suc (snd (family (x - 1))) \<notin> S)"

definition prune_list_ok :: "('m \<Rightarrow> nat set) \<Rightarrow> 'm prune_list \<Rightarrow> bool" where
  "prune_list_ok els pl \<longleftrightarrow>
     rolled_up (els (pl_bitmap pl)) \<and> (\<forall>x\<in>els (pl_bitmap pl). x < 2 ^ 31) \<and>
     cache_full shift_weight (els (pl_bitmap pl)) (shift_cache pl) \<and>
     cache_full leaf_shift_weight (els (pl_bitmap pl)) (leaf_shift_cache pl)"

lemma no_nestingD: "no_nesting S \<Longrightarrow> x \<in> S \<Longrightarrow> y \<in> S \<Longrightarrow> in_subtree (x - 1) (y - 1) \<Longrightarrow> x = y"
  by (auto simp: no_nesting_def)

lemma no_nesting_pos: "no_nesting S \<Longrightarrow> x \<in> S \<Longrightarrow> 0 < x"
  by (metis gr0I no_nesting_def)

lemma pruned_down: "p \<in> pruned S \<Longrightarrow> in_subtree q p \<Longrightarrow> q \<in> pruned S"
  using in_subtree_trans by (auto simp: pruned_def)

lemma is_pruned_iff:
  assumes "croaring_ok lib els" and "no_nesting (els (pl_bitmap pl))" and "Suc pos0 < 2 ^ 32"
  shows "is_pruned lib pl pos0 \<longleftrightarrow> pos0 \<in> pruned (els (pl_bitmap pl))"
proof -
  note ok = croaring_okD [OF assms(1)]
  define S where "S = els (pl_bitmap pl)"
  define k where "k = card {y \<in> S. y \<le> Suc pos0}"
  have fin: "finite S" by (simp add: S_def ok)
  have p1: "pos1_u32 pos0 = Suc pos0" using assms(3) by (rule pos1_u32_small)
  have sel: "rb_select lib (pl_bitmap pl) (rb_rank lib (pl_bitmap pl) (pos1_u32 pos0)) =
      (if k < card S then Some (sorted_list_of_set S ! k) else None)"
    by (simp add: ok k_def S_def p1)
  have root: "is_pruned_root lib pl pos0 \<longleftrightarrow> Suc pos0 \<in> S" by (simp add: is_pruned_root_def p1 ok S_def)
  show ?thesis
  proof (cases "Suc pos0 \<in> S")
    case True
    then have "pos0 \<in> pruned S" unfolding pruned_def by (auto intro!: bexI [of _ "Suc pos0"])
    with True show ?thesis by (simp add: is_pruned_def root S_def [symmetric])
  next
    case nroot: False
    show ?thesis
    proof (cases "k < card S")
      case False
      then have "\<forall>y\<in>S. y \<le> Suc pos0"
        using card_subset_eq [OF fin, of "{y \<in> S. y \<le> Suc pos0}"] card_mono [OF fin, of "{y \<in> S. y \<le> Suc pos0}"]
        by (auto simp: k_def)
      then have "y - 1 < pos0" if "y \<in> S" for y
        using nroot that no_nesting_pos [OF assms(2), of y] by (cases "y = Suc pos0") (auto simp: S_def)
      then have "pos0 \<notin> pruned S" by (auto simp: pruned_def in_subtree_def not_le)
      with nroot False show ?thesis by (simp add: is_pruned_def root sel S_def [symmetric] Let_def)
    next
      case True
      define x where "x = sorted_list_of_set S ! k"
      have x: "x \<in> S" "Suc pos0 < x" "\<forall>y\<in>S. Suc pos0 < y \<longrightarrow> x \<le> y"
        using nth_rank [OF fin, of "Suc pos0"] True by (auto simp: x_def k_def)
      have "pos0 \<in> pruned S \<longleftrightarrow> in_subtree pos0 (x - 1)"
      proof
        assume "pos0 \<in> pruned S"
        then obtain y where y: "y \<in> S" "in_subtree pos0 (y - 1)" by (auto simp: pruned_def)
        have "y \<noteq> Suc pos0" using y(1) nroot by blast
        moreover have "pos0 \<le> y - 1" using y(2) by (simp add: in_subtree_def)
        ultimately have "Suc pos0 < y" using no_nesting_pos [OF assms(2), of y] y(1) by (auto simp: S_def)
        then have "x \<le> y" using x(3) y(1) by blast
        then have "in_subtree (x - 1) (y - 1)" using y(2) x(2) by (auto simp: in_subtree_def)
        then show "in_subtree pos0 (x - 1)" using no_nestingD [OF assms(2), of x y] x(1) y by (auto simp: S_def)
      qed (use x(1) in \<open>auto simp: pruned_def\<close>)
      moreover have "is_pruned lib pl pos0 \<longleftrightarrow> in_subtree pos0 (x - 1)"
        using nroot True
        by (simp add: is_pruned_def root sel x_def bintree_range_eq in_subtree_def less_Suc_eq_le Let_def)
      ultimately show ?thesis by (simp add: S_def)
    qed
  qed
qed

section \<open>Appending\<close>

text \<open>The closure of a set of positions: a parent whose two children are in it is in it.\<close>

inductive_set prune_closure :: "nat set \<Rightarrow> nat set" for A where
  base: "p \<in> A \<Longrightarrow> p \<in> prune_closure A"
| parent: "p \<in> prune_closure A \<Longrightarrow> snd (family p) \<in> prune_closure A \<Longrightarrow> fst (family p) \<in> prune_closure A"

lemma prune_closure_mono:
  assumes "A \<subseteq> B" and "p \<in> prune_closure A"
  shows "p \<in> prune_closure B"
  using assms(2) by induction (use assms(1) in \<open>auto intro: prune_closure.intros\<close>)

lemma prune_closure_idem: "prune_closure (prune_closure A \<union> B) = prune_closure (A \<union> B)"
proof (intro equalityI subsetI)
  fix p assume "p \<in> prune_closure (prune_closure A \<union> B)"
  then show "p \<in> prune_closure (A \<union> B)"
    by induction (auto intro: prune_closure.intros prune_closure_mono [of A "A \<union> B"])
next
  fix p assume "p \<in> prune_closure (A \<union> B)"
  then show "p \<in> prune_closure (prune_closure A \<union> B)"
    by (rule prune_closure_mono [rotated]) (auto intro: prune_closure.base)
qed

lemma pruned_closed:
  assumes "rolled_up S" and "p \<in> prune_closure (pruned S)"
  shows "p \<in> pruned S"
  using assms(2)
proof induction
  case (parent p)
  obtain x where x: "x \<in> S" "in_subtree p (x - 1)" using parent(3) by (auto simp: pruned_def)
  obtain y where y: "y \<in> S" "in_subtree (snd (family p)) (y - 1)" using parent(4) by (auto simp: pruned_def)
  have "\<not> (p = x - 1 \<and> snd (family p) = y - 1)"
  proof
    assume "p = x - 1 \<and> snd (family p) = y - 1"
    then have "Suc (snd (family (x - 1))) = y"
      using no_nesting_pos [of S y] assms(1) y(1) by (auto simp: rolled_up_def)
    then show False using assms(1) x(1) y(1) by (auto simp: rolled_up_def)
  qed
  then have "in_subtree (fst (family p)) (x - 1) \<or> in_subtree (fst (family p)) (y - 1)"
    using parent_in_subtree [OF x(2)] parent_in_subtree [OF y(2)] family_sibling [of p] by auto
  then show ?case using x(1) y(1) by (auto simp: pruned_def)
qed

lemma max_or_zero:
  assumes "croaring_ok lib els"
  shows "(case rb_maximum lib b of None \<Rightarrow> 0 | Some m \<Rightarrow> m) \<le> p \<longleftrightarrow> (\<forall>x\<in>els b. x \<le> p)"
  using croaring_okD(11,15) [OF assms, of b] by auto

lemma cleanup_subtree_ok:
  assumes "croaring_ok lib els" and "prune_list_ok els pl" and "pos0 < 2 ^ 31"
  defines "pl' \<equiv> cleanup_subtree lib pl pos0" and "S \<equiv> {x \<in> els (pl_bitmap pl). x \<le> bintree_leftmost pos0}"
  shows "els (pl_bitmap pl') = S" "pl_path pl' = pl_path pl"
    "cache_full shift_weight S (shift_cache pl')" "cache_full leaf_shift_weight S (leaf_shift_cache pl')"
proof -
  note ok = croaring_okD [OF assms(1)]
  define mx where "mx = (case rb_maximum lib (pl_bitmap pl) of None \<Rightarrow> 0 | Some m \<Rightarrow> m)"
  have lc: "as_u32 (bintree_leftmost pos0) = bintree_leftmost pos0"
    using bintree_leftmost_le [of pos0] assms(3) by (simp add: as_u32_def)
  have mx: "\<forall>x\<in>els (pl_bitmap pl). x \<le> mx" using max_or_zero [OF assms(1), of "pl_bitmap pl" mx] by (simp add: mx_def)
  have c: "cache_full shift_weight (els (pl_bitmap pl)) (shift_cache pl)"
    "cache_full leaf_shift_weight (els (pl_bitmap pl)) (leaf_shift_cache pl)"
    using assms(2) by (simp_all add: prune_list_ok_def)
  show "pl_path pl' = pl_path pl" by (simp add: pl'_def cleanup_subtree_def Let_def)
  have "els (pl_bitmap pl') = S \<and> cache_full shift_weight S (shift_cache pl') \<and>
    cache_full leaf_shift_weight S (leaf_shift_cache pl')"
  proof (cases "mx \<le> bintree_leftmost pos0")
    case True
    then have "S = els (pl_bitmap pl)" using mx by (auto simp: S_def)
    then show ?thesis using True c by (simp add: pl'_def cleanup_subtree_def lc mx_def)
  next
    case False
    have "els (pl_bitmap pl) - {Suc (bintree_leftmost pos0)..mx} = S" using mx by (auto simp: S_def)
    then show ?thesis
      using False cache_full_take [OF ok(11) c(1)] cache_full_take [OF ok(11) c(2)]
      by (simp add: pl'_def cleanup_subtree_def lc mx_def S_def ok Let_def)
  qed
  then show "els (pl_bitmap pl') = S" "cache_full shift_weight S (shift_cache pl')"
    "cache_full leaf_shift_weight S (leaf_shift_cache pl')" by auto
qed

lemma append_single_ok:
  assumes "croaring_ok lib els" and "0 \<notin> els (pl_bitmap pl)" and "\<forall>x\<in>els (pl_bitmap pl). x \<le> pos0"
    and "cache_full shift_weight (els (pl_bitmap pl)) (shift_cache pl)"
    and "cache_full leaf_shift_weight (els (pl_bitmap pl)) (leaf_shift_cache pl)" and "Suc pos0 < 2 ^ 32"
  defines "S \<equiv> insert (Suc pos0) (els (pl_bitmap pl))"
  obtains pl' where "append_single lib pl pos0 = Some pl'" "pl_path pl' = pl_path pl" "els (pl_bitmap pl') = S"
    "cache_full shift_weight S (shift_cache pl')" "cache_full leaf_shift_weight S (leaf_shift_cache pl')"
proof -
  note ok = croaring_okD [OF assms(1)]
  define pl1 where "pl1 = pl \<lparr> pl_bitmap := rb_add lib (pl_bitmap pl) (pos1_u32 pos0) \<rparr>"
  define pl2 where "pl2 = pl1 \<lparr> shift_cache := shift_cache pl @ [shift_sum shift_weight S (Suc pos0)] \<rparr>"
  have e1: "els (pl_bitmap pl1) = S" "els (pl_bitmap pl2) = S"
    using assms(6) by (simp_all add: pl1_def pl2_def ok S_def)
  have S: "0 \<notin> S" "Suc pos0 \<in> S" using assms(2) by (auto simp: S_def)
  have n1: "calculate_next_shift lib pl1 pos0 = Some (shift_sum shift_weight S (Suc pos0))"
    using sh.next_sum [OF assms(1), of pl1 pos0 pos0] caches_insert [OF ok(11) assms(3,4)] assms(6) S
    by (simp add: e1) (simp add: pl1_def S_def)
  have n2: "calculate_next_leaf_shift lib pl2 pos0 = Some (shift_sum leaf_shift_weight S (Suc pos0))"
    using lsh.next_sum [OF assms(1), of pl2 pos0 pos0] caches_insert [OF ok(11) assms(3,5)] assms(6) S
    by (simp add: e1) (simp add: pl2_def pl1_def S_def)
  have "\<not> pos0 < (case rb_maximum lib (pl_bitmap pl) of None \<Rightarrow> 0 | Some m \<Rightarrow> m)"
    using max_or_zero [OF assms(1), of "pl_bitmap pl" pos0] assms(3) by simp
  then have "append_single lib pl pos0 =
      Some (pl2 \<lparr> leaf_shift_cache := leaf_shift_cache pl @ [shift_sum leaf_shift_weight S (Suc pos0)] \<rparr>)"
    unfolding append_single_def Let_def pl1_def [symmetric] n1
    using n2 by (simp add: pl2_def) (simp add: pl1_def)
  from that [OF this] show ?thesis
    using cache_full_snoc [OF ok(11) assms(3,4)] cache_full_snoc [OF ok(11) assms(3,5)] e1(2)
    by (simp add: pl2_def pl1_def S_def)
qed

lemma count_ones_pos: "0 < n \<Longrightarrow> 0 < count_ones n"
  by (induction n rule: nat_parity_induct) auto

lemma node_pos_bound:
  assumes "node_ok n h"
  shows "node_pos n h \<le> 2 * n" and "2 * 2 ^ h \<le> node_pos n h + 2"
proof -
  have "insertion_to_pmmr_index (Suc n) \<le> 2 * n + 1"
    using count_ones_pos [of "Suc n"] by (simp add: insertion_to_pmmr_index_def)
  then show "node_pos n h \<le> 2 * n" using node_pos_less_next [OF assms] by simp
  show "2 * 2 ^ h \<le> node_pos n h + 2" using bintree_leftmost_node(2) [OF assms] by simp
qed

lemma sibling_bound: "snd (family p) \<le> 2 * p + 1"
proof -
  obtain n h where n: "node_ok n h" "p = node_pos n h" by (rule peak_map_heightE [of p])
  show ?thesis
  proof (cases "bit n h")
    case True
    have "insertion_to_pmmr_index (n - 2 ^ h) \<le> insertion_to_pmmr_index n" by (rule insertion_mono) simp
    moreover have "a \<le> b \<Longrightarrow> a + h \<le> 2 * (b + h) + 1" for a b :: nat by simp
    ultimately show ?thesis unfolding n(2) family_right [OF n(1) True] snd_conv by blast
  next
    case False
    have "node_pos (n + 2 ^ h) (Suc h) = node_pos n h + 2 * 2 ^ h"
      using node_pos_left_child [OF not_bit_sibling(1) [OF n(1) False]] by simp
    then show ?thesis using n False node_pos_bound(2) [OF n(1)] by (simp add: family_left)
  qed
qed

text \<open>
  What \<open>append\<close> does: the new root is an ancestor of the position (or the position itself) whose subtree is
  pruned by the rule, and it replaces the roots beneath it.
\<close>

definition appended :: "nat set \<Rightarrow> nat \<Rightarrow> nat \<Rightarrow> bool" where
  "appended S pos0 q \<longleftrightarrow> in_subtree pos0 q \<and> (\<forall>p. in_subtree p q \<longrightarrow> p \<in> prune_closure (pruned S \<union> {p. in_subtree p pos0}))"

lemma append_stop:
  assumes "croaring_ok lib els" and "prune_list_ok els pl" and "pos0 < 2 ^ 31 - 1"
    and "\<forall>x\<in>els (pl_bitmap pl). x \<le> pos0" and "\<not> is_pruned lib pl (snd (family pos0))"
  shows "\<exists>pl'. append lib pl pos0 = Some pl' \<and> prune_list_ok els pl' \<and> pl_path pl' = pl_path pl \<and>
    els (pl_bitmap pl') = insert (Suc pos0) {x \<in> els (pl_bitmap pl). x \<le> bintree_leftmost pos0}"
proof -
  define S where "S = els (pl_bitmap pl)"
  define pl1 where "pl1 = cleanup_subtree lib pl pos0"
  define T where "T = {x \<in> S. x \<le> bintree_leftmost pos0}"
  have r: "rolled_up S" "\<forall>x\<in>S. x < 2 ^ 31" using assms(2) by (simp_all add: prune_list_ok_def S_def)
  then have nn: "no_nesting S" by (simp add: rolled_up_def)
  have c1: "els (pl_bitmap pl1) = T" "pl_path pl1 = pl_path pl"
    "cache_full shift_weight T (shift_cache pl1)" "cache_full leaf_shift_weight T (leaf_shift_cache pl1)"
    using cleanup_subtree_ok [OF assms(1,2)] assms(3) by (auto simp: pl1_def T_def S_def)
  have "\<forall>x\<in>T. x \<le> pos0" "0 \<notin> T" using assms(4) nn by (auto simp: T_def S_def no_nesting_def)
  then obtain pl' where pl': "append_single lib pl1 pos0 = Some pl'" "pl_path pl' = pl_path pl"
      "els (pl_bitmap pl') = insert (Suc pos0) T"
      "cache_full shift_weight (insert (Suc pos0) T) (shift_cache pl')"
      "cache_full leaf_shift_weight (insert (Suc pos0) T) (leaf_shift_cache pl')"
    using append_single_ok [OF assms(1), of pl1 pos0] c1 assms(3) by auto
  have ap: "append lib pl pos0 = Some pl'"
    using assms(4,5) max_or_zero [OF assms(1), of "pl_bitmap pl" pos0] pl'(1)
    by (subst append.simps) (auto simp: pl1_def not_le [symmetric] split: prod.splits)
  have sib: "snd (family pos0) \<notin> pruned S"
    using is_pruned_iff [OF assms(1), of pl "snd (family pos0)"] nn assms(3,5) sibling_bound [of pos0]
    by (simp add: S_def)
  have nsib: "Suc (snd (family pos0)) \<notin> S"
    using sib unfolding pruned_def by (metis (mono_tags, lifting) diff_Suc_1 in_subtree_refl mem_Collect_eq)
  have out: "\<not> in_subtree (x - 1) pos0" "\<not> in_subtree pos0 (x - 1)" if "x \<in> T" for x
    using that no_nesting_pos [OF nn, of x] assms(4) bintree_leftmost_le [of pos0]
    by (auto simp: T_def in_subtree_def S_def)
  have "rolled_up (insert (Suc pos0) T)"
    unfolding rolled_up_def
  proof (intro conjI ballI)
    show "no_nesting (insert (Suc pos0) T)"
      using nn out by (auto simp: no_nesting_def T_def)
    fix x assume "x \<in> insert (Suc pos0) T"
    then consider "x = Suc pos0" | "x \<in> T" by blast
    then show "Suc (snd (family (x - 1))) \<notin> insert (Suc pos0) T"
    proof cases
      case 1
      then show ?thesis using nsib sibling_neq [of pos0] by (auto simp: T_def)
    next
      case 2
      have "snd (family (x - 1)) \<noteq> pos0"
      proof
        assume "snd (family (x - 1)) = pos0"
        then have "snd (family pos0) = x - 1" using family_sibling [of "x - 1"] by auto
        then show False using nsib 2 no_nesting_pos [OF nn, of x] by (auto simp: T_def)
      qed
      then show ?thesis using 2 r(1) by (auto simp: rolled_up_def T_def)
    qed
  qed
  then have "prune_list_ok els pl'"
    using pl'(3,4,5) r(2) assms(3) by (auto simp: prune_list_ok_def T_def)
  then show ?thesis using ap pl' by (auto simp: T_def S_def)
qed

lemma append_node:
  assumes "croaring_ok lib els" and "prune_list_ok els pl" and "node_ok n h" and "n < 2 ^ 30"
    and "\<forall>x\<in>els (pl_bitmap pl). x \<le> node_pos n h"
  shows "\<exists>pl' q. append lib pl (node_pos n h) = Some pl' \<and> prune_list_ok els pl' \<and> pl_path pl' = pl_path pl \<and>
    els (pl_bitmap pl') = insert (Suc q) {x \<in> els (pl_bitmap pl). x \<le> bintree_leftmost q} \<and>
    appended (els (pl_bitmap pl)) (node_pos n h) q"
  using assms(3,5)
proof (induction "trailing_ones n - h" arbitrary: h rule: less_induct)
  case less
  define S where "S = els (pl_bitmap pl)"
  define pos0 where "pos0 = node_pos n h"
  have nn: "no_nesting S" using assms(2) by (simp add: prune_list_ok_def rolled_up_def S_def)
  have b: "pos0 < 2 ^ 31 - 1" using node_pos_bound(1) [OF less(2)] assms(4) by (simp add: pos0_def)
  show ?case
  proof (cases "is_pruned lib pl (snd (family pos0))")
    case False
    have "appended S pos0 pos0" by (auto simp: appended_def intro: prune_closure.base)
    then show ?thesis
      using append_stop [OF assms(1,2) b _ False] less(3) by (auto simp: pos0_def S_def)
  next
    case True
    then have sib: "snd (family pos0) \<in> pruned S"
      using is_pruned_iff [OF assms(1), of pl "snd (family pos0)"] nn b sibling_bound [of pos0] by (simp add: S_def)
    have bit: "bit n h"
    proof (rule ccontr)
      assume "\<not> bit n h"
      then have "snd (family pos0) = node_pos (n + 2 ^ h) h" using less(2) by (simp add: family_left pos0_def)
      then have "pos0 < snd (family pos0)" by (simp add: pos0_def)
      moreover obtain x where "x \<in> S" "snd (family pos0) \<le> x - 1"
        using sib by (auto simp: pruned_def in_subtree_def)
      moreover have "x \<le> pos0" if "x \<in> S" for x using less(3) that by (simp add: pos0_def S_def)
      ultimately show False by fastforce
    qed
    have fam: "family pos0 = (node_pos n (Suc h), node_pos (n - 2 ^ h) h)"
      using family_right [OF less(2) bit] by (simp add: pos0_def)
    have ok: "node_ok n (Suc h)" using node_ok_Suc_iff [OF less(2)] bit by simp
    then have "trailing_ones n - Suc h < trailing_ones n - h" by (simp add: node_ok_iff_trailing)
    moreover have "\<forall>x\<in>els (pl_bitmap pl). x \<le> node_pos n (Suc h)" using less(3) by (auto simp: le_SucI)
    ultimately obtain pl' q where q: "append lib pl (node_pos n (Suc h)) = Some pl'" "prune_list_ok els pl'"
        "pl_path pl' = pl_path pl"
        "els (pl_bitmap pl') = insert (Suc q) {x \<in> els (pl_bitmap pl). x \<le> bintree_leftmost q}"
        "appended S (node_pos n (Suc h)) q"
      using less(1) ok unfolding S_def by blast
    have "append lib pl pos0 = append lib pl (node_pos n (Suc h))"
      using True fam less(3) max_or_zero [OF assms(1), of "pl_bitmap pl" pos0]
      by (subst append.simps) (auto simp: pos0_def not_le [symmetric])
    moreover have "appended S pos0 q"
    proof -
      define A where "A = pruned S \<union> {p. in_subtree p pos0}"
      have par: "node_pos n (Suc h) = fst (family pos0)" by (simp add: fam)
      have sub: "p \<in> prune_closure A" if "in_subtree p (fst (family pos0))" for p
      proof -
        from that consider "p = fst (family pos0)" | "in_subtree p pos0" | "in_subtree p (snd (family pos0))"
          using in_subtree_parent_iff by blast
        then show ?thesis
        proof cases
          case 1
          have "pos0 \<in> prune_closure A" "snd (family pos0) \<in> prune_closure A"
            using sib by (auto simp: A_def intro: prune_closure.base)
          then show ?thesis unfolding 1 by (rule prune_closure.parent)
        next
          case 2
          then show ?thesis by (auto simp: A_def intro: prune_closure.base)
        next
          case 3
          then show ?thesis using pruned_down [OF sib] by (auto simp: A_def intro: prune_closure.base)
        qed
      qed
      have "p \<in> prune_closure A" if "p \<in> prune_closure (pruned S \<union> {p. in_subtree p (fst (family pos0))})" for p
        using that by induction (auto intro: prune_closure.intros sub [unfolded A_def] simp: A_def)
      moreover have "in_subtree pos0 q"
        using q(5) in_subtree_parent [of pos0] in_subtree_trans unfolding appended_def par by blast
      ultimately show ?thesis using q(5) unfolding appended_def par A_def by blast
    qed
    ultimately show ?thesis using q by (auto simp: pos0_def S_def)
  qed
qed

text \<open>The pruned positions after an \<open>append\<close> are the closure of the old ones and the new subtree.\<close>

lemma appended_pruned:
  assumes "no_nesting S" and "\<forall>x\<in>S. x \<le> pos0" and "appended S pos0 q"
    and "T = insert (Suc q) {x \<in> S. x \<le> bintree_leftmost q}" and "rolled_up T"
  shows "pruned T = prune_closure (pruned S \<union> {p. in_subtree p pos0})"
proof -
  have q: "in_subtree pos0 q" using assms(3) by (simp add: appended_def)
  have "pruned T = pruned S \<union> {p. in_subtree p q}"
  proof -
    have *: "in_subtree (x - 1) q" if "x \<in> S" "\<not> x \<le> bintree_leftmost q" for x
      using that assms(2) q no_nesting_pos [OF assms(1), of x] by (auto simp: in_subtree_def)
    then have "p \<in> pruned T" if "p \<in> pruned S" for p
    proof -
      obtain x where x: "x \<in> S" "in_subtree p (x - 1)" using \<open>p \<in> pruned S\<close> by (auto simp: pruned_def)
      show ?thesis
      proof (cases "x \<le> bintree_leftmost q")
        case False
        then have "in_subtree p q" using in_subtree_trans [OF x(2)] * x(1) by blast
        then show ?thesis using assms(4) by (simp add: pruned_def)
      qed (use x assms(4) in \<open>auto simp: pruned_def\<close>)
    qed
    then show ?thesis using assms(4) by (auto simp: pruned_def)
  qed
  moreover have "{p. in_subtree p q} \<subseteq> prune_closure (pruned S \<union> {p. in_subtree p pos0})"
    using assms(3) by (auto simp: appended_def)
  ultimately have "pruned T \<subseteq> prune_closure (pruned S \<union> {p. in_subtree p pos0})"
    by (auto intro: prune_closure.base)
  moreover have "pruned S \<union> {p. in_subtree p pos0} \<subseteq> pruned T"
    unfolding \<open>pruned T = _\<close> using in_subtree_trans [OF _ q] by auto
  then have "prune_closure (pruned S \<union> {p. in_subtree p pos0}) \<subseteq> pruned T"
    using pruned_closed [OF assms(5)] prune_closure_mono by blast
  ultimately show ?thesis by blast
qed

lemma append_ok:
  assumes "croaring_ok lib els" and "prune_list_ok els pl" and "pos0 < 2 ^ 30"
    and "\<forall>x\<in>els (pl_bitmap pl). x \<le> pos0"
  shows "\<exists>pl'. append lib pl pos0 = Some pl' \<and> prune_list_ok els pl' \<and> pl_path pl' = pl_path pl \<and>
    pruned (els (pl_bitmap pl')) = prune_closure (pruned (els (pl_bitmap pl)) \<union> {p. in_subtree p pos0})"
proof -
  obtain n h where n: "node_ok n h" "pos0 = node_pos n h" by (rule peak_map_heightE [of pos0])
  have "n < 2 ^ 30" using assms(3) n(2) insertion_ge [of n] by simp
  from append_node [OF assms(1,2) n(1) this] assms(4) n(2)
  obtain pl' q where q: "append lib pl pos0 = Some pl'" "prune_list_ok els pl'" "pl_path pl' = pl_path pl"
      "els (pl_bitmap pl') = insert (Suc q) {x \<in> els (pl_bitmap pl). x \<le> bintree_leftmost q}"
      "appended (els (pl_bitmap pl)) pos0 q" by auto
  have "no_nesting (els (pl_bitmap pl))" "rolled_up (els (pl_bitmap pl'))"
    using assms(2) q(2) by (auto simp: prune_list_ok_def rolled_up_def)
  from appended_pruned [OF this(1) assms(4) q(5,4) this(2)] q(1-3) show ?thesis by auto
qed

section \<open>Building a prune list\<close>

lemma prune_closure_leaf: "p \<in> prune_closure A \<Longrightarrow> is_leaf p \<Longrightarrow> p \<in> A"
proof (induction rule: prune_closure.induct)
  case (parent p)
  obtain n h where n: "node_ok n h" "p = node_pos n h" by (rule peak_map_heightE [of p])
  define m where "m = (if bit n h then n else n + 2 ^ h)"
  have m: "node_ok m (Suc h)" using n(1) not_bit_sibling(1) node_ok_Suc_iff by (auto simp: m_def)
  have "fst (family p) = node_pos m (Suc h)"
    using n family_right [of n h] family_left [of n h] by (auto simp: m_def)
  then have "\<not> is_leaf (fst (family p))" using is_leaf_node [OF m] by simp
  with parent show ?case by blast
qed

lemma leftmost_leaf: "is_leaf (bintree_leftmost r)" "in_subtree (bintree_leftmost r) r"
proof -
  obtain n h where n: "node_ok n h" "r = node_pos n h" by (rule peak_map_heightE [of r])
  show "is_leaf (bintree_leftmost r)" using n bintree_leftmost_node(1) [OF n(1)] by simp
  show "in_subtree (bintree_leftmost r) r" by (simp add: in_subtree_def bintree_leftmost_le)
qed

text \<open>
  Between the bitmap a prune list is built from and the roots it has so far: a member of the bitmap that has
  not been appended yet lies to the right of every root.
\<close>

lemma next_right_of_roots:
  assumes "no_nesting B" and "no_nesting S" and "pruned S = prune_closure (pruned Z)"
    and "Z \<subseteq> B" and "y \<in> B" and "\<forall>z\<in>Z. z < y" and "x \<in> S"
  shows "x \<le> y - 1"
proof (rule ccontr)
  assume "\<not> x \<le> y - 1"
  then have x: "y - 1 \<le> x - 1" by simp
  have cover: "\<exists>z\<in>Z. in_subtree l (z - 1)" if "is_leaf l" "in_subtree l r" "r \<in> pruned S" for l r
    using prune_closure_leaf [of l "pruned Z"] that assms(3) pruned_down [of r S l] by (auto simp: pruned_def)
  have xp: "x - 1 \<in> pruned S" using assms(7) in_subtree_refl by (auto simp: pruned_def intro!: bexI [of _ x])
  obtain z where z: "z \<in> Z" "in_subtree (bintree_leftmost (x - 1)) (z - 1)"
    using cover [OF leftmost_leaf xp] by blast
  have "z - 1 < y - 1 \<or> z - 1 = 0"
    using assms(6) z(1) by force
  moreover have "0 < z" "z < y" using z(1) assms(1,4,6) no_nesting_pos [OF assms(1), of z] by auto
  ultimately have "bintree_leftmost (x - 1) \<le> y - 1" using z(2) by (auto simp: in_subtree_def)
  with x have sub: "in_subtree (y - 1) (x - 1)" by (simp add: in_subtree_def)
  obtain v where v: "v \<in> Z" "in_subtree (bintree_leftmost (y - 1)) (v - 1)"
    using cover [OF leftmost_leaf(1) leftmost_leaf(2)] pruned_down [OF xp sub] by blast
  have "in_subtree (y - 1) (v - 1) \<or> in_subtree (v - 1) (y - 1)"
    using in_subtree_laminar [OF leftmost_leaf(2) v(2)] .
  then have "v = y" using assms(1,4,5) v(1) no_nestingD [OF assms(1)] by blast
  then show False using v(1) assms(6) by blast
qed

lemma pruned_insert: "pruned (insert y Z) = pruned Z \<union> {p. in_subtree p (y - 1)}"
  by (auto simp: pruned_def)

lemma append_all_ok:
  assumes "croaring_ok lib els" and "no_nesting B" and "\<forall>x\<in>B. x \<le> 2 ^ 30"
    and "prune_list_ok els pl" and "pruned (els (pl_bitmap pl)) = prune_closure (pruned Z)"
    and "sorted ys" "distinct ys" "\<forall>z\<in>Z. \<forall>y\<in>set ys. z < y" "Z \<union> set ys \<subseteq> B"
  shows "\<exists>pl'. append_all lib pl ys = Some pl' \<and> prune_list_ok els pl' \<and> pl_path pl' = pl_path pl \<and>
    pruned (els (pl_bitmap pl')) = prune_closure (pruned (Z \<union> set ys))"
  using assms(4-)
proof (induction ys arbitrary: pl Z)
  case (Cons y ys)
  have "no_nesting (els (pl_bitmap pl))" using Cons.prems(1) by (simp add: prune_list_ok_def rolled_up_def)
  then have right: "\<forall>x\<in>els (pl_bitmap pl). x \<le> y - 1"
    using next_right_of_roots [OF assms(2) _ Cons.prems(2), of y] Cons.prems(5,6) by auto
  have "0 < y" "y \<le> 2 ^ 30" using assms(2,3) Cons.prems(6) no_nesting_pos [OF assms(2), of y] by auto
  then have "y - 1 < 2 ^ 30" by simp
  from append_ok [OF assms(1) Cons.prems(1) this right] obtain pl1 where pl1:
      "append lib pl (y - 1) = Some pl1" "prune_list_ok els pl1" "pl_path pl1 = pl_path pl"
      "pruned (els (pl_bitmap pl1)) = prune_closure (pruned (insert y Z))"
    unfolding Cons.prems(2) pruned_insert by (auto simp: prune_closure_idem)
  have "\<forall>z\<in>insert y Z. \<forall>v\<in>set ys. z < v" using Cons.prems(3-5) by (auto simp: order.strict_iff_order)
  from Cons.IH [OF pl1(2,4) _ _ this] Cons.prems(3,4,6) pl1(1,3) show ?case by auto
qed auto

lemma prune_list_new_ok:
  assumes "croaring_ok lib els" and "no_nesting (els b)" and "\<forall>x\<in>els b. x \<le> 2 ^ 30"
  shows "\<exists>pl. prune_list_new lib fp b = Some pl \<and> prune_list_ok els pl \<and> pl_path pl = fp \<and>
    pruned (els (pl_bitmap pl)) = prune_closure (pruned (els b))"
proof -
  note ok = croaring_okD [OF assms(1)]
  define pl0 where "pl0 = \<lparr> pl_path = fp, pl_bitmap = rb_new lib, shift_cache = [], leaf_shift_cache = [] \<rparr>"
  have "prune_list_ok els pl0"
    by (simp add: prune_list_ok_def pl0_def ok rolled_up_def no_nesting_def cache_full_def)
  moreover have "pruned (els (pl_bitmap pl0)) = prune_closure (pruned {})"
    using pruned_closed [of "{}"] by (auto simp: pl0_def ok rolled_up_def no_nesting_def intro: prune_closure.base)
  ultimately obtain pl where pl: "append_all lib pl0 (rb_iter lib b) = Some pl" "prune_list_ok els pl"
      "pl_path pl = fp" "pruned (els (pl_bitmap pl)) = prune_closure (pruned (els b))"
    using append_all_ok [OF assms, of pl0 "{}" "rb_iter lib b"] by (auto simp: ok pl0_def)
  have "\<not> rb_contains lib b 0" using assms(2) by (simp add: ok no_nesting_def)
  then show ?thesis
    using pl by (simp add: prune_list_new_def pl0_def [symmetric] prune_list_ok_def ok)
qed

section \<open>Shifts\<close>

text \<open>The positions that compaction removes from the files: pruned, but not a root.\<close>

definition compacted :: "nat set \<Rightarrow> nat set" where
  "compacted S = {p \<in> pruned S. Suc p \<notin> S}"

lemma compacted_iff:
  assumes "no_nesting S"
  shows "p \<in> compacted S \<longleftrightarrow> (\<exists>x\<in>S. in_subtree p (x - 1) \<and> p \<noteq> x - 1)"
proof
  assume "p \<in> compacted S"
  then obtain x where "x \<in> S" "in_subtree p (x - 1)" "Suc p \<notin> S" by (auto simp: compacted_def pruned_def)
  then show "\<exists>x\<in>S. in_subtree p (x - 1) \<and> p \<noteq> x - 1"
    using no_nesting_pos [OF assms, of x] by (intro bexI [of _ x]) auto
next
  assume "\<exists>x\<in>S. in_subtree p (x - 1) \<and> p \<noteq> x - 1"
  then obtain x where x: "x \<in> S" "in_subtree p (x - 1)" "p \<noteq> x - 1" by blast
  then have "Suc p \<notin> S" using no_nestingD [OF assms, of "Suc p" x] by auto
  then show "p \<in> compacted S" using x by (auto simp: compacted_def pruned_def)
qed

lemma compacted_roots_before:
  assumes "no_nesting S" and "x \<in> S" and "in_subtree p (x - 1)" and "p < pos0" and "pos0 \<notin> compacted S"
  shows "x \<le> Suc pos0"
proof (rule ccontr)
  assume "\<not> x \<le> Suc pos0"
  then have "in_subtree pos0 (x - 1)" "pos0 \<noteq> x - 1" using assms(3,4) by (auto simp: in_subtree_def)
  then show False using assms(2,5) compacted_iff [OF assms(1)] by blast
qed

lemma shift_sum_counts:
  assumes "finite S" and "no_nesting S" and "pos0 \<notin> compacted S"
    and "\<And>x. x \<in> S \<Longrightarrow> w x = card {p. in_subtree p (x - 1) \<and> p \<noteq> x - 1 \<and> P p}"
  shows "shift_sum w S (Suc pos0) = card {p \<in> compacted S. p < pos0 \<and> P p}"
proof -
  define F where "F x = {p. in_subtree p (x - 1) \<and> p \<noteq> x - 1 \<and> P p}" for x
  define R where "R = {x \<in> S. x \<le> Suc pos0}"
  have "{p \<in> compacted S. p < pos0 \<and> P p} = (\<Union>x\<in>R. F x)"
  proof (intro equalityI subsetI)
    fix p assume p: "p \<in> {p \<in> compacted S. p < pos0 \<and> P p}"
    then obtain x where x: "x \<in> S" "in_subtree p (x - 1)" "p \<noteq> x - 1" using compacted_iff [OF assms(2)] by blast
    then have "x \<in> R" using compacted_roots_before [OF assms(2) x(1,2) _ assms(3)] p by (simp add: R_def)
    then show "p \<in> (\<Union>x\<in>R. F x)" using x p by (auto simp: F_def)
  next
    fix p assume "p \<in> (\<Union>x\<in>R. F x)"
    then obtain x where "x \<in> S" "x \<le> Suc pos0" "in_subtree p (x - 1)" "p \<noteq> x - 1" "P p" by (auto simp: R_def F_def)
    then show "p \<in> {p \<in> compacted S. p < pos0 \<and> P p}"
      using compacted_iff [OF assms(2)] by (auto simp: in_subtree_def)
  qed
  moreover have "card (\<Union>x\<in>R. F x) = (\<Sum>x\<in>R. card (F x))"
  proof (rule card_UN_disjoint)
    show "finite R" using assms(1) by (simp add: R_def)
    show "\<forall>x\<in>R. finite (F x)" by (auto simp: F_def intro: finite_subset [OF _ finite_subtree])
    show "\<forall>x\<in>R. \<forall>y\<in>R. x \<noteq> y \<longrightarrow> F x \<inter> F y = {}"
    proof (intro ballI impI equals0I)
      fix x y p assume xy: "x \<in> R" "y \<in> R" "x \<noteq> y" and "p \<in> F x \<inter> F y"
      then have "in_subtree (x - 1) (y - 1) \<or> in_subtree (y - 1) (x - 1)"
        using in_subtree_laminar [of p] by (auto simp: F_def)
      then show False using no_nestingD [OF assms(2), of x y] no_nestingD [OF assms(2), of y x] xy by (auto simp: R_def)
    qed
  qed
  moreover have "(\<Sum>x\<in>R. card (F x)) = shift_sum w S (Suc pos0)"
    unfolding shift_sum_def by (rule sum.cong) (auto simp: R_def F_def assms(4))
  ultimately show ?thesis by simp
qed

lemma shifts_count:
  assumes "croaring_ok lib els" and "prune_list_ok els pl" and "Suc pos0 < 2 ^ 32"
    and "pos0 \<notin> compacted (els (pl_bitmap pl))"
  shows "get_shift lib pl pos0 = Some (card {p \<in> compacted (els (pl_bitmap pl)). p < pos0})"
    and "get_leaf_shift lib pl pos0 = Some (card {p \<in> compacted (els (pl_bitmap pl)). p < pos0 \<and> is_leaf p})"
proof -
  have S: "finite (els (pl_bitmap pl))" "no_nesting (els (pl_bitmap pl))"
    and c: "cache_full shift_weight (els (pl_bitmap pl)) (shift_cache pl)"
      "cache_full leaf_shift_weight (els (pl_bitmap pl)) (leaf_shift_cache pl)"
    using assms(2) croaring_okD(11) [OF assms(1)] by (simp_all add: prune_list_ok_def rolled_up_def)
  show "get_shift lib pl pos0 = Some (card {p \<in> compacted (els (pl_bitmap pl)). p < pos0})"
    using sh.get_full [OF assms(1) c(1) assms(3)]
      shift_sum_counts [OF S assms(4), of shift_weight "\<lambda>_. True"] card_subtree
    by (simp add: shift_weight_def)
  show "get_leaf_shift lib pl pos0 = Some (card {p \<in> compacted (els (pl_bitmap pl)). p < pos0 \<and> is_leaf p})"
    using lsh.get_full [OF assms(1) c(2) assms(3)]
      shift_sum_counts [OF S assms(4), of leaf_shift_weight is_leaf] card_leaves_subtree
    by (simp add: leaf_shift_weight_def)
qed

section \<open>Iterating over what is not pruned\<close>

fun ranges_ok :: "nat \<Rightarrow> (nat \<times> nat) list \<Rightarrow> bool" where
  "ranges_ok lo [] = True"
| "ranges_ok lo ((start, stop) # rs) = (lo \<le> start \<and> start < stop \<and> ranges_ok stop rs)"

definition iterator_of :: "(nat \<times> nat) list \<Rightarrow> nat \<Rightarrow> unpruned_iterator" where
  "iterator_of rs pos =
     \<lparr> current_excl_range = fst (pop_range rs), inner_ranges = snd (pop_range rs), current_pos = pos \<rparr>"

definition outside :: "(nat \<times> nat) list \<Rightarrow> nat \<Rightarrow> bool" where
  "outside rs x \<longleftrightarrow> (\<forall>r\<in>set rs. \<not> (fst r \<le> x \<and> x < snd r))"

lemma unpruned_next_iterator:
  "unpruned_next (iterator_of [] pos) = (pos, iterator_of [] (Suc pos))"
  "unpruned_next (iterator_of ((start, stop) # rs) pos) =
     (if pos < start then (pos, iterator_of ((start, stop) # rs) (Suc pos)) else unpruned_next (iterator_of rs stop))"
  by (subst unpruned_next.simps, simp add: iterator_of_def pop_range_def split: list.splits)+

lemma ranges_ok_ge: "ranges_ok lo rs \<Longrightarrow> r \<in> set rs \<Longrightarrow> lo \<le> fst r"
  by (induction lo rs rule: ranges_ok.induct) force+

lemma ranges_ok_weaken: "ranges_ok lo rs \<Longrightarrow> lo' \<le> lo \<Longrightarrow> ranges_ok lo' rs"
  by (cases "(lo, rs)" rule: ranges_ok.cases) auto

lemma unpruned_take_ranges:
  "ranges_ok pos rs \<Longrightarrow> unpruned_take cutoff (iterator_of rs pos) = Some (filter (outside rs) [pos..<Suc cutoff])"
proof (induction "Suc cutoff - pos + length rs" arbitrary: rs pos rule: less_induct)
  case less
  have yield: "unpruned_take cutoff (iterator_of rs pos) = Some (filter (outside rs) [pos..<Suc cutoff])"
    if y: "unpruned_next (iterator_of rs pos) = (pos, iterator_of rs (Suc pos))" and ok: "ranges_ok (Suc pos) rs"
  proof (cases "pos \<le> cutoff")
    case True
    have "outside rs pos" using ranges_ok_ge [OF ok] by (force simp: outside_def)
    then show ?thesis using True less(1) [OF _ ok] y
      by (subst unpruned_take.simps) (simp add: upt_conv_Cons del: upt_Suc)
  next
    case False
    then show ?thesis by (subst unpruned_take.simps) (simp add: y)
  qed
  show ?case
  proof (cases rs)
    case Nil
    then show ?thesis using yield by (simp add: unpruned_next_iterator)
  next
    case (Cons r rest)
    obtain start stop where r: "r = (start, stop)" by (cases r)
    have ok: "pos \<le> start" "start < stop" "ranges_ok stop rest" using less(2) by (simp_all add: Cons r)
    show ?thesis
    proof (cases "pos < start")
      case True
      then show ?thesis using yield ok by (simp add: unpruned_next_iterator Cons r)
    next
      case False
      then have eq: "pos = start" using ok(1) by simp
      have "unpruned_take cutoff (iterator_of rs pos) = unpruned_take cutoff (iterator_of rest stop)"
        using False by (subst (1 2) unpruned_take.simps) (simp add: unpruned_next_iterator Cons r)
      also have "\<dots> = Some (filter (outside rest) [stop..<Suc cutoff])"
        by (rule less(1)) (use ok eq in \<open>auto simp: Cons\<close>)
      also have "filter (outside rest) [stop..<Suc cutoff] = filter (outside rs) [stop..<Suc cutoff]"
        by (rule filter_cong) (auto simp: outside_def Cons r)
      also have "\<dots> = filter (outside rs) [pos..<Suc cutoff]"
      proof -
        have gone: "filter (outside rs) [start..<k] = []" if "k \<le> stop" for k
          using that by (auto simp: filter_empty_conv outside_def Cons r)
        show ?thesis
        proof (cases "stop \<le> Suc cutoff")
          case True
          then have "[pos..<Suc cutoff] = [start..<stop] @ [stop..<Suc cutoff]"
            using upt_add_eq_append [of start stop "Suc cutoff - stop"] ok(2) eq by simp
          then show ?thesis using gone [of stop] by simp
        next
          case False
          then show ?thesis using gone [of "Suc cutoff"] eq by simp
        qed
      qed
      finally show ?thesis .
    qed
  qed
qed

lemma pruned_ranges_ok:
  assumes "no_nesting S" and "sorted xs" "distinct xs" "set xs \<subseteq> S" "\<forall>x\<in>set xs. lo \<le> Suc (bintree_leftmost (x - 1))"
  shows "ranges_ok lo (map (\<lambda>x. (Suc (bintree_leftmost (x - 1)), Suc x)) xs)"
  using assms(2-)
proof (induction xs arbitrary: lo)
  case (Cons x xs)
  have x: "0 < x" "x \<in> S" using no_nesting_pos [OF assms(1), of x] Cons.prems(3) by auto
  have "\<forall>y\<in>set xs. Suc x \<le> Suc (bintree_leftmost (y - 1))"
  proof (intro ballI, rule ccontr)
    fix y assume y: "y \<in> set xs" and "\<not> Suc x \<le> Suc (bintree_leftmost (y - 1))"
    then have "in_subtree (x - 1) (y - 1)" using Cons.prems(1) x by (auto simp: in_subtree_def)
    then show False using no_nestingD [OF assms(1), of x y] y x Cons.prems(2,3) by auto
  qed
  then show ?case using Cons bintree_leftmost_le [of "x - 1"] x(1) by auto
qed simp

lemma unpruned_iter_ok:
  assumes "croaring_ok lib els" and "no_nesting (els (pl_bitmap pl))"
  shows "unpruned_iter lib pl cutoff =
    Some (filter (\<lambda>x. x - 1 \<notin> pruned (els (pl_bitmap pl))) [1..<Suc cutoff])"
proof -
  define S where "S = els (pl_bitmap pl)"
  define rs where "rs = map (\<lambda>x. (Suc (bintree_leftmost (x - 1)), Suc x)) (sorted_list_of_set S)"
  have fin: "finite S" by (simp add: S_def croaring_okD [OF assms(1)])
  have pos: "0 < x" if "x \<in> S" for x using no_nesting_pos [OF assms(2)] that by (simp add: S_def)
  have rs: "pruned_bintree_range_iter lib pl = rs"
    using pos fin by (simp add: pruned_bintree_range_iter_def prune_list_iter_def croaring_okD [OF assms(1)] rs_def
        S_def [symmetric] bintree_range_eq)
  have "ranges_ok 1 rs" using pruned_ranges_ok [of S "sorted_list_of_set S" 1] assms(2) fin by (simp add: rs_def S_def)
  moreover have "unpruned_iterator_new rs = iterator_of rs 1"
    by (simp add: unpruned_iterator_new_def iterator_of_def split: prod.splits)
  ultimately have "unpruned_iter lib pl cutoff = Some (filter (outside rs) [1..<Suc cutoff])"
    using unpruned_take_ranges by (simp add: unpruned_iter_def rs)
  moreover have "outside rs x \<longleftrightarrow> x - 1 \<notin> pruned S" if "1 \<le> x" for x
  proof -
    have "Suc (bintree_leftmost (y - 1)) \<le> x \<and> x < Suc y \<longleftrightarrow> in_subtree (x - 1) (y - 1)" if "y \<in> S" for y
      using \<open>1 \<le> x\<close> pos [OF that] by (auto simp: in_subtree_def)
    then show ?thesis using fin by (auto simp: outside_def rs_def pruned_def)
  qed
  ultimately show ?thesis by (auto simp: S_def intro!: filter_cong)
qed

section \<open>Saving and restoring\<close>

text \<open>The caches that \<open>open\<close> rebuilds are those that \<open>append\<close> has built.\<close>

lemma caches_step:
  assumes "finite S" and "caches w S q c" and "x \<in> S" and "q < x" and "\<forall>y\<in>S. q < y \<longrightarrow> x \<le> y"
  shows "caches w S x (c @ [shift_sum w S x])"
proof -
  have "{y \<in> S. y \<le> x} = insert x {y \<in> S. y \<le> q}" using assms(3-5) by force
  moreover have "sorted_list_of_set (insert x {y \<in> S. y \<le> q}) = sorted_list_of_set {y \<in> S. y \<le> q} @ [x]"
  proof -
    define Q where "Q = insert x {y \<in> S. y \<le> q}"
    have "finite Q" using assms(1) by (simp add: Q_def)
    then have "sorted_list_of_set Q = sorted_list_of_set {y \<in> S. y \<le> q} @ [x]"
      using assms(1,4) by (intro sorted_distinct_set_unique) (auto simp: sorted_append, auto simp: Q_def)
    then show ?thesis by (simp only: Q_def)
  qed
  ultimately show ?thesis using assms(2) by (simp add: caches_def)
qed

lemma sorted_tail_least:
  assumes "sorted (x # xs)" "distinct (x # xs)" "set (x # xs) = {y \<in> S. q < y}"
  shows "x \<in> S" "q < x" "\<forall>y\<in>S. q < y \<longrightarrow> x \<le> y" "set xs = {y \<in> S. x < y}"
proof -
  show x: "x \<in> S" "q < x" "\<forall>y\<in>S. q < y \<longrightarrow> x \<le> y" using assms by auto
  have "set xs = {y \<in> S. q < y} - {x}" using assms(2,3) by auto
  then show "set xs = {y \<in> S. x < y}" using x by (auto simp: order.strict_iff_order)
qed

locale shift_builder = shift_ops +
  fixes upd :: "'a prune_list \<Rightarrow> nat list \<Rightarrow> 'a prune_list"
    and loop :: "'a croaring \<Rightarrow> 'a prune_list \<Rightarrow> nat list \<Rightarrow> 'a prune_list option"
  assumes upd: "cache (upd pl c) = c" "upd (upd pl c) d = upd pl d" "upd pl (cache pl) = pl"
      "pl_bitmap (upd pl c) = pl_bitmap pl"
    and loop: "loop lib pl [] = Some pl"
      "loop lib pl (pos1 # rest) =
         Option.bind (next_shift lib pl (pos1 - 1)) (\<lambda>s. loop lib (upd pl (cache pl @ [s])) rest)"
begin

lemma loop_ok:
  assumes "croaring_ok lib els" and "0 \<notin> els (pl_bitmap pl)" and "\<forall>x\<in>els (pl_bitmap pl). x < 2 ^ 31"
    and "caches w (els (pl_bitmap pl)) q (cache pl)"
    and "sorted xs" "distinct xs" "set xs = {y \<in> els (pl_bitmap pl). q < y}"
  shows "loop lib pl xs = Some (upd pl (map (shift_sum w (els (pl_bitmap pl))) (sorted_list_of_set (els (pl_bitmap pl)))))"
  using assms(2-)
proof (induction xs arbitrary: pl q)
  case Nil
  then have "{y \<in> els (pl_bitmap pl). y \<le> q} = els (pl_bitmap pl)" by auto
  then have "map (shift_sum w (els (pl_bitmap pl))) (sorted_list_of_set (els (pl_bitmap pl))) = cache pl"
    using Nil.prems(3) by (simp add: caches_def)
  then show ?case by (simp add: loop upd)
next
  case (Cons x xs)
  note l = sorted_tail_least [OF Cons.prems(4,5,6)]
  have x: "Suc (x - 1) = x" "x < 2 ^ 31" using l(1,2) Cons.prems(2) by auto
  have "y \<le> q \<longleftrightarrow> y \<le> x - 1" if "y \<in> els (pl_bitmap pl)" for y
    using l(2,3) that by (cases "q < y") auto
  then have "{y \<in> els (pl_bitmap pl). y \<le> q} = {y \<in> els (pl_bitmap pl). y \<le> x - 1}" by blast
  then have c: "caches w (els (pl_bitmap pl)) (x - 1) (cache pl)"
    using Cons.prems(3) by (simp only: caches_def)
  have nx: "next_shift lib pl (x - 1) = Some (shift_sum w (els (pl_bitmap pl)) x)"
    using next_sum [OF assms(1) c, of "x - 1"] l(1) x Cons.prems(1) by simp
  define pl1 where "pl1 = upd pl (cache pl @ [shift_sum w (els (pl_bitmap pl)) x])"
  have b: "pl_bitmap pl1 = pl_bitmap pl" by (simp add: pl1_def upd)
  have "caches w (els (pl_bitmap pl1)) x (cache pl1)"
    using caches_step [OF croaring_okD(11) [OF assms(1)] Cons.prems(3) l(1,2,3)] unfolding b by (simp add: pl1_def upd)
  from Cons.IH [OF _ _ this] Cons.prems(1,2,4,5) l(4)
  have "loop lib pl1 xs = Some (upd pl1 (map (shift_sum w (els (pl_bitmap pl))) (sorted_list_of_set (els (pl_bitmap pl)))))"
    unfolding b by simp
  then show ?case unfolding loop nx by (simp add: pl1_def upd)
qed

text \<open>Rebuilding a cache from scratch gives the cache of the roots.\<close>

lemma rebuild:
  assumes "croaring_ok lib els" and "0 \<notin> els (pl_bitmap pl)" and "\<forall>x\<in>els (pl_bitmap pl). x < 2 ^ 31"
    and "cache_full w (els (pl_bitmap pl)) (cache pl)"
  shows "loop lib (upd pl []) (rb_iter lib (pl_bitmap pl)) = Some pl"
proof -
  note ok = croaring_okD [OF assms(1)]
  have S0: "{y \<in> els (pl_bitmap pl). 0 < y} = els (pl_bitmap pl)" "{y \<in> els (pl_bitmap pl). y \<le> 0} = {}"
    using assms(2) by (auto intro: gr0I)
  have "caches w (els (pl_bitmap pl)) 0 []" using S0(2) by (simp add: caches_def)
  then have "loop lib (upd pl []) (rb_iter lib (pl_bitmap pl)) =
      Some (upd (upd pl []) (map (shift_sum w (els (pl_bitmap pl))) (sorted_list_of_set (els (pl_bitmap pl)))))"
    using loop_ok [OF assms(1), of "upd pl []" 0 "rb_iter lib (pl_bitmap pl)"] assms(2,3) S0(1) by (simp add: upd ok)
  then show ?thesis using assms(4) upd(3) [of pl] unfolding upd(2) cache_full_def by metis
qed

end

interpretation shb: shift_builder get_shift calculate_next_shift shift_cache shift_weight
  "\<lambda>pl c. pl \<lparr> shift_cache := c \<rparr>" build_shift_loop
  by unfold_locales simp_all

interpretation lshb: shift_builder get_leaf_shift calculate_next_leaf_shift leaf_shift_cache leaf_shift_weight
  "\<lambda>pl c. pl \<lparr> leaf_shift_cache := c \<rparr>" build_leaf_shift_loop
  by unfold_locales simp_all

lemma init_caches_ok:
  assumes "croaring_ok lib els" and "prune_list_ok els pl"
  shows "init_caches lib pl = Some pl"
proof -
  have S: "0 \<notin> els (pl_bitmap pl)" "\<forall>x\<in>els (pl_bitmap pl). x < 2 ^ 31"
    "cache_full shift_weight (els (pl_bitmap pl)) (shift_cache pl)"
    "cache_full leaf_shift_weight (els (pl_bitmap pl)) (leaf_shift_cache pl)"
    using assms(2) by (auto simp: prune_list_ok_def rolled_up_def no_nesting_def)
  show ?thesis
    using shb.rebuild [OF assms(1) S(1-3)] lshb.rebuild [OF assms(1) S(1,2,4)]
    by (simp add: init_caches_def build_shift_cache_def build_leaf_shift_cache_def)
qed

lemma save_bitmap_ok:
  "save_via_temp_file f fp tmp_suffix (\<lambda>bs. Inr (bs @ bytes)) = Inr ((f (fp @ tmp_suffix := None)) (fp \<mapsto> bytes))"
  by (rule save_via_temp_file_ok) auto

lemma pruned_rolled_up_fixed: "rolled_up S \<Longrightarrow> prune_closure (pruned S) = pruned S"
  using pruned_closed prune_closure.base by blast

lemma flush_then_reload:
  assumes "croaring_ok lib els" and "prune_list_ok els pl" and "pl_path pl = Some fp" and "\<forall>x\<in>els (pl_bitmap pl). x \<le> 2 ^ 30"
  shows "\<exists>pl' f'. prune_list_flush lib f pl = Inr (pl', f') \<and> prune_list_ok els pl' \<and>
    els (pl_bitmap pl') = els (pl_bitmap pl) \<and>
    (\<exists>b. read_or_new lib f' fp = Inr b \<and> els b = els (pl_bitmap pl)) \<and> (\<forall>p. p \<noteq> fp \<and> p \<noteq> fp @ tmp_suffix \<longrightarrow> f' p = f p)"
proof -
  note ok = croaring_okD [OF assms(1)]
  define pl' where "pl' = pl \<lparr> pl_bitmap := rb_run_optimize lib (pl_bitmap pl) \<rparr>"
  define f' where "f' = (f (fp @ tmp_suffix := None)) (fp \<mapsto> rb_serialize lib (pl_bitmap pl'))"
  have "prune_list_flush lib f pl = Inr (pl', f')"
    using assms(3) by (simp add: prune_list_flush_def save_bitmap_ok pl'_def f'_def Let_def)
  moreover have "els (rb_deserialize lib (rb_serialize lib (pl_bitmap pl'))) = els (pl_bitmap pl)"
    by (simp add: ok pl'_def)
  ultimately show ?thesis
    using assms(2) by (auto simp: read_or_new_def fs_exists_def read_bitmap_def fs_read_def f'_def pl'_def ok prune_list_ok_def)
qed

lemma reload_ok:
  assumes "croaring_ok lib els" and "no_nesting (els b)" and "\<forall>x\<in>els b. x \<le> 2 ^ 30" and "read_or_new lib f fp = Inr b"
  shows "\<exists>pl. prune_list_open lib f fp = Some (Inr pl) \<and> prune_list_ok els pl \<and>
      pruned (els (pl_bitmap pl)) = prune_closure (pruned (els b))"
    and "pl_path pl0 = Some fp \<Longrightarrow> \<exists>pl. prune_list_discard lib f pl0 = Some (Inr pl) \<and> prune_list_ok els pl \<and>
      pruned (els (pl_bitmap pl)) = prune_closure (pruned (els b))"
proof -
  obtain pl where pl: "prune_list_new lib (Some fp) b = Some pl" "prune_list_ok els pl"
      "pruned (els (pl_bitmap pl)) = prune_closure (pruned (els b))"
    using prune_list_new_ok [OF assms(1-3), of "Some fp"] by auto
  have "\<not> rb_contains lib b 0" using assms(2) by (simp add: croaring_okD [OF assms(1)] no_nesting_def)
  then show "\<exists>pl. prune_list_open lib f fp = Some (Inr pl) \<and> prune_list_ok els pl \<and>
      pruned (els (pl_bitmap pl)) = prune_closure (pruned (els b))"
    using pl init_caches_ok [OF assms(1) pl(2)] by (simp add: prune_list_open_def assms(4))
  show "pl_path pl0 = Some fp \<Longrightarrow> \<exists>pl. prune_list_discard lib f pl0 = Some (Inr pl) \<and> prune_list_ok els pl \<and>
      pruned (els (pl_bitmap pl)) = prune_closure (pruned (els b))"
    using pl by (simp add: prune_list_discard_def assms(4))
qed

section \<open>Properties\<close>



text \<open>C30: The shifts of a prune list count what compaction has removed. For a position that is not pruned, or is
  the root of a pruned subtree, \<open>get_shift\<close> is the number of earlier positions that are pruned and no root,
  and \<open>get_leaf_shift\<close> the number of leaves among them: reading the files at the shifted position skips exactly
  the entries that are no longer there.
\<close>

theorem prune_list_shifts:
  assumes "croaring_ok lib els" and "no_nesting (els b)" and "\<forall>x\<in>els b. x \<le> 2 ^ 30"
    and "prune_list_new lib fp b = Some pl" and "Suc pos0 < 2 ^ 32"
    and "\<not> is_pruned lib pl pos0 \<or> is_pruned_root lib pl pos0"
  shows "get_shift lib pl pos0 =
      Some (card {p. p < pos0 \<and> is_pruned lib pl p \<and> \<not> is_pruned_root lib pl p}) \<and>
    get_leaf_shift lib pl pos0 =
      Some (card {p. p < pos0 \<and> is_pruned lib pl p \<and> \<not> is_pruned_root lib pl p \<and> is_leaf p})"
proof -
  note ok = croaring_okD [OF assms(1)]
  have pl: "prune_list_ok els pl" using prune_list_new_ok [OF assms(1-3), of fp] assms(4) by simp
  then have nn: "no_nesting (els (pl_bitmap pl))" by (simp add: prune_list_ok_def rolled_up_def)
  have iff: "p \<in> compacted (els (pl_bitmap pl)) \<longleftrightarrow> is_pruned lib pl p \<and> \<not> is_pruned_root lib pl p"
    if "p \<le> pos0" for p
    using that assms(5) is_pruned_iff [OF assms(1) nn, of p]
    by (auto simp: compacted_def is_pruned_root_def ok)
  then have n: "pos0 \<notin> compacted (els (pl_bitmap pl))" using assms(6) by blast
  have "{p \<in> compacted (els (pl_bitmap pl)). p < pos0} =
      {p. p < pos0 \<and> is_pruned lib pl p \<and> \<not> is_pruned_root lib pl p}"
    using iff by (auto simp: less_imp_le)
  then have "get_shift lib pl pos0 =
      Some (card {p. p < pos0 \<and> is_pruned lib pl p \<and> \<not> is_pruned_root lib pl p})"
    using shifts_count(1) [OF assms(1) pl assms(5) n] by simp
  moreover have "{p \<in> compacted (els (pl_bitmap pl)). p < pos0 \<and> is_leaf p} =
      {p. p < pos0 \<and> is_pruned lib pl p \<and> \<not> is_pruned_root lib pl p \<and> is_leaf p}"
    using iff by (auto simp: less_imp_le)
  then have "get_leaf_shift lib pl pos0 =
      Some (card {p. p < pos0 \<and> is_pruned lib pl p \<and> \<not> is_pruned_root lib pl p \<and> is_leaf p})"
    using shifts_count(2) [OF assms(1) pl assms(5) n] by simp
  ultimately show ?thesis by simp
qed

theorem prune_list_shifts_witness:
  "\<exists>pl. prune_list_new list_bitmap None [1, 2] = Some pl \<and> get_shift list_bitmap pl 3 = Some 2"
proof -
  have nn: "no_nesting (set [1, 2])" unfolding no_nesting_def in_subtree_def by code_simp
  obtain pl where pl: "prune_list_new list_bitmap None [1, 2] = Some pl" "prune_list_ok set pl"
      "pruned (set (pl_bitmap pl)) = prune_closure (pruned (set [1, 2]))"
    using prune_list_new_ok [OF croaring_ok_list nn] by auto
  have l: "bintree_leftmost 0 = 0" "bintree_leftmost 1 = 1" "bintree_leftmost 2 = 0" "family 0 = (2, 1)"
    "family 1 = (2, 0)" "family 2 = (6, 5)" "is_leaf 3" by code_simp+
  note l = l l [unfolded One_nat_def]
  have cl: "prune_closure (pruned (set [1, 2])) = {0, 1, 2}"
  proof (intro equalityI subsetI)
    fix p assume "p \<in> prune_closure (pruned (set [1, 2]))"
    then show "p \<in> {0, 1, 2}" by induction (auto simp: pruned_def in_subtree_def l)
  next
    have a: "0 \<in> prune_closure (pruned (set [1, 2]))" "1 \<in> prune_closure (pruned (set [1, 2]))"
      by (rule prune_closure.base, simp add: pruned_def in_subtree_def l)+
    fix p assume "p \<in> {0, 1, 2 :: nat}"
    then show "p \<in> prune_closure (pruned (set [1, 2]))"
      using a prune_closure.parent [of 0 "pruned (set [1, 2])"] by (auto simp: l)
  qed
  have nn': "no_nesting (set (pl_bitmap pl))" using pl(2) by (simp add: prune_list_ok_def rolled_up_def)
  have ip: "is_pruned list_bitmap pl p \<longleftrightarrow> p \<in> {0, 1, 2}" if "p \<le> 3" for p
    using is_pruned_iff [OF croaring_ok_list nn', of p] that unfolding pl(3) cl by simp
  have bm: "x \<in> set (pl_bitmap pl) \<longleftrightarrow> x = 3" for x
  proof -
    have sub: "set (pl_bitmap pl) \<subseteq> {1, 2, 3}"
    proof
      fix x assume x: "x \<in> set (pl_bitmap pl)"
      then have "x - 1 \<in> pruned (set (pl_bitmap pl))" using in_subtree_refl by (auto simp: pruned_def intro!: bexI [of _ x])
      then show "x \<in> {1, 2, 3}" unfolding pl(3) cl using no_nesting_pos [OF nn' x] by auto
    qed
    have "2 \<in> pruned (set (pl_bitmap pl))" unfolding pl(3) cl by simp
    then obtain y where y: "y \<in> set (pl_bitmap pl)" "in_subtree 2 (y - 1)" by (auto simp: pruned_def)
    then have y3: "3 \<in> set (pl_bitmap pl)" using sub by (auto simp: in_subtree_def)
    have "1 \<notin> set (pl_bitmap pl)" "2 \<notin> set (pl_bitmap pl)"
      using no_nestingD [OF nn' _ y3, of 1] no_nestingD [OF nn' _ y3, of 2] by (auto simp: in_subtree_def l)
    with sub y3 show ?thesis by auto
  qed
  have rt: "is_pruned_root list_bitmap pl p \<longleftrightarrow> p = 2" if "p \<le> 3" for p
    using that by (simp add: is_pruned_root_def croaring_okD(12) [OF croaring_ok_list] bm)
  have "{p. p < 3 \<and> is_pruned list_bitmap pl p \<and> \<not> is_pruned_root list_bitmap pl p} = {0, 1}"
    using ip rt by auto
  then show ?thesis
    using prune_list_shifts [OF croaring_ok_list nn _ pl(1), of 3] ip [of 3] pl(1) by simp
qed

text \<open>
  \<open>unpruned_leaf_iter\<close> ends and lists, in order and without repetition, the positions (counted from one) of
  the leaves up to the cutoff that are not pruned.
\<close>

theorem unpruned_leaves_listed:
  assumes "croaring_ok lib els" and "prune_list_ok els pl" and "cutoff_pos < 2 ^ 32"
  shows "unpruned_leaf_iter lib pl cutoff_pos =
    Some (filter (\<lambda>x. is_leaf (x - 1) \<and> \<not> is_pruned lib pl (x - 1)) [1..<Suc cutoff_pos])"
proof -
  have nn: "no_nesting (els (pl_bitmap pl))" using assms(2) by (simp add: prune_list_ok_def rolled_up_def)
  have "filter (\<lambda>x. is_leaf (x - 1) \<and> x - 1 \<notin> pruned (els (pl_bitmap pl))) [1..<Suc cutoff_pos] =
      filter (\<lambda>x. is_leaf (x - 1) \<and> \<not> is_pruned lib pl (x - 1)) [1..<Suc cutoff_pos]"
    using assms(3) is_pruned_iff [OF assms(1) nn] by (intro filter_cong) auto
  then show ?thesis
    by (simp add: unpruned_leaf_iter_def unpruned_iter_ok [OF assms(1) nn] conj_commute del: upt_Suc)
qed

theorem unpruned_leaves_listed_witness:
  "\<exists>pl. prune_list_new list_bitmap None [1, 2] = Some pl \<and> unpruned_leaf_iter list_bitmap pl 5 =
    Some (filter (\<lambda>x. is_leaf (x - 1) \<and> \<not> is_pruned list_bitmap pl (x - 1)) [1..<6])"
proof -
  have nn: "no_nesting (set [1, 2])" unfolding no_nesting_def in_subtree_def by code_simp
  obtain pl where "prune_list_new list_bitmap None [1, 2] = Some pl" "prune_list_ok set pl"
    using prune_list_new_ok [OF croaring_ok_list nn] by auto
  then show ?thesis using unpruned_leaves_listed [OF croaring_ok_list, of pl 5] by auto
qed

end
