(* ===== verification/Leaf_Set.thy ===== *)
theory Leaf_Set
  imports Prune_List
begin

text \<open>
  The leaf set of \<open>store/src/leaf_set.rs\<close>: the bitmap of the leaves of a range that are not spent, with the
  copy it had when it was last written. The theorems show that \<open>rewind\<close> undoes what was added and removed
  after a position, and which leaves \<open>removed_pre_cutoff\<close> hands to compaction.
\<close>

section \<open>Definitions\<close>

record 'm leaf_set =
  ls_path :: string
  ls_bitmap :: 'm
  ls_bitmap_bak :: 'm

definition leaf_set_open :: "'m croaring \<Rightarrow> fs \<Rightarrow> string \<Rightarrow> io_error + 'm leaf_set" where
  "leaf_set_open lib f file_path =
     rbind (read_or_new lib f file_path) (\<lambda>bitmap.
       Inr \<lparr> ls_path = file_path, ls_bitmap = bitmap, ls_bitmap_bak = bitmap \<rparr>)"

definition leaf_set_flush :: "'m croaring \<Rightarrow> fs \<Rightarrow> 'm leaf_set \<Rightarrow> io_error + 'm leaf_set \<times> fs" where
  "leaf_set_flush lib f ls =
     (let ls = ls \<lparr> ls_bitmap := rb_run_optimize lib (ls_bitmap ls) \<rparr>
      in rbind (save_via_temp_file f (ls_path ls) tmp_suffix (\<lambda>bs. Inr (bs @ rb_serialize lib (ls_bitmap ls)))) (\<lambda>f.
         Inr (ls \<lparr> ls_bitmap_bak := ls_bitmap ls \<rparr>, f)))"

definition leaf_set_copy_snapshot :: "'m croaring \<Rightarrow> fs \<Rightarrow> string \<Rightarrow> string \<Rightarrow> io_error + fs" where
  "leaf_set_copy_snapshot lib f file_path cp_file_path =
     (if \<not> fs_exists f cp_file_path then Inr f
      else rbind (read_bitmap lib f cp_file_path) (\<lambda>bitmap.
        let ls = \<lparr> ls_path = file_path, ls_bitmap = bitmap, ls_bitmap_bak = bitmap \<rparr>
        in rbind (leaf_set_flush lib f ls) (\<lambda>(ls, f). Inr f)))"

definition unpruned_pre_cutoff :: "'m croaring \<Rightarrow> 'm leaf_set \<Rightarrow> nat \<Rightarrow> 'm prune_list \<Rightarrow> 'm" where
  "unpruned_pre_cutoff lib ls cutoff_pos pl =
     rb_of lib (map as_u32 (filter (\<lambda>x. is_leaf (x - 1) \<and> \<not> is_pruned lib pl (x - 1)) [1..<Suc cutoff_pos]))"

definition removed_pre_cutoff :: "'m croaring \<Rightarrow> 'm leaf_set \<Rightarrow> nat \<Rightarrow> 'm \<Rightarrow> 'm prune_list \<Rightarrow> 'm" where
  "removed_pre_cutoff lib ls cutoff_pos rewind_rm_pos pl =
     (let bitmap = ls_bitmap ls;
          bitmap = rb_remove_range lib bitmap (as_u32 (cutoff_pos + 1))
                     (case rb_maximum lib bitmap of None \<Rightarrow> 0 | Some m \<Rightarrow> m);
          bitmap = rb_or lib bitmap rewind_rm_pos
      in rb_and lib (rb_flip lib bitmap 1 (as_u32 (cutoff_pos + 1))) (unpruned_pre_cutoff lib ls cutoff_pos pl))"

definition leaf_set_rewind :: "'m croaring \<Rightarrow> 'm leaf_set \<Rightarrow> nat \<Rightarrow> 'm \<Rightarrow> 'm leaf_set" where
  "leaf_set_rewind lib ls cutoff_pos rewind_rm_pos =
     (let bitmap = rb_remove_range lib (ls_bitmap ls) (as_u32 (cutoff_pos + 1))
                     (case rb_maximum lib (ls_bitmap ls) of None \<Rightarrow> 0 | Some m \<Rightarrow> m)
      in ls \<lparr> ls_bitmap := rb_or lib bitmap rewind_rm_pos \<rparr>)"

definition leaf_set_add :: "'m croaring \<Rightarrow> 'm leaf_set \<Rightarrow> nat \<Rightarrow> 'm leaf_set" where
  "leaf_set_add lib ls pos0 = ls \<lparr> ls_bitmap := rb_add lib (ls_bitmap ls) (pos1_u32 pos0) \<rparr>"

definition leaf_set_remove :: "'m croaring \<Rightarrow> 'm leaf_set \<Rightarrow> nat \<Rightarrow> 'm leaf_set" where
  "leaf_set_remove lib ls pos0 = ls \<lparr> ls_bitmap := rb_remove lib (ls_bitmap ls) (pos1_u32 pos0) \<rparr>"

text \<open>The snapshot is written next to the file, under the displayed hash of the header.\<close>

definition leaf_set_snapshot :: "'m croaring \<Rightarrow> fs \<Rightarrow> 'm leaf_set \<Rightarrow> string \<Rightarrow> io_error + fs" where
  "leaf_set_snapshot lib f ls header_hash =
     (let cp_bitmap = rb_run_optimize lib (ls_bitmap ls);
          cp_path = ls_path ls @ ''.'' @ header_hash
      in Inr ((fs_create f cp_path) (cp_path \<mapsto> rb_serialize lib cp_bitmap)))"

definition leaf_set_discard :: "'m leaf_set \<Rightarrow> 'm leaf_set" where
  "leaf_set_discard ls = ls \<lparr> ls_bitmap := ls_bitmap_bak ls \<rparr>"

definition leaf_set_includes :: "'m croaring \<Rightarrow> 'm leaf_set \<Rightarrow> nat \<Rightarrow> bool" where
  "leaf_set_includes lib ls pos0 = rb_contains lib (ls_bitmap ls) (pos1_u32 pos0)"

definition leaf_set_len :: "'m croaring \<Rightarrow> 'm leaf_set \<Rightarrow> nat" where
  "leaf_set_len lib ls = rb_cardinality lib (ls_bitmap ls)"

definition leaf_set_n_unpruned_leaves_to_index :: "'m croaring \<Rightarrow> 'm leaf_set \<Rightarrow> nat \<Rightarrow> nat" where
  "leaf_set_n_unpruned_leaves_to_index lib ls to_index =
     rb_range_cardinality lib (ls_bitmap ls) 0 (as_u32 to_index)"

definition leaf_set_is_empty :: "'m croaring \<Rightarrow> 'm leaf_set \<Rightarrow> bool" where
  "leaf_set_is_empty lib ls \<longleftrightarrow> leaf_set_len lib ls = 0"

definition leaf_set_iter :: "'m croaring \<Rightarrow> 'm leaf_set \<Rightarrow> nat list" where
  "leaf_set_iter lib ls = rb_iter lib (ls_bitmap ls)"

section \<open>Lemmas\<close>

lemma remove_after_cutoff:
  assumes "croaring_ok lib els" and "cutoff_pos + 1 < 2 ^ 32"
  shows "els (rb_remove_range lib b (as_u32 (cutoff_pos + 1)) (case rb_maximum lib b of None \<Rightarrow> 0 | Some m \<Rightarrow> m)) =
    {x \<in> els b. x \<le> cutoff_pos}"
  using max_or_zero [OF assms(1), of b "case rb_maximum lib b of None \<Rightarrow> 0 | Some m \<Rightarrow> m"] assms(2)
  by (auto simp: croaring_okD(5) [OF assms(1)])

lemma leaf_set_rewind_els:
  assumes "croaring_ok lib els" and "cutoff_pos + 1 < 2 ^ 32"
  shows "els (ls_bitmap (leaf_set_rewind lib ls cutoff_pos rm)) = {x \<in> els (ls_bitmap ls). x \<le> cutoff_pos} \<union> els rm"
  using remove_after_cutoff [OF assms, of "ls_bitmap ls"]
  by (simp add: leaf_set_rewind_def croaring_okD(6) [OF assms(1)] Let_def)

lemma unpruned_pre_cutoff_els:
  assumes "croaring_ok lib els" and "cutoff_pos + 1 < 2 ^ 32"
  shows "els (unpruned_pre_cutoff lib ls cutoff_pos pl) =
    {x. 1 \<le> x \<and> x \<le> cutoff_pos \<and> is_leaf (x - 1) \<and> \<not> is_pruned lib pl (x - 1)}"
proof -
  have "map as_u32 (filter P [1..<Suc cutoff_pos]) = filter P [1..<Suc cutoff_pos]" for P
    using assms(2) by (intro map_idI) (auto simp: less_Suc_eq_le)
  then show ?thesis
    by (auto simp: unpruned_pre_cutoff_def croaring_okD(2) [OF assms(1)])
qed

lemma leaf_set_includes_iff:
  "croaring_ok lib els \<Longrightarrow> Suc pos0 < 2 ^ 32 \<Longrightarrow> leaf_set_includes lib ls pos0 \<longleftrightarrow> Suc pos0 \<in> els (ls_bitmap ls)"
  by (simp add: leaf_set_includes_def croaring_okD(12))

lemma removed_pre_cutoff_els:
  assumes "croaring_ok lib els" and "cutoff_pos + 1 < 2 ^ 32"
  shows "els (removed_pre_cutoff lib ls cutoff_pos rm pl) =
    {x. 1 \<le> x \<and> x \<le> cutoff_pos \<and> is_leaf (x - 1) \<and> \<not> is_pruned lib pl (x - 1) \<and>
        \<not> leaf_set_includes lib ls (x - 1) \<and> x \<notin> els rm}"
proof -
  have inc: "leaf_set_includes lib ls (x - 1) \<longleftrightarrow> x \<in> els (ls_bitmap ls)" if "1 \<le> x" "x \<le> cutoff_pos" for x
    using leaf_set_includes_iff [OF assms(1), of "x - 1"] that assms(2) by simp
  have c: "as_u32 (Suc cutoff_pos) = Suc cutoff_pos" using assms(2) by simp
  show ?thesis
    using inc remove_after_cutoff [OF assms, of "ls_bitmap ls"] unfolding removed_pre_cutoff_def Let_def
    by (auto simp: croaring_okD(6,7,8) [OF assms(1)] unpruned_pre_cutoff_els [OF assms] c)
qed

text \<open>A leaf set that is flushed and opened again has the same members; \<open>discard\<close> goes back to the last flush.\<close>

lemma leaf_set_flush_ok:
  assumes "croaring_ok lib els"
  shows "\<exists>ls' f'. leaf_set_flush lib f ls = Inr (ls', f') \<and> els (ls_bitmap ls') = els (ls_bitmap ls) \<and>
    els (ls_bitmap_bak ls') = els (ls_bitmap ls) \<and> ls_path ls' = ls_path ls \<and>
    (\<exists>b. read_or_new lib f' (ls_path ls) = Inr b \<and> els b = els (ls_bitmap ls)) \<and>
    (\<forall>p. p \<noteq> ls_path ls \<and> p \<noteq> ls_path ls @ tmp_suffix \<longrightarrow> f' p = f p)"
  by (simp add: leaf_set_flush_def save_bitmap_ok Let_def read_or_new_def fs_exists_def read_bitmap_def fs_read_def
      croaring_okD [OF assms])

section \<open>Properties\<close>

text \<open>What happens to a leaf set between a block and a rewind to it: leaves are added and removed.\<close>

datatype leaf_op = AddLeaf nat | RemoveLeaf nat

fun run_leaf_op :: "'m croaring \<Rightarrow> leaf_op \<Rightarrow> 'm leaf_set \<Rightarrow> 'm leaf_set" where
  "run_leaf_op lib (AddLeaf pos0) ls = leaf_set_add lib ls pos0"
| "run_leaf_op lib (RemoveLeaf pos0) ls = leaf_set_remove lib ls pos0"

fun leaf_op_after :: "nat \<Rightarrow> leaf_op \<Rightarrow> bool" where
  "leaf_op_after cutoff (AddLeaf pos0) = (cutoff \<le> pos0 \<and> Suc pos0 < 2 ^ 32)"
| "leaf_op_after cutoff (RemoveLeaf pos0) = (Suc pos0 < 2 ^ 32)"

lemma run_leaf_ops_below:
  assumes "croaring_ok lib els" and "\<forall>op\<in>set ops. leaf_op_after cutoff op"
  shows "{x \<in> els (ls_bitmap (fold (run_leaf_op lib) ops ls)). x \<le> cutoff} =
    {x \<in> els (ls_bitmap ls). x \<le> cutoff} - {Suc pos0 | pos0. RemoveLeaf pos0 \<in> set ops}"
  using assms(2)
proof (induction ops arbitrary: ls)
  case (Cons op ops)
  have "{x \<in> els (ls_bitmap (run_leaf_op lib op ls)). x \<le> cutoff} =
      {x \<in> els (ls_bitmap ls). x \<le> cutoff} - {Suc pos0 | pos0. op = RemoveLeaf pos0}"
    using Cons.prems by (cases op) (auto simp: leaf_set_add_def leaf_set_remove_def croaring_okD [OF assms(1)])
  with Cons show ?case by auto
qed auto

text \<open>C31: Rewinding a leaf set to a position undoes everything that was done since the range had that size. After any
  sequence of additions behind the position and of removals anywhere, \<open>rewind\<close> with the bitmap of the removed
  leaves that were there gives back the leaf set as it was.
\<close>

theorem leaf_set_rewind_undoes:
  assumes "croaring_ok lib els" and "cutoff_pos + 1 < 2 ^ 32"
    and "\<forall>x\<in>els (ls_bitmap ls). x \<le> cutoff_pos" and "\<forall>op\<in>set ops. leaf_op_after cutoff_pos op"
    and "els rm = {x \<in> els (ls_bitmap ls). \<exists>pos0. x = Suc pos0 \<and> RemoveLeaf pos0 \<in> set ops}"
  shows "els (ls_bitmap (leaf_set_rewind lib (fold (run_leaf_op lib) ops ls) cutoff_pos rm)) = els (ls_bitmap ls)"
  unfolding leaf_set_rewind_els [OF assms(1,2)] run_leaf_ops_below [OF assms(1,4)] assms(5) using assms(3) by auto

theorem leaf_set_rewind_undoes_witness:
  "set (ls_bitmap (leaf_set_rewind list_bitmap
     (fold (run_leaf_op list_bitmap) [AddLeaf 3, RemoveLeaf 0, AddLeaf 4, RemoveLeaf 3]
       \<lparr> ls_path = [], ls_bitmap = [1, 2], ls_bitmap_bak = [] \<rparr>) 3 [1])) = {1, 2}"
proof -
  define ls where "ls = \<lparr> ls_path = [], ls_bitmap = [1, 2 :: nat], ls_bitmap_bak = [] \<rparr>"
  have "set [1 :: nat] = {x \<in> set (ls_bitmap ls). \<exists>pos0. x = Suc pos0 \<and>
      RemoveLeaf pos0 \<in> set [AddLeaf 3, RemoveLeaf 0, AddLeaf 4, RemoveLeaf 3]}"
    by (auto simp: ls_def)
  from leaf_set_rewind_undoes [OF croaring_ok_list _ _ _ this, of 3]
  have "set (ls_bitmap (leaf_set_rewind list_bitmap
      (fold (run_leaf_op list_bitmap) [AddLeaf 3, RemoveLeaf 0, AddLeaf 4, RemoveLeaf 3] ls) 3 [1])) = set (ls_bitmap ls)"
    by (simp add: ls_def)
  then show ?thesis by (simp add: ls_def)
qed

text \<open>
  The leaves handed to compaction are those up to the cutoff that are spent at the cutoff and whose data is
  still in the files: \<open>removed_pre_cutoff\<close> has exactly the positions of leaves that are not pruned, are not in the
  leaf set and are not among those a rewind to the cutoff would bring back.
\<close>

theorem removed_pre_cutoff_exact:
  assumes "croaring_ok lib els" and "cutoff_pos + 1 < 2 ^ 32"
  shows "els (removed_pre_cutoff lib ls cutoff_pos rm pl) =
    {x. 1 \<le> x \<and> x \<le> cutoff_pos \<and> is_leaf (x - 1) \<and> \<not> is_pruned lib pl (x - 1) \<and>
        \<not> leaf_set_includes lib ls (x - 1) \<and> x \<notin> els rm}"
  by (rule removed_pre_cutoff_els [OF assms])

theorem removed_pre_cutoff_exact_witness:
  "set (removed_pre_cutoff list_bitmap \<lparr> ls_path = [], ls_bitmap = [1, 2], ls_bitmap_bak = [] \<rparr> 7 [4]
     \<lparr> pl_path = None, pl_bitmap = [], shift_cache = [], leaf_shift_cache = [] \<rparr>) \<inter> {1, 2, 4, 5} = {5}"
proof -
  have "is_leaf 4" by code_simp
  then show ?thesis
    using removed_pre_cutoff_exact [OF croaring_ok_list, of 7 "\<lparr> ls_path = [], ls_bitmap = [1, 2], ls_bitmap_bak = [] \<rparr>" "[4]"]
    by (auto simp: leaf_set_includes_def is_pruned_def is_pruned_root_def list_bitmap_def Let_def)
qed

end
