(* ===== verification/Append_File.thy ===== *)
theory Append_File
  imports Pmmr Store_Files
begin

text \<open>
  The append-only files of \<open>store/src/types.rs\<close>: a file of elements with a buffer of those that are not written
  yet, a position to which it has been rewound, and for elements of variable size a second file with the offset
  and the size of each.

  A memory map is the contents of the file when it was mapped. The file handle is not part of the model: the
  source opens the path anew before it writes. A call that does not return (a reader that succeeds without
  consuming anything) is \<open>None\<close>. The theorems relate a file to the list of its elements.
\<close>

section \<open>Definitions\<close>

record size_entry =
  se_offset :: u64
  se_size :: u16

definition size_entry_len :: nat where
  "size_entry_len = 8 + 2"

definition size_entry_read :: "size_entry readable_fn" where
  "size_entry_read r =
     rbind (read_u64 r) (\<lambda>(off, r). rbind (read_u16 r) (\<lambda>(sz, r). Inr (\<lparr> se_offset = off, se_size = sz \<rparr>, r)))"

definition size_entry_write :: "size_entry writeable" where
  "size_entry_write c e = Inr (write_u64 (se_offset e) @ write_u16 (se_size e))"

datatype append_only_file =
    AppendOnlyFile (aof_path: string) (aof_size_info: size_info) (aof_version: protocol_version)
      (aof_mmap: "bytes option") (aof_buffer: bytes) (buffer_start_pos: nat) (buffer_start_pos_bak: nat)
  and size_info =
    FixedSize nat
  | VariableSize append_only_file

text \<open>What \<open>OpenOptions\<close>, \<open>set_len\<close> and writing to a file opened for appending do to the files.\<close>

definition fs_len :: "fs \<Rightarrow> string \<Rightarrow> io_error + nat" where
  "fs_len f p = rbind (fs_read f p) (\<lambda>bs. Inr (length bs))"

definition fs_touch :: "fs \<Rightarrow> string \<Rightarrow> fs" where
  "fs_touch f p = (if f p = None then f (p \<mapsto> []) else f)"

definition fs_set_len :: "fs \<Rightarrow> string \<Rightarrow> nat \<Rightarrow> fs" where
  "fs_set_len f p n = f (p := map_option (\<lambda>bs. take n bs @ replicate (n - length bs) 0) (f p))"

definition fs_append :: "fs \<Rightarrow> string \<Rightarrow> bytes \<Rightarrow> fs" where
  "fs_append f p bs = f (p := map_option (\<lambda>old. old @ bs) (f p))"

text \<open>\<open>Path::with_extension\<close>: the part of the file name after its last dot is replaced.\<close>

definition with_extension :: "string \<Rightarrow> string \<Rightarrow> string" where
  "with_extension p ext =
     (let r = rev p;
          nm = takeWhile (\<lambda>c. c \<noteq> CHR ''/'') r;
          dir = drop (length nm) r;
          stem = drop (Suc (length (takeWhile (\<lambda>c. c \<noteq> CHR ''.'') nm))) nm
      in rev dir @ rev (if stem = [] then nm else stem) @ CHR ''.'' # ext)"

fun size_in_elmts :: "fs \<Rightarrow> append_only_file \<Rightarrow> io_error + nat" where
  "size_in_elmts f (AppendOnlyFile p si v m b s k) =
     (case si of
        FixedSize elmt_size \<Rightarrow> rbind (fs_len f p) (\<lambda>l. Inr (l div elmt_size))
      | VariableSize size_file \<Rightarrow> size_in_elmts f size_file)"

fun size_unsync_in_elmts :: "append_only_file \<Rightarrow> io_error + nat" where
  "size_unsync_in_elmts (AppendOnlyFile p si v m b s k) =
     (case si of
        FixedSize elmt_size \<Rightarrow> Inr (s + length b div elmt_size)
      | VariableSize size_file \<Rightarrow> size_unsync_in_elmts size_file)"

definition read_from_buffer :: "bytes \<Rightarrow> nat \<Rightarrow> nat \<Rightarrow> bytes" where
  "read_from_buffer buffer off len = (if length buffer < off + len then [] else take len (drop off buffer))"

definition read_from_mmap :: "bytes option \<Rightarrow> nat \<Rightarrow> nat \<Rightarrow> bytes" where
  "read_from_mmap mmap off len =
     (case mmap of
        Some mm \<Rightarrow> if length mm < off + len then [] else take len (drop off mm)
      | None \<Rightarrow> [])"

fun aof_read :: "append_only_file \<Rightarrow> nat \<Rightarrow> io_error + bytes"
  and offset_and_size :: "size_info \<Rightarrow> nat \<Rightarrow> io_error + nat \<times> nat" where
  "aof_read (AppendOnlyFile p si v m b s k) pos =
     rbind (size_unsync_in_elmts (AppendOnlyFile p si v m b s k)) (\<lambda>n.
       if n \<le> pos then Inr []
       else rbind (offset_and_size si pos) (\<lambda>(off, len).
         if pos < s then Inr (read_from_mmap m off len)
         else rbind (offset_and_size si s) (\<lambda>(buffer_offset, _).
           Inr (read_from_buffer b (off - buffer_offset) len))))"
| "offset_and_size (FixedSize elmt_size) pos = Inr (pos * elmt_size, elmt_size)"
| "offset_and_size (VariableSize size_file) pos =
     rbind (aof_read size_file pos) (\<lambda>data.
       rbind (map_err IoOther (deserialize size_entry_read data (aof_version size_file) DeserFull)) (\<lambda>entry.
         Inr (unat (se_offset entry), unat (se_size entry))))"

definition read_as_elmt :: "'a readable_fn \<Rightarrow> append_only_file \<Rightarrow> nat \<Rightarrow> io_error + 'a" where
  "read_as_elmt rd a pos =
     rbind (aof_read a pos) (\<lambda>data. map_err IoOther (deserialize rd data (aof_version a) DeserFull))"

fun aof_append :: "append_only_file \<Rightarrow> bytes \<Rightarrow> io_error + append_only_file" where
  "aof_append (AppendOnlyFile p si v m b s k) bs =
     rbind (case si of
        FixedSize elmt_size \<Rightarrow> Inr (FixedSize elmt_size)
      | VariableSize size_file \<Rightarrow>
          rbind (size_unsync_in_elmts size_file) (\<lambda>next_pos.
          rbind (if next_pos = 0 then Inr 0
                 else rbind (read_as_elmt size_entry_read size_file (next_pos - 1)) (\<lambda>prev_entry.
                   Inr (se_offset prev_entry + ucast (se_size prev_entry)))) (\<lambda>off.
          rbind (map_err IoOther (ser_vec size_entry_write \<lparr> se_offset = off, se_size = of_nat (length bs) \<rparr>
                   (aof_version size_file))) (\<lambda>entry.
          rbind (aof_append size_file entry) (\<lambda>size_file. Inr (VariableSize size_file))))))
     (\<lambda>si. Inr (AppendOnlyFile p si v m (b @ bs) s k))"

definition append_elmt :: "'a writeable \<Rightarrow> append_only_file \<Rightarrow> 'a \<Rightarrow> io_error + append_only_file" where
  "append_elmt wr a data =
     rbind (map_err IoOther (ser_vec wr data (aof_version a))) (\<lambda>bytes. aof_append a bytes)"

definition append_elmts :: "'a writeable \<Rightarrow> append_only_file \<Rightarrow> 'a list \<Rightarrow> io_error + append_only_file" where
  "append_elmts wr a data = try_fold (\<lambda>x a. append_elmt wr a x) data a"

fun aof_rewind :: "append_only_file \<Rightarrow> nat \<Rightarrow> append_only_file" where
  "aof_rewind (AppendOnlyFile p si v m b s k) pos =
     AppendOnlyFile p
       (case si of
          FixedSize elmt_size \<Rightarrow> FixedSize elmt_size
        | VariableSize size_file \<Rightarrow> VariableSize (aof_rewind size_file pos))
       v m b pos (if k = 0 then s else k)"

fun aof_flush :: "fs \<Rightarrow> append_only_file \<Rightarrow> io_error + append_only_file \<times> fs" where
  "aof_flush f (AppendOnlyFile p si v m b s k) =
     rbind (case si of
        FixedSize elmt_size \<Rightarrow> Inr (FixedSize elmt_size, f)
      | VariableSize size_file \<Rightarrow>
          rbind (aof_flush f size_file) (\<lambda>(size_file, f). Inr (VariableSize size_file, f))) (\<lambda>(si, f).
     rbind (if 0 < k then
              (let f = fs_touch f p
               in if s = 0 then Inr (fs_set_len f p 0)
                  else rbind (offset_and_size si (s - 1)) (\<lambda>(off, sz). Inr (fs_set_len f p (off + sz))))
            else Inr f) (\<lambda>f.
     let f = fs_append (fs_touch f p) p b
     in rbind (size_in_elmts f (AppendOnlyFile p si v m [] s 0)) (\<lambda>n.
        rbind (fs_len f p) (\<lambda>len.
        Inr (AppendOnlyFile p si v (if len = 0 then None else f p) [] n 0, f)))))"

fun aof_discard :: "append_only_file \<Rightarrow> append_only_file" where
  "aof_discard (AppendOnlyFile p si v m b s k) =
     AppendOnlyFile p
       (case si of
          FixedSize elmt_size \<Rightarrow> FixedSize elmt_size
        | VariableSize size_file \<Rightarrow> VariableSize (aof_discard size_file))
       v m [] (if 0 < k then k else s) 0"

fun aof_init :: "fs \<Rightarrow> append_only_file \<Rightarrow> io_error + append_only_file \<times> fs" where
  "aof_init f (AppendOnlyFile p si v m b s k) =
     rbind (case si of
        FixedSize elmt_size \<Rightarrow> Inr (FixedSize elmt_size, f)
      | VariableSize size_file \<Rightarrow>
          rbind (aof_init f size_file) (\<lambda>(size_file, f). Inr (VariableSize size_file, f))) (\<lambda>(si, f).
     let f = fs_touch f p
     in rbind (fs_len f p) (\<lambda>len.
        if len = 0 then Inr (AppendOnlyFile p si v m b 0 k, f)
        else rbind (size_in_elmts f (AppendOnlyFile p si v (f p) b s k)) (\<lambda>n.
          Inr (AppendOnlyFile p si v (f p) b n k, f))))"

definition sum_sizes :: "append_only_file \<Rightarrow> io_error + nat" where
  "sum_sizes a =
     try_fold (\<lambda>pos sm. rbind (read_as_elmt size_entry_read a pos) (\<lambda>entry. Inr (sm + unat (se_size entry))))
       [0..<buffer_start_pos a] 0"

fun aof_release :: "append_only_file \<Rightarrow> append_only_file" where
  "aof_release (AppendOnlyFile p si v m b s k) =
     AppendOnlyFile p
       (case si of
          FixedSize elmt_size \<Rightarrow> FixedSize elmt_size
        | VariableSize size_file \<Rightarrow> VariableSize (aof_release size_file))
       v None b s k"

definition aof_replace :: "fs \<Rightarrow> append_only_file \<Rightarrow> string \<Rightarrow> io_error + append_only_file \<times> fs" where
  "aof_replace f a with_path =
     (let a = aof_release a
      in rbind (fs_remove f (aof_path a)) (\<lambda>f.
         rbind (fs_rename f with_path (aof_path a)) (\<lambda>f. Inr (a, f))))"

definition tmp_path :: "append_only_file \<Rightarrow> string" where
  "tmp_path a = with_extension (aof_path a) ''tmp''"

partial_function (option) prune_loop ::
    "'a readable_fn \<Rightarrow> 'a writeable \<Rightarrow> protocol_version \<Rightarrow> reader \<Rightarrow> nat list \<Rightarrow> nat \<Rightarrow> bytes \<Rightarrow>
     (io_error + bytes) option" where
  "prune_loop rd wr v r prune_pos current_pos out =
     (case rd r of
        Inl _ \<Rightarrow> Some (Inr out)
      | Inr (elmt, r) \<Rightarrow>
          if current_pos \<in> set prune_pos
          then prune_loop rd wr v r (tl prune_pos) (current_pos + 1) out
          else (case wr (full_ctx v) elmt of
                  Inl e \<Rightarrow> Some (Inl (IoOther e))
                | Inr bs \<Rightarrow> prune_loop rd wr v r prune_pos (current_pos + 1) (out @ bs)))"

definition aof_write_tmp_pruned ::
    "'a readable_fn \<Rightarrow> 'a writeable \<Rightarrow> fs \<Rightarrow> append_only_file \<Rightarrow> nat list \<Rightarrow> (io_error + fs) option" where
  "aof_write_tmp_pruned rd wr f a prune_pos =
     (case fs_read f (aof_path a) of
        Inl e \<Rightarrow> Some (Inl e)
      | Inr bs \<Rightarrow>
          map_option (\<lambda>res. rbind res (\<lambda>out. Inr (f (tmp_path a \<mapsto> out))))
            (prune_loop rd wr (aof_version a) (streaming_new bs (aof_version a)) prune_pos 0 []))"

partial_function (option) size_loop ::
    "'a readable_fn \<Rightarrow> protocol_version \<Rightarrow> reader \<Rightarrow> nat \<Rightarrow> bytes \<Rightarrow> (io_error + bytes) option" where
  "size_loop rd v r current_offset out =
     (case rd r of
        Inl _ \<Rightarrow> Some (Inr out)
      | Inr (_, r) \<Rightarrow>
          (let sz = of_nat (rd_count r - current_offset);
               entry = \<lparr> se_offset = of_nat current_offset, se_size = sz \<rparr>
           in case size_entry_write (full_ctx v) entry of
                Inl e \<Rightarrow> Some (Inl (IoOther e))
              | Inr bs \<Rightarrow> size_loop rd v r (current_offset + unat sz) (out @ bs)))"

definition rebuild_size_file ::
    "'a readable_fn \<Rightarrow> fs \<Rightarrow> append_only_file \<Rightarrow> (io_error + append_only_file \<times> fs) option" where
  "rebuild_size_file rd f a =
     (case aof_size_info a of
        FixedSize n \<Rightarrow> Some (Inr (a, f))
      | VariableSize size_file \<Rightarrow>
          (let tmp = tmp_path size_file
           in case fs_read f (aof_path a) of
                Inl e \<Rightarrow> Some (Inl e)
              | Inr bs \<Rightarrow>
                  map_option (\<lambda>res. rbind res (\<lambda>out.
                      rbind (aof_replace (f (tmp \<mapsto> out)) size_file tmp) (\<lambda>(size_file, f).
                        Inr (AppendOnlyFile (aof_path a) (VariableSize size_file) (aof_version a) (aof_mmap a)
                               (aof_buffer a) (buffer_start_pos a) (buffer_start_pos_bak a), f))))
                    (size_loop rd (aof_version a) (streaming_new bs (aof_version a)) 0 [])))"

definition aof_replace_with_tmp ::
    "'a readable_fn \<Rightarrow> fs \<Rightarrow> append_only_file \<Rightarrow> (io_error + append_only_file \<times> fs) option" where
  "aof_replace_with_tmp rd f a =
     (case aof_replace f a (tmp_path a) of
        Inl e \<Rightarrow> Some (Inl e)
      | Inr (a, f) \<Rightarrow>
          map_option (\<lambda>res. rbind res (\<lambda>(a, f). aof_init f a)) (rebuild_size_file rd f a))"

definition aof_open ::
    "'a readable_fn \<Rightarrow> fs \<Rightarrow> string \<Rightarrow> size_info \<Rightarrow> protocol_version \<Rightarrow>
     (io_error + append_only_file \<times> fs) option" where
  "aof_open rd f p si v =
     (case aof_init f (AppendOnlyFile p si v None [] 0 0) of
        Inl e \<Rightarrow> Some (Inl e)
      | Inr (a, f) \<Rightarrow>
          (case fs_len f p of
             Inl e \<Rightarrow> Some (Inl e)
           | Inr expected_size \<Rightarrow>
               (case aof_size_info a of
                  FixedSize n \<Rightarrow> Some (Inr (a, f))
                | VariableSize size_file \<Rightarrow>
                    (case sum_sizes size_file of
                       Inl e \<Rightarrow> Some (Inl e)
                     | Inr sm \<Rightarrow>
                         if sm \<noteq> expected_size
                         then map_option (\<lambda>res. rbind res (\<lambda>(a, f). aof_init f a)) (rebuild_size_file rd f a)
                         else Some (Inr (a, f))))))"

text \<open>
  \<open>DataFile\<close> wraps a file; its positions count from one. Subtracting one from position zero wraps around.
\<close>

definition data_append :: "'a writeable \<Rightarrow> append_only_file \<Rightarrow> 'a \<Rightarrow> io_error + nat \<times> append_only_file" where
  "data_append wr a data =
     rbind (append_elmt wr a data) (\<lambda>a.
       Inr (case size_unsync_in_elmts a of Inr n \<Rightarrow> n | Inl _ \<Rightarrow> 0, a))"

definition data_extend_from_slice ::
    "'a writeable \<Rightarrow> append_only_file \<Rightarrow> 'a list \<Rightarrow> io_error + nat \<times> append_only_file" where
  "data_extend_from_slice wr a data =
     rbind (append_elmts wr a data) (\<lambda>a.
       Inr (case size_unsync_in_elmts a of Inr n \<Rightarrow> n | Inl _ \<Rightarrow> 0, a))"

definition data_read :: "'a readable_fn \<Rightarrow> append_only_file \<Rightarrow> nat \<Rightarrow> 'a option" where
  "data_read rd a position =
     (case read_as_elmt rd a (if position = 0 then 2 ^ 64 - 1 else position - 1) of
        Inr x \<Rightarrow> Some x
      | Inl _ \<Rightarrow> None)"

definition data_size :: "fs \<Rightarrow> append_only_file \<Rightarrow> nat" where
  "data_size f a = (case size_in_elmts f a of Inr n \<Rightarrow> n | Inl _ \<Rightarrow> 0)"

definition data_write_tmp_pruned ::
    "'a readable_fn \<Rightarrow> 'a writeable \<Rightarrow> fs \<Rightarrow> append_only_file \<Rightarrow> nat list \<Rightarrow> (io_error + fs) option" where
  "data_write_tmp_pruned rd wr f a prune_pos = aof_write_tmp_pruned rd wr f a (map (\<lambda>x. x - 1) prune_pos)"

section \<open>Files as lists of elements\<close>

interpretation size_entry_codec: codec size_entry_write size_entry_read "\<lambda>_ _. True"
  by (rule codec_upcomingI [where enc = "\<lambda>_ e. write_u64 (se_offset e) @ write_u16 (se_size e)"])
    (auto simp: size_entry_write_def size_entry_read_def upcoming_append read_upcoming)

text \<open>The bytes of a list of elements, and where the bytes of one of them are.\<close>

definition cat :: "('a \<Rightarrow> bytes) \<Rightarrow> 'a list \<Rightarrow> bytes" where
  "cat e xs = concat (map e xs)"

lemma cat_simps [simp]: "cat e [] = []" "cat e (x # xs) = e x @ cat e xs" "cat e (xs @ ys) = cat e xs @ cat e ys"
  by (simp_all add: cat_def)

lemma cat_split: "i < length xs \<Longrightarrow> cat e xs = cat e (take i xs) @ e (xs ! i) @ cat e (drop (Suc i) xs)"
  by (subst id_take_nth_drop [of i xs]) auto

lemma slice_cat:
  assumes "i < length xs"
  shows "take (length (e (xs ! i))) (drop (length (cat e (take i xs))) (cat e xs)) = e (xs ! i)"
    and "length (cat e (take i xs)) + length (e (xs ! i)) \<le> length (cat e xs)"
  by (simp_all add: cat_split [OF assms])

lemma take_cat: "take (length (cat e (take k xs))) (cat e xs) = cat e (take k xs)"
  using cat_simps(3) [of e "take k xs" "drop k xs"] by simp

lemma length_cat_fixed: "\<forall>x\<in>set xs. length (e x) = n \<Longrightarrow> length (cat e xs) = n * length xs"
  by (induction xs) auto

lemma cat_eq_Nil_iff: "\<forall>x\<in>set xs. e x \<noteq> [] \<Longrightarrow> cat e xs = [] \<longleftrightarrow> xs = []"
  by (cases xs) auto

text \<open>
  \<open>core_rep e f a disk k pend\<close>: the file has the elements \<open>disk\<close>, is rewound to the first \<open>k\<close> of them, and
  the elements \<open>pend\<close> are in the buffer.
\<close>

definition core_rep :: "('a \<Rightarrow> bytes) \<Rightarrow> fs \<Rightarrow> append_only_file \<Rightarrow> 'a list \<Rightarrow> nat \<Rightarrow> 'a list \<Rightarrow> bool" where
  "core_rep e f a disk k pend \<longleftrightarrow>
     f (aof_path a) = Some (cat e disk) \<and> aof_buffer a = cat e pend \<and> buffer_start_pos a = k \<and>
     k \<le> length disk \<and> (disk \<noteq> [] \<longrightarrow> aof_mmap a = Some (cat e disk)) \<and>
     (buffer_start_pos_bak a = 0 \<and> k = length disk \<or> 0 < length disk \<and> buffer_start_pos_bak a = length disk)"

definition fixed_rep :: "('a \<Rightarrow> bytes) \<Rightarrow> nat \<Rightarrow> fs \<Rightarrow> append_only_file \<Rightarrow> 'a list \<Rightarrow> nat \<Rightarrow> 'a list \<Rightarrow> bool" where
  "fixed_rep e n f a disk k pend \<longleftrightarrow>
     core_rep e f a disk k pend \<and> aof_size_info a = FixedSize n \<and> 0 < n \<and>
     (\<forall>x\<in>set disk \<union> set pend. length (e x) = n)"

fun entries :: "('a \<Rightarrow> bytes) \<Rightarrow> nat \<Rightarrow> 'a list \<Rightarrow> size_entry list" where
  "entries e off [] = []"
| "entries e off (x # xs) =
     \<lparr> se_offset = of_nat off, se_size = of_nat (length (e x)) \<rparr> # entries e (off + length (e x)) xs"

definition size_enc :: "size_entry \<Rightarrow> bytes" where
  "size_enc en = write_u64 (se_offset en) @ write_u16 (se_size en)"

definition var_rep :: "('a \<Rightarrow> bytes) \<Rightarrow> fs \<Rightarrow> append_only_file \<Rightarrow> 'a list \<Rightarrow> nat \<Rightarrow> 'a list \<Rightarrow> bool" where
  "var_rep e f a disk k pend \<longleftrightarrow>
     core_rep e f a disk k pend \<and>
     (\<exists>sf. aof_size_info a = VariableSize sf \<and> aof_path sf \<noteq> aof_path a \<and>
       fixed_rep size_enc size_entry_len f sf (entries e 0 disk) k (drop k (entries e 0 (take k disk @ pend)))) \<and>
     (\<forall>x\<in>set disk \<union> set pend. e x \<noteq> [] \<and> length (e x) < 2 ^ 16) \<and>
     length (cat e disk) < 2 ^ 64 \<and> length (cat e (take k disk @ pend)) < 2 ^ 64"

lemma size_enc_len [simp]: "length (size_enc en) = size_entry_len"
  by (simp add: size_enc_def size_entry_len_def)

lemma size_entry_len_pos [simp]: "0 < size_entry_len"
  by (simp add: size_entry_len_def)

lemma size_enc_write: "size_entry_write c en = Inr (size_enc en)"
  by (simp add: size_entry_write_def size_enc_def)

lemma size_enc_read: "deserialize size_entry_read (size_enc en) v DeserFull = Inr en"
  using size_entry_codec.ser_deserialize [where v = v and x = en and rest = "[]"] by (simp add: ser_vec_def size_enc_write)

lemma length_entries [simp]: "length (entries e off xs) = length xs"
  by (induction xs arbitrary: off) auto

lemma entries_append: "entries e off (xs @ ys) = entries e off xs @ entries e (off + length (cat e xs)) ys"
  by (induction xs arbitrary: off) (auto simp: add.assoc)

lemma take_entries: "take k (entries e off xs) = entries e off (take k xs)"
  by (induction xs arbitrary: k off) (auto simp: take_Cons')

lemma entries_nth:
  assumes "i < length xs"
  shows "entries e off xs ! i =
    \<lparr> se_offset = of_nat (off + length (cat e (take i xs))), se_size = of_nat (length (e (xs ! i))) \<rparr>"
proof -
  have "entries e off xs ! i = (entries e off (take i xs) @ entries e (off + length (cat e (take i xs))) (drop i xs)) ! i"
    by (simp flip: entries_append)
  also have "\<dots> = entries e (off + length (cat e (take i xs))) (drop i xs) ! 0"
    using assms by (simp add: nth_append)
  also have "drop i xs = xs ! i # drop (Suc i) xs" using assms by (simp add: Cons_nth_drop_Suc)
  finally show ?thesis by simp
qed

section \<open>Reading\<close>

lemma read_core:
  assumes "core_rep e f a disk k pend" and "cur = take k disk @ pend"
    and "size_unsync_in_elmts a = Inr (length cur)"
    and "\<And>i. i < length cur \<Longrightarrow>
      offset_and_size (aof_size_info a) i = Inr (length (cat e (take i cur)), length (e (cur ! i)))"
  shows "aof_read a i = Inr (if i < length cur then e (cur ! i) else [])"
proof -
  obtain p si v m b s bk where a: "a = AppendOnlyFile p si v m b s bk" by (cases a)
  have r: "b = cat e pend" "s = k" "k \<le> length disk" "disk \<noteq> [] \<Longrightarrow> m = Some (cat e disk)"
    using assms(1) by (auto simp: core_rep_def a)
  show ?thesis
  proof (cases "i < length cur")
    case False
    then show ?thesis using assms(3) by (simp add: a)
  next
    case True
    have off: "offset_and_size si i = Inr (length (cat e (take i cur)), length (e (cur ! i)))"
      using assms(4) [OF True] by (simp add: a)
    show ?thesis
    proof (cases "i < k")
      case ik: True
      then have t: "take i cur = take i disk" "cur ! i = disk ! i" "i < length disk" "disk \<noteq> []"
        using r(3) by (auto simp: assms(2) nth_append)
      then show ?thesis
        using True ik off assms(3) slice_cat [OF t(3), of e] r(4)
        by (simp add: a read_from_mmap_def r(2))
    next
      case False
      have kc: "k < length cur" "length (take k disk) = k" using False True r(3) by auto
      have offk: "offset_and_size si k = Inr (length (cat e (take k cur)), length (e (cur ! k)))"
        using assms(4) [OF kc(1)] by (simp add: a)
      have t: "take i cur = take k disk @ take (i - k) pend" "cur ! i = pend ! (i - k)" "i - k < length pend"
          "take k cur = take k disk"
        using False True kc(2) by (auto simp: assms(2) nth_append)
      show ?thesis
        using True False off offk assms(3) slice_cat [OF t(3), of e] t
        by (simp add: a read_from_buffer_def r(1,2))
    qed
  qed
qed

lemma fixed_offsets:
  assumes "\<forall>x\<in>set xs. length (e x) = n" and "i < length xs"
  shows "offset_and_size (FixedSize n) i = Inr (length (cat e (take i xs)), length (e (xs ! i)))"
proof -
  have "\<forall>x\<in>set (take i xs). length (e x) = n" using assms(1) by (meson in_set_takeD)
  from length_cat_fixed [OF this] show ?thesis using assms by (simp add: mult.commute)
qed

lemma fixed_unsync:
  assumes "fixed_rep e n f a disk k pend"
  shows "size_unsync_in_elmts a = Inr (length (take k disk @ pend))"
proof -
  have "length (cat e pend) = n * length pend" using assms by (intro length_cat_fixed) (auto simp: fixed_rep_def)
  then show ?thesis using assms by (cases a) (auto simp: fixed_rep_def core_rep_def)
qed

lemma fixed_read:
  assumes "fixed_rep e n f a disk k pend"
  shows "aof_read a i =
    Inr (if i < length (take k disk @ pend) then e ((take k disk @ pend) ! i) else [])"
proof (rule read_core [OF _ refl fixed_unsync [OF assms]])
  show "core_rep e f a disk k pend" using assms by (simp add: fixed_rep_def)
  fix i assume i: "i < length (take k disk @ pend)"
  have "\<forall>x\<in>set (take k disk @ pend). length (e x) = n"
    using assms in_set_takeD [of _ k disk] by (auto simp: fixed_rep_def)
  moreover have "aof_size_info a = FixedSize n" using assms by (simp add: fixed_rep_def)
  ultimately show "offset_and_size (aof_size_info a) i =
      Inr (length (cat e (take i (take k disk @ pend))), length (e ((take k disk @ pend) ! i)))"
    using fixed_offsets [of "take k disk @ pend" e n i] i by (simp only:)
qed

text \<open>The size file of a file of variable-sized elements has an entry for each element that can be read.\<close>

lemma var_size_file:
  assumes "var_rep e f a disk k pend"
  obtains sf where "aof_size_info a = VariableSize sf" "aof_path sf \<noteq> aof_path a"
    "fixed_rep size_enc size_entry_len f sf (entries e 0 disk) k (drop k (entries e 0 (take k disk @ pend)))"
    "take k (entries e 0 disk) @ drop k (entries e 0 (take k disk @ pend)) = entries e 0 (take k disk @ pend)"
proof -
  have "k \<le> length disk" using assms by (simp add: var_rep_def core_rep_def)
  then have "take k (entries e 0 (take k disk @ pend)) = take k (entries e 0 disk)"
    by (simp add: take_entries)
  then have "take k (entries e 0 disk) @ drop k (entries e 0 (take k disk @ pend)) = entries e 0 (take k disk @ pend)"
    by (metis append_take_drop_id)
  then show ?thesis using assms that by (auto simp: var_rep_def)
qed

lemma var_unsync:
  assumes "var_rep e f a disk k pend"
  shows "size_unsync_in_elmts a = Inr (length (take k disk @ pend))"
proof -
  obtain sf where sf: "aof_size_info a = VariableSize sf"
      "fixed_rep size_enc size_entry_len f sf (entries e 0 disk) k (drop k (entries e 0 (take k disk @ pend)))"
      "take k (entries e 0 disk) @ drop k (entries e 0 (take k disk @ pend)) = entries e 0 (take k disk @ pend)"
    using var_size_file [OF assms] by metis
  have "size_unsync_in_elmts sf = Inr (length (entries e 0 (take k disk @ pend)))"
    using fixed_unsync [OF sf(2)] unfolding sf(3) .
  then show ?thesis using sf(1) by (cases a) simp
qed

lemma var_entry:
  assumes "var_rep e f a disk k pend" and "aof_size_info a = VariableSize sf" and "cur = take k disk @ pend" "i < length cur"
  shows "aof_read sf i = Inr (size_enc (entries e 0 cur ! i))"
proof -
  obtain sf' where sf: "aof_size_info a = VariableSize sf'"
      "fixed_rep size_enc size_entry_len f sf' (entries e 0 disk) k (drop k (entries e 0 (take k disk @ pend)))"
      "take k (entries e 0 disk) @ drop k (entries e 0 (take k disk @ pend)) = entries e 0 (take k disk @ pend)"
    using var_size_file [OF assms(1)] by metis
  then show ?thesis using fixed_read [OF sf(2), of i] assms(2-4) unfolding sf(3) by simp
qed

lemma unat_of_nat_small:
  "n < 2 ^ 64 \<Longrightarrow> unat (of_nat n :: u64) = n" "n < 2 ^ 16 \<Longrightarrow> unat (of_nat n :: u16) = n"
  by (simp_all add: unat_of_nat)

lemma var_offsets:
  assumes "var_rep e f a disk k pend" and "cur = take k disk @ pend" "i < length cur"
  shows "offset_and_size (aof_size_info a) i = Inr (length (cat e (take i cur)), length (e (cur ! i)))"
proof -
  obtain sf where sf: "aof_size_info a = VariableSize sf" using var_size_file [OF assms(1)] by metis
  have "cur ! i \<in> set disk \<union> set pend" using nth_mem [OF assms(3)] in_set_takeD [of _ k disk] by (auto simp: assms(2))
  then have sz: "length (e (cur ! i)) < 2 ^ 16" using assms(1) by (auto simp: var_rep_def)
  have "length (cat e (take i cur)) < 2 ^ 64"
    using assms(1) slice_cat(2) [OF assms(3), of e] by (simp add: var_rep_def assms(2))
  then show ?thesis
    using var_entry [OF assms(1) sf assms(2,3)] entries_nth [OF assms(3), of e 0] sz
    by (simp add: sf size_enc_read unat_of_nat_small)
qed

lemma var_read:
  assumes "var_rep e f a disk k pend"
  shows "aof_read a i = Inr (if i < length (take k disk @ pend) then e ((take k disk @ pend) ! i) else [])"
  by (rule read_core [OF _ refl var_unsync [OF assms] var_offsets [OF assms refl]])
    (use assms in \<open>auto simp: var_rep_def\<close>)

text \<open>A file that nothing is pending for, in memory and after a rewind.\<close>

fun synced :: "append_only_file \<Rightarrow> bool" where
  "synced (AppendOnlyFile p si v m b s k) \<longleftrightarrow>
     k = 0 \<and> b = [] \<and> (case si of FixedSize n \<Rightarrow> True | VariableSize sf \<Rightarrow> synced sf)"

text \<open>The paths a file owns: its own, that of its size file, and those of their temporary copies.\<close>

definition size_paths :: "size_info \<Rightarrow> string list" where
  "size_paths si = (case si of FixedSize n \<Rightarrow> [] | VariableSize sf \<Rightarrow> [aof_path sf, tmp_path sf])"

definition paths :: "append_only_file \<Rightarrow> string list" where
  "paths a = [aof_path a, tmp_path a] @ size_paths (aof_size_info a)"

section \<open>Appending, rewinding and discarding\<close>

lemma core_append:
  "core_rep e f (AppendOnlyFile p si v m b s bk) disk k pend \<Longrightarrow>
   core_rep e f (AppendOnlyFile p si' v m (b @ e x) s bk) disk k (pend @ [x])"
  by (simp add: core_rep_def)

lemma fixed_append:
  assumes "fixed_rep e n f a disk k pend" and "length (e x) = n"
  shows "\<exists>a'. aof_append a (e x) = Inr a' \<and> fixed_rep e n f a' disk k (pend @ [x]) \<and>
    aof_path a' = aof_path a \<and> aof_version a' = aof_version a"
  using assms by (cases a) (auto simp: fixed_rep_def core_rep_def)

lemma var_append:
  assumes "var_rep e f a disk k pend" and "e x \<noteq> []" "length (e x) < 2 ^ 16"
    and "length (cat e (take k disk @ pend @ [x])) < 2 ^ 64"
  shows "\<exists>a'. aof_append a (e x) = Inr a' \<and> var_rep e f a' disk k (pend @ [x]) \<and>
    paths a' = paths a \<and> aof_version a' = aof_version a"
proof -
  obtain p si v m b s bk where a: "a = AppendOnlyFile p si v m b s bk" by (cases a)
  define cur where "cur = take k disk @ pend"
  obtain sf where sf: "si = VariableSize sf" "aof_path sf \<noteq> p"
      "fixed_rep size_enc size_entry_len f sf (entries e 0 disk) k (drop k (entries e 0 cur))"
      "take k (entries e 0 disk) @ drop k (entries e 0 cur) = entries e 0 cur"
    using var_size_file [OF assms(1)] by (auto simp: a cur_def)
  have un: "size_unsync_in_elmts sf = Inr (length cur)" using fixed_unsync [OF sf(3)] unfolding sf(4) by simp
  define en where "en = \<lparr> se_offset = (of_nat (length (cat e cur)) :: u64), se_size = (of_nat (length (e x)) :: u16) \<rparr>"
  have cur64: "length (cat e cur) < 2 ^ 64" using assms(1) by (simp add: var_rep_def cur_def)
  have off: "(if length cur = 0 then Inr 0
       else rbind (read_as_elmt size_entry_read sf (length cur - 1)) (\<lambda>pe. Inr (se_offset pe + ucast (se_size pe)))) =
      (Inr (se_offset en) :: io_error + u64)"
  proof (cases "cur = []")
    case True
    then show ?thesis by (simp add: en_def)
  next
    case False
    then have i: "length cur - 1 < length cur" by simp
    have l: "cur ! (length cur - 1) = last cur" "take (length cur - 1) cur = butlast cur"
      using False by (simp_all add: last_conv_nth butlast_conv_take)
    have "last cur \<in> set disk \<union> set pend"
      using False last_in_set [of cur] in_set_takeD [of _ k disk] by (auto simp: cur_def)
    then have "length (e (last cur)) < 2 ^ 16" using assms(1) by (auto simp: var_rep_def)
    then have u: "(ucast (of_nat (length (e (last cur))) :: u16) :: u64) = of_nat (length (e (last cur)))"
      by (simp add: unsigned_of_nat take_bit_nat_eq_self)
    have "cat e cur = cat e (butlast cur) @ e (last cur)"
      using False by (metis append_butlast_last_id cat_simps append_Nil2)
    then have "of_nat (length (cat e (butlast cur))) + of_nat (length (e (last cur))) = (of_nat (length (cat e cur)) :: u64)"
      by simp
    then show ?thesis
      using var_entry [OF assms(1), of sf cur "length cur - 1"] entries_nth [OF i, of e 0] False u
      by (simp add: a sf(1) cur_def [symmetric] read_as_elmt_def size_enc_read l [unfolded One_nat_def] en_def)
  qed
  obtain sf' where sf': "aof_append sf (size_enc en) = Inr sf'"
      "fixed_rep size_enc size_entry_len f sf' (entries e 0 disk) k (drop k (entries e 0 cur) @ [en])" "aof_path sf' = aof_path sf"
    using fixed_append [OF sf(3), of en] by auto
  have "drop k (entries e 0 cur) @ [en] = drop k (entries e 0 (cur @ [x]))"
    using assms(1) by (auto simp: entries_append en_def cur_def var_rep_def core_rep_def)
  moreover have "aof_append a (e x) = Inr (AppendOnlyFile p (VariableSize sf') v m (b @ e x) s bk)"
    using un off sf'(1) by (simp add: a sf(1) ser_vec_def size_enc_write en_def)
  ultimately show ?thesis
    using assms sf'(2,3) sf(2) core_append [of e f p si v m b s bk disk k pend]
    by (auto simp: var_rep_def a cur_def paths_def size_paths_def tmp_path_def sf(1))
qed

lemma fixed_rewind:
  "fixed_rep e n f a disk k [] \<Longrightarrow> pos \<le> k \<Longrightarrow> fixed_rep e n f (aof_rewind a pos) disk pos []"
  by (cases a) (auto simp: fixed_rep_def core_rep_def)

lemma aof_sel_rewind [simp]: "aof_path (aof_rewind a pos) = aof_path a" "aof_version (aof_rewind a pos) = aof_version a"
  by (cases a; simp)+

lemma var_rewind:
  assumes "var_rep e f a disk k []" and "pos \<le> k"
  shows "var_rep e f (aof_rewind a pos) disk pos []"
proof -
  obtain p si v m b s bk where a: "a = AppendOnlyFile p si v m b s bk" by (cases a)
  obtain sf where sf: "si = VariableSize sf" "aof_path sf \<noteq> p"
      "fixed_rep size_enc size_entry_len f sf (entries e 0 disk) k (drop k (entries e 0 (take k disk)))"
    using var_size_file [OF assms(1)] by (auto simp: a)
  have "fixed_rep size_enc size_entry_len f (aof_rewind sf pos) (entries e 0 disk) pos []"
    using fixed_rewind [OF _ assms(2)] sf(3) by simp
  moreover have "length (cat e (take pos disk)) \<le> length (cat e disk)"
    using cat_simps(3) [of e "take pos disk" "drop pos disk"] by (metis append_take_drop_id le_add1 length_append)
  ultimately show ?thesis using assms sf(1,2) by (auto simp: var_rep_def a core_rep_def)
qed

lemma fixed_discard: "fixed_rep e n f a disk k pend \<Longrightarrow> fixed_rep e n f (aof_discard a) disk (length disk) []"
  by (cases a) (auto simp: fixed_rep_def core_rep_def)

lemma aof_sel_discard [simp]: "aof_path (aof_discard a) = aof_path a" "aof_version (aof_discard a) = aof_version a"
  by (cases a; simp)+

lemma var_discard:
  assumes "var_rep e f a disk k pend"
  shows "var_rep e f (aof_discard a) disk (length disk) []"
proof -
  obtain p si v m b s bk where a: "a = AppendOnlyFile p si v m b s bk" by (cases a)
  obtain sf where sf: "si = VariableSize sf" "aof_path sf \<noteq> p"
      "fixed_rep size_enc size_entry_len f sf (entries e 0 disk) k (drop k (entries e 0 (take k disk @ pend)))"
    using var_size_file [OF assms(1)] by (auto simp: a)
  from fixed_discard [OF sf(3)] show ?thesis
    using assms sf(1,2) by (auto simp: var_rep_def a core_rep_def)
qed

section \<open>Flushing\<close>

lemma fs_simps [simp]:
  "fs_len (f (p \<mapsto> bs)) p = Inr (length bs)" "f p = Some bs \<Longrightarrow> fs_touch f p = f"
  "f p = Some bs \<Longrightarrow> fs_set_len f p n = f (p \<mapsto> take n bs @ replicate (n - length bs) 0)"
  "f p = Some bs \<Longrightarrow> fs_append f p new = f (p \<mapsto> bs @ new)"
  by (simp_all add: fs_len_def fs_read_def fs_touch_def fs_set_len_def fs_append_def)

text \<open>
  The part of a flush after the size file: the file is cut to the elements before the rewind position and the
  buffer is appended.
\<close>

lemma flush_core:
  assumes "core_rep e f (AppendOnlyFile p si v m b s bk) disk k pend" and "f' p = f p"
    and "0 < k \<Longrightarrow> offset_and_size si (k - 1) = Inr (length (cat e (take (k - 1) disk)), length (e (disk ! (k - 1))))"
  shows "(if 0 < bk then
            (let f' = fs_touch f' p
             in if s = 0 then Inr (fs_set_len f' p 0)
                else rbind (offset_and_size si (s - 1)) (\<lambda>(off, sz). Inr (fs_set_len f' p (off + sz))))
          else Inr f') = (Inr (f' (p \<mapsto> cat e (take k disk))) :: io_error + fs)"
proof -
  have r: "f' p = Some (cat e disk)" "s = k" "k \<le> length disk" "bk = 0 \<Longrightarrow> k = length disk"
    using assms(1,2) by (auto simp: core_rep_def)
  show ?thesis
  proof (cases "bk = 0")
    case True
    then show ?thesis using r by (simp add: fun_upd_idem)
  next
    case bk: False
    show ?thesis
    proof (cases "k = 0")
      case True
      then show ?thesis using bk r by simp
    next
      case False
      have "cat e (take k disk) = cat e (take (k - 1) disk) @ e (disk ! (k - 1))"
        using False r(3) take_Suc_conv_app_nth [of "k - 1" disk] by simp
      then have "length (cat e (take (k - 1) disk)) + length (e (disk ! (k - 1))) = length (cat e (take k disk))" by simp
      moreover have "length (cat e (take k disk)) \<le> length (cat e disk)"
        using take_cat [of e k disk] by (metis length_take min.cobounded2 min.commute)
      ultimately show ?thesis using bk False r assms(3) take_cat [of e k disk] by simp
    qed
  qed
qed

lemma fixed_flush:
  assumes "fixed_rep e n f a disk k pend"
  shows "\<exists>a' f'. aof_flush f a = Inr (a', f') \<and>
    fixed_rep e n f' a' (take k disk @ pend) (length (take k disk @ pend)) [] \<and>
    (\<forall>q. q \<noteq> aof_path a \<longrightarrow> f' q = f q) \<and> aof_path a' = aof_path a \<and> aof_version a' = aof_version a \<and> synced a'"
proof -
  obtain p si v m b s bk where a: "a = AppendOnlyFile p si v m b s bk" by (cases a)
  define cur where "cur = take k disk @ pend"
  have r: "core_rep e f (AppendOnlyFile p si v m b s bk) disk k pend" "si = FixedSize n" "0 < n"
      "\<forall>x\<in>set disk \<union> set pend. length (e x) = n" "b = cat e pend" "k \<le> length disk"
    using assms by (auto simp: fixed_rep_def a core_rep_def)
  have len: "\<forall>x\<in>set cur. length (e x) = n" using r(4) in_set_takeD [of _ k disk] by (auto simp: cur_def)
  have "0 < k \<Longrightarrow> offset_and_size si (k - 1) = Inr (length (cat e (take (k - 1) disk)), length (e (disk ! (k - 1))))"
    using fixed_offsets [of disk e n "k - 1"] r(2,4,6) by simp
  note fl = flush_core [where f' = f, OF r(1) refl this]
  have cat: "cat e (take k disk) @ b = cat e cur" by (simp add: cur_def r(5))
  have div: "length (cat e cur) div n = length cur" using length_cat_fixed [OF len] r(3) by simp
  have "aof_flush f a =
      Inr (AppendOnlyFile p si v (if length (cat e cur) = 0 then None else Some (cat e cur)) [] (length cur) 0,
           f (p \<mapsto> cat e cur))"
    unfolding a aof_flush.simps r(2) using fl unfolding r(2) by (simp add: cat div fs_touch_def)
  moreover have "fixed_rep e n (f (p \<mapsto> cat e cur))
      (AppendOnlyFile p si v (if length (cat e cur) = 0 then None else Some (cat e cur)) [] (length cur) 0) cur (length cur) []"
    using r(2,3) len by (cases cur) (auto simp: fixed_rep_def core_rep_def)
  ultimately show ?thesis by (auto simp: cur_def [symmetric] a r(2))
qed

lemma var_flush:
  assumes "var_rep e f a disk k pend"
  shows "\<exists>a' f'. aof_flush f a = Inr (a', f') \<and>
    var_rep e f' a' (take k disk @ pend) (length (take k disk @ pend)) [] \<and>
    (\<forall>q. q \<notin> set (paths a) \<longrightarrow> f' q = f q) \<and> paths a' = paths a \<and> aof_version a' = aof_version a \<and> synced a'"
proof -
  obtain p si v m b s bk where a: "a = AppendOnlyFile p si v m b s bk" by (cases a)
  define cur where "cur = take k disk @ pend"
  obtain sf where sf: "si = VariableSize sf" "aof_path sf \<noteq> p"
      "fixed_rep size_enc size_entry_len f sf (entries e 0 disk) k (drop k (entries e 0 cur))"
      "take k (entries e 0 disk) @ drop k (entries e 0 cur) = entries e 0 cur"
    using var_size_file [OF assms(1)] by (auto simp: a cur_def)
  have r: "core_rep e f (AppendOnlyFile p si v m b s bk) disk k pend" "b = cat e pend" "k \<le> length disk"
      "\<forall>x\<in>set disk \<union> set pend. e x \<noteq> [] \<and> length (e x) < 2 ^ 16" "length (cat e cur) < 2 ^ 64"
    using assms by (auto simp: var_rep_def a core_rep_def cur_def)
  obtain sf' f1 where fl: "aof_flush f sf = Inr (sf', f1)"
      "fixed_rep size_enc size_entry_len f1 sf' (entries e 0 cur) (length cur) []"
      "\<forall>q. q \<noteq> aof_path sf \<longrightarrow> f1 q = f q" "aof_path sf' = aof_path sf" "synced sf'"
    using fixed_flush [OF sf(3)] unfolding sf(4) by auto
  have f1p: "f1 p = f p" using fl(3) sf(2) by auto
  have "offset_and_size (VariableSize sf') (k - 1) = Inr (length (cat e (take (k - 1) disk)), length (e (disk ! (k - 1))))"
    if "0 < k"
  proof -
    have i: "k - 1 < length cur" "cur ! (k - 1) = disk ! (k - 1)" "take (k - 1) cur = take (k - 1) disk"
      using that r(3) by (auto simp: cur_def nth_append min_def)
    have "length (e (disk ! (k - 1))) < 2 ^ 16" using r(3,4) that by (auto intro!: nth_mem)
    moreover have "length (cat e (take (k - 1) disk)) < 2 ^ 64"
      using slice_cat(2) [OF i(1), of e] r(5) unfolding i(3) by simp
    ultimately show ?thesis
      using fixed_read [OF fl(2), of "k - 1"] i entries_nth [OF i(1), of e 0]
      by (simp add: size_enc_read unat_of_nat_small)
  qed
  moreover have "core_rep e f (AppendOnlyFile p (VariableSize sf') v m b s bk) disk k pend"
    using r(1) by (simp add: core_rep_def)
  ultimately have core: "(if 0 < bk then
            (let f' = fs_touch f1 p
             in if s = 0 then Inr (fs_set_len f' p 0)
                else rbind (offset_and_size (VariableSize sf') (s - 1)) (\<lambda>(off, sz). Inr (fs_set_len f' p (off + sz))))
          else Inr f1) = (Inr (f1 (p \<mapsto> cat e (take k disk))) :: io_error + fs)"
    using flush_core [where f' = f1 and f = f and p = p] f1p by blast
  have cat: "cat e (take k disk) @ b = cat e cur" by (simp add: cur_def r(2))
  define f2 where "f2 = f1 (p \<mapsto> cat e cur)"
  have sz: "size_in_elmts f2 sf' = Inr (length cur)"
  proof -
    have "f2 (aof_path sf') = Some (cat size_enc (entries e 0 cur))"
      using fl(2,4) sf(2) by (simp add: f2_def fixed_rep_def core_rep_def)
    moreover have "length (cat size_enc (entries e 0 cur)) = size_entry_len * length cur"
      using length_cat_fixed [of "entries e 0 cur" size_enc size_entry_len] by simp
    moreover have "aof_size_info sf' = FixedSize size_entry_len" using fl(2) by (simp add: fixed_rep_def)
    ultimately show ?thesis by (cases sf') (simp add: fs_len_def fs_read_def)
  qed
  have "aof_flush f a =
      Inr (AppendOnlyFile p (VariableSize sf') v (if length (cat e cur) = 0 then None else Some (cat e cur)) [] (length cur) 0, f2)"
    unfolding a aof_flush.simps sf(1) using core sz
    by (simp add: fl(1) cat fs_touch_def f2_def)
  moreover have "var_rep e f2
      (AppendOnlyFile p (VariableSize sf') v (if length (cat e cur) = 0 then None else Some (cat e cur)) [] (length cur) 0)
      cur (length cur) []"
  proof -
    have "\<forall>x\<in>set cur. e x \<noteq> [] \<and> length (e x) < 2 ^ 16" using r(4) in_set_takeD [of _ k disk] by (auto simp: cur_def)
    moreover have "fixed_rep size_enc size_entry_len f2 sf' (entries e 0 cur) (length cur) []"
      using fl(2,4) sf(2) by (simp add: f2_def fixed_rep_def core_rep_def)
    ultimately show ?thesis using fl(4) sf(2) r(5) by (cases cur) (auto simp: var_rep_def core_rep_def f2_def)
  qed
  ultimately show ?thesis
    using fl(3,4,5) by (auto simp: cur_def [symmetric] a sf(1) f2_def paths_def size_paths_def tmp_path_def)
qed

section \<open>Rewriting a file without some of its elements\<close>

definition enc :: "'a writeable \<Rightarrow> protocol_version \<Rightarrow> 'a \<Rightarrow> bytes" where
  "enc wr v x = projr (wr (full_ctx v) x)"

context codec
begin

lemma enc_written: "valid v x \<Longrightarrow> wr (full_ctx v) x = Inr (enc wr v x)"
  using round_trip [of v x] by (auto simp: enc_def)

lemma enc_read: "valid v x \<Longrightarrow> reads v r \<Longrightarrow> rd_input r = enc wr v x @ rest \<Longrightarrow> rd r = Inr (x, advance (length (enc wr v x)) r)"
  using read_written [of v x "enc wr v x" r] enc_written by blast

lemma enc_deserialize: "valid v x \<Longrightarrow> deserialize rd (enc wr v x) v DeserFull = Inr x"
  using ser_deserialize [of v x "[]"] enc_written by (simp add: ser_vec_def)

end

lemma nths_drop_first: "nths (x # xs) {i. c + i \<notin> P} = (if c \<in> P then [] else [x]) @ nths xs {i. Suc c + i \<notin> P}"
  by (simp add: nths_Cons)

context eof_codec
begin

lemma prune_loop_ok:
  assumes "\<forall>x\<in>set xs. valid v x" and "reads v r" and "rd_input r = cat (enc wr v) xs"
    and "sorted_wrt (<) ps" and "\<forall>q\<in>set ps. c \<le> q"
  shows "prune_loop rd wr v r ps c out = Some (Inr (out @ cat (enc wr v) (nths xs {i. c + i \<notin> set ps})))"
  using assms
proof (induction xs arbitrary: r ps c out)
  case Nil
  then show ?case using eof [of r] by (subst prune_loop.simps) simp
next
  case (Cons x xs)
  have r: "rd r = Inr (x, advance (length (enc wr v x)) r)"
    using enc_read [of v x r "cat (enc wr v) xs"] Cons.prems by simp
  define r1 where "r1 = advance (length (enc wr v x)) r"
  have r1: "reads v r1" "rd_input r1 = cat (enc wr v) xs" "\<forall>x\<in>set xs. valid v x" using Cons.prems by (simp_all add: r1_def)
  show ?case
  proof (cases "c \<in> set ps")
    case True
    then obtain q qs where ps: "ps = q # qs" by (cases ps) auto
    have q: "q = c" using True Cons.prems(4,5) ps by force
    have "\<forall>p\<in>set qs. Suc c \<le> p" using Cons.prems(4) ps q by auto
    moreover have "nths (x # xs) {i. c + i \<notin> set ps} = nths xs {i. Suc c + i \<notin> set qs}"
      unfolding nths_drop_first using True ps q by (auto intro!: arg_cong [of _ _ "nths xs"])
    ultimately show ?thesis
      using Cons.IH [OF r1(3,1,2), of qs "Suc c" out] True Cons.prems(4) ps
      by (subst prune_loop.simps) (simp add: r r1_def [symmetric])
  next
    case False
    then have "\<forall>p\<in>set ps. Suc c \<le> p" using Cons.prems(5) by (auto simp: Suc_le_eq order.strict_iff_order)
    then show ?thesis
      using Cons.IH [OF r1(3,1,2) Cons.prems(4), of "Suc c" "out @ enc wr v x"] False Cons.prems(1) enc_written [of v x]
      by (subst prune_loop.simps) (simp add: r r1_def [symmetric] nths_drop_first)
  qed
qed

lemma size_loop_ok:
  assumes "\<forall>x\<in>set xs. valid v x \<and> length (enc wr v x) < 2 ^ 16" and "reads v r" and "rd_input r = cat (enc wr v) xs"
    and "rd_kind r = StreamingReader" and "rd_count r = off"
  shows "size_loop rd v r off out = Some (Inr (out @ cat size_enc (entries (enc wr v) off xs)))"
  using assms
proof (induction xs arbitrary: r off out)
  case Nil
  then show ?case using eof [of r] by (subst size_loop.simps) simp
next
  case (Cons x xs)
  have r: "rd r = Inr (x, advance (length (enc wr v x)) r)"
    using enc_read [of v x r "cat (enc wr v) xs"] Cons.prems by simp
  define r1 where "r1 = advance (length (enc wr v x)) r"
  have r1: "reads v r1" "rd_input r1 = cat (enc wr v) xs" "rd_kind r1 = StreamingReader"
      "rd_count r1 = off + length (enc wr v x)"
    using Cons.prems by (simp_all add: r1_def advance_def reads_def)
  have "unat (of_nat (length (enc wr v x)) :: u16) = length (enc wr v x)"
    using Cons.prems(1) by (intro unat_of_nat_small) simp
  then show ?case
    using Cons.IH [OF _ r1, of "out @ size_enc \<lparr> se_offset = of_nat off, se_size = of_nat (length (enc wr v x)) \<rparr>"] Cons.prems(1)
    by (subst size_loop.simps) (simp add: r r1_def [symmetric] r1(4) size_enc_write)
qed

end

lemma aof_sel_release [simp]: "aof_path (aof_release a) = aof_path a" "aof_version (aof_release a) = aof_version a"
  by (cases a; simp)+

lemma aof_replace_ok:
  assumes "f (aof_path a) \<noteq> None" and "t \<noteq> aof_path a"
  shows "aof_replace (f (t \<mapsto> out)) a t = Inr (aof_release a, (f (t := None)) (aof_path a \<mapsto> out))"
  using assms by (auto simp: aof_replace_def fs_remove_def fs_rename_def fun_upd_def Let_def)

lemma fixed_init:
  assumes "f p = Some (cat e disk)" and "0 < n" and "\<forall>x\<in>set disk. length (e x) = n"
  shows "aof_init f (AppendOnlyFile p (FixedSize n) v None [] s 0) =
      Inr (AppendOnlyFile p (FixedSize n) v (if disk = [] then None else Some (cat e disk)) [] (length disk) 0, f)"
    and "fixed_rep e n f (AppendOnlyFile p (FixedSize n) v (if disk = [] then None else Some (cat e disk)) [] (length disk) 0)
      disk (length disk) []"
proof -
  have l: "length (cat e disk) = n * length disk" by (rule length_cat_fixed [OF assms(3)])
  show "aof_init f (AppendOnlyFile p (FixedSize n) v None [] s 0) =
      Inr (AppendOnlyFile p (FixedSize n) v (if disk = [] then None else Some (cat e disk)) [] (length disk) 0, f)"
    using assms(1,2) l by (auto simp: fs_len_def fs_read_def)
  show "fixed_rep e n f (AppendOnlyFile p (FixedSize n) v (if disk = [] then None else Some (cat e disk)) [] (length disk) 0)
      disk (length disk) []"
    using assms by (simp add: fixed_rep_def core_rep_def)
qed

lemma fixed_compact:
  assumes "eof_codec wr rd valid" and "fixed_rep (enc wr v) n f a disk (length disk) []" and "synced a" and "aof_version a = v"
    and "\<forall>x\<in>set disk. valid v x" and "sorted_wrt (<) ps" and "tmp_path a \<noteq> aof_path a"
  defines "rest \<equiv> nths disk {i. i \<notin> set ps}"
  shows "\<exists>f1 a' f2. aof_write_tmp_pruned rd wr f a ps = Some (Inr f1) \<and> f1 = f (tmp_path a := f1 (tmp_path a)) \<and>
    aof_replace_with_tmp rd f1 a = Some (Inr (a', f2)) \<and>
    fixed_rep (enc wr v) n f2 a' rest (length rest) [] \<and> synced a' \<and> aof_version a' = v \<and> aof_path a' = aof_path a \<and>
    (\<forall>q. q \<notin> {aof_path a, tmp_path a} \<longrightarrow> f2 q = f q)"
proof -
  obtain p si m b s bk where a: "a = AppendOnlyFile p si v m b s bk" using assms(4) by (cases a) auto
  have r: "f p = Some (cat (enc wr v) disk)" "si = FixedSize n" "0 < n" "\<forall>x\<in>set disk. length (enc wr v x) = n"
      "bk = 0" "b = []" "tmp_path a \<noteq> p"
    using assms(2,3,7) by (auto simp: fixed_rep_def core_rep_def a)
  define out where "out = cat (enc wr v) rest"
  have "prune_loop rd wr v (streaming_new (cat (enc wr v) disk) v) ps 0 [] = Some (Inr out)"
    using eof_codec.prune_loop_ok [OF assms(1) assms(5), of "streaming_new (cat (enc wr v) disk) v" ps 0 "[]"] assms(6)
    by (simp add: streaming_new_def reads_def out_def rest_def)
  then have w: "aof_write_tmp_pruned rd wr f a ps = Some (Inr (f (tmp_path a \<mapsto> out)))"
    using r(1) by (simp add: aof_write_tmp_pruned_def fs_read_def a)
  define f2 where "f2 = (f (tmp_path a := None)) (p \<mapsto> out)"
  have rest: "\<forall>x\<in>set rest. length (enc wr v x) = n" using r(4) notin_set_nthsI by (fastforce simp: rest_def)
  have "aof_replace (f (tmp_path a \<mapsto> out)) a (tmp_path a) = Inr (AppendOnlyFile p (FixedSize n) v None [] s 0, f2)"
    using aof_replace_ok [of f a "tmp_path a" out] r by (simp add: a f2_def)
  moreover have f2p: "f2 p = Some (cat (enc wr v) rest)" by (simp add: f2_def out_def)
  ultimately have rp: "aof_replace_with_tmp rd (f (tmp_path a \<mapsto> out)) a =
      Some (Inr (AppendOnlyFile p (FixedSize n) v (if rest = [] then None else Some (cat (enc wr v) rest)) [] (length rest) 0, f2))"
    using fixed_init(1) [where f = f2 and p = p and e = "enc wr v", OF f2p r(3) rest, of v s] by (simp add: aof_replace_with_tmp_def rebuild_size_file_def)
  show ?thesis
    using w rp fixed_init(2) [where f = f2 and p = p and e = "enc wr v", OF f2p r(3) rest, of v] by (auto simp: f2_def a)
qed

lemma size_paths_rewind: "size_paths (aof_size_info (aof_rewind a pos)) = size_paths (aof_size_info a)"
  by (cases a) (auto simp: size_paths_def tmp_path_def split: size_info.splits)

lemma var_compact:
  assumes "eof_codec wr rd valid" and "var_rep (enc wr v) f a disk (length disk) []" and "synced a" and "aof_version a = v"
    and "\<forall>x\<in>set disk. valid v x" and "sorted_wrt (<) ps" and "distinct (paths a)"
  defines "rest \<equiv> nths disk {i. i \<notin> set ps}"
  shows "\<exists>f1 a' f2. aof_write_tmp_pruned rd wr f a ps = Some (Inr f1) \<and> f1 = f (tmp_path a := f1 (tmp_path a)) \<and>
    aof_replace_with_tmp rd f1 a = Some (Inr (a', f2)) \<and>
    var_rep (enc wr v) f2 a' rest (length rest) [] \<and> synced a' \<and> aof_version a' = v \<and> paths a' = paths a \<and>
    (\<forall>q. q \<notin> set (paths a) \<longrightarrow> f2 q = f q)"
proof -
  let ?e = "enc wr v"
  obtain p si m b s bk where a: "a = AppendOnlyFile p si v m b s bk" using assms(4) by (cases a) auto
  obtain sf where sf: "si = VariableSize sf" "fixed_rep size_enc size_entry_len f sf (entries ?e 0 disk) (length disk) []"
    using var_size_file [OF assms(2)] by (auto simp: a)
  obtain sp sv sm sb ss sk where sf': "sf = AppendOnlyFile sp (FixedSize size_entry_len) sv sm sb ss sk" "sk = 0" "sb = []"
    using assms(3) sf(2) by (cases sf) (auto simp: a sf(1) fixed_rep_def)
  have r: "f p = Some (cat ?e disk)" "\<forall>x\<in>set disk. ?e x \<noteq> [] \<and> length (?e x) < 2 ^ 16" "bk = 0" "b = []"
      "length (cat ?e disk) < 2 ^ 64" "f sp = Some (cat size_enc (entries ?e 0 disk))"
    using assms(2,3) sf(2) by (auto simp: var_rep_def core_rep_def fixed_rep_def a sf')
  have d: "distinct [p, tmp_path a, sp, tmp_path sf]"
    using assms(7) by (simp add: paths_def size_paths_def a sf(1) sf'(1))
  define out where "out = cat ?e rest"
  have "prune_loop rd wr v (streaming_new (cat ?e disk) v) ps 0 [] = Some (Inr out)"
    using eof_codec.prune_loop_ok [OF assms(1) assms(5), of "streaming_new (cat ?e disk) v" ps 0 "[]"] assms(6)
    by (simp add: streaming_new_def reads_def out_def rest_def)
  then have w: "aof_write_tmp_pruned rd wr f a ps = Some (Inr (f (tmp_path a \<mapsto> out)))"
    using r(1) by (simp add: aof_write_tmp_pruned_def fs_read_def a)
  have sub: "set rest \<subseteq> set disk" by (simp add: rest_def set_nths_subset)
  have rest: "\<forall>x\<in>set rest. valid v x \<and> length (?e x) < 2 ^ 16" "\<forall>x\<in>set rest. ?e x \<noteq> [] \<and> length (?e x) < 2 ^ 16"
    using sub assms(5) r(2) by auto
  define f2 where "f2 = (f (tmp_path a := None)) (p \<mapsto> out)"
  define sizes where "sizes = cat size_enc (entries ?e 0 rest)"
  define f4 where "f4 = (f2 (tmp_path sf := None)) (sp \<mapsto> sizes)"
  define sf4 where "sf4 = AppendOnlyFile sp (FixedSize size_entry_len) sv
      (if entries ?e 0 rest = [] then None else Some sizes) [] (length (entries ?e 0 rest)) 0"
  define a4 where "a4 = AppendOnlyFile p (VariableSize sf4) v (if rest = [] then None else Some out) [] (length rest) 0"
  have rel: "aof_replace (f (tmp_path a \<mapsto> out)) a (tmp_path a) = Inr (aof_release a, f2)"
  proof -
    have "tmp_path a \<noteq> aof_path a" using d by (auto simp: a)
    from aof_replace_ok [OF _ this, of f out] r(1) show ?thesis by (simp add: a f2_def)
  qed
  have f2p: "f2 p = Some out" by (simp add: f2_def)
  have "size_loop rd v (streaming_new out v) 0 [] = Some (Inr sizes)"
    using eof_codec.size_loop_ok [OF assms(1) rest(1), of "streaming_new out v" 0 "[]"]
    by (simp add: streaming_new_def reads_def out_def sizes_def)
  moreover have "aof_replace (f2 (tmp_path sf \<mapsto> sizes)) (aof_release sf) (tmp_path sf) = Inr (aof_release (aof_release sf), f4)"
    using aof_replace_ok [of f2 "aof_release sf" "tmp_path sf" sizes] d r(6) by (auto simp: f2_def f4_def sf'(1))
  ultimately have rb: "rebuild_size_file rd f2 (aof_release a) =
      Some (Inr (AppendOnlyFile p (VariableSize (AppendOnlyFile sp (FixedSize size_entry_len) sv None [] ss 0)) v None [] s 0, f4))"
    using f2p sf'(2,3) r(3,4) by (simp add: rebuild_size_file_def a sf(1) Let_def fs_read_def) (simp add: sf'(1) tmp_path_def)
  have f4p: "f4 p = Some out" "f4 sp = Some (cat size_enc (entries ?e 0 rest))" using d by (simp_all add: f4_def f2_def sizes_def)
  note fi = fixed_init [where f = f4 and p = sp and e = size_enc and disk = "entries ?e 0 rest" and n = size_entry_len and v = sv,
      OF f4p(2) size_entry_len_pos]
  have lo: "length out = 0 \<longleftrightarrow> rest = []" using cat_eq_Nil_iff [of rest ?e] rest(2) by (simp add: out_def)
  have "length (cat size_enc (entries ?e 0 rest)) = size_entry_len * length rest"
    using length_cat_fixed [of "entries ?e 0 rest" size_enc size_entry_len] by simp
  then have sz: "size_in_elmts f4 sf4 = Inr (length rest)" using f4p(2) by (simp add: sf4_def fs_len_def fs_read_def)
  have init: "aof_init f4 (AppendOnlyFile p (VariableSize (AppendOnlyFile sp (FixedSize size_entry_len) sv None [] ss 0)) v None [] s 0) =
      Inr (a4, f4)"
    using fi(1) [of ss] sz lo f4p(1) by (auto simp: a4_def sf4_def sizes_def fs_len_def fs_read_def)
  have sfr: "fixed_rep size_enc size_entry_len f4 sf4 (entries ?e 0 rest) (length rest) []"
    using fi(2) unfolding sf4_def sizes_def by (simp split del: if_split)
  have le: "length (cat ?e rest) \<le> length (cat ?e disk)"
  proof -
    have "length (cat ?e (nths xs I)) \<le> length (cat ?e xs)" for xs I
      by (induction xs arbitrary: I) (auto simp: nths_Cons intro: le_trans trans_le_add2)
    then show ?thesis by (simp add: rest_def)
  qed
  have "var_rep ?e f4 a4 rest (length rest) []"
    using sfr d rest(2) le r(5) f4p(1) by (auto simp: var_rep_def core_rep_def a4_def sf4_def out_def)
  moreover have "paths a4 = paths a" by (simp add: paths_def size_paths_def a4_def sf4_def a sf(1) sf'(1) tmp_path_def)
  moreover have "aof_replace_with_tmp rd (f (tmp_path a \<mapsto> out)) a = Some (Inr (a4, f4))"
    using rel rb init by (simp add: aof_replace_with_tmp_def)
  moreover have "\<forall>q. q \<notin> set (paths a) \<longrightarrow> f4 q = f q"
    by (auto simp: paths_def size_paths_def a sf(1) sf'(1) f4_def f2_def)
  moreover have "synced a4" by (simp add: a4_def sf4_def)
  ultimately show ?thesis using w by (auto simp: a4_def)
qed

section \<open>The contract of a file of elements\<close>

text \<open>
  What the users of a file rely on, for both kinds of files: \<open>rep f a disk k pend\<close> as above, and \<open>ok cur x\<close> that
  \<open>x\<close> may be appended to \<open>cur\<close>. Every operation keeps the representation, does what it says to the list, and
  changes only the paths the file owns.
\<close>

locale element_file =
  fixes wr :: "'a writeable" and rd :: "'a readable_fn"
    and rep :: "fs \<Rightarrow> append_only_file \<Rightarrow> 'a list \<Rightarrow> nat \<Rightarrow> 'a list \<Rightarrow> bool"
    and ok :: "'a list \<Rightarrow> 'a \<Rightarrow> bool"
  assumes rep_le: "rep f a disk k pend \<Longrightarrow> k \<le> length disk"
    and rep_read: "rep f a disk k pend \<Longrightarrow> read_as_elmt rd a i =
      (if i < length (take k disk @ pend) then Inr ((take k disk @ pend) ! i) else Inl (IoOther (IOErr UnexpectedEof)))"
    and rep_unsync: "rep f a disk k pend \<Longrightarrow> size_unsync_in_elmts a = Inr (length (take k disk @ pend))"
    and rep_size: "rep f a disk k pend \<Longrightarrow> size_in_elmts f a = Inr (length disk)"
    and rep_append: "rep f a disk k pend \<Longrightarrow> ok (take k disk @ pend) x \<Longrightarrow>
      \<exists>a'. append_elmt wr a x = Inr a' \<and> rep f a' disk k (pend @ [x]) \<and> paths a' = paths a"
    and rep_rewind: "rep f a disk k [] \<Longrightarrow> pos \<le> k \<Longrightarrow>
      rep f (aof_rewind a pos) disk pos [] \<and> paths (aof_rewind a pos) = paths a"
    and rep_flush: "rep f a disk k pend \<Longrightarrow>
      \<exists>a' f'. aof_flush f a = Inr (a', f') \<and> rep f' a' (take k disk @ pend) (length (take k disk @ pend)) [] \<and>
        synced a' \<and> paths a' = paths a \<and> (\<forall>q. q \<notin> set (paths a) \<longrightarrow> f' q = f q)"
    and rep_discard: "rep f a disk k pend \<Longrightarrow>
      rep f (aof_discard a) disk (length disk) [] \<and> paths (aof_discard a) = paths a"
    and rep_compact: "rep f a disk (length disk) [] \<Longrightarrow> synced a \<Longrightarrow> distinct (paths a) \<Longrightarrow> sorted_wrt (<) ps \<Longrightarrow>
      \<exists>f1 a' f2. aof_write_tmp_pruned rd wr f a ps = Some (Inr f1) \<and> f1 = f (tmp_path a := f1 (tmp_path a)) \<and>
        aof_replace_with_tmp rd f1 a = Some (Inr (a', f2)) \<and>
        rep f2 a' (nths disk {i. i \<notin> set ps}) (length (nths disk {i. i \<notin> set ps})) [] \<and> synced a' \<and>
        paths a' = paths a \<and> (\<forall>q. q \<notin> set (paths a) \<longrightarrow> f2 q = f q)"
    and rep_frame: "rep f a disk k pend \<Longrightarrow> (\<forall>q\<in>set (paths a). f' q = f q) \<Longrightarrow> rep f' a disk k pend"

definition fixed_file :: "'a writeable \<Rightarrow> 'a readable_fn \<Rightarrow> (protocol_version \<Rightarrow> 'a \<Rightarrow> bool) \<Rightarrow> nat \<Rightarrow> protocol_version \<Rightarrow>
    fs \<Rightarrow> append_only_file \<Rightarrow> 'a list \<Rightarrow> nat \<Rightarrow> 'a list \<Rightarrow> bool" where
  "fixed_file wr rd valid n v f a disk k pend \<longleftrightarrow>
     eof_codec wr rd valid \<and> aof_version a = v \<and> (\<forall>x\<in>set disk \<union> set pend. valid v x) \<and>
     fixed_rep (enc wr v) n f a disk k pend"

definition var_file :: "'a writeable \<Rightarrow> 'a readable_fn \<Rightarrow> (protocol_version \<Rightarrow> 'a \<Rightarrow> bool) \<Rightarrow> protocol_version \<Rightarrow>
    fs \<Rightarrow> append_only_file \<Rightarrow> 'a list \<Rightarrow> nat \<Rightarrow> 'a list \<Rightarrow> bool" where
  "var_file wr rd valid v f a disk k pend \<longleftrightarrow>
     eof_codec wr rd valid \<and> aof_version a = v \<and> (\<forall>x\<in>set disk \<union> set pend. valid v x) \<and>
     var_rep (enc wr v) f a disk k pend"

lemma append_elmt_valid:
  assumes "codec wr rd valid" and "valid (aof_version a) x"
  shows "append_elmt wr a x = aof_append a (enc wr (aof_version a) x)"
  using codec.enc_written [OF assms] by (simp add: append_elmt_def ser_vec_def)

lemma deserialize_empty:
  assumes "eof_codec wr rd valid"
  shows "deserialize rd [] v DeserFull = Inl (IOErr UnexpectedEof)"
  using eof_codec.eof [OF assms] by (simp add: deserialize_def bin_new_def)

lemma read_as_elmt_valid:
  assumes "eof_codec wr rd valid" and "\<forall>x\<in>set disk \<union> set pend. valid v x" and "aof_version a = v"
    and "aof_read a i = Inr (if i < length (take k disk @ pend) then enc wr v ((take k disk @ pend) ! i) else [])"
  shows "read_as_elmt rd a i =
    (if i < length (take k disk @ pend) then Inr ((take k disk @ pend) ! i) else Inl (IoOther (IOErr UnexpectedEof)))"
proof (cases "i < length (take k disk @ pend)")
  case True
  have "valid v ((take k disk @ pend) ! i)"
    using assms(2) nth_mem [OF True] in_set_takeD [of _ k disk] by auto
  then have "deserialize rd (enc wr v ((take k disk @ pend) ! i)) v DeserFull = Inr ((take k disk @ pend) ! i)"
    using codec.enc_deserialize assms(1) by (auto simp: eof_codec_def)
  then show ?thesis using assms(3,4) True by (simp add: read_as_elmt_def del: length_append)
next
  case False
  then show ?thesis
    using assms(3,4) deserialize_empty [OF assms(1)] by (simp add: read_as_elmt_def del: length_append)
qed

lemma size_paths_discard: "size_paths (aof_size_info (aof_discard a)) = size_paths (aof_size_info a)"
  by (cases a) (auto simp: size_paths_def tmp_path_def split: size_info.splits)

lemma paths_rewind [simp]: "paths (aof_rewind a pos) = paths a"
  by (simp add: paths_def size_paths_rewind tmp_path_def)

lemma paths_discard [simp]: "paths (aof_discard a) = paths a"
  by (simp add: paths_def size_paths_discard tmp_path_def)

lemma paths_eqI:
  "aof_path a' = aof_path a \<Longrightarrow> size_paths (aof_size_info a') = size_paths (aof_size_info a) \<Longrightarrow> paths a' = paths a"
  by (simp add: paths_def tmp_path_def)

lemma fixed_paths: "fixed_rep e n f a disk k pend \<Longrightarrow> paths a = [aof_path a, tmp_path a]"
  by (simp add: paths_def size_paths_def fixed_rep_def)

lemma fixed_size: "fixed_rep e n f a disk k pend \<Longrightarrow> size_in_elmts f a = Inr (length disk)"
  using length_cat_fixed [of disk e n] by (cases a) (auto simp: fixed_rep_def core_rep_def fs_len_def fs_read_def)

lemma fixed_synced: "fixed_rep e n f a disk (length disk) [] \<Longrightarrow> buffer_start_pos_bak a = 0 \<Longrightarrow> synced a"
  by (cases a) (auto simp: fixed_rep_def core_rep_def)

interpretation ff: element_file wr rd "fixed_file wr rd valid n v" "\<lambda>cur x. valid v x \<and> length (enc wr v x) = n"
  for wr rd valid n v
proof unfold_locales
  fix f f' a disk k pend pos x i ps
  let ?rep = "fixed_file wr rd valid n v"
  show "k \<le> length disk" if "?rep f a disk k pend"
    using that by (simp add: fixed_file_def fixed_rep_def core_rep_def)
  show "read_as_elmt rd a i =
      (if i < length (take k disk @ pend) then Inr ((take k disk @ pend) ! i) else Inl (IoOther (IOErr UnexpectedEof)))"
    if "?rep f a disk k pend"
    using that by (auto simp only: fixed_file_def intro!: read_as_elmt_valid fixed_read)
  show "size_unsync_in_elmts a = Inr (length (take k disk @ pend))" if "?rep f a disk k pend"
    using that fixed_unsync unfolding fixed_file_def by blast
  show "size_in_elmts f a = Inr (length disk)" if "?rep f a disk k pend"
    using that fixed_size by (auto simp: fixed_file_def)
  show "\<exists>a'. append_elmt wr a x = Inr a' \<and> ?rep f a' disk k (pend @ [x]) \<and> paths a' = paths a"
    if r: "?rep f a disk k pend" and x: "valid v x \<and> length (enc wr v x) = n"
  proof -
    have rep: "fixed_rep (enc wr v) n f a disk k pend" "aof_version a = v" "codec wr rd valid"
      using r by (auto simp: fixed_file_def eof_codec_def)
    obtain a' where a': "aof_append a (enc wr v x) = Inr a'" "fixed_rep (enc wr v) n f a' disk k (pend @ [x])"
        "aof_path a' = aof_path a" "aof_version a' = aof_version a"
      using fixed_append [OF rep(1), of x] x by blast
    then have "paths a' = paths a"
      using rep(1) by (intro paths_eqI) (auto simp: fixed_rep_def)
    then show ?thesis
      using a' append_elmt_valid [OF rep(3), of a x] r x rep(2) by (auto simp: fixed_file_def)
  qed
  show "?rep f (aof_rewind a pos) disk pos [] \<and> paths (aof_rewind a pos) = paths a"
    if "?rep f a disk k []" "pos \<le> k"
    using that fixed_rewind by (auto simp: fixed_file_def)
  show "\<exists>a' f'. aof_flush f a = Inr (a', f') \<and> ?rep f' a' (take k disk @ pend) (length (take k disk @ pend)) [] \<and>
      synced a' \<and> paths a' = paths a \<and> (\<forall>q. q \<notin> set (paths a) \<longrightarrow> f' q = f q)"
    if "?rep f a disk k pend"
  proof -
    have rep: "fixed_rep (enc wr v) n f a disk k pend" using that by (simp add: fixed_file_def)
    obtain a' f' where a': "aof_flush f a = Inr (a', f')"
        "fixed_rep (enc wr v) n f' a' (take k disk @ pend) (length (take k disk @ pend)) []"
        "\<forall>q. q \<noteq> aof_path a \<longrightarrow> f' q = f q" "aof_path a' = aof_path a" "aof_version a' = aof_version a" "synced a'"
      using fixed_flush [OF rep] by blast
    have "paths a' = paths a" using rep a'(2,4) by (intro paths_eqI) (auto simp: fixed_rep_def)
    then show ?thesis
      using a' that in_set_takeD [of _ k disk] by (auto simp: fixed_file_def paths_def)
  qed
  show "?rep f (aof_discard a) disk (length disk) [] \<and> paths (aof_discard a) = paths a" if "?rep f a disk k pend"
    using that fixed_discard by (auto simp: fixed_file_def)
  show "\<exists>f1 a' f2. aof_write_tmp_pruned rd wr f a ps = Some (Inr f1) \<and> f1 = f (tmp_path a := f1 (tmp_path a)) \<and>
      aof_replace_with_tmp rd f1 a = Some (Inr (a', f2)) \<and>
      ?rep f2 a' (nths disk {i. i \<notin> set ps}) (length (nths disk {i. i \<notin> set ps})) [] \<and> synced a' \<and>
      paths a' = paths a \<and> (\<forall>q. q \<notin> set (paths a) \<longrightarrow> f2 q = f q)"
    if "?rep f a disk (length disk) []" "synced a" "distinct (paths a)" "sorted_wrt (<) ps"
  proof -
    have rep: "fixed_rep (enc wr v) n f a disk (length disk) []" "eof_codec wr rd valid" "aof_version a = v"
        "\<forall>x\<in>set disk. valid v x"
      using that(1) by (auto simp: fixed_file_def)
    have "tmp_path a \<noteq> aof_path a" using that(3) by (auto simp: paths_def)
    from fixed_compact [OF rep(2,1) that(2) rep(3,4) that(4) this] obtain f1 a' f2 where
        a': "aof_write_tmp_pruned rd wr f a ps = Some (Inr f1)" "f1 = f (tmp_path a := f1 (tmp_path a))"
          "aof_replace_with_tmp rd f1 a = Some (Inr (a', f2))"
          "fixed_rep (enc wr v) n f2 a' (nths disk {i. i \<notin> set ps}) (length (nths disk {i. i \<notin> set ps})) []"
          "synced a'" "aof_version a' = v" "aof_path a' = aof_path a"
          "\<forall>q. q \<notin> {aof_path a, tmp_path a} \<longrightarrow> f2 q = f q"
      by blast
    moreover have "paths a' = paths a" using rep(1) a'(4,7) by (intro paths_eqI) (auto simp: fixed_rep_def)
    moreover have "\<forall>x\<in>set (nths disk {i. i \<notin> set ps}). valid v x" using rep(4) set_nths_subset by fastforce
    ultimately show ?thesis using rep(2) unfolding fixed_file_def by (auto simp: paths_def)
  qed
  show "?rep f' a disk k pend" if "?rep f a disk k pend" "\<forall>q\<in>set (paths a). f' q = f q"
    using that by (simp add: fixed_file_def fixed_rep_def core_rep_def paths_def)
qed

lemma var_size:
  assumes "var_rep e f a disk k pend"
  shows "size_in_elmts f a = Inr (length disk)"
proof -
  obtain sf where sf: "aof_size_info a = VariableSize sf"
      "fixed_rep size_enc size_entry_len f sf (entries e 0 disk) k (drop k (entries e 0 (take k disk @ pend)))"
    using var_size_file [OF assms] by metis
  from fixed_size [OF sf(2)] sf(1) show ?thesis by (cases a) simp
qed

lemma var_frame:
  assumes "var_rep e f a disk k pend" and "\<forall>q\<in>set (paths a). f' q = f q"
  shows "var_rep e f' a disk k pend"
  using assms by (auto simp: var_rep_def fixed_rep_def core_rep_def paths_def size_paths_def)

interpretation vf: element_file wr rd "var_file wr rd valid v"
  "\<lambda>cur x. valid v x \<and> enc wr v x \<noteq> [] \<and> length (enc wr v x) < 2 ^ 16 \<and> length (cat (enc wr v) (cur @ [x])) < 2 ^ 64"
  for wr rd valid v
proof unfold_locales
  fix f f' a disk k pend pos x i ps
  let ?rep = "var_file wr rd valid v"
  show "k \<le> length disk" if "?rep f a disk k pend"
    using that by (simp add: var_file_def var_rep_def core_rep_def)
  show "read_as_elmt rd a i =
      (if i < length (take k disk @ pend) then Inr ((take k disk @ pend) ! i) else Inl (IoOther (IOErr UnexpectedEof)))"
    if "?rep f a disk k pend"
    using that by (auto simp only: var_file_def intro!: read_as_elmt_valid var_read)
  show "size_unsync_in_elmts a = Inr (length (take k disk @ pend))" if "?rep f a disk k pend"
    using that var_unsync unfolding var_file_def by blast
  show "size_in_elmts f a = Inr (length disk)" if "?rep f a disk k pend"
    using that var_size by (auto simp: var_file_def)
  show "\<exists>a'. append_elmt wr a x = Inr a' \<and> ?rep f a' disk k (pend @ [x]) \<and> paths a' = paths a"
    if r: "?rep f a disk k pend" and x: "valid v x \<and> enc wr v x \<noteq> [] \<and> length (enc wr v x) < 2 ^ 16 \<and>
      length (cat (enc wr v) ((take k disk @ pend) @ [x])) < 2 ^ 64"
  proof -
    have rep: "var_rep (enc wr v) f a disk k pend" "aof_version a = v" "codec wr rd valid"
      using r by (auto simp: var_file_def eof_codec_def)
    obtain a' where a': "aof_append a (enc wr v x) = Inr a'" "var_rep (enc wr v) f a' disk k (pend @ [x])"
        "paths a' = paths a" "aof_version a' = aof_version a"
      using var_append [OF rep(1), of x] x by auto
    then show ?thesis
      using append_elmt_valid [OF rep(3), of a x] r x rep(2) by (auto simp: var_file_def)
  qed
  show "?rep f (aof_rewind a pos) disk pos [] \<and> paths (aof_rewind a pos) = paths a"
    if "?rep f a disk k []" "pos \<le> k"
    using that var_rewind by (auto simp: var_file_def)
  show "\<exists>a' f'. aof_flush f a = Inr (a', f') \<and> ?rep f' a' (take k disk @ pend) (length (take k disk @ pend)) [] \<and>
      synced a' \<and> paths a' = paths a \<and> (\<forall>q. q \<notin> set (paths a) \<longrightarrow> f' q = f q)"
    if r: "?rep f a disk k pend"
  proof -
    have rep: "var_rep (enc wr v) f a disk k pend" using r by (simp add: var_file_def)
    obtain a' f' where a': "aof_flush f a = Inr (a', f')"
        "var_rep (enc wr v) f' a' (take k disk @ pend) (length (take k disk @ pend)) []"
        "\<forall>q. q \<notin> set (paths a) \<longrightarrow> f' q = f q" "paths a' = paths a" "aof_version a' = aof_version a" "synced a'"
      using var_flush [OF rep] by blast
    then show ?thesis using r in_set_takeD [of _ k disk] by (auto simp: var_file_def)
  qed
  show "?rep f (aof_discard a) disk (length disk) [] \<and> paths (aof_discard a) = paths a" if "?rep f a disk k pend"
    using that var_discard by (auto simp: var_file_def)
  show "\<exists>f1 a' f2. aof_write_tmp_pruned rd wr f a ps = Some (Inr f1) \<and> f1 = f (tmp_path a := f1 (tmp_path a)) \<and>
      aof_replace_with_tmp rd f1 a = Some (Inr (a', f2)) \<and>
      ?rep f2 a' (nths disk {i. i \<notin> set ps}) (length (nths disk {i. i \<notin> set ps})) [] \<and> synced a' \<and>
      paths a' = paths a \<and> (\<forall>q. q \<notin> set (paths a) \<longrightarrow> f2 q = f q)"
    if r: "?rep f a disk (length disk) []" and c: "synced a" "distinct (paths a)" "sorted_wrt (<) ps"
  proof -
    have rep: "var_rep (enc wr v) f a disk (length disk) []" "eof_codec wr rd valid" "aof_version a = v"
        "\<forall>x\<in>set disk. valid v x"
      using r by (auto simp: var_file_def)
    obtain f1 a' f2 where
        a': "aof_write_tmp_pruned rd wr f a ps = Some (Inr f1)" "f1 = f (tmp_path a := f1 (tmp_path a))"
          "aof_replace_with_tmp rd f1 a = Some (Inr (a', f2))"
          "var_rep (enc wr v) f2 a' (nths disk {i. i \<notin> set ps}) (length (nths disk {i. i \<notin> set ps})) []"
          "synced a'" "aof_version a' = v" "paths a' = paths a" "\<forall>q. q \<notin> set (paths a) \<longrightarrow> f2 q = f q"
      using var_compact [OF rep(2,1) c(1) rep(3,4) c(3,2)] by blast
    moreover have "\<forall>x\<in>set (nths disk {i. i \<notin> set ps}). valid v x" using rep(4) set_nths_subset by fastforce
    ultimately show ?thesis using rep(2) unfolding var_file_def by auto
  qed
  show "?rep f' a disk k pend" if "?rep f a disk k pend" "\<forall>q\<in>set (paths a). f' q = f q"
    using that var_frame by (auto simp: var_file_def)
qed

section \<open>Sequences of operations\<close>

datatype 'a file_op = AppendElmt 'a | RewindTo nat | Flush | Discard

fun run_file_op :: "'a writeable \<Rightarrow> 'a file_op \<Rightarrow> fs \<times> append_only_file \<Rightarrow> io_error + fs \<times> append_only_file" where
  "run_file_op wr (AppendElmt x) (f, a) = rbind (append_elmt wr a x) (\<lambda>a. Inr (f, a))"
| "run_file_op wr (RewindTo pos) (f, a) = Inr (f, aof_rewind a pos)"
| "run_file_op wr Flush (f, a) = rbind (aof_flush f a) (\<lambda>(a, f). Inr (f, a))"
| "run_file_op wr Discard (f, a) = Inr (f, aof_discard a)"

text \<open>
  The same on a list that is on disk, the length to which it is rewound, and the list in memory. A rewind
  needs an empty buffer and a position in front of the current one.
\<close>

fun list_op :: "('a list \<Rightarrow> 'a \<Rightarrow> bool) \<Rightarrow> 'a file_op \<Rightarrow> 'a list \<times> nat \<times> 'a list \<Rightarrow> ('a list \<times> nat \<times> 'a list) option" where
  "list_op ok (AppendElmt x) (disk, k, pend) = (if ok (take k disk @ pend) x then Some (disk, k, pend @ [x]) else None)"
| "list_op ok (RewindTo pos) (disk, k, pend) = (if pend = [] \<and> pos \<le> k then Some (disk, pos, []) else None)"
| "list_op ok Flush (disk, k, pend) = Some (take k disk @ pend, length (take k disk @ pend), [])"
| "list_op ok Discard (disk, k, pend) = Some (disk, length disk, [])"

fun list_ops :: "('a list \<Rightarrow> 'a \<Rightarrow> bool) \<Rightarrow> 'a file_op list \<Rightarrow> 'a list \<times> nat \<times> 'a list \<Rightarrow> ('a list \<times> nat \<times> 'a list) option" where
  "list_ops ok [] s = Some s"
| "list_ops ok (op # ops) s = Option.bind (list_op ok op s) (list_ops ok ops)"

context element_file
begin

lemma run_op_refines:
  assumes "rep f a disk k pend" and "list_op ok op (disk, k, pend) = Some (disk', k', pend')"
  shows "\<exists>f' a'. run_file_op wr op (f, a) = Inr (f', a') \<and> rep f' a' disk' k' pend'"
proof (cases op)
  case (AppendElmt x)
  then show ?thesis using rep_append [OF assms(1), of x] assms(2) by (auto split: if_splits)
next
  case (RewindTo pos)
  then show ?thesis using rep_rewind assms by (auto split: if_splits)
next
  case Flush
  then show ?thesis using rep_flush [OF assms(1)] assms(2) by auto
next
  case Discard
  then show ?thesis using rep_discard [OF assms(1)] assms(2) by auto
qed

lemma run_ops_refines:
  "rep f a disk k pend \<Longrightarrow> list_ops ok ops (disk, k, pend) = Some (disk', k', pend') \<Longrightarrow>
   \<exists>f' a'. try_fold (run_file_op wr) ops (f, a) = Inr (f', a') \<and> rep f' a' disk' k' pend'"
proof (induction ops arbitrary: f a disk k pend)
  case (Cons op ops)
  from Cons.prems(2) obtain d1 k1 p1 where 1: "list_op ok op (disk, k, pend) = Some (d1, k1, p1)"
      "list_ops ok ops (d1, k1, p1) = Some (disk', k', pend')"
    by (cases "list_op ok op (disk, k, pend)") auto
  from run_op_refines [OF Cons.prems(1) 1(1)] Cons.IH 1(2) show ?case by fastforce
qed auto

end

section \<open>Properties\<close>

lemma open_new_fixed:
  assumes "f p = None" and "eof_codec wr rd valid" and "0 < n"
  shows "\<exists>a f'. aof_open rd f p (FixedSize n) v = Some (Inr (a, f')) \<and> fixed_file wr rd valid n v f' a [] 0 [] \<and>
    (\<forall>q. q \<noteq> p \<longrightarrow> f' q = f q)"
  using assms by (auto simp: aof_open_def fs_touch_def fs_len_def fs_read_def fixed_file_def fixed_rep_def core_rep_def)

lemma open_new_var:
  assumes "f p = None" "f sp = None" "p \<noteq> sp" and "eof_codec wr rd valid"
    and sf: "sf = AppendOnlyFile sp (FixedSize size_entry_len) sv None [] 0 0"
  shows "\<exists>a f'. aof_open rd f p (VariableSize sf) v = Some (Inr (a, f')) \<and> var_file wr rd valid v f' a [] 0 [] \<and>
    (\<forall>q. q \<noteq> p \<and> q \<noteq> sp \<longrightarrow> f' q = f q)"
  using assms by (auto simp: aof_open_def fs_touch_def fs_len_def fs_read_def var_file_def var_rep_def fixed_rep_def core_rep_def
      sum_sizes_def)

text \<open>C28: An append-only file behaves as a list. Open a new file (of fixed-size elements, or of variable-sized ones
  with its size file) and run any sequence of appends, rewinds, flushes and discards that the list model allows:
  every call succeeds, and afterwards reading position \<open>i\<close> gives the \<open>i\<close>-th element of the list the same
  operations leave, and fails behind its end.
\<close>

theorem append_only_file_refines_list:
  assumes "eof_codec wr rd valid"
    and "f p = None \<and> f sp = None \<and> p \<noteq> sp"
    and "si = FixedSize n \<and> 0 < n \<and> ok = (\<lambda>cur x. valid v x \<and> length (enc wr v x) = n) \<or>
      si = VariableSize (AppendOnlyFile sp (FixedSize size_entry_len) sv None [] 0 0) \<and>
      ok = (\<lambda>cur x. valid v x \<and> enc wr v x \<noteq> [] \<and> length (enc wr v x) < 2 ^ 16 \<and> length (cat (enc wr v) (cur @ [x])) < 2 ^ 64)"
    and "list_ops ok ops ([], 0, []) = Some (disk, k, pend)"
  shows "\<exists>a0 f0 f' a'. aof_open rd f p si v = Some (Inr (a0, f0)) \<and> try_fold (run_file_op wr) ops (f0, a0) = Inr (f', a') \<and>
    (\<forall>i. read_as_elmt rd a' i =
      (if i < length (take k disk @ pend) then Inr ((take k disk @ pend) ! i) else Inl (IoOther (IOErr UnexpectedEof))))"
  using assms(3)
proof (elim disjE conjE)
  assume si: "si = FixedSize n" "0 < n" "ok = (\<lambda>cur x. valid v x \<and> length (enc wr v x) = n)"
  obtain a0 f0 where o: "aof_open rd f p si v = Some (Inr (a0, f0))" "fixed_file wr rd valid n v f0 a0 [] 0 []"
    using open_new_fixed [OF _ assms(1) si(2)] assms(2) si(1) by blast
  from ff.run_ops_refines [OF o(2)] assms(4) si(3) obtain f' a' where
      r: "try_fold (run_file_op wr) ops (f0, a0) = Inr (f', a')" "fixed_file wr rd valid n v f' a' disk k pend"
    by blast
  then show ?thesis using o(1) ff.rep_read [OF r(2)] by blast
next
  assume si: "si = VariableSize (AppendOnlyFile sp (FixedSize size_entry_len) sv None [] 0 0)"
    "ok = (\<lambda>cur x. valid v x \<and> enc wr v x \<noteq> [] \<and> length (enc wr v x) < 2 ^ 16 \<and> length (cat (enc wr v) (cur @ [x])) < 2 ^ 64)"
  obtain a0 f0 where o: "aof_open rd f p si v = Some (Inr (a0, f0))" "var_file wr rd valid v f0 a0 [] 0 []"
    using open_new_var [OF _ _ _ assms(1) refl] assms(2) si(1) by blast
  from vf.run_ops_refines [OF o(2)] assms(4) si(2) obtain f' a' where
      r: "try_fold (run_file_op wr) ops (f0, a0) = Inr (f', a')" "var_file wr rd valid v f' a' disk k pend"
    by blast
  then show ?thesis using o(1) vf.rep_read [OF r(2)] by blast
qed

theorem append_only_file_refines_list_witness:
  "\<exists>a0 f0 f' a'. aof_open read_u64 Map.empty ''a'' (FixedSize 8) 1 = Some (Inr (a0, f0)) \<and>
     try_fold (run_file_op u64_write) [AppendElmt 7, AppendElmt 8, Flush, RewindTo 1, AppendElmt 9] (f0, a0) = Inr (f', a') \<and>
     read_as_elmt read_u64 a' 0 = Inr 7 \<and> read_as_elmt read_u64 a' 1 = Inr 9 \<and>
     read_as_elmt read_u64 a' 2 = Inl (IoOther (IOErr UnexpectedEof))"
proof -
  define ok where "ok = (\<lambda>(cur :: u64 list) x. True \<and> length (enc u64_write 1 x) = 8)"
  have "ok cur x" for cur x by (simp add: ok_def enc_def u64_write_def)
  then have "list_ops ok [AppendElmt 7, AppendElmt 8, Flush, RewindTo 1, AppendElmt 9] ([], 0, []) = Some ([7, 8], 1, [9])"
    by simp
  from append_only_file_refines_list [OF u64_codec.eof_codec_axioms _ _ this, of Map.empty "''a''" "''b''" "FixedSize 8" 8 1]
  show ?thesis by (fastforce simp: ok_def)
qed

end
