(* ===== verification/File_Backend.thy ===== *)
theory File_Backend
  imports Leaf_Set Append_File
begin

text \<open>
  The persistent backend of a range, \<open>store/src/pmmr.rs\<close>: a hash file and a data file that hold what is not
  compacted away, the leaf set of the unspent leaves and the prune list that translates positions.

  As in the prune list, the option is the panic of a call (or that it does not return), the sum inside it its
  \<open>Result\<close>. \<open>'t\<close> are the elements of the range, \<open>'e\<close> what is stored for them (\<open>PMMRable::E\<close>).
\<close>

section \<open>Definitions\<close>

definition pmmr_hash_file :: string where "pmmr_hash_file = ''pmmr_hash.bin''"
definition pmmr_data_file :: string where "pmmr_data_file = ''pmmr_data.bin''"
definition pmmr_leaf_file :: string where "pmmr_leaf_file = ''pmmr_leaf.bin''"
definition pmmr_prun_file :: string where "pmmr_prun_file = ''pmmr_prun.bin''"
definition pmmr_size_file :: string where "pmmr_size_file = ''pmmr_size.bin''"
definition rewind_file_cleanup_duration_seconds :: nat where "rewind_file_cleanup_duration_seconds = 60 * 60 * 24"

definition join_path :: "string \<Rightarrow> string \<Rightarrow> string" where
  "join_path dir name = dir @ ''/'' @ name"

record ('t, 'e) pmmrable =
  pm_as_elmt :: "'t \<Rightarrow> 'e"
  pm_elmt_size :: "nat option"
  pm_write :: "'e writeable"
  pm_read :: "'e readable_fn"

record 'm file_backend =
  fb_data_dir :: string
  fb_prunable :: bool
  fb_hash_file :: append_only_file
  fb_data_file :: append_only_file
  fb_leaf_set :: "'m leaf_set"
  fb_prune_list :: "'m prune_list"

definition fb_is_pruned :: "'m croaring \<Rightarrow> 'm file_backend \<Rightarrow> nat \<Rightarrow> bool" where
  "fb_is_pruned lib b pos0 = is_pruned lib (fb_prune_list b) pos0"

definition fb_is_pruned_root :: "'m croaring \<Rightarrow> 'm file_backend \<Rightarrow> nat \<Rightarrow> bool" where
  "fb_is_pruned_root lib b pos0 = is_pruned_root lib (fb_prune_list b) pos0"

definition fb_is_compacted :: "'m croaring \<Rightarrow> 'm file_backend \<Rightarrow> nat \<Rightarrow> bool" where
  "fb_is_compacted lib b pos0 =
     (if leaf_set_includes lib (fb_leaf_set b) pos0 then False
      else \<not> fb_is_pruned_root lib b pos0 \<and> fb_is_pruned lib b pos0)"

definition fb_append ::
    "'m croaring \<Rightarrow> ('t, 'e) pmmrable \<Rightarrow> 'm file_backend \<Rightarrow> 't \<Rightarrow> hash list \<Rightarrow> (pmmr_error + 'm file_backend) option" where
  "fb_append lib pm b data hashes =
     (case data_append (pm_write pm) (fb_data_file b) (pm_as_elmt pm data) of
        Inl e \<Rightarrow> Some (Inl (BackendError ''Failed to append data to file.''))
      | Inr (sz, data_file) \<Rightarrow>
          (case data_extend_from_slice hash_write (fb_hash_file b) hashes of
             Inl e \<Rightarrow> Some (Inl (BackendError ''Failed to append hash to file.''))
           | Inr (_, hash_file) \<Rightarrow>
               (let b = b \<lparr> fb_data_file := data_file, fb_hash_file := hash_file \<rparr>
                in if fb_prunable b
                   then Option.bind (get_total_leaf_shift lib (fb_prune_list b)) (\<lambda>shift.
                          let pos = insertion_to_pmmr_index (sz + shift - 1)
                          in Some (Inr (b \<lparr> fb_leaf_set := leaf_set_add lib (fb_leaf_set b) pos \<rparr>)))
                   else Some (Inr b))))"

definition fb_append_pruned_subtree ::
    "'m croaring \<Rightarrow> 'm file_backend \<Rightarrow> hash \<Rightarrow> nat \<Rightarrow> (pmmr_error + 'm file_backend) option" where
  "fb_append_pruned_subtree lib b h pos0 =
     (if \<not> fb_prunable b then Some (Inl (BackendError ''Not prunable, cannot append pruned subtree.''))
      else case data_append hash_write (fb_hash_file b) h of
             Inl e \<Rightarrow> Some (Inl (BackendError ''Failed to append subtree hash to file.''))
           | Inr (_, hash_file) \<Rightarrow>
               Option.bind (append lib (fb_prune_list b) pos0) (\<lambda>pl.
                 Some (Inr (b \<lparr> fb_hash_file := hash_file, fb_prune_list := pl \<rparr>))))"

definition fb_append_hash :: "'m file_backend \<Rightarrow> hash \<Rightarrow> pmmr_error + 'm file_backend" where
  "fb_append_hash b h =
     (case data_append hash_write (fb_hash_file b) h of
        Inl e \<Rightarrow> Inl (BackendError ''Failed to append hash to file.'')
      | Inr (_, hash_file) \<Rightarrow> Inr (b \<lparr> fb_hash_file := hash_file \<rparr>))"

definition fb_get_peak_from_file :: "'m croaring \<Rightarrow> 'm file_backend \<Rightarrow> nat \<Rightarrow> hash option option" where
  "fb_get_peak_from_file lib b pos0 =
     Option.bind (get_shift lib (fb_prune_list b) pos0) (\<lambda>shift.
       Some (data_read hash_read (fb_hash_file b) (1 + pos0 - shift)))"

definition fb_get_from_file :: "'m croaring \<Rightarrow> 'm file_backend \<Rightarrow> nat \<Rightarrow> hash option option" where
  "fb_get_from_file lib b pos0 =
     (if fb_is_compacted lib b pos0 then Some None
      else Option.bind (get_shift lib (fb_prune_list b) pos0) (\<lambda>shift.
        Some (data_read hash_read (fb_hash_file b) (1 + pos0 - shift))))"

definition fb_get_data_from_file ::
    "'m croaring \<Rightarrow> ('t, 'e) pmmrable \<Rightarrow> 'm file_backend \<Rightarrow> nat \<Rightarrow> 'e option option" where
  "fb_get_data_from_file lib pm b pos0 =
     (if \<not> is_leaf pos0 then Some None
      else if fb_is_compacted lib b pos0 then Some None
      else let flatfile_pos = n_leaves (pos0 + 1)
           in Option.bind (get_leaf_shift lib (fb_prune_list b) (1 + pos0)) (\<lambda>shift.
                Some (data_read (pm_read pm) (fb_data_file b) (flatfile_pos - shift))))"

definition fb_get_hash :: "'m croaring \<Rightarrow> 'm file_backend \<Rightarrow> nat \<Rightarrow> hash option option" where
  "fb_get_hash lib b pos0 =
     (if fb_prunable b \<and> is_leaf pos0 \<and> \<not> leaf_set_includes lib (fb_leaf_set b) pos0 then Some None
      else fb_get_from_file lib b pos0)"

definition fb_get_data :: "'m croaring \<Rightarrow> ('t, 'e) pmmrable \<Rightarrow> 'm file_backend \<Rightarrow> nat \<Rightarrow> 'e option option" where
  "fb_get_data lib pm b pos0 =
     (if \<not> is_leaf pos0 then Some None
      else if fb_prunable b \<and> \<not> leaf_set_includes lib (fb_leaf_set b) pos0 then Some None
      else fb_get_data_from_file lib pm b pos0)"

definition fb_remove_from_leaf_set :: "'m croaring \<Rightarrow> 'm file_backend \<Rightarrow> nat \<Rightarrow> 'm file_backend" where
  "fb_remove_from_leaf_set lib b pos0 = b \<lparr> fb_leaf_set := leaf_set_remove lib (fb_leaf_set b) pos0 \<rparr>"

definition fb_leaf_pos_iter :: "'m croaring \<Rightarrow> 'm file_backend \<Rightarrow> nat list option" where
  "fb_leaf_pos_iter lib b =
     (if fb_prunable b then Some (map (\<lambda>x. x - 1) (leaf_set_iter lib (fb_leaf_set b))) else None)"

definition fb_hash_size :: "fs \<Rightarrow> 'm file_backend \<Rightarrow> nat" where
  "fb_hash_size f b = data_size f (fb_hash_file b)"

definition fb_data_size :: "fs \<Rightarrow> 'm file_backend \<Rightarrow> nat" where
  "fb_data_size f b = data_size f (fb_data_file b)"

definition fb_unpruned_size :: "'m croaring \<Rightarrow> fs \<Rightarrow> 'm file_backend \<Rightarrow> nat option" where
  "fb_unpruned_size lib f b =
     Option.bind (get_total_shift lib (fb_prune_list b)) (\<lambda>shift. Some (fb_hash_size f b + shift))"

definition fb_n_unpruned_leaves :: "'m croaring \<Rightarrow> fs \<Rightarrow> 'm file_backend \<Rightarrow> nat option" where
  "fb_n_unpruned_leaves lib f b =
     (if fb_prunable b then Some (leaf_set_len lib (fb_leaf_set b))
      else Option.bind (fb_unpruned_size lib f b) (\<lambda>sz. Some (n_leaves sz)))"

definition fb_n_unpruned_leaves_to_index :: "'m croaring \<Rightarrow> 'm file_backend \<Rightarrow> nat \<Rightarrow> nat" where
  "fb_n_unpruned_leaves_to_index lib b to_index =
     (if fb_prunable b then leaf_set_n_unpruned_leaves_to_index lib (fb_leaf_set b) to_index
      else n_leaves (insertion_to_pmmr_index to_index))"

definition fb_leaf_idx_iter :: "'m croaring \<Rightarrow> 'm file_backend \<Rightarrow> nat \<Rightarrow> nat list option" where
  "fb_leaf_idx_iter lib b from_idx =
     (let from_pos = 1 + insertion_to_pmmr_index from_idx
      in if fb_prunable b
         then Some (map (\<lambda>x. n_leaves x - 1) (dropWhile (\<lambda>x. x < from_pos) (leaf_set_iter lib (fb_leaf_set b))))
         else None)"

definition fb_rewind :: "'m croaring \<Rightarrow> 'm file_backend \<Rightarrow> nat \<Rightarrow> 'm \<Rightarrow> (pmmr_error + 'm file_backend) option" where
  "fb_rewind lib b position rewind_rm_pos =
     (let b = (if fb_prunable b
               then b \<lparr> fb_leaf_set := leaf_set_rewind lib (fb_leaf_set b) position rewind_rm_pos \<rparr> else b)
      in Option.bind (if position = 0 then Some 0 else get_shift lib (fb_prune_list b) (position - 1)) (\<lambda>shift.
         let b = b \<lparr> fb_hash_file := aof_rewind (fb_hash_file b) (position - shift) \<rparr>;
             flatfile_pos = n_leaves position
         in Option.bind (if position = 0 then Some 0 else get_leaf_shift lib (fb_prune_list b) position) (\<lambda>leaf_shift.
            Some (Inr (b \<lparr> fb_data_file := aof_rewind (fb_data_file b) (flatfile_pos - leaf_shift) \<rparr>)))))"

text \<open>An error of the flush of a reset prune list is only logged.\<close>

definition fb_reset_prune_list :: "'m croaring \<Rightarrow> fs \<Rightarrow> 'm file_backend \<Rightarrow> ('m file_backend \<times> fs) option" where
  "fb_reset_prune_list lib f b =
     Option.bind (prune_list_new lib (Some (join_path (fb_data_dir b) pmmr_prun_file)) (rb_new lib)) (\<lambda>pl.
       case prune_list_flush lib f pl of
         Inr (pl, f) \<Rightarrow> Some (b \<lparr> fb_prune_list := pl \<rparr>, f)
       | Inl e \<Rightarrow> Some (b \<lparr> fb_prune_list := pl \<rparr>, f))"

definition fb_remove :: "'m croaring \<Rightarrow> 'm file_backend \<Rightarrow> nat \<Rightarrow> (pmmr_error + 'm file_backend) option" where
  "fb_remove lib b pos0 =
     (if \<not> fb_prunable b then None
      else Some (Inr (b \<lparr> fb_leaf_set := leaf_set_remove lib (fb_leaf_set b) pos0 \<rparr>)))"

definition fb_release_files :: "'m file_backend \<Rightarrow> 'm file_backend" where
  "fb_release_files b =
     b \<lparr> fb_data_file := aof_release (fb_data_file b), fb_hash_file := aof_release (fb_hash_file b) \<rparr>"

definition fb_snapshot :: "'m croaring \<Rightarrow> fs \<Rightarrow> 'm file_backend \<Rightarrow> string \<Rightarrow> pmmr_error + fs" where
  "fb_snapshot lib f b header_hash =
     map_err (\<lambda>_. BackendError ''Failed to save copy of leaf_set'') (leaf_set_snapshot lib f (fb_leaf_set b) header_hash)"

definition fb_new ::
    "'m croaring \<Rightarrow> ('t, 'e) pmmrable \<Rightarrow> fs \<Rightarrow> string \<Rightarrow> bool \<Rightarrow> protocol_version \<Rightarrow> string option \<Rightarrow>
     (io_error + 'm file_backend \<times> fs) option" where
  "fb_new lib pm f data_dir prunable version header_hash =
     (case (case pm_elmt_size pm of
              Some fixed_size \<Rightarrow> Some (Inr (FixedSize fixed_size, f))
            | None \<Rightarrow>
                map_option (\<lambda>res. rbind res (\<lambda>(size_file, f). Inr (VariableSize size_file, f)))
                  (aof_open size_entry_read f (join_path data_dir pmmr_size_file) (FixedSize size_entry_len) version)) of
        None \<Rightarrow> None
      | Some (Inl e) \<Rightarrow> Some (Inl e)
      | Some (Inr (size_info, f)) \<Rightarrow>
     (case aof_open hash_read f (join_path data_dir pmmr_hash_file) (FixedSize hash_len) version of
        None \<Rightarrow> None
      | Some (Inl e) \<Rightarrow> Some (Inl e)
      | Some (Inr (hash_file, f)) \<Rightarrow>
     (case aof_open (pm_read pm) f (join_path data_dir pmmr_data_file) size_info version of
        None \<Rightarrow> None
      | Some (Inl e) \<Rightarrow> Some (Inl e)
      | Some (Inr (data_file, f)) \<Rightarrow>
     (let leaf_set_path = join_path data_dir pmmr_leaf_file
      in case (case header_hash of
                 Some h \<Rightarrow> leaf_set_copy_snapshot lib f leaf_set_path (leaf_set_path @ ''.'' @ h)
               | None \<Rightarrow> Inr f) of
           Inl e \<Rightarrow> Some (Inl e)
         | Inr f \<Rightarrow>
     (case leaf_set_open lib f leaf_set_path of
        Inl e \<Rightarrow> Some (Inl e)
      | Inr leaf_set \<Rightarrow>
     (case prune_list_open lib f (join_path data_dir pmmr_prun_file) of
        None \<Rightarrow> None
      | Some (Inl e) \<Rightarrow> Some (Inl e)
      | Some (Inr prune_list) \<Rightarrow>
          Some (Inr (\<lparr> fb_data_dir = data_dir, fb_prunable = prunable, fb_hash_file = hash_file,
                      fb_data_file = data_file, fb_leaf_set = leaf_set, fb_prune_list = prune_list \<rparr>, f))))))))"

definition fb_sync_leaf_set :: "'m croaring \<Rightarrow> fs \<Rightarrow> 'm file_backend \<Rightarrow> io_error + 'm file_backend \<times> fs" where
  "fb_sync_leaf_set lib f b =
     (if \<not> fb_prunable b then Inr (b, f)
      else rbind (leaf_set_flush lib f (fb_leaf_set b)) (\<lambda>(ls, f). Inr (b \<lparr> fb_leaf_set := ls \<rparr>, f)))"

text \<open>
  \<open>sync\<close> chains the four flushes with \<open>and\<close>, whose arguments are all evaluated: the model stops at the first
  error, after which the source still flushes the others and answers that error (wrapped as interrupted).
\<close>

definition fb_sync :: "'m croaring \<Rightarrow> fs \<Rightarrow> 'm file_backend \<Rightarrow> io_error + 'm file_backend \<times> fs" where
  "fb_sync lib f b =
     rbind (aof_flush f (fb_hash_file b)) (\<lambda>(hash_file, f).
     rbind (aof_flush f (fb_data_file b)) (\<lambda>(data_file, f).
     rbind (fb_sync_leaf_set lib f (b \<lparr> fb_hash_file := hash_file, fb_data_file := data_file \<rparr>)) (\<lambda>(b, f).
     rbind (prune_list_flush lib f (fb_prune_list b)) (\<lambda>(pl, f).
     Inr (b \<lparr> fb_prune_list := pl \<rparr>, f)))))"

definition fb_discard :: "'m croaring \<Rightarrow> fs \<Rightarrow> 'm file_backend \<Rightarrow> 'm file_backend option" where
  "fb_discard lib f b =
     (let b = b \<lparr> fb_hash_file := aof_discard (fb_hash_file b), fb_data_file := aof_discard (fb_data_file b),
                 fb_leaf_set := leaf_set_discard (fb_leaf_set b) \<rparr>
      in case prune_list_discard lib f (fb_prune_list b) of
           None \<Rightarrow> None
         | Some (Inl e) \<Rightarrow> Some b
         | Some (Inr pl) \<Rightarrow> Some (b \<lparr> fb_prune_list := pl \<rparr>))"

text \<open>The climb of \<open>pos_to_rm\<close> from a removed leaf, and its loop over the leaves.\<close>

partial_function (option) expand_loop :: "'m croaring \<Rightarrow> 'm file_backend \<Rightarrow> 'm \<Rightarrow> nat \<Rightarrow> 'm option" where
  "expand_loop lib b expanded current =
     (let (parent0, sibling0) = family (current - 1);
          sibling_pruned = fb_is_pruned_root lib b sibling0;
          expanded = (if sibling_pruned then rb_add lib expanded (pos1_u32 sibling0) else expanded)
      in if sibling_pruned \<or> rb_contains lib expanded (pos1_u32 sibling0)
         then expand_loop lib b (rb_add lib expanded (pos1_u32 parent0)) (1 + parent0)
         else Some expanded)"

fun expand_all :: "'m croaring \<Rightarrow> 'm file_backend \<Rightarrow> nat list \<Rightarrow> 'm \<Rightarrow> 'm option" where
  "expand_all lib b [] expanded = Some expanded"
| "expand_all lib b (x # xs) expanded =
     Option.bind (expand_loop lib b (rb_add lib expanded x) x) (expand_all lib b xs)"

definition removed_excl_roots :: "'m croaring \<Rightarrow> 'm \<Rightarrow> 'm" where
  "removed_excl_roots lib removed =
     rb_of lib (filter (\<lambda>pos. rb_contains lib removed (pos1_u32 (fst (family (pos - 1))))) (rb_iter lib removed))"

definition fb_pos_to_rm :: "'m croaring \<Rightarrow> 'm file_backend \<Rightarrow> nat \<Rightarrow> 'm \<Rightarrow> ('m \<times> 'm) option" where
  "fb_pos_to_rm lib b cutoff_pos rewind_rm_pos =
     (let leaf_pos_to_rm = removed_pre_cutoff lib (fb_leaf_set b) cutoff_pos rewind_rm_pos (fb_prune_list b)
      in Option.bind (expand_all lib b (rb_iter lib leaf_pos_to_rm) (rb_new lib)) (\<lambda>expanded.
         Some (leaf_pos_to_rm, removed_excl_roots lib expanded)))"

text \<open>
  \<open>clean_files_by_prefix\<close>: what \<open>read_dir\<close> answers is an argument, an entry being its name, whether it is a
  directory, and the seconds since it was last accessed, if that can be told.
\<close>

record dir_entry =
  de_name :: string
  de_is_dir :: bool
  de_since_accessed :: "nat option"

definition cleanable :: "string \<Rightarrow> nat \<Rightarrow> dir_entry \<Rightarrow> bool" where
  "cleanable prefix_to_delete cleanup_duration_seconds de =
     (\<not> de_is_dir de \<and>
      (case de_since_accessed de of None \<Rightarrow> False | Some d \<Rightarrow> cleanup_duration_seconds < d) \<and>
      take (length prefix_to_delete) (de_name de) = prefix_to_delete \<and>
      length prefix_to_delete < length (de_name de))"

definition clean_files_by_prefix ::
    "fs \<Rightarrow> string \<Rightarrow> io_error + dir_entry list \<Rightarrow> string \<Rightarrow> nat \<Rightarrow> io_error + nat \<times> fs" where
  "clean_files_by_prefix f dir listing prefix_to_delete cleanup_duration_seconds =
     rbind listing (\<lambda>des. Inr (fold (\<lambda>de (n, f).
       if cleanable prefix_to_delete cleanup_duration_seconds de
       then (case fs_remove f (join_path dir (de_name de)) of Inr f \<Rightarrow> (n + 1, f) | Inl _ \<Rightarrow> (n, f))
       else (n, f)) des (0, f)))"

definition fb_clean_rewind_files ::
    "fs \<Rightarrow> 'm file_backend \<Rightarrow> io_error + dir_entry list \<Rightarrow> io_error + nat \<times> fs" where
  "fb_clean_rewind_files f b listing =
     clean_files_by_prefix f (fb_data_dir b) listing (pmmr_leaf_file @ ''.'') rewind_file_cleanup_duration_seconds"

text \<open>The shifted positions of the entries to remove; a missing shift is the panic of \<open>get_shift\<close>.\<close>

fun map_bind :: "('a \<Rightarrow> 'b option) \<Rightarrow> 'a list \<Rightarrow> 'b list option" where
  "map_bind g [] = Some []"
| "map_bind g (x # xs) = Option.bind (g x) (\<lambda>y. Option.bind (map_bind g xs) (\<lambda>ys. Some (y # ys)))"

definition hash_pos_to_rm :: "'m croaring \<Rightarrow> 'm file_backend \<Rightarrow> 'm \<Rightarrow> nat list option" where
  "hash_pos_to_rm lib b pos_to_rm =
     map_bind (\<lambda>pos1. Option.bind (get_shift lib (fb_prune_list b) (pos1 - 1)) (\<lambda>shift. Some (pos1 - shift)))
       (rb_iter lib pos_to_rm)"

definition data_pos_to_rm :: "'m croaring \<Rightarrow> 'm file_backend \<Rightarrow> 'm \<Rightarrow> nat list option" where
  "data_pos_to_rm lib b pos_to_rm =
     map_bind (\<lambda>pos. let flat_pos = n_leaves pos
                     in Option.bind (get_leaf_shift lib (fb_prune_list b) pos) (\<lambda>shift. Some (flat_pos - shift)))
       (filter (\<lambda>x. is_leaf (x - 1)) (rb_iter lib pos_to_rm))"

text \<open>\<open>check_compact\<close> in its four parts: the temporary files, their replacement, the prune list, the leaf set.\<close>

definition write_compacted ::
    "'m croaring \<Rightarrow> ('t, 'e) pmmrable \<Rightarrow> fs \<Rightarrow> 'm file_backend \<Rightarrow> 'm \<Rightarrow> (io_error + fs) option" where
  "write_compacted lib pm f b pos_to_rm =
     Option.bind (hash_pos_to_rm lib b pos_to_rm) (\<lambda>hash_pos.
     Option.bind (data_write_tmp_pruned hash_read hash_write f (fb_hash_file b) hash_pos) (\<lambda>res.
     case res of
       Inl e \<Rightarrow> Some (Inl e)
     | Inr f \<Rightarrow>
         Option.bind (data_pos_to_rm lib b pos_to_rm) (\<lambda>data_pos.
         data_write_tmp_pruned (pm_read pm) (pm_write pm) f (fb_data_file b) data_pos)))"

definition replace_compacted ::
    "('t, 'e) pmmrable \<Rightarrow> fs \<Rightarrow> 'm file_backend \<Rightarrow> (io_error + 'm file_backend \<times> fs) option" where
  "replace_compacted pm f b =
     Option.bind (aof_replace_with_tmp hash_read f (fb_hash_file b)) (\<lambda>res.
     case res of
       Inl e \<Rightarrow> Some (Inl e)
     | Inr (hash_file, f) \<Rightarrow>
         map_option (\<lambda>res. rbind res (\<lambda>(data_file, f).
             Inr (b \<lparr> fb_hash_file := hash_file, fb_data_file := data_file \<rparr>, f)))
           (aof_replace_with_tmp (pm_read pm) f (fb_data_file b)))"

definition update_prune_list ::
    "'m croaring \<Rightarrow> fs \<Rightarrow> 'm file_backend \<Rightarrow> 'm \<Rightarrow> (io_error + 'm file_backend \<times> fs) option" where
  "update_prune_list lib f b leaves_removed =
     (let bitmap = rb_or lib (pl_bitmap (fb_prune_list b)) leaves_removed
      in Option.bind (prune_list_new lib (Some (join_path (fb_data_dir b) pmmr_prun_file)) bitmap) (\<lambda>pl.
         Some (rbind (prune_list_flush lib f pl) (\<lambda>(pl, f). Inr (b \<lparr> fb_prune_list := pl \<rparr>, f)))))"

definition fb_check_compact ::
    "'m croaring \<Rightarrow> ('t, 'e) pmmrable \<Rightarrow> fs \<Rightarrow> 'm file_backend \<Rightarrow> nat \<Rightarrow> 'm \<Rightarrow> io_error + dir_entry list \<Rightarrow>
     (io_error + bool \<times> 'm file_backend \<times> fs) option" where
  "fb_check_compact lib pm f b cutoff_pos rewind_rm_pos listing =
     (if \<not> fb_prunable b then None
      else Option.bind (fb_pos_to_rm lib b cutoff_pos rewind_rm_pos) (\<lambda>(leaves_removed, pos_to_rm).
      Option.bind (write_compacted lib pm f b pos_to_rm) (\<lambda>res.
      case res of Inl e \<Rightarrow> Some (Inl e) | Inr f \<Rightarrow>
      Option.bind (replace_compacted pm f b) (\<lambda>res.
      case res of Inl e \<Rightarrow> Some (Inl e) | Inr (b, f) \<Rightarrow>
      Option.bind (update_prune_list lib f b leaves_removed) (\<lambda>res.
      case res of Inl e \<Rightarrow> Some (Inl e) | Inr (b, f) \<Rightarrow>
      Some (rbind (leaf_set_flush lib f (fb_leaf_set b)) (\<lambda>(ls, f).
            rbind (fb_clean_rewind_files f b listing) (\<lambda>(_, f).
            Inr (True, b \<lparr> fb_leaf_set := ls \<rparr>, f)))))))))"

section \<open>Lists without some of their positions\<close>

text \<open>The index in \<open>nths xs I\<close> of the element at position \<open>p\<close> of \<open>xs\<close>.\<close>

definition rank_in :: "nat set \<Rightarrow> nat \<Rightarrow> nat" where
  "rank_in I p = card {i. i < p \<and> i \<in> I}"

lemma rank_in_Suc: "rank_in I (Suc p) = rank_in I p + (if p \<in> I then 1 else 0)"
proof -
  have "{i. i < Suc p \<and> i \<in> I} = {i. i < p \<and> i \<in> I} \<union> (if p \<in> I then {p} else {})" by (auto simp: less_Suc_eq)
  then show ?thesis by (auto simp: rank_in_def)
qed

lemma rank_in_mono: "p \<le> q \<Longrightarrow> rank_in I p \<le> rank_in I q"
  unfolding rank_in_def by (rule card_mono) auto

lemma rank_in_strict: "p < q \<Longrightarrow> p \<in> I \<Longrightarrow> rank_in I p < rank_in I q"
  using rank_in_mono [of "Suc p" q I] by (simp add: rank_in_Suc)

lemma rank_in_inj: "p \<in> I \<Longrightarrow> q \<in> I \<Longrightarrow> rank_in I p = rank_in I q \<Longrightarrow> p = q"
  by (metis less_irrefl linorder_neqE_nat rank_in_strict)

lemma length_nths_rank: "length (nths xs I) = rank_in I (length xs)"
  by (simp add: length_nths rank_in_def)

lemma nths_snoc: "nths (xs @ [x]) I = nths xs I @ (if length xs \<in> I then [x] else [])"
  by (simp add: nths_append)

lemma nths_nth_rank: "p < length xs \<Longrightarrow> p \<in> I \<Longrightarrow> nths xs I ! rank_in I p = xs ! p"
proof (induction xs rule: rev_induct)
  case (snoc x xs)
  show ?case
  proof (cases "p = length xs")
    case True
    then show ?thesis using snoc.prems by (simp add: nths_snoc length_nths_rank nth_append)
  next
    case False
    then have "p < length xs" using snoc.prems by simp
    moreover have "rank_in I p < length (nths xs I)"
      using rank_in_strict [OF \<open>p < length xs\<close> snoc.prems(2)] by (simp add: length_nths_rank)
    ultimately show ?thesis using snoc by (simp add: nths_snoc nth_append)
  qed
qed simp

lemma nths_nths_rank:
  assumes "D \<subseteq> I"
  shows "nths (nths xs I) {j. j \<notin> rank_in I ` D} = nths xs (I - D)"
proof (induction xs rule: rev_induct)
  case (snoc x xs)
  show ?case
  proof (cases "length xs \<in> I")
    case True
    have "rank_in I (length xs) \<in> rank_in I ` D \<longleftrightarrow> length xs \<in> D"
      using assms True rank_in_inj [of _ I] by blast
    then show ?thesis using True snoc by (simp add: nths_snoc length_nths_rank)
  qed (use snoc in \<open>simp add: nths_snoc\<close>)
qed simp

lemma rank_in_complement: "finite C \<Longrightarrow> rank_in (- C) p = p - card {q \<in> C. q < p}"
proof (induction p)
  case (Suc p)
  have "{q \<in> C. q < Suc p} = {q \<in> C. q < p} \<union> (if p \<in> C then {p} else {})" by (auto simp: less_Suc_eq)
  then have "card {q \<in> C. q < Suc p} = card {q \<in> C. q < p} + (if p \<in> C then 1 else 0)" using Suc.prems by auto
  moreover have "card {q \<in> C. q < p} \<le> p"
    using card_mono [of "{..<p}" "{q \<in> C. q < p}"] by auto
  ultimately show ?case using Suc by (simp add: rank_in_Suc)
qed (simp add: rank_in_def)

lemma sorted_rank: "sorted_wrt (<) xs \<Longrightarrow> set xs \<subseteq> I \<Longrightarrow> sorted_wrt (<) (map (rank_in I) xs)"
  by (induction xs) (auto intro: rank_in_strict)

lemma map_bind_Some: "(\<And>x. x \<in> set xs \<Longrightarrow> g x = Some (h x)) \<Longrightarrow> map_bind g xs = Some (map h xs)"
  by (induction xs) auto

section \<open>What compaction removes\<close>

lemma parent_gt: "p < fst (family p)"
  by (rule family_fst_gt)

lemma compacted_parent:
  assumes "no_nesting S"
  shows "compacted S = {p. fst (family p) \<in> pruned S}"
proof (intro equalityI subsetI CollectI)
  fix p assume "p \<in> compacted S"
  then obtain x where "x \<in> S" "in_subtree p (x - 1)" "p \<noteq> x - 1" using compacted_iff [OF assms] by blast
  then show "fst (family p) \<in> pruned S" using parent_in_subtree by (auto simp: pruned_def)
next
  fix p assume "p \<in> {p. fst (family p) \<in> pruned S}"
  then obtain x where x: "x \<in> S" "in_subtree (fst (family p)) (x - 1)" by (auto simp: pruned_def)
  then have "in_subtree p (x - 1)" using in_subtree_trans [OF in_subtree_parent] by blast
  moreover have "p \<noteq> x - 1" using x(2) parent_gt [of p] by (auto simp: in_subtree_def)
  ultimately show "p \<in> compacted S" using x(1) compacted_iff [OF assms] by blast
qed

lemma pruned_root_or_parent:
  assumes "p \<in> pruned S" and "0 \<notin> S" and "fst (family p) \<notin> pruned S"
  shows "Suc p \<in> S"
proof -
  obtain x where x: "x \<in> S" "in_subtree p (x - 1)" using assms(1) by (auto simp: pruned_def)
  have "p = x - 1"
  proof (rule ccontr)
    assume "p \<noteq> x - 1"
    then show False using parent_in_subtree [OF x(2)] x(1) assms(3) by (auto simp: pruned_def)
  qed
  moreover have "x \<noteq> 0" using x(1) assms(2) by metis
  ultimately show ?thesis using x(1) by simp
qed

text \<open>
  The positions that the climb has collected when the set \<open>T\<close> of pruned positions has been reached: those that
  are new in it, and the old roots that are now beneath a new one.
\<close>

definition expanded_from :: "nat set \<Rightarrow> nat set \<Rightarrow> nat set" where
  "expanded_from S T = (T - pruned S) \<union> {r. Suc r \<in> S \<and> fst (family r) \<in> T - pruned S}"

lemma expanded_excl_roots:
  assumes "no_nesting S" and "\<And>p q. p \<in> T \<Longrightarrow> in_subtree q p \<Longrightarrow> q \<in> T"
  shows "{p \<in> expanded_from S T. fst (family p) \<in> expanded_from S T} = {p. fst (family p) \<in> T - pruned S}"
proof (intro equalityI subsetI)
  fix p assume "p \<in> {p. fst (family p) \<in> T - pruned S}"
  then have q: "fst (family p) \<in> T" "fst (family p) \<notin> pruned S" by auto
  then have "p \<in> T" using assms(2) in_subtree_parent by blast
  moreover have "p \<in> pruned S \<Longrightarrow> Suc p \<in> S"
    using pruned_root_or_parent q(2) assms(1) by (auto simp: no_nesting_def)
  ultimately show "p \<in> {p \<in> expanded_from S T. fst (family p) \<in> expanded_from S T}"
    using q by (auto simp: expanded_from_def)
next
  fix p assume p: "p \<in> {p \<in> expanded_from S T. fst (family p) \<in> expanded_from S T}"
  have "Suc (fst (family p)) \<notin> S"
  proof
    assume r: "Suc (fst (family p)) \<in> S"
    then have "p \<in> pruned S"
      using in_subtree_parent [of p] unfolding pruned_def by (auto intro!: bexI [of _ "Suc (fst (family p))"])
    then have "Suc p \<in> S" using p by (auto simp: expanded_from_def)
    then have "Suc p = Suc (fst (family p))" using no_nestingD [OF assms(1) _ r] in_subtree_parent [of p] by simp
    then show False using parent_gt [of p] by simp
  qed
  then show "p \<in> {p. fst (family p) \<in> T - pruned S}" using p by (auto simp: expanded_from_def)
qed

text \<open>
  \<open>climbing S T c\<close>: \<open>T\<close> is closed under subtrees and, except at \<open>c\<close>, under the rule for parents.
\<close>

definition climbing :: "nat set \<Rightarrow> nat set \<Rightarrow> nat \<Rightarrow> bool" where
  "climbing S T c \<longleftrightarrow>
     pruned S \<subseteq> T \<and> (\<forall>p q. p \<in> T \<longrightarrow> in_subtree q p \<longrightarrow> q \<in> T) \<and> c \<in> T \<and> c \<notin> pruned S \<and>
     (\<forall>p\<in>T. snd (family p) \<in> T \<longrightarrow> fst (family p) \<in> T \<or> p = c \<or> snd (family p) = c)"

lemma climbing_sibling:
  assumes "no_nesting S" and "climbing S T c"
  shows "snd (family c) \<in> T \<longleftrightarrow> Suc (snd (family c)) \<in> S \<or> snd (family c) \<in> expanded_from S T"
proof -
  let ?s = "snd (family c)"
  have fam: "fst (family ?s) = fst (family c)" using family_sibling [of c] by simp
  have "fst (family c) \<notin> pruned S"
    using assms(2) pruned_down [OF _ in_subtree_parent [of c]] by (auto simp: climbing_def)
  then have "?s \<in> pruned S \<Longrightarrow> Suc ?s \<in> S"
    using pruned_root_or_parent [of ?s S] assms(1) fam by (auto simp: no_nesting_def)
  moreover have "Suc ?s \<in> S \<Longrightarrow> ?s \<in> pruned S"
    unfolding pruned_def by (auto intro!: bexI [of _ "Suc ?s"])
  ultimately show ?thesis using assms(2) by (auto simp: climbing_def expanded_from_def)
qed

lemma climbing_step:
  assumes "no_nesting S" and "climbing S T c" and "snd (family c) \<in> T"
  shows "climbing S (insert (fst (family c)) T) (fst (family c))"
    and "expanded_from S (insert (fst (family c)) T) =
      insert (fst (family c)) ((if Suc (snd (family c)) \<in> S then {snd (family c)} else {}) \<union> expanded_from S T)"
proof -
  let ?q = "fst (family c)" and ?s = "snd (family c)"
  have T: "pruned S \<subseteq> T" "\<And>p q. p \<in> T \<Longrightarrow> in_subtree q p \<Longrightarrow> q \<in> T" "c \<in> T" "c \<notin> pruned S"
      "\<And>p. p \<in> T \<Longrightarrow> snd (family p) \<in> T \<Longrightarrow> fst (family p) \<in> T \<or> p = c \<or> snd (family p) = c"
    using assms(2) unfolding climbing_def by blast+
  have q: "?q \<notin> pruned S" using T(4) pruned_down [OF _ in_subtree_parent [of c]] by blast
  have fams: "fst (family ?s) = ?q" using family_sibling [of c] by simp
  show "climbing S (insert ?q T) ?q"
    unfolding climbing_def
  proof (intro conjI allI impI ballI)
    fix p r assume p: "p \<in> insert ?q T" and r: "in_subtree r p"
    show "r \<in> insert ?q T"
    proof (cases "p \<in> T")
      case False
      then have "in_subtree r ?q" using p r by simp
      then show ?thesis using in_subtree_parent_iff [of r c] T(2) T(3) assms(3) by blast
    qed (use T(2) r in blast)
  next
    fix p assume p: "p \<in> insert ?q T" "snd (family p) \<in> insert ?q T"
    have "fst (family p) = ?q" if "snd (family p) = c" using family_sibling [of p] that by simp
    then show "fst (family p) \<in> insert ?q T \<or> p = ?q \<or> snd (family p) = ?q" using p T(5) [of p] by blast
  qed (use T q in auto)
  have "r = c \<or> r = ?s" if "fst (family r) = ?q" for r
  proof -
    have "in_subtree r ?q" using in_subtree_parent [of r] that by simp
    then consider "r = ?q" | "in_subtree r c" | "in_subtree r ?s" using in_subtree_parent_iff by blast
    then show ?thesis
    proof cases
      case 1
      then show ?thesis using parent_gt [of r] that by simp
    next
      case 2
      show ?thesis
      proof (rule ccontr)
        assume "\<not> ?thesis"
        then have "in_subtree ?q c" using parent_in_subtree [OF 2] that by simp
        then show False using parent_gt [of c] by (simp add: in_subtree_def)
      qed
    next
      case 3
      show ?thesis
      proof (rule ccontr)
        assume "\<not> ?thesis"
        then have "in_subtree ?q ?s" using parent_in_subtree [OF 3] that by simp
        then show False using parent_gt [of ?s] fams by (simp add: in_subtree_def)
      qed
    qed
  qed
  moreover have "Suc c \<notin> S" using T(4) unfolding pruned_def by (metis (mono_tags, lifting) diff_Suc_1 in_subtree_refl mem_Collect_eq)
  ultimately show "expanded_from S (insert ?q T) =
      insert ?q ((if Suc ?s \<in> S then {?s} else {}) \<union> expanded_from S T)"
    using q fams by (auto simp: expanded_from_def)
qed

lemma climbing_closed:
  assumes "climbing S T c" and "snd (family c) \<notin> T" and "A \<subseteq> T" and "T \<subseteq> prune_closure A"
  shows "prune_closure A = T"
proof
  have "fst (family p) \<in> T" if "p \<in> T" "snd (family p) \<in> T" for p
    using assms(1,2) that family_sibling [of p] unfolding climbing_def by (metis snd_conv)
  then show "prune_closure A \<subseteq> T"
    using assms(3) by (auto elim: prune_closure.induct)
qed (rule assms(4))

lemma expand_loop_ok:
  assumes "croaring_ok lib els" and "no_nesting (els (pl_bitmap (fb_prune_list b)))"
    and "\<forall>p\<in>prune_closure A. p < B" and "B < 2 ^ 31"
    and "climbing (els (pl_bitmap (fb_prune_list b))) T c" and "A \<subseteq> T" "T \<subseteq> prune_closure A"
    and "els X = Suc ` expanded_from (els (pl_bitmap (fb_prune_list b))) T"
  shows "\<exists>X'. expand_loop lib b X (Suc c) = Some X' \<and>
    els X' = Suc ` expanded_from (els (pl_bitmap (fb_prune_list b))) (prune_closure A)"
  using assms(5-)
proof (induction "B - c" arbitrary: T c X rule: less_induct)
  case less
  note ok = croaring_okD [OF assms(1)]
  define S where "S = els (pl_bitmap (fb_prune_list b))"
  let ?q = "fst (family c)" and ?s = "snd (family c)"
  have cT: "c \<in> T" using less.prems(1) by (simp add: climbing_def)
  then have cB: "c < B" using less.prems(3) assms(3) by blast
  have c32: "Suc ?s < 2 ^ 32" using sibling_bound [of c] cB assms(4) by simp
  have s1: "pos1_u32 ?s = Suc ?s" using c32 by (rule pos1_u32_small)
  have root: "fb_is_pruned_root lib b ?s \<longleftrightarrow> Suc ?s \<in> S"
    by (simp add: fb_is_pruned_root_def is_pruned_root_def s1 ok S_def)
  define X1 where "X1 = (if fb_is_pruned_root lib b ?s then rb_add lib X (pos1_u32 ?s) else X)"
  have X1: "els X1 = Suc ` ((if Suc ?s \<in> S then {?s} else {}) \<union> expanded_from S T)"
    using less.prems(4) by (auto simp: X1_def root s1 ok S_def)
  have mem: "fb_is_pruned_root lib b ?s \<or> rb_contains lib X1 (pos1_u32 ?s) \<longleftrightarrow> ?s \<in> T"
    using climbing_sibling [OF assms(2) less.prems(1)] by (auto simp: root X1 ok s1 S_def split: if_splits)
  have unf: "expand_loop lib b X (Suc c) =
      (if ?s \<in> T then expand_loop lib b (rb_add lib X1 (pos1_u32 ?q)) (Suc ?q) else Some X1)"
    using mem by (subst expand_loop.simps) (simp add: X1_def split_beta Let_def)
  show ?case
  proof (cases "?s \<in> T")
    case False
    have "prune_closure A = T" by (rule climbing_closed [OF less.prems(1) False less.prems(2,3)])
    moreover have "Suc ?s \<notin> S" using climbing_sibling [OF assms(2) less.prems(1)] False by (simp add: S_def)
    ultimately show ?thesis using unf False X1 by (simp add: S_def)
  next
    case True
    have q: "?q \<in> prune_closure A"
      using prune_closure.parent [of c A] cT True less.prems(3) by blast
    then have qB: "?q < B" using assms(3) by blast
    have q1: "pos1_u32 ?q = Suc ?q" using qB assms(4) by (intro pos1_u32_small) simp
    note st = climbing_step [OF assms(2) less.prems(1) True]
    have "els (rb_add lib X1 (pos1_u32 ?q)) = Suc ` expanded_from S (insert ?q T)"
      using st(2) X1 by (simp add: ok q1 S_def)
    moreover have "B - ?q < B - c" using parent_gt [of c] qB by simp
    ultimately show ?thesis
      using less.hyps [OF _ st(1), of "rb_add lib X1 (pos1_u32 ?q)"] less.prems(2,3) q unf True by (auto simp: S_def)
  qed
qed

lemma prune_closure_down:
  assumes "\<And>p q. p \<in> A \<Longrightarrow> in_subtree q p \<Longrightarrow> q \<in> A" and "p \<in> prune_closure A" and "in_subtree q p"
  shows "q \<in> prune_closure A"
  using assms(2,3)
proof (induction arbitrary: q)
  case (parent p)
  then show ?case using in_subtree_parent_iff [of q p] by (auto intro: prune_closure.parent)
qed (use assms(1) in \<open>auto intro: prune_closure.base\<close>)

lemma in_subtree_leaf: "is_leaf r \<Longrightarrow> in_subtree q r \<Longrightarrow> q = r"
  using bintree_leftmost_node(1) [of _ 0] by (auto simp: in_subtree_def elim!: is_leafE)

lemma is_leaf_not_parent: "\<not> is_leaf (fst (family p))"
proof
  assume "is_leaf (fst (family p))"
  then have "p = fst (family p)" using in_subtree_leaf in_subtree_parent by blast
  then show False using parent_gt [of p] by simp
qed

lemma expand_all_ok:
  assumes "croaring_ok lib els" and "S = els (pl_bitmap (fb_prune_list b))" and "no_nesting S" and "B < 2 ^ 31"
    and "\<forall>p\<in>prune_closure (pruned S \<union> A \<union> (\<lambda>x. x - 1) ` set xs). p < B"
    and "\<forall>x\<in>set xs. 0 < x \<and> is_leaf (x - 1) \<and> x - 1 \<notin> pruned S \<and> x - 1 \<notin> A"
    and "\<forall>a\<in>A. is_leaf a \<and> a \<notin> pruned S" and "distinct xs"
    and "els X = Suc ` expanded_from S (prune_closure (pruned S \<union> A))"
  shows "\<exists>X'. expand_all lib b xs X = Some X' \<and>
    els X' = Suc ` expanded_from S (prune_closure (pruned S \<union> A \<union> (\<lambda>x. x - 1) ` set xs))"
  using assms(5-)
proof (induction xs arbitrary: X A)
  case (Cons x xs)
  define c where "c = x - 1"
  define Q where "Q = prune_closure (pruned S \<union> A)"
  have x: "x = Suc c" "is_leaf c" "c \<notin> pruned S" "c \<notin> A" using Cons.prems(2) by (auto simp: c_def)
  have downA: "q \<in> pruned S \<union> A" if "p \<in> pruned S \<union> A" "in_subtree q p" for p q
    using that pruned_down [of p S q] in_subtree_leaf [of p q] Cons.prems(3) by blast
  then have downQ: "q \<in> Q" if "p \<in> Q" "in_subtree q p" for p q
    using that prune_closure_down [of "pruned S \<union> A" p q] unfolding Q_def by blast
  have climb: "climbing S (insert c Q) c"
    unfolding climbing_def
  proof (intro conjI allI impI ballI)
    show "pruned S \<subseteq> insert c Q" by (auto simp: Q_def intro: prune_closure.base)
    fix p q assume "p \<in> insert c Q" "in_subtree q p"
    then show "q \<in> insert c Q" using downQ in_subtree_leaf [OF x(2)] by blast
  next
    fix p assume "p \<in> insert c Q" "snd (family p) \<in> insert c Q"
    then show "fst (family p) \<in> insert c Q \<or> p = c \<or> snd (family p) = c"
      using prune_closure.parent [of p "pruned S \<union> A"] unfolding Q_def by blast
  qed (use x in auto)
  have sub: "insert c Q \<subseteq> prune_closure (pruned S \<union> insert c A)"
    using prune_closure_mono [of "pruned S \<union> A" "pruned S \<union> insert c A"] unfolding Q_def
    by (auto intro: prune_closure.base)
  have X1: "els (rb_add lib X x) = Suc ` expanded_from S (insert c Q)"
  proof -
    have "fst (family r) \<noteq> c" for r using is_leaf_not_parent [of r] x(2) by metis
    then have "expanded_from S (insert c Q) = insert c (expanded_from S Q)" using x(3) by (auto simp: expanded_from_def)
    then show ?thesis using Cons.prems(5) by (simp add: croaring_okD(3) [OF assms(1)] x(1) Q_def)
  qed
  have eq: "pruned S \<union> A \<union> (\<lambda>x. x - 1) ` set (x # xs) = pruned S \<union> insert c A \<union> (\<lambda>x. x - 1) ` set xs"
    by (auto simp: c_def)
  have B2: "\<forall>p\<in>prune_closure (pruned S \<union> insert c A \<union> (\<lambda>x. x - 1) ` set xs). p < B"
    using Cons.prems(1) unfolding eq .
  then have B1: "\<forall>p\<in>prune_closure (pruned S \<union> insert c A). p < B"
    using prune_closure_mono [of "pruned S \<union> insert c A" "pruned S \<union> insert c A \<union> (\<lambda>x. x - 1) ` set xs"] by blast
  have "pruned S \<union> insert c A \<subseteq> insert c Q" by (auto simp: Q_def intro: prune_closure.base)
  from expand_loop_ok [where c = c and X = "rb_add lib X x" and A = "pruned S \<union> insert c A" and b = b and B = B,
      OF assms(1) _ B1 assms(4) _ this sub] climb X1 assms(2,3)
  obtain X1' where X1': "expand_loop lib b (rb_add lib X x) x = Some X1'"
      "els X1' = Suc ` expanded_from S (prune_closure (pruned S \<union> insert c A))"
    unfolding x(1) by blast
  have 1: "\<forall>y\<in>set xs. 0 < y \<and> is_leaf (y - 1) \<and> y - 1 \<notin> pruned S \<and> y - 1 \<notin> insert c A"
    using Cons.prems(2,4) x(1) by auto
  have 2: "\<forall>a\<in>insert c A. is_leaf a \<and> a \<notin> pruned S" using Cons.prems(3) x(2,3) by blast
  have 3: "distinct xs" using Cons.prems(4) by simp
  obtain X' where "expand_all lib b xs X1' = Some X'"
      "els X' = Suc ` expanded_from S (prune_closure (pruned S \<union> insert c A \<union> (\<lambda>x. x - 1) ` set xs))"
    using Cons.IH [OF B2 1 2 3 X1'(2)] by blast
  then show ?case using X1'(1) unfolding eq by simp
qed simp

lemma parent_bound: "fst (family p) \<le> 2 * p + 2"
proof -
  have "in_subtree (snd (family p)) (fst (family p))"
    using in_subtree_parent [of "snd (family p)"] family_sibling [of p] by simp
  obtain n h where n: "node_ok n h" "p = node_pos n h" by (rule peak_map_heightE [of p])
  show ?thesis
  proof (cases "bit n h")
    case True
    then show ?thesis using family_right [OF n(1)] n(2) by simp
  next
    case False
    then have "fst (family p) = Suc (snd (family p))" using family_left [OF n(1)] n(2) by simp
    then show ?thesis using sibling_bound [of p] by simp
  qed
qed

lemma no_nesting_add_leaves:
  assumes "no_nesting S" and "\<forall>x\<in>L. 0 < x \<and> is_leaf (x - 1) \<and> x - 1 \<notin> pruned S"
  shows "no_nesting (S \<union> L)" and "pruned (S \<union> L) = pruned S \<union> (\<lambda>x. x - 1) ` L"
proof -
  have leaf: "q = x - 1" if "x \<in> L" "in_subtree q (x - 1)" for x q
    using in_subtree_leaf [OF _ that(2)] assms(2) that(1) by blast
  show "pruned (S \<union> L) = pruned S \<union> (\<lambda>x. x - 1) ` L"
    using leaf unfolding pruned_def by (auto intro: in_subtree_refl)
  have self: "x - 1 \<in> pruned S" if "x \<in> S" for x using that unfolding pruned_def by (auto intro!: bexI [of _ x])
  show "no_nesting (S \<union> L)"
    unfolding no_nesting_def
  proof (intro conjI ballI impI)
    show "0 \<notin> S \<union> L" using assms by (auto simp: no_nesting_def)
    fix x y assume x: "x \<in> S \<union> L" and y: "y \<in> S \<union> L" and sub: "in_subtree (x - 1) (y - 1)"
    consider "x \<in> S" "y \<in> S" | "y \<in> L" | "x \<in> L" "y \<in> S" using x y by blast
    then show "x = y"
    proof cases
      case 1
      then show ?thesis using no_nestingD [OF assms(1) _ _ sub] by blast
    next
      case 2
      then have "x - 1 = y - 1" using leaf sub by blast
      moreover have "x \<notin> S" using self [of x] assms(2) 2 \<open>x - 1 = y - 1\<close> by auto
      ultimately show ?thesis using x assms(2) 2 by (metis Suc_pred' Un_iff diff_Suc_1)
    next
      case 3
      then have "x - 1 \<in> pruned S" using sub by (auto simp: pruned_def)
      then show ?thesis using 3 assms(2) by blast
    qed
  qed
qed

text \<open>
  The leaves to remove and the entries that their removal makes superfluous, for the pruned positions \<open>Q\<close> after
  the compaction.
\<close>

lemma pos_to_rm_ok:
  assumes "croaring_ok lib els" and "prune_list_ok els (fb_prune_list b)" and "S = els (pl_bitmap (fb_prune_list b))"
    and "\<forall>x\<in>S. x \<le> 2 ^ 30" and "cutoff \<le> 2 ^ 30"
    and "L = removed_pre_cutoff lib (fb_leaf_set b) cutoff rm (fb_prune_list b)"
    and "Q = prune_closure (pruned (S \<union> els L))"
  shows "no_nesting (S \<union> els L)" and "\<forall>x\<in>S \<union> els L. x \<le> 2 ^ 30" and "\<forall>p\<in>Q. p < 2 ^ 31 - 1" and "pruned S \<subseteq> Q"
    and "\<forall>x\<in>els L. 0 < x \<and> x \<le> cutoff \<and> is_leaf (x - 1) \<and> x - 1 \<notin> pruned S"
    and "\<exists>R. fb_pos_to_rm lib b cutoff rm = Some (L, R) \<and> els R = Suc ` {p. fst (family p) \<in> Q - pruned S}"
proof -
  note ok = croaring_okD [OF assms(1)]
  have nn: "no_nesting S" using assms(2) by (simp add: prune_list_ok_def rolled_up_def assms(3))
  have L: "\<forall>x\<in>els L. 0 < x \<and> x \<le> cutoff \<and> is_leaf (x - 1) \<and> x - 1 \<notin> pruned S"
  proof
    fix x assume "x \<in> els L"
    then have x: "1 \<le> x" "x \<le> cutoff" "is_leaf (x - 1)" "\<not> is_pruned lib (fb_prune_list b) (x - 1)"
      using removed_pre_cutoff_els [OF assms(1), of cutoff "fb_leaf_set b" rm "fb_prune_list b"] assms(5) by (auto simp: assms(6))
    then show "0 < x \<and> x \<le> cutoff \<and> is_leaf (x - 1) \<and> x - 1 \<notin> pruned S"
      using is_pruned_iff [OF assms(1), of "fb_prune_list b" "x - 1"] nn assms(5) by (simp add: assms(3))
  qed
  then show "\<forall>x\<in>els L. 0 < x \<and> x \<le> cutoff \<and> is_leaf (x - 1) \<and> x - 1 \<notin> pruned S" .
  note add = no_nesting_add_leaves [OF nn, of "els L"]
  show nnL: "no_nesting (S \<union> els L)" using add(1) L by blast
  show le: "\<forall>x\<in>S \<union> els L. x \<le> 2 ^ 30" using assms(4,5) L by force
  have pr: "pruned (S \<union> els L) = pruned S \<union> (\<lambda>x. x - 1) ` els L" using add(2) L by blast
  have "els (rb_or lib (pl_bitmap (fb_prune_list b)) L) = S \<union> els L" by (simp add: ok assms(3))
  then obtain pl where pl: "prune_list_ok els pl" "pruned (els (pl_bitmap pl)) = Q"
    using prune_list_new_ok [OF assms(1), of "rb_or lib (pl_bitmap (fb_prune_list b)) L" None] nnL le by (auto simp: assms(7))
  have QB: "p < 2 ^ 31 - 1" if "p \<in> Q" for p
  proof -
    obtain x where "x \<in> els (pl_bitmap pl)" "p \<le> x - 1" using pl(2) \<open>p \<in> Q\<close> by (auto simp: pruned_def in_subtree_def)
    moreover have "x < 2 ^ 31" "0 < x"
      using pl(1) \<open>x \<in> _\<close> no_nesting_pos [of "els (pl_bitmap pl)" x] by (auto simp: prune_list_ok_def rolled_up_def)
    ultimately show ?thesis by simp
  qed
  then show "\<forall>p\<in>Q. p < 2 ^ 31 - 1" by blast
  have Q: "Q = prune_closure (pruned S \<union> {} \<union> (\<lambda>x. x - 1) ` set (rb_iter lib L))" by (simp add: assms(7) pr ok)
  show PQ: "pruned S \<subseteq> Q" by (auto simp: Q intro: prune_closure.base)
  have "els (rb_new lib) = Suc ` expanded_from S (prune_closure (pruned S \<union> {}))"
    using pruned_rolled_up_fixed [of S] assms(2) by (auto simp: ok expanded_from_def prune_list_ok_def assms(3))
  moreover have "\<forall>x\<in>set (rb_iter lib L). 0 < x \<and> is_leaf (x - 1) \<and> x - 1 \<notin> pruned S \<and> x - 1 \<notin> {}"
    using L by (simp add: ok)
  ultimately obtain X where X: "expand_all lib b (rb_iter lib L) (rb_new lib) = Some X" "els X = Suc ` expanded_from S Q"
    using expand_all_ok [OF assms(1,3) nn _ _ _ _ _, of "2 ^ 31 - 1" "{}" "rb_iter lib L" "rb_new lib"] QB
    unfolding Q by (auto simp: ok)
  have down: "q \<in> Q" if "p \<in> Q" "in_subtree q p" for p q
    using that pl(2) pruned_down by blast
  have "els (removed_excl_roots lib X) = {x \<in> els X. pos1_u32 (fst (family (x - 1))) \<in> els X}"
    by (auto simp: removed_excl_roots_def ok)
  also have "\<dots> = Suc ` {p \<in> expanded_from S Q. fst (family p) \<in> expanded_from S Q}"
  proof -
    have "pos1_u32 (fst (family p)) = Suc (fst (family p))" if "p \<in> expanded_from S Q" for p
    proof -
      have "p \<in> Q" using that PQ in_subtree_parent [of p] down by (auto simp: expanded_from_def)
      then have "Suc (fst (family p)) < 2 ^ 32" using QB parent_bound [of p] by fastforce
      then show ?thesis by (rule pos1_u32_small)
    qed
    then show ?thesis unfolding X(2) by auto
  qed
  also have "\<dots> = Suc ` {p. fst (family p) \<in> Q - pruned S}" using expanded_excl_roots [OF nn down] by simp
  finally show "\<exists>R. fb_pos_to_rm lib b cutoff rm = Some (L, R) \<and> els R = Suc ` {p. fst (family p) \<in> Q - pruned S}"
    using X(1) by (simp add: fb_pos_to_rm_def assms(6) [symmetric])
qed

section \<open>What a backend stores\<close>

text \<open>
  \<open>fb_rep els hrep drep f b hs ds\<close>: the backend \<open>b\<close> over the files \<open>f\<close> stores a range with the node hashes
  \<open>hs\<close> and the leaf data \<open>ds\<close>. The hash file has the hashes of the positions that are not compacted, the data
  file the data of the leaves among them, and the leaf set has only leaves that are not pruned.
\<close>

definition kept_hashes :: "nat set \<Rightarrow> 'h list \<Rightarrow> 'h list" where
  "kept_hashes S hs = nths hs (- compacted S)"

definition kept_leaves :: "nat set \<Rightarrow> nat set" where
  "kept_leaves S = {i. insertion_to_pmmr_index i \<notin> compacted S}"

definition kept_data :: "nat set \<Rightarrow> 'e list \<Rightarrow> 'e list" where
  "kept_data S ds = nths ds (kept_leaves S)"

abbreviation roots_of :: "('m \<Rightarrow> nat set) \<Rightarrow> 'm file_backend \<Rightarrow> nat set" where
  "roots_of els b \<equiv> els (pl_bitmap (fb_prune_list b))"

abbreviation unspent_of :: "('m \<Rightarrow> nat set) \<Rightarrow> 'm file_backend \<Rightarrow> nat set" where
  "unspent_of els b \<equiv> els (ls_bitmap (fb_leaf_set b))"

type_synonym 'a file_rep = "fs \<Rightarrow> append_only_file \<Rightarrow> 'a list \<Rightarrow> nat \<Rightarrow> 'a list \<Rightarrow> bool"

definition sets_ok :: "('m \<Rightarrow> nat set) \<Rightarrow> 'm file_backend \<Rightarrow> nat \<Rightarrow> bool" where
  "sets_ok els b sz \<longleftrightarrow>
     prune_list_ok els (fb_prune_list b) \<and> (\<forall>x\<in>roots_of els b. x \<le> sz) \<and> sz \<le> 2 ^ 30 \<and>
     (\<forall>x\<in>unspent_of els b. 0 < x \<and> x \<le> sz \<and> is_leaf (x - 1) \<and> x - 1 \<notin> pruned (roots_of els b))"

definition fb_rep :: "('m \<Rightarrow> nat set) \<Rightarrow> hash file_rep \<Rightarrow> 'e file_rep \<Rightarrow> fs \<Rightarrow> 'm file_backend \<Rightarrow> hash list \<Rightarrow> 'e list \<Rightarrow> bool" where
  "fb_rep els hrep drep f b hs ds \<longleftrightarrow>
     (\<exists>disk k pend. hrep f (fb_hash_file b) disk k pend \<and> take k disk @ pend = kept_hashes (roots_of els b) hs) \<and>
     (\<exists>disk k pend. drep f (fb_data_file b) disk k pend \<and> take k disk @ pend = kept_data (roots_of els b) ds) \<and>
     length hs = insertion_to_pmmr_index (length ds) \<and> sets_ok els b (length hs)"

lemma sets_okD:
  assumes "sets_ok els b sz"
  shows "prune_list_ok els (fb_prune_list b)" "no_nesting (roots_of els b)" "rolled_up (roots_of els b)"
    "\<And>x. x \<in> roots_of els b \<Longrightarrow> x \<le> sz" "sz \<le> 2 ^ 30"
    "\<And>x. x \<in> unspent_of els b \<Longrightarrow> 0 < x \<and> x \<le> sz \<and> is_leaf (x - 1) \<and> x - 1 \<notin> pruned (roots_of els b)"
  using assms by (auto simp: sets_ok_def prune_list_ok_def rolled_up_def)

lemma pruned_less: "no_nesting S \<Longrightarrow> \<forall>x\<in>S. x \<le> sz \<Longrightarrow> p \<in> pruned S \<Longrightarrow> p < sz"
  using no_nesting_pos [of S] by (fastforce simp: pruned_def in_subtree_def)

lemma root_pruned: "x \<in> S \<Longrightarrow> x - 1 \<in> pruned S"
  using in_subtree_refl unfolding pruned_def by blast

lemma compacted_less: "no_nesting S \<Longrightarrow> \<forall>x\<in>S. x \<le> sz \<Longrightarrow> p \<in> compacted S \<Longrightarrow> p < sz"
  using pruned_less by (auto simp: compacted_def)

lemma finite_compacted: "no_nesting S \<Longrightarrow> finite S \<Longrightarrow> finite (compacted S)"
  by (rule finite_subset [of _ "{..<Max (insert 0 S)}"]) (auto intro!: compacted_less)

lemma leaf_shift_card:
  assumes "insertion_to_pmmr_index i \<notin> C"
  shows "card {p \<in> C. p < Suc (insertion_to_pmmr_index i) \<and> is_leaf p} = card {j \<in> {j. insertion_to_pmmr_index j \<in> C}. j < i}"
proof -
  have "{p \<in> C. p < Suc (insertion_to_pmmr_index i) \<and> is_leaf p} =
      insertion_to_pmmr_index ` {j \<in> {j. insertion_to_pmmr_index j \<in> C}. j < i}"
  proof (intro equalityI subsetI)
    fix p assume p: "p \<in> {p \<in> C. p < Suc (insertion_to_pmmr_index i) \<and> is_leaf p}"
    then obtain j where j: "p = insertion_to_pmmr_index j" by (auto elim: is_leafE)
    have "j \<noteq> i" using p j assms by auto
    then have "j < i" using p by (simp add: j less_Suc_eq_le)
    then show "p \<in> insertion_to_pmmr_index ` {j \<in> {j. insertion_to_pmmr_index j \<in> C}. j < i}" using p j by blast
  qed (auto simp: less_Suc_eq_le)
  moreover have "inj_on insertion_to_pmmr_index X" for X by (simp add: inj_on_def)
  ultimately show ?thesis by (simp add: card_image)
qed

lemma kept_leaves_complement: "kept_leaves S = - {j. insertion_to_pmmr_index j \<in> compacted S}"
  by (auto simp: kept_leaves_def)

lemma finite_compacted_leaves:
  assumes "no_nesting S" and "finite S"
  shows "finite {j. insertion_to_pmmr_index j \<in> compacted S}"
  using finite_vimageI [OF finite_compacted [OF assms], of insertion_to_pmmr_index]
  by (simp add: vimage_def inj_on_def)

text \<open>The position after a leaf that is not compacted is not compacted either.\<close>

lemma after_leaf_not_compacted:
  assumes "no_nesting S" and "insertion_to_pmmr_index i \<notin> compacted S"
  shows "Suc (insertion_to_pmmr_index i) \<notin> compacted S"
proof -
  let ?p = "insertion_to_pmmr_index i"
  have np: "fst (family ?p) \<notin> pruned S" using assms by (simp add: compacted_parent)
  have n: "node_ok i 0" by simp
  show ?thesis
  proof (cases "bit i 0")
    case True
    then have "fst (family ?p) = Suc ?p" using family_right [OF n] by simp
    then show ?thesis using np pruned_down [OF _ in_subtree_parent [of "Suc ?p"]] by (auto simp: compacted_parent [OF assms(1)])
  next
    case False
    have "snd (family ?p) = Suc ?p"
      using family_left [OF n] False node_pos_left_child [OF not_bit_sibling(1) [OF n False]] by simp
    then have "fst (family (Suc ?p)) = fst (family ?p)" using family_sibling [of ?p] by simp
    then show ?thesis using np by (simp add: compacted_parent [OF assms(1)])
  qed
qed

lemma file_shifts:
  assumes "croaring_ok lib els" and "prune_list_ok els pl" and "S = els (pl_bitmap pl)"
  shows "pos0 \<notin> compacted S \<Longrightarrow> Suc pos0 < 2 ^ 32 \<Longrightarrow>
      \<exists>s. get_shift lib pl pos0 = Some s \<and> s \<le> pos0 \<and> pos0 - s = rank_in (- compacted S) pos0"
    and "insertion_to_pmmr_index i \<notin> compacted S \<Longrightarrow> insertion_to_pmmr_index i + 2 < 2 ^ 32 \<Longrightarrow>
      \<exists>s. get_leaf_shift lib pl (Suc (insertion_to_pmmr_index i)) = Some s \<and> s \<le> i \<and> i - s = rank_in (kept_leaves S) i"
proof -
  have nn: "no_nesting S" and fin: "finite S"
    using assms by (auto simp: prune_list_ok_def rolled_up_def croaring_okD(11) [OF assms(1)])
  have le: "card {p \<in> C. p < n} \<le> n" for C and n :: nat
    using card_mono [of "{..<n}" "{p \<in> C. p < n}"] by auto
  show "\<exists>s. get_shift lib pl pos0 = Some s \<and> s \<le> pos0 \<and> pos0 - s = rank_in (- compacted S) pos0"
    if "pos0 \<notin> compacted S" "Suc pos0 < 2 ^ 32"
    using shifts_count(1) [OF assms(1,2) that(2)] that(1) rank_in_complement [OF finite_compacted [OF nn fin]] le
    by (simp add: assms(3))
  show "\<exists>s. get_leaf_shift lib pl (Suc (insertion_to_pmmr_index i)) = Some s \<and> s \<le> i \<and> i - s = rank_in (kept_leaves S) i"
    if "insertion_to_pmmr_index i \<notin> compacted S" "insertion_to_pmmr_index i + 2 < 2 ^ 32"
  proof -
    have "Suc (Suc (insertion_to_pmmr_index i)) < 2 ^ 32" using that(2) by simp
    moreover have "Suc (insertion_to_pmmr_index i) \<notin> compacted (els (pl_bitmap pl))"
      using after_leaf_not_compacted [OF nn that(1)] by (simp add: assms(3))
    ultimately have "get_leaf_shift lib pl (Suc (insertion_to_pmmr_index i)) =
        Some (card {j \<in> {j. insertion_to_pmmr_index j \<in> compacted S}. j < i})"
      using shifts_count(2) [OF assms(1,2)] leaf_shift_card [OF that(1)] by (simp add: assms(3) [symmetric])
    then show ?thesis
      using le [of "{j. insertion_to_pmmr_index j \<in> compacted S}" i] rank_in_complement [OF finite_compacted_leaves [OF nn fin], of i] by (simp add: kept_leaves_complement)
  qed
qed

section \<open>The entries that compaction removes from the files\<close>

text \<open>The pruned positions stay within the range: a parent is directly behind its right child.\<close>

lemma parent_after_right_child: "fst (family p) = Suc p \<or> fst (family p) = Suc (snd (family p))"
proof -
  obtain n h where "node_ok n h" "p = node_pos n h" by (rule peak_map_heightE [of p])
  then show ?thesis by (cases "bit n h") (simp_all add: family_right family_left)
qed

lemma closure_below:
  assumes "p \<in> prune_closure A" and "\<forall>p\<in>A. p < insertion_to_pmmr_index n"
  shows "p < insertion_to_pmmr_index n"
  using assms(1)
proof induction
  case (parent p)
  have "fst (family p) = Suc p \<or> fst (family p) = Suc (snd (family p))" by (rule parent_after_right_child)
  then have "fst (family p) \<le> insertion_to_pmmr_index n" using parent by auto
  moreover have "fst (family p) \<noteq> insertion_to_pmmr_index n" using is_leaf_not_parent [of p] by auto
  ultimately show ?case by simp
qed (use assms(2) in blast)

text \<open>The positions whose parent becomes pruned are the ones that become compacted.\<close>

abbreviation newly_compacted :: "nat set \<Rightarrow> nat set \<Rightarrow> nat set" where
  "newly_compacted S Q \<equiv> {p. fst (family p) \<in> Q - pruned S}"

lemma newly_compacted_kept: "no_nesting S \<Longrightarrow> newly_compacted S Q \<subseteq> - compacted S"
  by (auto simp: compacted_parent)

lemma newly_compacted_rest:
  assumes "no_nesting S" and "no_nesting S'" and "pruned S' = Q" and "pruned S \<subseteq> Q"
  shows "- compacted S - newly_compacted S Q = - compacted S'"
  using assms by (auto simp: compacted_parent)

lemma sorted_wrt_mono_map:
  assumes "sorted_wrt (<) xs" and "\<And>x y. x \<in> set xs \<Longrightarrow> y \<in> set xs \<Longrightarrow> x < y \<Longrightarrow> g x < (g y :: nat)"
  shows "sorted_wrt (<) (map g xs)"
  using assms by (induction xs) auto

lemma hash_pos_to_rm_ok:
  assumes "croaring_ok lib els" and "prune_list_ok els (fb_prune_list b)" and "S = roots_of els b"
    and "els R = Suc ` D" and "D \<subseteq> - compacted S" and "\<forall>p\<in>D. Suc p < 2 ^ 32"
  shows "\<exists>ps. hash_pos_to_rm lib b R = Some (map Suc ps) \<and> sorted_wrt (<) ps \<and> set ps = rank_in (- compacted S) ` D"
proof -
  note ok = croaring_okD [OF assms(1)]
  let ?xs = "sorted_list_of_set (els R)" and ?g = "\<lambda>x. rank_in (- compacted S) (x - 1)"
  have xs: "set ?xs = Suc ` D" using ok(11) [of R] assms(4) by simp
  have s: "Option.bind (get_shift lib (fb_prune_list b) (x - 1)) (\<lambda>shift. Some (x - shift)) = Some (Suc (?g x))" if x: "x \<in> set ?xs" for x
  proof -
    obtain p where p: "x = Suc p" "p \<in> D" using x xs by auto
    then obtain s where "get_shift lib (fb_prune_list b) p = Some s" "s \<le> p" "p - s = rank_in (- compacted S) p"
      using file_shifts(1) [OF assms(1-3), of p] assms(5,6) by blast
    then show ?thesis by (simp add: p(1) Suc_diff_le)
  qed
  have "hash_pos_to_rm lib b R = Some (map (\<lambda>x. Suc (?g x)) ?xs)"
    unfolding hash_pos_to_rm_def ok(18) by (rule map_bind_Some) (rule s)
  then have "hash_pos_to_rm lib b R = Some (map Suc (map ?g ?xs))" by (simp add: comp_def)
  moreover have "sorted_wrt (<) (map ?g ?xs)"
    using assms(5) xs by (intro sorted_wrt_mono_map) (auto intro!: rank_in_strict)
  moreover have "set (map ?g ?xs) = rank_in (- compacted S) ` D" by (force simp: xs)
  ultimately show ?thesis by blast
qed

lemma data_pos_to_rm_ok:
  assumes "croaring_ok lib els" and "prune_list_ok els (fb_prune_list b)" and "S = roots_of els b"
    and "els R = Suc ` D" and "D \<subseteq> - compacted S" and "\<forall>p\<in>D. p + 2 < 2 ^ 32"
  shows "\<exists>ps. data_pos_to_rm lib b R = Some (map Suc ps) \<and> sorted_wrt (<) ps \<and>
    set ps = rank_in (kept_leaves S) ` {i. insertion_to_pmmr_index i \<in> D}"
proof -
  note ok = croaring_okD [OF assms(1)]
  let ?xs = "filter (\<lambda>x. is_leaf (x - 1)) (sorted_list_of_set (els R))" and ?g = "\<lambda>x. rank_in (kept_leaves S) (n_leaves x - 1)"
  have xs: "set ?xs = (\<lambda>i. Suc (insertion_to_pmmr_index i)) ` {i. insertion_to_pmmr_index i \<in> D}"
    using ok(11) [of R] assms(4) by (auto elim!: is_leafE)
  have s: "(let flat_pos = n_leaves x in Option.bind (get_leaf_shift lib (fb_prune_list b) x) (\<lambda>shift. Some (flat_pos - shift))) =
      Some (Suc (?g x))" if x: "x \<in> set ?xs" for x
  proof -
    obtain i where i: "x = Suc (insertion_to_pmmr_index i)" "insertion_to_pmmr_index i \<in> D" using x unfolding xs by auto
    then obtain s where "get_leaf_shift lib (fb_prune_list b) x = Some s" "s \<le> i" "i - s = rank_in (kept_leaves S) i"
      using file_shifts(2) [OF assms(1-3), of i] assms(5,6) by blast
    then show ?thesis by (simp add: i(1) Suc_diff_le n_leaves_Suc_insertion)
  qed
  have "data_pos_to_rm lib b R = Some (map (\<lambda>x. Suc (?g x)) ?xs)"
    unfolding data_pos_to_rm_def ok(18) by (rule map_bind_Some) (rule s)
  then have "data_pos_to_rm lib b R = Some (map Suc (map ?g ?xs))" by (simp add: comp_def)
  moreover have "sorted_wrt (<) (map ?g ?xs)"
  proof (rule sorted_wrt_mono_map)
    fix x y assume xy: "x \<in> set ?xs" "y \<in> set ?xs" "x < y"
    obtain i j where "x = Suc (insertion_to_pmmr_index i)" "y = Suc (insertion_to_pmmr_index j)" "insertion_to_pmmr_index i \<in> D"
      using xy(1,2) unfolding xs by auto
    then show "?g x < ?g y"
      using xy(3) assms(5) by (auto simp: n_leaves_Suc_insertion kept_leaves_def intro!: rank_in_strict)
  qed (simp add: sorted_wrt_filter)
  moreover have "set (map ?g ?xs) = rank_in (kept_leaves S) ` {i. insertion_to_pmmr_index i \<in> D}"
    unfolding set_map xs by (simp add: image_image n_leaves_Suc_insertion)
  ultimately show ?thesis by blast
qed

lemma compaction_plan:
  assumes lib: "croaring_ok lib els" and so: "sets_ok els b n" and "n = insertion_to_pmmr_index m" and "cutoff \<le> n"
    and S: "S = roots_of els b" and L: "L = removed_pre_cutoff lib (fb_leaf_set b) cutoff rm (fb_prune_list b)"
    and Q: "Q = prune_closure (pruned (S \<union> els L))"
  shows "\<exists>R hps dps. fb_pos_to_rm lib b cutoff rm = Some (L, R) \<and> hash_pos_to_rm lib b R = Some (map Suc hps) \<and>
      data_pos_to_rm lib b R = Some (map Suc dps) \<and> sorted_wrt (<) hps \<and> sorted_wrt (<) dps \<and>
      set hps = rank_in (- compacted S) ` newly_compacted S Q \<and>
      set dps = rank_in (kept_leaves S) ` {i. insertion_to_pmmr_index i \<in> newly_compacted S Q}"
    and "pruned S \<subseteq> Q" and "\<forall>q\<in>Q. q < n" and "\<forall>x\<in>unspent_of els b. x - 1 \<notin> Q"
    and "\<exists>pl. prune_list_new lib fp (rb_or lib (pl_bitmap (fb_prune_list b)) L) = Some pl \<and> prune_list_ok els pl \<and>
      pl_path pl = fp \<and> pruned (els (pl_bitmap pl)) = Q \<and> (\<forall>x\<in>els (pl_bitmap pl). x \<le> n)"
proof -
  note so = sets_okD [OF so]
  have "\<forall>x\<in>S. x \<le> 2 ^ 30" and "cutoff \<le> 2 ^ 30" using so(4,5) assms(4) by (force simp: S)+
  note rm = pos_to_rm_ok [OF lib so(1) S this L Q]
  show "pruned S \<subseteq> Q" by (rule rm(4))
  have SL: "\<forall>x\<in>S \<union> els L. x \<le> n" using so(4) rm(5) assms(4) by (auto simp: S dest: order_trans)
  have Qn: "q < n" if "q \<in> Q" for q
    using closure_below [of q "pruned (S \<union> els L)" m] pruned_less [OF rm(1) SL] that by (simp add: Q assms(3))
  then show "\<forall>q\<in>Q. q < n" by blast
  obtain R where R: "fb_pos_to_rm lib b cutoff rm = Some (L, R)" "els R = Suc ` newly_compacted S Q" using rm(6) by blast
  have Dn: "p < n" if "p \<in> newly_compacted S Q" for p using that Qn parent_gt [of p] by fastforce
  have D: "newly_compacted S Q \<subseteq> - compacted S" using newly_compacted_kept so(2) by (simp add: S)
  have D32: "\<forall>p\<in>newly_compacted S Q. Suc p < 2 ^ 32" "\<forall>p\<in>newly_compacted S Q. p + 2 < 2 ^ 32" using Dn so(5) by fastforce+
  show "\<exists>R hps dps. fb_pos_to_rm lib b cutoff rm = Some (L, R) \<and> hash_pos_to_rm lib b R = Some (map Suc hps) \<and>
      data_pos_to_rm lib b R = Some (map Suc dps) \<and> sorted_wrt (<) hps \<and> sorted_wrt (<) dps \<and>
      set hps = rank_in (- compacted S) ` newly_compacted S Q \<and>
      set dps = rank_in (kept_leaves S) ` {i. insertion_to_pmmr_index i \<in> newly_compacted S Q}"
    using hash_pos_to_rm_ok [OF lib so(1) S R(2) D D32(1)] data_pos_to_rm_ok [OF lib so(1) S R(2) D D32(2)] R(1) by blast
  show "\<forall>x\<in>unspent_of els b. x - 1 \<notin> Q"
  proof (intro ballI notI)
    fix x assume x: "x \<in> unspent_of els b" and "x - 1 \<in> Q"
    then have "x - 1 \<in> pruned (S \<union> els L)" using prune_closure_leaf so(6) [OF x] by (auto simp: Q)
    then obtain y where y: "y \<in> els L" "in_subtree (x - 1) (y - 1)" using so(6) [OF x] by (auto simp: pruned_def S)
    then have "x = y" using in_subtree_leaf [of "y - 1" "x - 1"] rm(5) so(6) [OF x] by fastforce
    then show False
      using y(1) x removed_pre_cutoff_els [OF lib, of cutoff "fb_leaf_set b" rm "fb_prune_list b"] leaf_set_includes_iff [OF lib, of "x - 1"]
        so(5) so(6) [OF x] assms(4) by (auto simp: L)
  qed
  have "els (rb_or lib (pl_bitmap (fb_prune_list b)) L) = S \<union> els L" by (simp add: croaring_okD [OF lib] S)
  then obtain pl where pl: "prune_list_new lib fp (rb_or lib (pl_bitmap (fb_prune_list b)) L) = Some pl" "prune_list_ok els pl"
      "pl_path pl = fp" "pruned (els (pl_bitmap pl)) = Q"
    using prune_list_new_ok [OF lib, of "rb_or lib (pl_bitmap (fb_prune_list b)) L" fp] rm(1,2) by (auto simp: Q)
  then have "x \<le> n" if "x \<in> els (pl_bitmap pl)" for x using Qn [of "x - 1"] root_pruned [OF that] by simp
  then show "\<exists>pl. prune_list_new lib fp (rb_or lib (pl_bitmap (fb_prune_list b)) L) = Some pl \<and> prune_list_ok els pl \<and>
      pl_path pl = fp \<and> pruned (els (pl_bitmap pl)) = Q \<and> (\<forall>x\<in>els (pl_bitmap pl). x \<le> n)"
    using pl by blast
qed

section \<open>The names of the files\<close>

lemma flush_keeps_path: "prune_list_flush lib f pl = Inr (pl', f') \<Longrightarrow> pl_path pl' = pl_path pl"
  by (auto simp: prune_list_flush_def Let_def rbind_Inr_iff split: option.splits)

definition named_paths :: "'m file_backend \<Rightarrow> bool" where
  "named_paths b \<longleftrightarrow>
     (let path_of = join_path (fb_data_dir b)
      in paths (fb_hash_file b) = map path_of [pmmr_hash_file, ''pmmr_hash.tmp''] \<and>
         paths (fb_data_file b) \<in> {map path_of [pmmr_data_file, ''pmmr_data.tmp''],
           map path_of [pmmr_data_file, ''pmmr_data.tmp'', pmmr_size_file, ''pmmr_size.tmp'']} \<and>
         ls_path (fb_leaf_set b) = path_of pmmr_leaf_file \<and> pl_path (fb_prune_list b) = Some (path_of pmmr_prun_file))"

lemmas file_names = pmmr_hash_file_def pmmr_data_file_def pmmr_leaf_file_def pmmr_prun_file_def pmmr_size_file_def

lemma join_path_eq_iff [simp]: "join_path dir m = join_path dir n \<longleftrightarrow> m = n"
  by (simp add: join_path_def)

lemma named_paths_apart:
  assumes "named_paths b"
  shows "distinct (paths (fb_hash_file b) @ paths (fb_data_file b))"
    and "q \<in> set (paths (fb_hash_file b) @ paths (fb_data_file b)) \<Longrightarrow> q \<noteq> join_path (fb_data_dir b) (pmmr_leaf_file @ nm)"
    and "q \<in> set (paths (fb_hash_file b) @ paths (fb_data_file b)) \<Longrightarrow> q \<noteq> join_path (fb_data_dir b) (pmmr_prun_file @ nm)"
  using assms by (auto simp: named_paths_def file_names Let_def)

definition clean_step :: "string \<Rightarrow> string \<Rightarrow> nat \<Rightarrow> dir_entry \<Rightarrow> nat \<times> fs \<Rightarrow> nat \<times> fs" where
  "clean_step dir prefix secs = (\<lambda>de (n, f).
     if cleanable prefix secs de
     then (case fs_remove f (join_path dir (de_name de)) of Inr f \<Rightarrow> (n + 1, f) | Inl _ \<Rightarrow> (n, f))
     else (n, f))"

lemma clean_fold_frame:
  assumes "\<forall>nm. q \<noteq> join_path dir (prefix @ nm)"
  shows "snd (fold (clean_step dir prefix secs) des (n, f)) q = f q"
proof (induction des arbitrary: n f)
  case (Cons de des)
  have nm: "\<exists>nm. de_name de = prefix @ nm" if "cleanable prefix secs de"
    using that append_take_drop_id [of "length prefix" "de_name de"] by (metis cleanable_def)
  obtain m g where step: "clean_step dir prefix secs de (n, f) = (m, g)" by (cases "clean_step dir prefix secs de (n, f)")
  then have "g q = f q"
    using assms nm by (auto simp: clean_step_def fs_remove_def split: if_splits option.splits)
  then show ?case using Cons.IH by (simp add: step)
qed simp

lemma clean_files_ok:
  "\<exists>n f'. clean_files_by_prefix f dir (Inr des) prefix secs = Inr (n, f') \<and>
     (\<forall>q. (\<forall>nm. q \<noteq> join_path dir (prefix @ nm)) \<longrightarrow> f' q = f q)"
proof -
  obtain n f' where r: "fold (clean_step dir prefix secs) des (0, f) = (n, f')"
    by (cases "fold (clean_step dir prefix secs) des (0, f)")
  then have "clean_files_by_prefix f dir (Inr des) prefix secs = Inr (n, f')"
    by (simp add: clean_files_by_prefix_def clean_step_def)
  then show ?thesis using clean_fold_frame [of _ dir prefix secs des 0 f] r by auto
qed

lemma read_or_new_cong: "f p = g p \<Longrightarrow> read_or_new lib f p = read_or_new lib g p"
  by (simp add: read_or_new_def fs_exists_def read_bitmap_def fs_read_def)

text \<open>The last part of \<open>check_compact\<close>: the new prune list, the leaf set and the old snapshots.\<close>

lemma compact_tail:
  assumes lib: "croaring_ok lib els" and np: "named_paths b" and pl: "prune_list_ok els pl"
    and fp: "pl_path pl = Some (join_path (fb_data_dir b) pmmr_prun_file)" and "\<forall>x\<in>els (pl_bitmap pl). x \<le> n" and "n \<le> 2 ^ 30"
  shows "\<exists>pl' f1 ls' f2 k f3. prune_list_flush lib f pl = Inr (pl', f1) \<and> prune_list_ok els pl' \<and>
    pl_path pl' = Some (join_path (fb_data_dir b) pmmr_prun_file) \<and> els (pl_bitmap pl') = els (pl_bitmap pl) \<and>
    leaf_set_flush lib f1 (fb_leaf_set b) = Inr (ls', f2) \<and> els (ls_bitmap ls') = unspent_of els b \<and>
    els (ls_bitmap_bak ls') = unspent_of els b \<and> ls_path ls' = ls_path (fb_leaf_set b) \<and>
    clean_files_by_prefix f2 (fb_data_dir b) (Inr des) (pmmr_leaf_file @ ''.'') rewind_file_cleanup_duration_seconds = Inr (k, f3) \<and>
    (\<forall>q\<in>set (paths (fb_hash_file b) @ paths (fb_data_file b)). f3 q = f q) \<and>
    (\<exists>bm. read_or_new lib f3 (join_path (fb_data_dir b) pmmr_prun_file) = Inr bm \<and> els bm = els (pl_bitmap pl))"
proof -
  let ?fp = "join_path (fb_data_dir b) pmmr_prun_file" and ?lp = "join_path (fb_data_dir b) pmmr_leaf_file"
  have lp: "ls_path (fb_leaf_set b) = ?lp" using np by (simp add: named_paths_def Let_def)
  have "\<forall>x\<in>els (pl_bitmap pl). x \<le> 2 ^ 30" using assms(5,6) order_trans by blast
  from flush_then_reload [OF lib pl fp this, of f]
  obtain pl' f1 bm where pl': "prune_list_flush lib f pl = Inr (pl', f1)" "prune_list_ok els pl'" "els (pl_bitmap pl') = els (pl_bitmap pl)"
      "read_or_new lib f1 ?fp = Inr bm" "els bm = els (pl_bitmap pl)" "\<forall>p. p \<noteq> ?fp \<and> p \<noteq> ?fp @ tmp_suffix \<longrightarrow> f1 p = f p"
    by (elim exE conjE) (rule that; assumption)
  obtain ls' f2 where ls: "leaf_set_flush lib f1 (fb_leaf_set b) = Inr (ls', f2)" "els (ls_bitmap ls') = unspent_of els b"
      "els (ls_bitmap_bak ls') = unspent_of els b" "ls_path ls' = ?lp" "\<forall>p. p \<noteq> ?lp \<and> p \<noteq> ?lp @ tmp_suffix \<longrightarrow> f2 p = f1 p"
    using leaf_set_flush_ok [OF lib, of f1 "fb_leaf_set b", unfolded lp] by (elim exE conjE) (rule that; assumption)
  obtain k f3 where cl: "clean_files_by_prefix f2 (fb_data_dir b) (Inr des) (pmmr_leaf_file @ ''.'') rewind_file_cleanup_duration_seconds = Inr (k, f3)"
      "\<forall>q. (\<forall>nm. q \<noteq> join_path (fb_data_dir b) ((pmmr_leaf_file @ ''.'') @ nm)) \<longrightarrow> f3 q = f2 q"
    using clean_files_ok [of f2 "fb_data_dir b" des] by blast
  have after: "f3 q = f1 q" if q: "\<And>nm. q \<noteq> join_path (fb_data_dir b) (pmmr_leaf_file @ nm)" for q
  proof -
    have "f3 q = f2 q" using cl(2) q by simp
    moreover have "q \<noteq> ?lp" "q \<noteq> ?lp @ tmp_suffix" using q [of "[]"] q [of tmp_suffix] by (auto simp: join_path_def)
    ultimately show ?thesis using ls(5) by simp
  qed
  have "f3 q = f q" if q: "q \<in> set (paths (fb_hash_file b) @ paths (fb_data_file b))" for q
  proof -
    note apart = named_paths_apart(2,3) [OF np q]
    have "q \<noteq> ?fp" "q \<noteq> ?fp @ tmp_suffix" using apart(2) [of "[]"] apart(2) [of tmp_suffix] by (auto simp: join_path_def)
    then show ?thesis using after [of q] apart(1) pl'(6) by simp
  qed
  moreover have "read_or_new lib f3 ?fp = Inr bm"
    using pl'(4) read_or_new_cong [of f3 ?fp f1 lib] after [of ?fp] by (simp add: file_names)
  ultimately show ?thesis
    using pl'(1-3,5) ls(1-4) cl(1) flush_keeps_path [OF pl'(1)] fp lp by auto
qed

section \<open>The backend over two files\<close>

lemma write_tmp_frame:
  assumes "aof_write_tmp_pruned rd wr f a ps = Some (Inr (f (tmp_path a := X)))" and "f' (aof_path a) = f (aof_path a)"
  shows "aof_write_tmp_pruned rd wr f' a ps = Some (Inr (f' (tmp_path a := X)))"
proof -
  obtain bs out where bs: "f (aof_path a) = Some bs"
      "prune_loop rd wr (aof_version a) (streaming_new bs (aof_version a)) ps 0 [] = Some (Inr out)"
      "f (tmp_path a := X) = f (tmp_path a \<mapsto> out)"
    using assms(1) by (auto simp: aof_write_tmp_pruned_def fs_read_def ok_or_def rbind_Inr_iff split: option.splits sum.splits)
  moreover have "X = Some out" using fun_cong [OF bs(3), of "tmp_path a"] by simp
  ultimately show ?thesis using assms(2) by (simp add: aof_write_tmp_pruned_def fs_read_def ok_or_def)
qed

lemma compacted_files:
  assumes "no_nesting S" and "no_nesting S'" and "pruned S' = Q" and "pruned S \<subseteq> Q"
    and "set hps = rank_in (- compacted S) ` newly_compacted S Q"
    and "set dps = rank_in (kept_leaves S) ` {i. insertion_to_pmmr_index i \<in> newly_compacted S Q}"
  shows "nths (kept_hashes S hs) {i. i \<notin> set hps} = kept_hashes S' hs" and "nths (kept_data S ds) {i. i \<notin> set dps} = kept_data S' ds"
proof -
  note rest = newly_compacted_rest [OF assms(1-4)] and kept = newly_compacted_kept [OF assms(1), of Q]
  show "nths (kept_hashes S hs) {i. i \<notin> set hps} = kept_hashes S' hs"
    unfolding kept_hashes_def assms(5) rest [symmetric] by (rule nths_nths_rank [OF kept])
  have "{i. insertion_to_pmmr_index i \<in> newly_compacted S Q} \<subseteq> kept_leaves S" using kept by (auto simp: kept_leaves_def)
  moreover have "kept_leaves S - {i. insertion_to_pmmr_index i \<in> newly_compacted S Q} = kept_leaves S'"
    using rest by (fastforce simp: kept_leaves_def)
  ultimately show "nths (kept_data S ds) {i. i \<notin> set dps} = kept_data S' ds"
    using nths_nths_rank [of "{i. insertion_to_pmmr_index i \<in> newly_compacted S Q}" "kept_leaves S" ds] by (simp add: kept_data_def assms(6))
qed

text \<open>A backend whose files are flushed.\<close>

definition fb_settled :: "('m \<Rightarrow> nat set) \<Rightarrow> hash file_rep \<Rightarrow> 'e file_rep \<Rightarrow> fs \<Rightarrow> 'm file_backend \<Rightarrow> hash list \<Rightarrow> 'e list \<Rightarrow> bool" where
  "fb_settled els hrep drep f b hs ds \<longleftrightarrow>
     hrep f (fb_hash_file b) (kept_hashes (roots_of els b) hs) (length (kept_hashes (roots_of els b) hs)) [] \<and>
     drep f (fb_data_file b) (kept_data (roots_of els b) ds) (length (kept_data (roots_of els b) ds)) [] \<and>
     synced (fb_hash_file b) \<and> synced (fb_data_file b) \<and> named_paths b \<and>
     length hs = insertion_to_pmmr_index (length ds) \<and> sets_ok els b (length hs)"

lemma settled_rep: "fb_settled els hrep drep f b hs ds \<Longrightarrow> fb_rep els hrep drep f b hs ds"
  unfolding fb_settled_def fb_rep_def by (metis append_Nil2 take_all_iff order_refl)

context element_file
begin

lemma compact_step:
  assumes "rep f a disk (length disk) []" and "synced a" and "distinct (paths a)" and "sorted_wrt (<) ps"
  obtains X a' f2 where "aof_write_tmp_pruned rd wr f a ps = Some (Inr (f (tmp_path a := X)))"
    and "aof_replace_with_tmp rd (f (tmp_path a := X)) a = Some (Inr (a', f2))"
    and "rep f2 a' (nths disk {i. i \<notin> set ps}) (length (nths disk {i. i \<notin> set ps})) []" and "synced a'"
    and "paths a' = paths a" and "\<forall>q. q \<notin> set (paths a) \<longrightarrow> f2 q = f q"
proof -
  obtain f1 a' f2 where c: "aof_write_tmp_pruned rd wr f a ps = Some (Inr f1)" "f1 = f (tmp_path a := f1 (tmp_path a))"
      "aof_replace_with_tmp rd f1 a = Some (Inr (a', f2))"
      "rep f2 a' (nths disk {i. i \<notin> set ps}) (length (nths disk {i. i \<notin> set ps})) []" "synced a'"
      "paths a' = paths a" "\<forall>q. q \<notin> set (paths a) \<longrightarrow> f2 q = f q"
    using rep_compact [OF assms] by blast
  show thesis
    by (rule that [of "f1 (tmp_path a)" a' f2]) (use c c(2) [symmetric] in simp_all)
qed

end

text \<open>The backend relies on its files by their contract alone, for the hashes and for the data.\<close>

locale backend_files =
  hf: element_file hash_write hash_read hrep hok + df: element_file wr rd drep dok
  for hrep :: "hash file_rep" and hok and wr :: "'e writeable" and rd :: "'e readable_fn" and drep and dok +
  fixes pm :: "('t, 'e) pmmrable"
  assumes pm: "pm_write pm = wr" "pm_read pm = rd"
begin

lemma hash_read_at:
  assumes "hrep f a disk k pend" and "p < 2 ^ 63"
  shows "data_read hash_read a (Suc p) = nth_opt (take k disk @ pend) p"
  using hf.rep_read [OF assms(1), of p] by (simp add: data_read_def nth_opt_def)

lemma data_read_at:
  assumes "drep f a disk k pend"
  shows "data_read rd a (Suc p) = nth_opt (take k disk @ pend) p"
  using df.rep_read [OF assms(1), of p] by (simp add: data_read_def nth_opt_def)

lemma repD:
  assumes "fb_rep els hrep drep f b hs ds"
  shows "sets_ok els b (length hs)" and "length hs = insertion_to_pmmr_index (length ds)"
  using assms unfolding fb_rep_def by blast+

lemma is_compacted_iff:
  assumes "croaring_ok lib els" and "sets_ok els b sz" and "Suc pos0 < 2 ^ 32"
  shows "fb_is_compacted lib b pos0 \<longleftrightarrow> pos0 \<in> compacted (roots_of els b)"
  using sets_okD(2) [OF assms(2)] sets_okD(6) [OF assms(2), of "Suc pos0"] is_pruned_iff [OF assms(1) _ assms(3), of "fb_prune_list b"]
    leaf_set_includes_iff [OF assms(1,3), of "fb_leaf_set b"] assms(3)
  by (auto simp: fb_is_compacted_def fb_is_pruned_def fb_is_pruned_root_def is_pruned_root_def compacted_def
      croaring_okD(12) [OF assms(1)])

lemma nth_opt_kept:
  assumes "p \<in> I"
  shows "nth_opt (nths xs I) (rank_in I p) = nth_opt xs p"
proof (cases "p < length xs")
  case True
  then show ?thesis
    using assms nths_nth_rank [OF True assms] rank_in_strict [OF True assms] by (simp add: nth_opt_def length_nths_rank)
next
  case False
  then show ?thesis using rank_in_mono [of "length xs" p I] by (simp add: nth_opt_def length_nths_rank)
qed

lemma get_from_file_ok:
  assumes "croaring_ok lib els" and "fb_rep els hrep drep f b hs ds" and "Suc pos0 < 2 ^ 32"
  shows "fb_get_from_file lib b pos0 =
    Some (if pos0 \<in> compacted (roots_of els b) then None else nth_opt hs pos0)"
proof (cases "pos0 \<in> compacted (roots_of els b)")
  case True
  then show ?thesis
    using is_compacted_iff [OF assms(1) repD(1) [OF assms(2)] assms(3)] by (simp add: fb_get_from_file_def)
next
  case False
  note so = repD(1) [OF assms(2)]
  obtain s where s: "get_shift lib (fb_prune_list b) pos0 = Some s" "s \<le> pos0"
      "pos0 - s = rank_in (- compacted (roots_of els b)) pos0"
    using file_shifts(1) [OF assms(1) sets_okD(1) [OF so] refl False assms(3)] by blast
  obtain disk k pend where h: "hrep f (fb_hash_file b) disk k pend" "take k disk @ pend = nths hs (- compacted (roots_of els b))"
    using assms(2) by (auto simp: fb_rep_def kept_hashes_def)
  have "data_read hash_read (fb_hash_file b) (Suc (pos0 - s)) = nth_opt hs pos0"
    using hash_read_at [OF h(1), of "pos0 - s"] nth_opt_kept [of pos0 "- compacted (roots_of els b)" hs] False assms(3) s(2)
    unfolding h(2) s(3) by (simp add: s(3) [symmetric])
  moreover have "1 + pos0 - s = Suc (pos0 - s)" using s(2) by simp
  ultimately show ?thesis
    using is_compacted_iff [OF assms(1) so assms(3)] False s(1) by (simp add: fb_get_from_file_def)
qed

lemma get_peak_from_file_ok:
  assumes "croaring_ok lib els" and "fb_rep els hrep drep f b hs ds" and "Suc pos0 < 2 ^ 32"
    and "pos0 \<notin> compacted (roots_of els b)"
  shows "fb_get_peak_from_file lib b pos0 = Some (nth_opt hs pos0)"
  using get_from_file_ok [OF assms(1-3)] is_compacted_iff [OF assms(1) repD(1) [OF assms(2)] assms(3)] assms(4)
  by (simp add: fb_get_from_file_def fb_get_peak_from_file_def)

lemma get_data_from_file_ok:
  assumes "croaring_ok lib els" and "fb_rep els hrep drep f b hs ds" and "insertion_to_pmmr_index i + 2 < 2 ^ 32"
  shows "fb_get_data_from_file lib pm b (insertion_to_pmmr_index i) =
    Some (if insertion_to_pmmr_index i \<in> compacted (roots_of els b) then None else nth_opt ds i)"
proof -
  note so = repD(1) [OF assms(2)]
  have c: "fb_is_compacted lib b (insertion_to_pmmr_index i) \<longleftrightarrow> insertion_to_pmmr_index i \<in> compacted (roots_of els b)"
    using is_compacted_iff [OF assms(1) so, of "insertion_to_pmmr_index i"] assms(3) by simp
  show ?thesis
  proof (cases "insertion_to_pmmr_index i \<in> compacted (roots_of els b)")
    case False
    obtain s where s: "get_leaf_shift lib (fb_prune_list b) (Suc (insertion_to_pmmr_index i)) = Some s" "s \<le> i"
        "i - s = rank_in (kept_leaves (roots_of els b)) i"
      using file_shifts(2) [OF assms(1) sets_okD(1) [OF so] refl False assms(3)] by blast
    obtain disk k pend where d: "drep f (fb_data_file b) disk k pend" "take k disk @ pend = nths ds (kept_leaves (roots_of els b))"
      using assms(2) by (auto simp: fb_rep_def kept_data_def)
    have "data_read rd (fb_data_file b) (Suc (i - s)) = nth_opt ds i"
      using data_read_at [OF d(1), of "i - s"] nth_opt_kept [of i "kept_leaves (roots_of els b)" ds] False
      unfolding d(2) s(3) by (simp add: kept_leaves_def)
    moreover have "Suc i - s = Suc (i - s)" using s(2) by simp
    ultimately show ?thesis
      using c False s(1) by (simp add: fb_get_data_from_file_def pm n_leaves_Suc_insertion)
  qed (use c in \<open>simp add: fb_get_data_from_file_def\<close>)
qed

text \<open>A leaf of the leaf set is read with its hash and its data; a leaf that is spent is not found.\<close>

lemma get_leaf_ok:
  assumes "croaring_ok lib els" and "fb_rep els hrep drep f b hs ds" and "insertion_to_pmmr_index i + 2 < 2 ^ 32"
  defines "pos0 \<equiv> insertion_to_pmmr_index i"
  shows "Suc pos0 \<in> unspent_of els b \<Longrightarrow> i < length ds \<and> fb_get_hash lib b pos0 = Some (Some (hs ! pos0)) \<and>
      fb_get_data lib pm b pos0 = Some (Some (ds ! i))"
    and "Suc pos0 \<notin> unspent_of els b \<Longrightarrow> fb_prunable b \<Longrightarrow> fb_get_hash lib b pos0 = Some None \<and>
      fb_get_data lib pm b pos0 = Some None"
proof -
  note so = repD(1) [OF assms(2)] and len = repD(2) [OF assms(2)]
  have p32: "Suc pos0 < 2 ^ 32" using assms(3) by (simp add: pos0_def)
  note inc = leaf_set_includes_iff [OF assms(1) p32, of "fb_leaf_set b"]
  show "Suc pos0 \<notin> unspent_of els b \<Longrightarrow> fb_prunable b \<Longrightarrow> fb_get_hash lib b pos0 = Some None \<and> fb_get_data lib pm b pos0 = Some None"
    using inc by (simp add: fb_get_hash_def fb_get_data_def pos0_def)
  assume u: "Suc pos0 \<in> unspent_of els b"
  then have "pos0 < length hs" "pos0 \<notin> pruned (roots_of els b)" using sets_okD(6) [OF so u] by auto
  moreover then have "i < length ds" by (simp add: len pos0_def)
  ultimately show "i < length ds \<and> fb_get_hash lib b pos0 = Some (Some (hs ! pos0)) \<and> fb_get_data lib pm b pos0 = Some (Some (ds ! i))"
    using get_from_file_ok [OF assms(1,2) p32] get_data_from_file_ok [OF assms(1-3)] inc u
    by (simp add: fb_get_hash_def fb_get_data_def pos0_def compacted_def nth_opt_def)
qed

text \<open>
  Both files are written to their temporary files before the first of them is replaced; each write and each
  replacement leaves the other file alone.
\<close>

lemma compact_both:
  assumes h: "hrep f ha hl (length hl) []" "synced ha" "sorted_wrt (<) hps"
    and d: "drep f da dl (length dl) []" "synced da" "sorted_wrt (<) dps"
    and apart: "distinct (paths ha @ paths da)"
  shows "\<exists>f1 f2 ha' f3 da' f4. aof_write_tmp_pruned hash_read hash_write f ha hps = Some (Inr f1) \<and>
    aof_write_tmp_pruned rd wr f1 da dps = Some (Inr f2) \<and>
    aof_replace_with_tmp hash_read f2 ha = Some (Inr (ha', f3)) \<and> aof_replace_with_tmp rd f3 da = Some (Inr (da', f4)) \<and>
    hrep f4 ha' (nths hl {i. i \<notin> set hps}) (length (nths hl {i. i \<notin> set hps})) [] \<and> synced ha' \<and> paths ha' = paths ha \<and>
    drep f4 da' (nths dl {i. i \<notin> set dps}) (length (nths dl {i. i \<notin> set dps})) [] \<and> synced da' \<and> paths da' = paths da"
proof -
  have ps: "tmp_path ha \<in> set (paths ha)" "tmp_path da \<in> set (paths da)" "aof_path ha \<in> set (paths ha)" "aof_path da \<in> set (paths da)"
    by (simp_all add: paths_def)
  have dis: "distinct (paths ha)" "distinct (paths da)" "set (paths ha) \<inter> set (paths da) = {}" using apart by auto
  have ne: "tmp_path da \<notin> set (paths ha)" "aof_path ha \<noteq> tmp_path da" "aof_path da \<noteq> tmp_path ha" "tmp_path ha \<noteq> tmp_path da"
    using ps dis by (auto simp: paths_def)
  obtain Y where Y: "aof_write_tmp_pruned rd wr f da dps = Some (Inr (f (tmp_path da := Y)))"
    by (rule df.compact_step [OF d(1,2) dis(2) d(3)])
  let ?g = "f (tmp_path da := Y)"
  have hg: "hrep ?g ha hl (length hl) []" using hf.rep_frame [OF h(1), of ?g] ne by auto
  obtain X ha' f3 where X: "aof_write_tmp_pruned hash_read hash_write ?g ha hps = Some (Inr (?g (tmp_path ha := X)))"
      "aof_replace_with_tmp hash_read (?g (tmp_path ha := X)) ha = Some (Inr (ha', f3))"
      "hrep f3 ha' (nths hl {i. i \<notin> set hps}) (length (nths hl {i. i \<notin> set hps})) []" "synced ha'" "paths ha' = paths ha"
      "\<forall>q. q \<notin> set (paths ha) \<longrightarrow> f3 q = ?g q"
    by (rule hf.compact_step [OF hg h(2) dis(1) h(3)])
  let ?G = "f3 (tmp_path da := f (tmp_path da))"
  have Gf: "?G q = f q" if "q \<in> set (paths da)" for q using X(6) that dis(3) by auto
  then have dG: "drep ?G da dl (length dl) []" using df.rep_frame [OF d(1), of ?G] by blast
  obtain Z da' f4 where Z: "aof_write_tmp_pruned rd wr ?G da dps = Some (Inr (?G (tmp_path da := Z)))"
      "aof_replace_with_tmp rd (?G (tmp_path da := Z)) da = Some (Inr (da', f4))"
      "drep f4 da' (nths dl {i. i \<notin> set dps}) (length (nths dl {i. i \<notin> set dps})) []" "synced da'" "paths da' = paths da"
      "\<forall>q. q \<notin> set (paths da) \<longrightarrow> f4 q = ?G q"
    by (rule df.compact_step [OF dG d(2) dis(2) d(3)])
  have "aof_write_tmp_pruned rd wr ?G da dps = Some (Inr (?G (tmp_path da := Y)))"
    using write_tmp_frame [OF Y, of ?G] Gf [OF ps(4)] by simp
  then have "?G (tmp_path da := Z) = ?G (tmp_path da := Y)" unfolding Z(1) by simp
  moreover have "f3 (tmp_path da) = Y" using X(6) ne(1) by simp
  ultimately have rd: "aof_replace_with_tmp rd f3 da = Some (Inr (da', f4))" using Z(2) by (simp add: fun_upd_idem)
  have wh: "aof_write_tmp_pruned hash_read hash_write f ha hps = Some (Inr (f (tmp_path ha := X)))"
    using write_tmp_frame [OF X(1), of f] ne(2) by simp
  have wd: "aof_write_tmp_pruned rd wr (f (tmp_path ha := X)) da dps = Some (Inr (?g (tmp_path ha := X)))"
    using write_tmp_frame [OF Y, of "f (tmp_path ha := X)"] ne(3) fun_upd_twist [OF ne(4), of f X Y] by simp
  have "hrep f4 ha' (nths hl {i. i \<notin> set hps}) (length (nths hl {i. i \<notin> set hps})) []"
    by (rule hf.rep_frame [OF X(3)]) (use Z(6) dis(3) ne(1) in \<open>auto simp: X(5)\<close>)
  then show ?thesis using wh wd X(2,4,5) rd Z(3-5) by blast
qed

lemma check_compact_ok:
  assumes lib: "croaring_ok lib els" and st: "fb_settled els hrep drep f b hs ds" and "fb_prunable b" and "cutoff \<le> length hs"
    and L: "L = removed_pre_cutoff lib (fb_leaf_set b) cutoff rm (fb_prune_list b)"
  shows "\<exists>b' f'. fb_check_compact lib pm f b cutoff rm (Inr des) = Some (Inr (True, b', f')) \<and>
    fb_settled els hrep drep f' b' hs ds \<and> fb_prunable b' \<and> fb_data_dir b' = fb_data_dir b \<and> unspent_of els b' = unspent_of els b \<and>
    els (ls_bitmap_bak (fb_leaf_set b')) = unspent_of els b \<and> pruned (roots_of els b') = prune_closure (pruned (roots_of els b \<union> els L)) \<and>
    (\<exists>bm. read_or_new lib f' (join_path (fb_data_dir b) pmmr_prun_file) = Inr bm \<and> els bm = roots_of els b')"
proof -
  define S where "S = roots_of els b"
  define Q where "Q = prune_closure (pruned (S \<union> els L))"
  let ?n = "length hs" and ?fp = "join_path (fb_data_dir b) pmmr_prun_file"
  have so: "sets_ok els b ?n" and len: "?n = insertion_to_pmmr_index (length ds)" and np: "named_paths b"
    using st unfolding fb_settled_def by blast+
  note plan = compaction_plan [OF lib so len assms(4) S_def L Q_def]
  obtain R hps dps where p: "fb_pos_to_rm lib b cutoff rm = Some (L, R)" "hash_pos_to_rm lib b R = Some (map Suc hps)"
      "data_pos_to_rm lib b R = Some (map Suc dps)" "sorted_wrt (<) hps" "sorted_wrt (<) dps"
      "set hps = rank_in (- compacted S) ` newly_compacted S Q"
      "set dps = rank_in (kept_leaves S) ` {i. insertion_to_pmmr_index i \<in> newly_compacted S Q}"
    using plan(1) by blast
  obtain f1 f2 ha' f3 da' f4 where c: "aof_write_tmp_pruned hash_read hash_write f (fb_hash_file b) hps = Some (Inr f1)"
      "aof_write_tmp_pruned rd wr f1 (fb_data_file b) dps = Some (Inr f2)"
      "aof_replace_with_tmp hash_read f2 (fb_hash_file b) = Some (Inr (ha', f3))"
      "aof_replace_with_tmp rd f3 (fb_data_file b) = Some (Inr (da', f4))"
      "hrep f4 ha' (nths (kept_hashes S hs) {i. i \<notin> set hps}) (length (nths (kept_hashes S hs) {i. i \<notin> set hps})) []"
      "synced ha'" "paths ha' = paths (fb_hash_file b)"
      "drep f4 da' (nths (kept_data S ds) {i. i \<notin> set dps}) (length (nths (kept_data S ds) {i. i \<notin> set dps})) []"
      "synced da'" "paths da' = paths (fb_data_file b)"
    using compact_both [OF _ _ p(4) _ _ p(5) named_paths_apart(1) [OF np]] st unfolding fb_settled_def S_def by blast
  obtain pl where pl: "prune_list_new lib (Some ?fp) (rb_or lib (pl_bitmap (fb_prune_list b)) L) = Some pl" "prune_list_ok els pl"
      "pl_path pl = Some ?fp" "pruned (els (pl_bitmap pl)) = Q" "\<forall>x\<in>els (pl_bitmap pl). x \<le> ?n"
    using plan(5) by blast
  obtain pl' f5 ls' f6 n f7 where t: "prune_list_flush lib f4 pl = Inr (pl', f5)" "prune_list_ok els pl'" "pl_path pl' = Some ?fp"
      "els (pl_bitmap pl') = els (pl_bitmap pl)" "leaf_set_flush lib f5 (fb_leaf_set b) = Inr (ls', f6)"
      "els (ls_bitmap ls') = unspent_of els b" "els (ls_bitmap_bak ls') = unspent_of els b" "ls_path ls' = ls_path (fb_leaf_set b)"
      "clean_files_by_prefix f6 (fb_data_dir b) (Inr des) (pmmr_leaf_file @ ''.'') rewind_file_cleanup_duration_seconds = Inr (n, f7)"
      "\<forall>q\<in>set (paths (fb_hash_file b) @ paths (fb_data_file b)). f7 q = f4 q"
      "\<exists>bm. read_or_new lib f7 ?fp = Inr bm \<and> els bm = els (pl_bitmap pl)"
    using compact_tail [OF lib np pl(2,3,5) sets_okD(5) [OF so], of f4 des] by blast
  define b' where "b' = b \<lparr> fb_hash_file := ha', fb_data_file := da', fb_prune_list := pl', fb_leaf_set := ls' \<rparr>"
  have run: "fb_check_compact lib pm f b cutoff rm (Inr des) = Some (Inr (True, b', f7))"
    using assms(3) c(1-4) pl(1) t(1,5,9)
    by (simp add: fb_check_compact_def p(1-3) write_compacted_def data_write_tmp_pruned_def comp_def pm
        replace_compacted_def update_prune_list_def fb_clean_rewind_files_def b'_def Let_def)
  have roots: "roots_of els b' = els (pl_bitmap pl)" by (simp add: b'_def t(4))
  note nn' = pl(2) [unfolded prune_list_ok_def rolled_up_def, THEN conjunct1, THEN conjunct1]
  note files = compacted_files [OF sets_okD(2) [OF so, folded S_def] nn' pl(4) plan(2) p(6,7)]
  have "hrep f7 ha' (kept_hashes (roots_of els b') hs) (length (kept_hashes (roots_of els b') hs)) []"
    using hf.rep_frame [OF c(5), of f7] t(10) by (simp add: c(7) roots files)
  moreover have "drep f7 da' (kept_data (roots_of els b') ds) (length (kept_data (roots_of els b') ds)) []"
    using df.rep_frame [OF c(8), of f7] t(10) by (simp add: c(10) roots files)
  moreover have "named_paths b'" using np c(7,10) t(3,8) by (simp add: named_paths_def b'_def Let_def)
  moreover have "sets_ok els b' ?n"
    using sets_okD(5,6) [OF so] plan(4) pl(5) t(2) unfolding sets_ok_def roots by (auto simp: b'_def t(6) pl(4))
  ultimately have "fb_settled els hrep drep f7 b' hs ds" using c(6,9) len by (simp add: fb_settled_def b'_def)
  then show ?thesis
    using run roots t(6,7,11) assms(3) pl(4) by (auto simp: b'_def Q_def S_def)
qed

end

end
