(* ===== verification/Backend_Ops.thy ===== *)
theory Backend_Ops
  imports File_Backend
begin

text \<open>
  The file backend over its life: appends, removals and rewinds between two \<open>sync\<close>s, \<open>sync\<close> or
  \<open>discard\<close> at the end of a unit of work, and compaction. Its specification has no files and no bitmaps: the
  list of hashes, the list of data and the set of unspent leaves, now and as of the last \<open>sync\<close>, and the set of
  leaves that compaction gave up.
\<close>

section \<open>Specification\<close>

record 'e range_view =
  rv_hashes :: "hash list"
  rv_data :: "'e list"
  rv_unspent :: "nat set"

text \<open>\<open>bs_clean\<close>: nothing was appended or rewound since the last \<open>sync\<close> or \<open>discard\<close>.\<close>

record 'e backend_spec =
  bs_now :: "'e range_view"
  bs_saved :: "'e range_view"
  bs_pruned :: "nat set"
  bs_clean :: bool

datatype ('t, 'm) backend_op =
    BAppend 't "hash list"
  | BRemove nat
  | BRewind nat 'm
  | BSync
  | BDiscard
  | BCompact nat 'm "dir_entry list"

definition empty_view :: "'e range_view" where
  "empty_view = \<lparr> rv_hashes = [], rv_data = [], rv_unspent = {} \<rparr>"

definition empty_spec :: "'e backend_spec" where
  "empty_spec = \<lparr> bs_now = empty_view, bs_saved = empty_view, bs_pruned = {}, bs_clean = True \<rparr>"

fun spec_op :: "('m \<Rightarrow> nat set) \<Rightarrow> ('t \<Rightarrow> 'e) \<Rightarrow> ('t, 'm) backend_op \<Rightarrow> 'e backend_spec \<Rightarrow> 'e backend_spec" where
  "spec_op els elmt (BAppend x hashes) s =
     s \<lparr> bs_now := \<lparr> rv_hashes = rv_hashes (bs_now s) @ hashes, rv_data = rv_data (bs_now s) @ [elmt x],
                    rv_unspent = insert (Suc (length (rv_hashes (bs_now s)))) (rv_unspent (bs_now s)) \<rparr>, bs_clean := False \<rparr>"
| "spec_op els elmt (BRemove pos0) s =
     s \<lparr> bs_now := (bs_now s) \<lparr> rv_unspent := rv_unspent (bs_now s) - {Suc pos0} \<rparr> \<rparr>"
| "spec_op els elmt (BRewind position rm) s =
     s \<lparr> bs_now := \<lparr> rv_hashes = take position (rv_hashes (bs_now s)), rv_data = take (n_leaves position) (rv_data (bs_now s)),
                    rv_unspent = {x \<in> rv_unspent (bs_now s). x \<le> position} \<union> els rm \<rparr>, bs_clean := False \<rparr>"
| "spec_op els elmt BSync s = s \<lparr> bs_saved := bs_now s, bs_clean := True \<rparr>"
| "spec_op els elmt BDiscard s = s \<lparr> bs_now := bs_saved s, bs_clean := True \<rparr>"
| "spec_op els elmt (BCompact cutoff rm des) s =
     s \<lparr> bs_saved := bs_now s,
        bs_pruned := bs_pruned s \<union> {x. 1 \<le> x \<and> x \<le> cutoff \<and> is_leaf (x - 1) \<and> x \<notin> rv_unspent (bs_now s) \<and> x \<notin> els rm} \<rparr>"

text \<open>
  What the callers keep to. The range has at most \<open>2 ^ 30\<close> positions; an append brings the hashes of the new leaf
  and of the parents it completes; a rewind goes to the size of the range with some number of leaves, not in front
  of a leaf that was given up, and brings no such leaf back; compaction and rewinds start from a clean state.
\<close>

fun op_ok :: "('m \<Rightarrow> nat set) \<Rightarrow> ('t \<Rightarrow> 'e) \<Rightarrow> ('e list \<Rightarrow> 'e \<Rightarrow> bool) \<Rightarrow> ('t, 'm) backend_op \<Rightarrow> 'e backend_spec \<Rightarrow> bool" where
  "op_ok els elmt dok (BAppend x hashes) s \<longleftrightarrow>
     length (rv_hashes (bs_now s) @ hashes) = insertion_to_pmmr_index (Suc (length (rv_data (bs_now s)))) \<and>
     length (rv_hashes (bs_now s) @ hashes) \<le> 2 ^ 30 \<and> (\<forall>h\<in>set hashes. length h = 32) \<and>
     (\<forall>I. dok (nths (rv_data (bs_now s)) I) (elmt x))"
| "op_ok els elmt dok (BRemove pos0) s \<longleftrightarrow> Suc pos0 < 2 ^ 32"
| "op_ok els elmt dok (BRewind position rm) s \<longleftrightarrow>
     bs_clean s \<and> (\<exists>n\<le>length (rv_data (bs_now s)). position = insertion_to_pmmr_index n) \<and>
     (\<forall>x\<in>bs_pruned s. x \<le> position) \<and> (\<forall>x\<in>els rm. 0 < x \<and> x \<le> position \<and> is_leaf (x - 1) \<and> x \<notin> bs_pruned s)"
| "op_ok els elmt dok BSync s \<longleftrightarrow> True"
| "op_ok els elmt dok BDiscard s \<longleftrightarrow> True"
| "op_ok els elmt dok (BCompact cutoff rm des) s \<longleftrightarrow> bs_clean s \<and> cutoff \<le> length (rv_hashes (bs_now s))"

fun ops_ok :: "('m \<Rightarrow> nat set) \<Rightarrow> ('t \<Rightarrow> 'e) \<Rightarrow> ('e list \<Rightarrow> 'e \<Rightarrow> bool) \<Rightarrow> ('t, 'm) backend_op list \<Rightarrow> 'e backend_spec \<Rightarrow> bool" where
  "ops_ok els elmt dok [] s \<longleftrightarrow> True"
| "ops_ok els elmt dok (op # ops) s \<longleftrightarrow> op_ok els elmt dok op s \<and> ops_ok els elmt dok ops (spec_op els elmt op s)"

text \<open>The same on the backend; \<open>None\<close> is a panic, a call that does not return, or an error.\<close>

definition unwrap :: "('e + 'a) option \<Rightarrow> 'a option" where
  "unwrap r = (case r of Some (Inr x) \<Rightarrow> Some x | _ \<Rightarrow> None)"

fun run_backend_op ::
    "'m croaring \<Rightarrow> ('t, 'e) pmmrable \<Rightarrow> ('t, 'm) backend_op \<Rightarrow> 'm file_backend \<times> fs \<Rightarrow> ('m file_backend \<times> fs) option" where
  "run_backend_op lib pm (BAppend x hashes) (b, f) = map_option (\<lambda>b. (b, f)) (unwrap (fb_append lib pm b x hashes))"
| "run_backend_op lib pm (BRemove pos0) (b, f) = map_option (\<lambda>b. (b, f)) (unwrap (fb_remove lib b pos0))"
| "run_backend_op lib pm (BRewind position rm) (b, f) = map_option (\<lambda>b. (b, f)) (unwrap (fb_rewind lib b position rm))"
| "run_backend_op lib pm BSync (b, f) = unwrap (Some (fb_sync lib f b))"
| "run_backend_op lib pm BDiscard (b, f) = map_option (\<lambda>b. (b, f)) (fb_discard lib f b)"
| "run_backend_op lib pm (BCompact cutoff rm des) (b, f) =
     map_option snd (unwrap (fb_check_compact lib pm f b cutoff rm (Inr des)))"

fun run_backend_ops ::
    "'m croaring \<Rightarrow> ('t, 'e) pmmrable \<Rightarrow> ('t, 'm) backend_op list \<Rightarrow> 'm file_backend \<times> fs \<Rightarrow> ('m file_backend \<times> fs) option" where
  "run_backend_ops lib pm [] s = Some s"
| "run_backend_ops lib pm (op # ops) s = Option.bind (run_backend_op lib pm op s) (run_backend_ops lib pm ops)"

section \<open>Invariant\<close>

definition view_ok :: "nat set \<Rightarrow> 'e range_view \<Rightarrow> bool" where
  "view_ok S v \<longleftrightarrow>
     length (rv_hashes v) = insertion_to_pmmr_index (length (rv_data v)) \<and> length (rv_hashes v) \<le> 2 ^ 30 \<and>
     (\<forall>x\<in>S. x \<le> length (rv_hashes v)) \<and>
     (\<forall>x\<in>rv_unspent v. 0 < x \<and> x \<le> length (rv_hashes v) \<and> is_leaf (x - 1) \<and> x - 1 \<notin> pruned S)"

text \<open>A file that has the list \<open>saved\<close> on disk and stands at the list \<open>now\<close>.\<close>

definition file_at :: "'a file_rep \<Rightarrow> fs \<Rightarrow> append_only_file \<Rightarrow> bool \<Rightarrow> 'a list \<Rightarrow> 'a list \<Rightarrow> bool" where
  "file_at rep f a clean saved now \<longleftrightarrow>
     (\<exists>k pend. rep f a saved k pend \<and> take k saved @ pend = now \<and> (clean \<longrightarrow> k = length saved \<and> pend = [] \<and> synced a))"

definition backend_inv :: "'m croaring \<Rightarrow> ('m \<Rightarrow> nat set) \<Rightarrow> hash file_rep \<Rightarrow> 'e file_rep \<Rightarrow> fs \<Rightarrow> 'm file_backend \<Rightarrow> 'e backend_spec \<Rightarrow> bool" where
  "backend_inv lib els hrep drep f b s \<longleftrightarrow>
     (let S = roots_of els b; now = bs_now s; saved = bs_saved s
      in file_at hrep f (fb_hash_file b) (bs_clean s) (kept_hashes S (rv_hashes saved)) (kept_hashes S (rv_hashes now)) \<and>
         file_at drep f (fb_data_file b) (bs_clean s) (kept_data S (rv_data saved)) (kept_data S (rv_data now)) \<and>
         view_ok S now \<and> view_ok S saved \<and> fb_prunable b \<and> named_paths b \<and> prune_list_ok els (fb_prune_list b) \<and>
         (bs_clean s \<longrightarrow> rv_hashes now = rv_hashes saved \<and> rv_data now = rv_data saved) \<and>
         unspent_of els b = rv_unspent now \<and> els (ls_bitmap_bak (fb_leaf_set b)) = rv_unspent saved \<and>
         pruned S = prune_closure ((\<lambda>x. x - 1) ` bs_pruned s) \<and> (\<forall>x\<in>bs_pruned s. 0 < x \<and> is_leaf (x - 1)) \<and>
         (\<exists>bm. read_or_new lib f (join_path (fb_data_dir b) pmmr_prun_file) = Inr bm \<and> els bm = S))"

text \<open>The roots of a prune list are determined by what they prune.\<close>

lemma roots_unique:
  assumes "no_nesting S" and "no_nesting T" and "pruned S = pruned T"
  shows "S = T"
proof -
  have "x \<in> T" if ST: "no_nesting S" "no_nesting T" "pruned S = pruned T" and x: "x \<in> S" for S T x
  proof -
    have "x - 1 \<in> pruned T" using root_pruned [OF x] ST(3) by simp
    then obtain y where y: "y \<in> T" "in_subtree (x - 1) (y - 1)" by (auto simp: pruned_def)
    have "y - 1 \<in> pruned S" using root_pruned [OF y(1)] ST(3) by simp
    then obtain z where z: "z \<in> S" "in_subtree (y - 1) (z - 1)" by (auto simp: pruned_def)
    have "x = z" using no_nestingD [OF ST(1) x z(1)] in_subtree_trans [OF y(2) z(2)] by simp
    then have "x - 1 = y - 1" using in_subtree_antisym [OF y(2)] z(2) by simp
    then show ?thesis using no_nesting_pos [OF ST(1) x] no_nesting_pos [OF ST(2) y(1)] y(1) by (metis Suc_pred' diff_Suc_1)
  qed
  from this [OF assms] this [OF assms(2,1) assms(3) [symmetric]] show ?thesis by blast
qed

text \<open>The invariant is what the reads and compaction are proved from.\<close>

lemma invD:
  assumes "backend_inv lib els hrep drep f b s"
  shows "file_at hrep f (fb_hash_file b) (bs_clean s) (kept_hashes (roots_of els b) (rv_hashes (bs_saved s)))
      (kept_hashes (roots_of els b) (rv_hashes (bs_now s)))"
    and "file_at drep f (fb_data_file b) (bs_clean s) (kept_data (roots_of els b) (rv_data (bs_saved s)))
      (kept_data (roots_of els b) (rv_data (bs_now s)))"
    and "view_ok (roots_of els b) (bs_now s)" and "view_ok (roots_of els b) (bs_saved s)"
    and "fb_prunable b" and "named_paths b" and "prune_list_ok els (fb_prune_list b)"
    and "bs_clean s \<Longrightarrow> rv_hashes (bs_now s) = rv_hashes (bs_saved s)" and "bs_clean s \<Longrightarrow> rv_data (bs_now s) = rv_data (bs_saved s)"
    and "unspent_of els b = rv_unspent (bs_now s)" and "els (ls_bitmap_bak (fb_leaf_set b)) = rv_unspent (bs_saved s)"
    and "pruned (roots_of els b) = prune_closure ((\<lambda>x. x - 1) ` bs_pruned s)" and "\<And>x. x \<in> bs_pruned s \<Longrightarrow> 0 < x \<and> is_leaf (x - 1)"
    and "\<exists>bm. read_or_new lib f (join_path (fb_data_dir b) pmmr_prun_file) = Inr bm \<and> els bm = roots_of els b"
  using assms unfolding backend_inv_def Let_def by (elim conjE; blast)+

lemma view_okD:
  assumes "view_ok S v"
  shows "length (rv_hashes v) = insertion_to_pmmr_index (length (rv_data v))" and "length (rv_hashes v) \<le> 2 ^ 30"
    and "\<And>x. x \<in> S \<Longrightarrow> x \<le> length (rv_hashes v)"
    and "\<And>x. x \<in> rv_unspent v \<Longrightarrow> 0 < x \<and> x \<le> length (rv_hashes v) \<and> is_leaf (x - 1) \<and> x - 1 \<notin> pruned S"
  using assms unfolding view_ok_def by blast+

lemma inv_sets_ok:
  assumes "backend_inv lib els hrep drep f b s"
  shows "sets_ok els b (length (rv_hashes (bs_now s)))"
  using view_okD(2-4) [OF invD(3) [OF assms]] invD(7) [OF assms] unfolding sets_ok_def invD(10) [OF assms] by blast

lemma inv_rep:
  assumes "backend_inv lib els hrep drep f b s"
  shows "fb_rep els hrep drep f b (rv_hashes (bs_now s)) (rv_data (bs_now s))"
  using invD(1,2) [OF assms] view_okD(1) [OF invD(3) [OF assms]] inv_sets_ok [OF assms] unfolding fb_rep_def file_at_def by blast

lemma clean_file:
  assumes "file_at rep f a clean saved now" and clean
  shows "saved = now" and "rep f a now (length now) []" and "synced a"
  using assms by (auto simp: file_at_def)

lemma inv_settled:
  assumes "backend_inv lib els hrep drep f b s" and "bs_clean s"
  shows "fb_settled els hrep drep f b (rv_hashes (bs_now s)) (rv_data (bs_now s))"
  using clean_file(2,3) [OF invD(1) [OF assms(1)] assms(2)] clean_file(2,3) [OF invD(2) [OF assms(1)] assms(2)]
    invD(6) [OF assms(1)] view_okD(1) [OF invD(3) [OF assms(1)]] inv_sets_ok [OF assms(1)]
  unfolding fb_settled_def by blast

lemma settled_inv:
  assumes "fb_settled els hrep drep f b (rv_hashes v) (rv_data v)" and "fb_prunable b" and "unspent_of els b = rv_unspent v"
    and "els (ls_bitmap_bak (fb_leaf_set b)) = rv_unspent v" and "pruned (roots_of els b) = prune_closure ((\<lambda>x. x - 1) ` P)"
    and "\<forall>x\<in>P. 0 < x \<and> is_leaf (x - 1)"
    and "\<exists>bm. read_or_new lib f (join_path (fb_data_dir b) pmmr_prun_file) = Inr bm \<and> els bm = roots_of els b"
  shows "backend_inv lib els hrep drep f b \<lparr> bs_now = v, bs_saved = v, bs_pruned = P, bs_clean = True \<rparr>"
proof -
  have st: "hrep f (fb_hash_file b) (kept_hashes (roots_of els b) (rv_hashes v)) (length (kept_hashes (roots_of els b) (rv_hashes v))) []"
      "drep f (fb_data_file b) (kept_data (roots_of els b) (rv_data v)) (length (kept_data (roots_of els b) (rv_data v))) []"
      "synced (fb_hash_file b)" "synced (fb_data_file b)" "named_paths b"
      "length (rv_hashes v) = insertion_to_pmmr_index (length (rv_data v))" "sets_ok els b (length (rv_hashes v))"
    using assms(1) unfolding fb_settled_def by blast+
  have fa: "file_at rep f a True xs xs" if "rep f a xs (length xs) []" "synced a" for rep a and xs :: "'x list"
    unfolding file_at_def by (intro exI [of _ "length xs"] exI [of _ "[]"]) (simp add: that)
  have "view_ok (roots_of els b) v"
    using sets_okD(4-6) [OF st(7)] st(6) unfolding view_ok_def assms(3) by blast
  then show ?thesis
    using fa [of hrep, OF st(1,3)] fa [of drep, OF st(2,4)] st(5) sets_okD(1) [OF st(7)] assms(2-7)
    unfolding backend_inv_def Let_def by simp
qed

section \<open>Appending\<close>

lemma kept_hashes_append:
  assumes "no_nesting S" and "\<forall>x\<in>S. x \<le> length hs"
  shows "kept_hashes S (hs @ new) = kept_hashes S hs @ new"
proof -
  have "j + length hs \<notin> compacted S" for j using compacted_less [OF assms] by fastforce
  then show ?thesis by (simp add: kept_hashes_def nths_append nths_all)
qed

lemma kept_data_append:
  assumes "no_nesting S" and "\<forall>x\<in>S. x \<le> insertion_to_pmmr_index (length ds)"
  shows "kept_data S (ds @ [d]) = kept_data S ds @ [d]"
  using compacted_less [OF assms, of "insertion_to_pmmr_index (length ds)"] by (auto simp: kept_data_def kept_leaves_def nths_append)

text \<open>The totals are the shifts at the last root, which has every removed position in front of it.\<close>

lemma total_point:
  assumes "croaring_ok lib els" and "prune_list_ok els pl" and "S = els (pl_bitmap pl)"
  obtains m where "get_total_shift lib pl = get_shift lib pl m" and "get_total_leaf_shift lib pl = get_leaf_shift lib pl m"
    and "m \<notin> compacted S" and "\<forall>p\<in>compacted S. p < m" and "Suc m < 2 ^ 32"
proof -
  define m where "m = (case rb_maximum lib (pl_bitmap pl) of None \<Rightarrow> 1 | Some m \<Rightarrow> m) - 1"
  have nn: "no_nesting S" and fin: "finite S" and lt: "\<forall>x\<in>S. x < 2 ^ 31"
    using assms(2) by (auto simp: prune_list_ok_def rolled_up_def assms(3) croaring_okD(11) [OF assms(1)])
  have m: "m \<notin> compacted S \<and> (\<forall>p\<in>compacted S. p < m) \<and> Suc m < 2 ^ 32"
  proof (cases "S = {}")
    case True
    then show ?thesis by (simp add: m_def croaring_okD(15) [OF assms(1)] assms(3) compacted_def pruned_def)
  next
    case False
    then have mx: "m = Max S - 1" "Max S \<in> S" "\<And>x. x \<in> S \<Longrightarrow> x \<le> Max S"
      using fin by (auto simp: m_def croaring_okD(15) [OF assms(1)] assms(3))
    have pos: "0 < Max S" by (rule no_nesting_pos [OF nn mx(2)])
    have "p < m" if p: "p \<in> compacted S" for p
    proof -
      have "p < Max S" using compacted_less [OF nn _ p, of "Max S"] mx(3) by blast
      moreover have "Suc p \<noteq> Max S" using p mx(2) by (auto simp: compacted_def)
      ultimately show ?thesis by (simp add: mx(1))
    qed
    moreover have "m \<notin> compacted S" using mx(1,2) pos by (simp add: compacted_def)
    ultimately show ?thesis using lt mx(2) pos by (auto simp: mx(1))
  qed
  show thesis
    by (rule that [of m]) (use m in \<open>simp_all add: get_total_shift_def get_total_leaf_shift_def m_def\<close>)
qed

lemma total_shifts:
  assumes "croaring_ok lib els" and "prune_list_ok els pl" and "\<forall>x\<in>els (pl_bitmap pl). x \<le> insertion_to_pmmr_index n"
    and S: "S = els (pl_bitmap pl)"
  shows "\<exists>t. get_total_leaf_shift lib pl = Some t \<and> rank_in (kept_leaves S) n + t = n"
    and "\<exists>t. get_total_shift lib pl = Some t \<and> rank_in (- compacted S) (insertion_to_pmmr_index n) + t = insertion_to_pmmr_index n"
proof -
  have nn: "no_nesting S" and fin: "finite S"
    using assms(2) by (auto simp: prune_list_ok_def rolled_up_def S croaring_okD(11) [OF assms(1)])
  obtain m where m: "get_total_shift lib pl = get_shift lib pl m" "get_total_leaf_shift lib pl = get_leaf_shift lib pl m"
      "m \<notin> compacted S" "\<forall>p\<in>compacted S. p < m" "Suc m < 2 ^ 32"
    by (rule total_point [OF assms(1,2) S])
  note counts = shifts_count [OF assms(1,2) m(5), folded S, OF m(3)]
  have less: "p < insertion_to_pmmr_index n" if "p \<in> compacted S" for p
    using compacted_less [OF nn _ that] assms(3) unfolding S by blast
  let ?L = "{j. insertion_to_pmmr_index j \<in> compacted S}"
  have part: "rank_in (- C) k + card C = k" if "finite C" "C \<subseteq> {..<k}" for C and k :: nat
  proof -
    have "{q \<in> C. q < k} = C" "card C \<le> k" using that card_mono [of "{..<k}" C] by auto
    then show ?thesis using rank_in_complement [OF that(1), of k] by simp
  qed
  have "{p \<in> compacted S. p < m \<and> is_leaf p} = insertion_to_pmmr_index ` ?L" using m(4) by (auto elim!: is_leafE)
  then have "get_total_leaf_shift lib pl = Some (card ?L)" using counts(2) m(2) by (simp add: card_image inj_on_def)
  moreover have "?L \<subseteq> {..<n}"
  proof
    fix j assume "j \<in> ?L"
    then show "j \<in> {..<n}" using less [of "insertion_to_pmmr_index j"] by simp
  qed
  ultimately show "\<exists>t. get_total_leaf_shift lib pl = Some t \<and> rank_in (kept_leaves S) n + t = n"
    using part [OF finite_compacted_leaves [OF nn fin]] by (simp add: kept_leaves_complement)
  have "{p \<in> compacted S. p < m} = compacted S" using m(4) by blast
  then have "get_total_shift lib pl = Some (card (compacted S))" using counts(1) m(1) by simp
  moreover have "compacted S \<subseteq> {..<insertion_to_pmmr_index n}" using less by blast
  ultimately show "\<exists>t. get_total_shift lib pl = Some t \<and> rank_in (- compacted S) (insertion_to_pmmr_index n) + t = insertion_to_pmmr_index n"
    using part [OF finite_compacted [OF nn fin]] by simp
qed

context element_file
begin

lemma append_elmts_ok:
  "rep f a disk k pend \<Longrightarrow> (\<And>x cur. x \<in> set xs \<Longrightarrow> ok cur x) \<Longrightarrow>
   \<exists>a'. append_elmts wr a xs = Inr a' \<and> rep f a' disk k (pend @ xs) \<and> paths a' = paths a"
proof (induction xs arbitrary: a pend)
  case (Cons x xs)
  obtain a1 where a1: "append_elmt wr a x = Inr a1" "rep f a1 disk k (pend @ [x])" "paths a1 = paths a"
    using rep_append [OF Cons.prems(1), of x] Cons.prems(2) by auto
  from Cons.IH [OF a1(2)] Cons.prems(2) show ?case by (auto simp: append_elmts_def a1)
qed (simp add: append_elmts_def)

lemma file_at_append:
  assumes "file_at rep f a c disk now" and "\<And>x cur. x \<in> set xs \<Longrightarrow> ok cur x"
  shows "\<exists>a'. append_elmts wr a xs = Inr a' \<and> file_at rep f a' False disk (now @ xs) \<and> paths a' = paths a"
proof -
  obtain k pend where r: "rep f a disk k pend" "take k disk @ pend = now" using assms(1) by (auto simp: file_at_def)
  obtain a' where a': "append_elmts wr a xs = Inr a'" "rep f a' disk k (pend @ xs)" "paths a' = paths a"
    using append_elmts_ok [OF r(1) assms(2)] by blast
  have "file_at rep f a' False disk (now @ xs)"
    unfolding file_at_def by (intro exI [of _ k] exI [of _ "pend @ xs"]) (simp add: a' r(2) [symmetric])
  then show ?thesis using a' by blast
qed

lemma file_at_append1:
  assumes "file_at rep f a c disk now" and "ok now x"
  shows "\<exists>a'. data_append wr a x = Inr (Suc (length now), a') \<and> file_at rep f a' False disk (now @ [x]) \<and> paths a' = paths a"
proof -
  obtain k pend where r: "rep f a disk k pend" "take k disk @ pend = now" using assms(1) by (auto simp: file_at_def)
  obtain a' where a': "append_elmt wr a x = Inr a'" "rep f a' disk k (pend @ [x])" "paths a' = paths a"
    using rep_append [OF r(1)] assms(2) r(2) by blast
  have "size_unsync_in_elmts a' = Inr (Suc (length now))" using rep_unsync [OF a'(2)] by (simp add: r(2) [symmetric])
  moreover have "file_at rep f a' False disk (now @ [x])"
    unfolding file_at_def by (intro exI [of _ k] exI [of _ "pend @ [x]"]) (simp add: a' r(2) [symmetric])
  ultimately show ?thesis using a' by (simp add: data_append_def)
qed

end

section \<open>Rewinding\<close>

lemma nths_take_rank: "nths (take n xs) I = take (rank_in I n) (nths xs I)"
proof (cases "n \<le> length xs")
  case True
  have "nths xs I = nths (take n xs) I @ nths (drop n xs) {j. j + n \<in> I}"
    using nths_append [of "take n xs" "drop n xs" I] True by simp
  moreover have "length (nths (take n xs) I) = rank_in I n" using True by (simp add: length_nths_rank)
  ultimately show ?thesis by simp
next
  case False
  then show ?thesis using rank_in_mono [of "length xs" n I] by (simp add: length_nths_rank)
qed

lemma rewind_shifts:
  assumes "croaring_ok lib els" and "prune_list_ok els pl" and "\<forall>x\<in>els (pl_bitmap pl). x \<le> insertion_to_pmmr_index n"
    and "Suc (insertion_to_pmmr_index n) < 2 ^ 32" and "S = els (pl_bitmap pl)" and "position = insertion_to_pmmr_index n"
  shows "\<exists>t. (if position = 0 then Some 0 else get_shift lib pl (position - 1)) = Some t \<and> position - t = rank_in (- compacted S) position"
    and "\<exists>t. (if position = 0 then Some 0 else get_leaf_shift lib pl position) = Some t \<and> n - t = rank_in (kept_leaves S) n"
proof -
  have nn: "no_nesting S" and fin: "finite S"
    using assms(2) by (auto simp: prune_list_ok_def rolled_up_def assms(5) croaring_okD(11) [OF assms(1)])
  have less: "p < position" if "p \<in> pruned S" for p using pruned_less [OF nn _ that] assms(3,5,6) by blast
  show "\<exists>t. (if position = 0 then Some 0 else get_shift lib pl (position - 1)) = Some t \<and> position - t = rank_in (- compacted S) position"
  proof (cases "position = 0")
    case False
    have last: "position - 1 \<notin> compacted S"
    proof
      assume "position - 1 \<in> compacted S"
      then have "fst (family (position - 1)) \<in> pruned S" by (simp add: compacted_parent [OF nn])
      then show False using less parent_gt [of "position - 1"] by fastforce
    qed
    then obtain t where "get_shift lib pl (position - 1) = Some t" "t \<le> position - 1"
        "position - 1 - t = rank_in (- compacted S) (position - 1)"
      using file_shifts(1) [OF assms(1,2,5)] assms(4,6) by fastforce
    moreover have "rank_in (- compacted S) position = Suc (rank_in (- compacted S) (position - 1))"
      using rank_in_Suc [of "- compacted S" "position - 1"] last False by simp
    ultimately show ?thesis using False by auto
  qed (simp add: rank_in_def)
  show "\<exists>t. (if position = 0 then Some 0 else get_leaf_shift lib pl position) = Some t \<and> n - t = rank_in (kept_leaves S) n"
  proof (cases "position = 0")
    case True
    then have "n = 0" using insertion_ge [of n] by (simp add: assms(6))
    then show ?thesis by (simp add: True rank_in_def)
  next
    case False
    have nc: "position \<notin> compacted S" using less by (auto simp: compacted_def)
    let ?L = "{j. insertion_to_pmmr_index j \<in> compacted S}"
    have "{p \<in> compacted S. p < position \<and> is_leaf p} = insertion_to_pmmr_index ` {j \<in> ?L. j < n}"
      by (auto simp: assms(6) elim!: is_leafE)
    then have "get_leaf_shift lib pl position = Some (card {j \<in> ?L. j < n})"
      using shifts_count(2) [OF assms(1,2), of position] nc assms(4) by (simp add: assms(5,6) card_image inj_on_def)
    then show ?thesis
      using False rank_in_complement [OF finite_compacted_leaves [OF nn fin], of n] by (simp add: kept_leaves_complement)
  qed
qed

context element_file
begin

lemma file_at_rewind:
  assumes "file_at rep f a c disk now" and c and "pos \<le> length now"
  shows "file_at rep f (aof_rewind a pos) False disk (take pos now)"
proof -
  have r: "rep f a disk (length disk) []" "disk = now" using clean_file [OF assms(1,2)] by simp_all
  then have "rep f (aof_rewind a pos) disk pos []" using rep_rewind [OF r(1), of pos] assms(3) by simp
  then show ?thesis unfolding file_at_def r(2) by (intro exI [of _ pos] exI [of _ "[]"]) simp
qed

end

section \<open>The end of a unit of work\<close>

context element_file
begin

lemma file_at_frame: "file_at rep f a c disk now \<Longrightarrow> (\<forall>q\<in>set (paths a). f' q = f q) \<Longrightarrow> file_at rep f' a c disk now"
  using rep_frame unfolding file_at_def by blast

lemma file_at_flush:
  assumes "file_at rep f a c disk now"
  shows "\<exists>a' f'. aof_flush f a = Inr (a', f') \<and> rep f' a' now (length now) [] \<and> synced a' \<and> paths a' = paths a \<and>
    (\<forall>q. q \<notin> set (paths a) \<longrightarrow> f' q = f q)"
proof -
  obtain k pend where r: "rep f a disk k pend" "take k disk @ pend = now" using assms by (auto simp: file_at_def)
  show ?thesis using rep_flush [OF r(1)] unfolding r(2) by blast
qed

lemma synced_discard: "synced (aof_discard a)"
  by (induction a rule: aof_discard.induct) (auto split: size_info.split)

lemma file_at_discard:
  assumes "file_at rep f a c disk now"
  shows "rep f (aof_discard a) disk (length disk) []"
  using assms rep_discard unfolding file_at_def by blast

end

text \<open>The hash file takes every hash of 32 bytes.\<close>

locale backend_ops_files = backend_files +
  assumes hok: "\<And>cur h. length h = 32 \<Longrightarrow> hok cur h"
begin

lemma append_step:
  assumes lib: "croaring_ok lib els" and inv: "backend_inv lib els hrep drep f b s" and ok: "op_ok els (pm_as_elmt pm) dok (BAppend x hashes) s"
  shows "\<exists>b'. fb_append lib pm b x hashes = Some (Inr b') \<and> backend_inv lib els hrep drep f b' (spec_op els (pm_as_elmt pm) (BAppend x hashes) s)"
proof -
  define S where "S = roots_of els b"
  define hs where "hs = rv_hashes (bs_now s)"
  define ds where "ds = rv_data (bs_now s)"
  let ?d = "pm_as_elmt pm x" and ?n = "length ds"
  note inv = invD [OF inv]
  note v = view_okD [OF inv(3)] and w = view_okD [OF inv(4)]
  have op: "length (hs @ hashes) = insertion_to_pmmr_index (Suc ?n)" "length (hs @ hashes) \<le> 2 ^ 30" "\<And>h. h \<in> set hashes \<Longrightarrow> length h = 32"
      "\<And>I. dok (nths ds I) ?d"
    using ok by (auto simp: hs_def ds_def)
  have nn: "no_nesting S" using inv(7) by (simp add: prune_list_ok_def rolled_up_def S_def)
  have len: "length hs = insertion_to_pmmr_index ?n" using v(1) by (simp add: hs_def ds_def)
  have Sn: "\<forall>x\<in>S. x \<le> length hs" using v(3) by (auto simp: S_def hs_def)
  have kh: "kept_hashes S (hs @ hashes) = kept_hashes S hs @ hashes" by (rule kept_hashes_append [OF nn Sn])
  have kd: "kept_data S (ds @ [?d]) = kept_data S ds @ [?d]" using kept_data_append [OF nn, of ds] Sn len by simp
  obtain da where da: "data_append wr (fb_data_file b) ?d = Inr (Suc (length (kept_data S ds)), da)"
      "file_at drep f da False (kept_data S (rv_data (bs_saved s))) (kept_data S (ds @ [?d]))" "paths da = paths (fb_data_file b)"
    using df.file_at_append1 [OF inv(2), of ?d] op(4) [of "kept_leaves S"] unfolding kd by (auto simp: S_def ds_def kept_data_def)
  obtain ha where ha: "append_elmts hash_write (fb_hash_file b) hashes = Inr ha"
      "file_at hrep f ha False (kept_hashes S (rv_hashes (bs_saved s))) (kept_hashes S (hs @ hashes))" "paths ha = paths (fb_hash_file b)"
    using hf.file_at_append [OF inv(1), of hashes] hok op(3) unfolding kh by (auto simp: S_def hs_def)
  obtain t where t: "get_total_leaf_shift lib (fb_prune_list b) = Some t" "rank_in (kept_leaves S) ?n + t = ?n"
    using total_shifts(1) [OF lib inv(7) _ refl, of ?n] Sn len by (auto simp: S_def)
  define b' where "b' = b \<lparr> fb_data_file := da, fb_hash_file := ha, fb_leaf_set := leaf_set_add lib (fb_leaf_set b) (length hs) \<rparr>"
  have "Suc (length (kept_data S ds)) + t - 1 = ?n" using t(2) by (simp add: kept_data_def length_nths_rank)
  then have run: "fb_append lib pm b x hashes = Some (Inr b')"
    using inv(5) by (simp add: fb_append_def pm da(1) data_extend_from_slice_def ha(1) t(1) b'_def len Let_def)
  have small: "Suc (length hs) < 2 ^ 32" using op(2) by simp
  have roots: "roots_of els b' = S" by (simp add: b'_def S_def)
  have un: "unspent_of els b' = insert (Suc (length hs)) (rv_unspent (bs_now s))"
    using small by (simp add: b'_def leaf_set_add_def croaring_okD(3) [OF lib] inv(10))
  have lh: "Suc (length hs) \<le> length (hs @ hashes)"
  proof -
    have "insertion_to_pmmr_index ?n < insertion_to_pmmr_index (Suc ?n)" by (simp only: insertion_less_iff lessI)
    then show ?thesis unfolding op(1) len by (rule Suc_leI)
  qed
  have vw: "view_ok S \<lparr> rv_hashes = hs @ hashes, rv_data = ds @ [?d], rv_unspent = insert (Suc (length hs)) (rv_unspent (bs_now s)) \<rparr>"
  proof -
    have "length hs \<notin> pruned S" using pruned_less [OF nn Sn] by blast
    moreover have "is_leaf (length hs)" by (simp add: len)
    ultimately show ?thesis
      using op(1,2) lh Sn v(4) by (fastforce simp: view_ok_def S_def hs_def)
  qed
  have "backend_inv lib els hrep drep f b' (spec_op els (pm_as_elmt pm) (BAppend x hashes) s)"
    unfolding backend_inv_def Let_def roots un
    using da(2) ha(2) vw inv(4-7,11-14) da(3) ha(3)
    by (auto simp: b'_def S_def hs_def ds_def named_paths_def Let_def leaf_set_add_def)
  then show ?thesis using run by blast
qed

lemma remove_step:
  assumes lib: "croaring_ok lib els" and inv: "backend_inv lib els hrep drep f b s" and ok: "op_ok els elmt dok (BRemove pos0) s"
  shows "\<exists>b'. fb_remove lib b pos0 = Some (Inr b') \<and> backend_inv lib els hrep drep f b' (spec_op els elmt (BRemove pos0) s)"
proof -
  note inv = invD [OF inv]
  define b' where "b' = b \<lparr> fb_leaf_set := leaf_set_remove lib (fb_leaf_set b) pos0 \<rparr>"
  have "Suc pos0 < 2 ^ 32" using ok by simp
  then have un: "unspent_of els b' = rv_unspent (bs_now s) - {Suc pos0}"
    by (simp add: b'_def leaf_set_remove_def croaring_okD(4) [OF lib] inv(10))
  have roots: "roots_of els b' = roots_of els b" by (simp add: b'_def)
  have "view_ok (roots_of els b) ((bs_now s) \<lparr> rv_unspent := rv_unspent (bs_now s) - {Suc pos0} \<rparr>)"
    using inv(3) by (auto simp: view_ok_def)
  then have "backend_inv lib els hrep drep f b' (spec_op els elmt (BRemove pos0) s)"
    unfolding backend_inv_def Let_def roots un using inv(1,2,4-9,11-14)
    by (auto simp: b'_def named_paths_def Let_def leaf_set_remove_def)
  then show ?thesis using inv(5) by (simp add: fb_remove_def b'_def)
qed

lemma rewind_step:
  assumes lib: "croaring_ok lib els" and inv: "backend_inv lib els hrep drep f b s" and ok: "op_ok els elmt dok (BRewind position rm) s"
  shows "\<exists>b'. fb_rewind lib b position rm = Some (Inr b') \<and> backend_inv lib els hrep drep f b' (spec_op els elmt (BRewind position rm) s)"
proof -
  define S where "S = roots_of els b"
  define hs where "hs = rv_hashes (bs_now s)"
  define ds where "ds = rv_data (bs_now s)"
  note inv = invD [OF inv]
  note v = view_okD [OF inv(3)]
  obtain n where n: "n \<le> length ds" "position = insertion_to_pmmr_index n" and clean: "bs_clean s"
      and rm: "\<forall>x\<in>els rm. 0 < x \<and> x \<le> position \<and> is_leaf (x - 1) \<and> x \<notin> bs_pruned s" and P: "\<forall>x\<in>bs_pruned s. x \<le> position"
    using ok by (auto simp: ds_def)
  have len: "length hs = insertion_to_pmmr_index (length ds)" using v(1) by (simp add: hs_def ds_def)
  have pos: "position \<le> length hs" "position \<le> 2 ^ 30" using n v(2) by (simp_all add: len hs_def [symmetric] order_trans [OF insertion_mono])
  have pr: "p < position" if "p \<in> pruned S" for p
  proof -
    have "\<forall>p\<in>(\<lambda>x. x - 1) ` bs_pruned s. p < insertion_to_pmmr_index n" using P inv(13) by (fastforce simp: n(2))
    then show ?thesis using closure_below [of p] that inv(12) by (simp add: S_def n(2))
  qed
  have Sn: "\<forall>x\<in>S. x \<le> position" using pr root_pruned by fastforce
  obtain t where t: "(if position = 0 then Some 0 else get_shift lib (fb_prune_list b) (position - 1)) = Some t"
      "position - t = rank_in (- compacted S) position"
    using rewind_shifts(1) [OF lib inv(7), of n S position] Sn pos n(2) by (auto simp: S_def)
  obtain u where u: "(if position = 0 then Some 0 else get_leaf_shift lib (fb_prune_list b) position) = Some u"
      "n - u = rank_in (kept_leaves S) n"
    using rewind_shifts(2) [OF lib inv(7), of n S position] Sn pos n(2) by (auto simp: S_def)
  have nl: "n_leaves position = n" by (simp add: n(2))
  define b' where "b' = b \<lparr> fb_leaf_set := leaf_set_rewind lib (fb_leaf_set b) position rm, fb_hash_file := aof_rewind (fb_hash_file b) (position - t),
      fb_data_file := aof_rewind (fb_data_file b) (n - u) \<rparr>"
  have "fb_rewind lib b position rm = Some (Inr b')"
    using inv(5) t(1) u(1) nl by (cases "position = 0") (simp_all add: fb_rewind_def b'_def Let_def)
  moreover have "file_at hrep f (fb_hash_file b') False (kept_hashes S (rv_hashes (bs_saved s))) (kept_hashes S (take position hs))"
    using hf.file_at_rewind [OF inv(1) clean, of "position - t"] rank_in_mono [OF pos(1), of "- compacted S"]
    by (simp add: b'_def S_def hs_def t(2) kept_hashes_def nths_take_rank length_nths_rank)
  moreover have "file_at drep f (fb_data_file b') False (kept_data S (rv_data (bs_saved s))) (kept_data S (take n ds))"
    using df.file_at_rewind [OF inv(2) clean, of "n - u"] rank_in_mono [OF n(1), of "kept_leaves S"]
    by (simp add: b'_def S_def ds_def u(2) kept_data_def nths_take_rank length_nths_rank)
  moreover have roots: "roots_of els b' = S" by (simp add: b'_def S_def)
  moreover have un: "unspent_of els b' = {x \<in> rv_unspent (bs_now s). x \<le> position} \<union> els rm"
    using leaf_set_rewind_els [OF lib, of position] pos(2) by (simp add: b'_def inv(10))
  moreover have "view_ok S \<lparr> rv_hashes = take position hs, rv_data = take n ds, rv_unspent = {x \<in> rv_unspent (bs_now s). x \<le> position} \<union> els rm \<rparr>"
  proof -
    have "x - 1 \<notin> pruned S" if x: "x \<in> els rm" for x
    proof
      assume "x - 1 \<in> pruned S"
      then have "x - 1 \<in> (\<lambda>x. x - 1) ` bs_pruned s" using prune_closure_leaf rm x inv(12) by (auto simp: S_def)
      then obtain y where y: "y \<in> bs_pruned s" "x - 1 = y - 1" by auto
      then have "x = y" using rm x inv(13) [OF y(1)] by (metis Suc_pred')
      then show False using rm x y(1) by blast
    qed
    then show ?thesis
      using Sn v(4) rm pos n by (auto simp: view_ok_def S_def min_def)
  qed
  ultimately have "backend_inv lib els hrep drep f b' (spec_op els elmt (BRewind position rm) s)"
    unfolding backend_inv_def Let_def roots un using inv(4-7,11-14)
    by (auto simp: b'_def S_def hs_def ds_def named_paths_def Let_def leaf_set_rewind_def nl)
  then show ?thesis using \<open>fb_rewind lib b position rm = Some (Inr b')\<close> by blast
qed

lemma sync_step:
  assumes lib: "croaring_ok lib els" and inv: "backend_inv lib els hrep drep f b s"
  shows "\<exists>b' f'. fb_sync lib f b = Inr (b', f') \<and> backend_inv lib els hrep drep f' b' (spec_op els elmt BSync s)"
proof -
  define S where "S = roots_of els b"
  note sok = inv_sets_ok [OF inv] and inv = invD [OF inv]
  let ?fp = "join_path (fb_data_dir b) pmmr_prun_file" and ?lp = "join_path (fb_data_dir b) pmmr_leaf_file"
  note apart = named_paths_apart [OF inv(6)]
  have lp: "ls_path (fb_leaf_set b) = ?lp" and fp: "pl_path (fb_prune_list b) = Some ?fp" using inv(6) by (simp_all add: named_paths_def Let_def)
  obtain ha f1 where h: "aof_flush f (fb_hash_file b) = Inr (ha, f1)" "synced ha" "paths ha = paths (fb_hash_file b)"
      "hrep f1 ha (kept_hashes S (rv_hashes (bs_now s))) (length (kept_hashes S (rv_hashes (bs_now s)))) []"
      "\<forall>q. q \<notin> set (paths (fb_hash_file b)) \<longrightarrow> f1 q = f q"
    using hf.file_at_flush [OF inv(1)] by (auto simp: S_def)
  have "file_at drep f1 (fb_data_file b) (bs_clean s) (kept_data S (rv_data (bs_saved s))) (kept_data S (rv_data (bs_now s)))"
    using df.file_at_frame [OF inv(2), of f1] h(5) apart(1) by (auto simp: S_def)
  then obtain da f2 where d: "aof_flush f1 (fb_data_file b) = Inr (da, f2)" "synced da" "paths da = paths (fb_data_file b)"
      "drep f2 da (kept_data S (rv_data (bs_now s))) (length (kept_data S (rv_data (bs_now s)))) []"
      "\<forall>q. q \<notin> set (paths (fb_data_file b)) \<longrightarrow> f2 q = f1 q"
    using df.file_at_flush by blast
  obtain ls f3 where ls: "leaf_set_flush lib f2 (fb_leaf_set b) = Inr (ls, f3)" "els (ls_bitmap ls) = unspent_of els b"
      "els (ls_bitmap_bak ls) = unspent_of els b" "ls_path ls = ?lp"
      "\<forall>p. p \<noteq> ?lp \<and> p \<noteq> ?lp @ tmp_suffix \<longrightarrow> f3 p = f2 p"
    using leaf_set_flush_ok [OF lib, of f2 "fb_leaf_set b", unfolded lp] by (elim exE conjE) (rule that; assumption)
  have S30: "\<forall>x\<in>roots_of els b. x \<le> 2 ^ 30" using view_okD(2,3) [OF inv(3)] order_trans by blast
  obtain pl f4 bm where pl: "prune_list_flush lib f3 (fb_prune_list b) = Inr (pl, f4)" "prune_list_ok els pl"
      "els (pl_bitmap pl) = roots_of els b" "read_or_new lib f4 ?fp = Inr bm" "els bm = roots_of els b"
      "\<forall>p. p \<noteq> ?fp \<and> p \<noteq> ?fp @ tmp_suffix \<longrightarrow> f4 p = f3 p"
    using flush_then_reload [OF lib inv(7) fp S30, of f3] by (elim exE conjE) (rule that; assumption)
  define b' where "b' = b \<lparr> fb_hash_file := ha, fb_data_file := da, fb_leaf_set := ls, fb_prune_list := pl \<rparr>"
  have run: "fb_sync lib f b = Inr (b', f4)"
    using inv(5) by (simp add: fb_sync_def h(1) d(1) fb_sync_leaf_set_def ls(1) pl(1) b'_def)
  have frame: "f4 q = f2 q" if q: "q \<in> set (paths (fb_hash_file b) @ paths (fb_data_file b))" for q
    using apart(2) [OF q, of "[]"] apart(2) [OF q, of tmp_suffix] apart(3) [OF q, of "[]"] apart(3) [OF q, of tmp_suffix] ls(5) pl(6)
    by (auto simp: join_path_def)
  have "hrep f4 ha (kept_hashes S (rv_hashes (bs_now s))) (length (kept_hashes S (rv_hashes (bs_now s)))) []"
    by (rule hf.rep_frame [OF h(4)]) (use frame d(5) apart(1) in \<open>auto simp: h(3)\<close>)
  moreover have "drep f4 da (kept_data S (rv_data (bs_now s))) (length (kept_data S (rv_data (bs_now s)))) []"
    by (rule df.rep_frame [OF d(4)]) (use frame in \<open>auto simp: d(3)\<close>)
  moreover have roots: "roots_of els b' = S" by (simp add: b'_def pl(3) S_def)
  moreover have "sets_ok els b' (length (rv_hashes (bs_now s)))"
    using sok pl(2,3) ls(2) by (auto simp: sets_ok_def b'_def)
  moreover have "named_paths b'"
    using inv(6) h(3) d(3) ls(4) flush_keeps_path [OF pl(1)] by (simp add: named_paths_def b'_def Let_def)
  ultimately have st: "fb_settled els hrep drep f4 b' (rv_hashes (bs_now s)) (rv_data (bs_now s))"
    using h(2) d(2) view_okD(1) [OF inv(3)] unfolding fb_settled_def roots by (simp add: b'_def)
  have "backend_inv lib els hrep drep f4 b' \<lparr> bs_now = bs_now s, bs_saved = bs_now s, bs_pruned = bs_pruned s, bs_clean = True \<rparr>"
  proof (rule settled_inv [OF st])
    show "fb_prunable b'" "unspent_of els b' = rv_unspent (bs_now s)" "els (ls_bitmap_bak (fb_leaf_set b')) = rv_unspent (bs_now s)"
      using inv(5,10) ls(2,3) by (simp_all add: b'_def)
    show "pruned (roots_of els b') = prune_closure ((\<lambda>x. x - 1) ` bs_pruned s)" unfolding roots S_def by (rule inv(12))
    show "\<forall>x\<in>bs_pruned s. 0 < x \<and> is_leaf (x - 1)" using inv(13) by blast
    show "\<exists>bm. read_or_new lib f4 (join_path (fb_data_dir b') pmmr_prun_file) = Inr bm \<and> els bm = roots_of els b'"
      using pl(4,5) by (simp add: roots S_def) (simp add: b'_def)
  qed
  then show ?thesis using run by (cases s) simp
qed

lemma discard_step:
  assumes lib: "croaring_ok lib els" and inv: "backend_inv lib els hrep drep f b s"
  shows "\<exists>b'. fb_discard lib f b = Some b' \<and> backend_inv lib els hrep drep f b' (spec_op els elmt BDiscard s)"
proof -
  note w = view_okD [OF invD(4) [OF inv]] and inv = invD [OF inv]
  let ?fp = "join_path (fb_data_dir b) pmmr_prun_file"
  have fp: "pl_path (fb_prune_list b) = Some ?fp" using inv(6) by (simp add: named_paths_def Let_def)
  have nn: "no_nesting (roots_of els b)" "rolled_up (roots_of els b)" using inv(7) by (simp_all add: prune_list_ok_def rolled_up_def)
  obtain bm where bm: "read_or_new lib f ?fp = Inr bm" "els bm = roots_of els b" using inv(14) by blast
  have S30: "\<forall>x\<in>els bm. x \<le> 2 ^ 30" using w(2,3) order_trans unfolding bm(2) by blast
  obtain pl where pl: "prune_list_new lib (Some ?fp) bm = Some pl" "prune_list_ok els pl" "pl_path pl = Some ?fp"
      "pruned (els (pl_bitmap pl)) = prune_closure (pruned (els bm))"
    using prune_list_new_ok [OF lib _ S30, of "Some ?fp"] nn(1) by (auto simp: bm(2))
  have "pruned (els (pl_bitmap pl)) = pruned (roots_of els b)" using pl(4) pruned_rolled_up_fixed [OF nn(2)] by (simp add: bm(2))
  then have S: "els (pl_bitmap pl) = roots_of els b"
    using roots_unique [OF _ nn(1)] pl(2) by (simp add: prune_list_ok_def rolled_up_def)
  define b' where "b' = b \<lparr> fb_hash_file := aof_discard (fb_hash_file b), fb_data_file := aof_discard (fb_data_file b),
      fb_leaf_set := leaf_set_discard (fb_leaf_set b), fb_prune_list := pl \<rparr>"
  have run: "fb_discard lib f b = Some b'"
    by (simp add: fb_discard_def prune_list_discard_def fp bm(1) pl(1) b'_def Let_def)
  have roots: "roots_of els b' = roots_of els b" by (simp add: b'_def S)
  have un: "unspent_of els b' = rv_unspent (bs_saved s)" by (simp add: b'_def leaf_set_discard_def inv(11))
  have "sets_ok els b' (length (rv_hashes (bs_saved s)))"
    using w(2-4) pl(2) unfolding sets_ok_def roots un by (simp add: b'_def)
  moreover have "named_paths b'" using inv(6) pl(3) by (simp add: named_paths_def b'_def leaf_set_discard_def Let_def)
  ultimately have st: "fb_settled els hrep drep f b' (rv_hashes (bs_saved s)) (rv_data (bs_saved s))"
    using hf.file_at_discard [OF inv(1)] df.file_at_discard [OF inv(2)] w(1) hf.synced_discard unfolding fb_settled_def roots
    by (simp add: b'_def)
  have "backend_inv lib els hrep drep f b' \<lparr> bs_now = bs_saved s, bs_saved = bs_saved s, bs_pruned = bs_pruned s, bs_clean = True \<rparr>"
  proof (rule settled_inv [OF st])
    show "fb_prunable b'" "els (ls_bitmap_bak (fb_leaf_set b')) = rv_unspent (bs_saved s)"
      using inv(5,11) by (simp_all add: b'_def leaf_set_discard_def)
    show "pruned (roots_of els b') = prune_closure ((\<lambda>x. x - 1) ` bs_pruned s)" unfolding roots by (rule inv(12))
    show "\<forall>x\<in>bs_pruned s. 0 < x \<and> is_leaf (x - 1)" using inv(13) by blast
    show "\<exists>bm. read_or_new lib f (join_path (fb_data_dir b') pmmr_prun_file) = Inr bm \<and> els bm = roots_of els b'"
      using inv(14) unfolding roots by (simp add: b'_def)
  qed (rule un)
  then show ?thesis using run by (cases s) simp
qed

lemma compact_step:
  assumes lib: "croaring_ok lib els" and inv: "backend_inv lib els hrep drep f b s" and ok: "op_ok els elmt dok (BCompact cutoff rm des) s"
  shows "\<exists>b' f'. fb_check_compact lib pm f b cutoff rm (Inr des) = Some (Inr (True, b', f')) \<and>
    backend_inv lib els hrep drep f' b' (spec_op els elmt (BCompact cutoff rm des) s)"
proof -
  have clean: "bs_clean s" and cut: "cutoff \<le> length (rv_hashes (bs_now s))" using ok by simp_all
  define L where "L = removed_pre_cutoff lib (fb_leaf_set b) cutoff rm (fb_prune_list b)"
  note st = inv_settled [OF inv clean] and inv = invD [OF inv]
  have cut32: "cutoff + 1 < 2 ^ 32" using cut view_okD(2) [OF inv(3)] by simp
  have nn: "no_nesting (roots_of els b)" using inv(7) by (simp add: prune_list_ok_def rolled_up_def)
  obtain b' f' where c: "fb_check_compact lib pm f b cutoff rm (Inr des) = Some (Inr (True, b', f'))"
      "fb_settled els hrep drep f' b' (rv_hashes (bs_now s)) (rv_data (bs_now s))" "fb_prunable b'" "fb_data_dir b' = fb_data_dir b"
      "unspent_of els b' = unspent_of els b" "els (ls_bitmap_bak (fb_leaf_set b')) = unspent_of els b"
      "pruned (roots_of els b') = prune_closure (pruned (roots_of els b \<union> els L))"
      "\<exists>bm. read_or_new lib f' (join_path (fb_data_dir b) pmmr_prun_file) = Inr bm \<and> els bm = roots_of els b'"
    using check_compact_ok [OF lib st inv(5) cut L_def, of des] by blast
  let ?N = "{x. 1 \<le> x \<and> x \<le> cutoff \<and> is_leaf (x - 1) \<and> x \<notin> rv_unspent (bs_now s) \<and> x \<notin> els rm}"
  let ?d = "\<lambda>x :: nat. x - 1"
  have elsL: "els L = {x \<in> ?N. x - 1 \<notin> pruned (roots_of els b)}"
  proof -
    have "leaf_set_includes lib (fb_leaf_set b) (x - 1) \<longleftrightarrow> x \<in> rv_unspent (bs_now s)"
        "is_pruned lib (fb_prune_list b) (x - 1) \<longleftrightarrow> x - 1 \<in> pruned (roots_of els b)" if "1 \<le> x" "x \<le> cutoff" for x
      using leaf_set_includes_iff [OF lib, of "x - 1" "fb_leaf_set b"] is_pruned_iff [OF lib nn, of "x - 1"] that cut32 by (simp_all add: inv(10))
    then show ?thesis unfolding L_def removed_pre_cutoff_els [OF lib cut32] by auto
  qed
  have "pruned (roots_of els b \<union> els L) = pruned (roots_of els b) \<union> ?d ` els L"
  proof -
    have "pruned (els L) = ?d ` els L"
      using in_subtree_leaf in_subtree_refl by (fastforce simp: pruned_def elsL)
    then show ?thesis by (auto simp: pruned_def)
  qed
  also have "prune_closure \<dots> = prune_closure (?d ` (bs_pruned s \<union> ?N))"
  proof -
    have "pruned (roots_of els b) \<union> ?d ` els L = prune_closure (?d ` bs_pruned s) \<union> ?d ` ?N"
      unfolding elsL inv(12) by auto
    then show ?thesis by (simp only: prune_closure_idem image_Un)
  qed
  finally have P: "pruned (roots_of els b') = prune_closure (?d ` (bs_pruned s \<union> ?N))" unfolding c(7) .
  have "backend_inv lib els hrep drep f' b' \<lparr> bs_now = bs_now s, bs_saved = bs_now s, bs_pruned = bs_pruned s \<union> ?N, bs_clean = True \<rparr>"
  proof (rule settled_inv [OF c(2,3) _ _ P])
    show "unspent_of els b' = rv_unspent (bs_now s)" "els (ls_bitmap_bak (fb_leaf_set b')) = rv_unspent (bs_now s)"
      using c(5,6) inv(10) by simp_all
    show "\<forall>x\<in>bs_pruned s \<union> ?N. 0 < x \<and> is_leaf (x - 1)" using inv(13) by auto
    show "\<exists>bm. read_or_new lib f' (join_path (fb_data_dir b') pmmr_prun_file) = Inr bm \<and> els bm = roots_of els b'"
      using c(8) unfolding c(4) .
  qed
  then show ?thesis using c(1) clean by (cases s) simp
qed

lemma reads:
  assumes lib: "croaring_ok lib els" and inv: "backend_inv lib els hrep drep f b s"
  shows "i < length (rv_data (bs_now s)) \<Longrightarrow> insertion_to_pmmr_index i = pos \<Longrightarrow>
      fb_get_data lib pm b pos = Some (if Suc pos \<in> rv_unspent (bs_now s) then Some (rv_data (bs_now s) ! i) else None) \<and>
      fb_get_hash lib b pos = Some (if Suc pos \<in> rv_unspent (bs_now s) then Some (rv_hashes (bs_now s) ! pos) else None)"
    and "pos < length (rv_hashes (bs_now s)) \<Longrightarrow> fst (family pos) \<notin> prune_closure ((\<lambda>x. x - 1) ` bs_pruned s) \<Longrightarrow>
      fb_get_from_file lib b pos = Some (Some (rv_hashes (bs_now s) ! pos))"
    and "pos \<in> set (peaks (length (rv_hashes (bs_now s)))) \<Longrightarrow> fb_get_peak_from_file lib b pos = Some (Some (rv_hashes (bs_now s) ! pos))"
    and "fb_n_unpruned_leaves lib f b = Some (card (rv_unspent (bs_now s)))"
    and "bs_clean s \<Longrightarrow> fb_unpruned_size lib f b = Some (length (rv_hashes (bs_now s)))"
proof -
  let ?hs = "rv_hashes (bs_now s)" and ?ds = "rv_data (bs_now s)" and ?S = "roots_of els b"
  note rep = inv_rep [OF inv] and settled = inv_settled [OF inv] and inv = invD [OF inv]
  note v = view_okD [OF inv(3)]
  have nn: "no_nesting ?S" using inv(7) by (simp add: prune_list_ok_def rolled_up_def)
  have small: "pos + 2 < 2 ^ 32" if "pos < length ?hs" for pos using v(2) that by simp
  show "fb_get_data lib pm b pos = Some (if Suc pos \<in> rv_unspent (bs_now s) then Some (?ds ! i) else None) \<and>
      fb_get_hash lib b pos = Some (if Suc pos \<in> rv_unspent (bs_now s) then Some (?hs ! pos) else None)"
    if "i < length ?ds" "insertion_to_pmmr_index i = pos"
  proof -
    have "pos < length ?hs" unfolding v(1) that(2) [symmetric] using that(1) by (simp only: insertion_less_iff)
    then have "insertion_to_pmmr_index i + 2 < 2 ^ 32" using small that(2) by simp
    from get_leaf_ok [OF lib rep this] show ?thesis using inv(5) unfolding that(2) inv(10) by simp
  qed
  show "fb_get_from_file lib b pos = Some (Some (?hs ! pos))"
    if "pos < length ?hs" "fst (family pos) \<notin> prune_closure ((\<lambda>x. x - 1) ` bs_pruned s)"
  proof -
    have "pos \<notin> compacted ?S" using that(2) unfolding compacted_parent [OF nn] inv(12) by simp
    then show ?thesis using get_from_file_ok [OF lib rep, of pos] small [OF that(1)] that(1) by (simp add: nth_opt_def)
  qed
  show "fb_get_peak_from_file lib b pos = Some (Some (?hs ! pos))" if "pos \<in> set (peaks (length ?hs))"
  proof -
    have p: "pos < length ?hs" "length ?hs \<le> fst (family pos)" using that unfolding v(1) set_peaks_insertion by auto
    have "fst (family pos) \<notin> pruned ?S" using pruned_less [OF nn, of "length ?hs" "fst (family pos)"] v(3) p(2) by fastforce
    then have "pos \<notin> compacted ?S" by (simp add: compacted_parent [OF nn])
    then show ?thesis using get_peak_from_file_ok [OF lib rep, of pos] small [OF p(1)] p(1) by (simp add: nth_opt_def)
  qed
  show "fb_n_unpruned_leaves lib f b = Some (card (rv_unspent (bs_now s)))"
    using inv(5,10) by (simp add: fb_n_unpruned_leaves_def leaf_set_len_def croaring_okD(16) [OF lib])
  show "fb_unpruned_size lib f b = Some (length ?hs)" if c: "bs_clean s"
  proof -
    have "hrep f (fb_hash_file b) (kept_hashes ?S ?hs) (length (kept_hashes ?S ?hs)) []" using settled [OF c] by (simp add: fb_settled_def)
    then have "fb_hash_size f b = length (kept_hashes ?S ?hs)"
      using hf.rep_size by (simp add: fb_hash_size_def data_size_def)
    moreover have "\<forall>x\<in>?S. x \<le> insertion_to_pmmr_index (length ?ds)" using v(3) unfolding v(1) by blast
    ultimately show ?thesis
      using total_shifts(2) [OF lib inv(7) _ refl, of "length ?ds"] v(1) by (auto simp: fb_unpruned_size_def kept_hashes_def length_nths_rank)
  qed
qed

text \<open>Every operation that the specification allows succeeds and keeps the invariant.\<close>

lemma op_step:
  assumes "croaring_ok lib els" and "backend_inv lib els hrep drep f b s" and "op_ok els (pm_as_elmt pm) dok op s"
  shows "\<exists>b' f'. run_backend_op lib pm op (b, f) = Some (b', f') \<and> backend_inv lib els hrep drep f' b' (spec_op els (pm_as_elmt pm) op s)"
proof (cases op)
  case (BAppend x hashes)
  then have "op_ok els (pm_as_elmt pm) dok (BAppend x hashes) s" using assms(3) by simp
  from append_step [OF assms(1,2) this] obtain b' where "fb_append lib pm b x hashes = Some (Inr b')"
      "backend_inv lib els hrep drep f b' (spec_op els (pm_as_elmt pm) (BAppend x hashes) s)" by blast
  then show ?thesis by (intro exI conjI) (simp_all add: BAppend unwrap_def del: spec_op.simps)
next
  case (BRemove pos0)
  then have "op_ok els (pm_as_elmt pm) dok (BRemove pos0) s" using assms(3) by simp
  from remove_step [OF assms(1,2) this] obtain b' where "fb_remove lib b pos0 = Some (Inr b')"
      "backend_inv lib els hrep drep f b' (spec_op els (pm_as_elmt pm) (BRemove pos0) s)" by blast
  then show ?thesis by (intro exI conjI) (simp_all add: BRemove unwrap_def del: spec_op.simps)
next
  case (BRewind position rm)
  then have "op_ok els (pm_as_elmt pm) dok (BRewind position rm) s" using assms(3) by simp
  from rewind_step [OF assms(1,2) this] obtain b' where "fb_rewind lib b position rm = Some (Inr b')"
      "backend_inv lib els hrep drep f b' (spec_op els (pm_as_elmt pm) (BRewind position rm) s)" by blast
  then show ?thesis by (intro exI conjI) (simp_all add: BRewind unwrap_def del: spec_op.simps)
next
  case BSync
  from sync_step [OF assms(1,2)] obtain b' f' where "fb_sync lib f b = Inr (b', f')"
      "backend_inv lib els hrep drep f' b' (spec_op els (pm_as_elmt pm) BSync s)" by blast
  then show ?thesis by (intro exI conjI) (simp_all add: BSync unwrap_def del: spec_op.simps)
next
  case BDiscard
  from discard_step [OF assms(1,2)] obtain b' where "fb_discard lib f b = Some b'"
      "backend_inv lib els hrep drep f b' (spec_op els (pm_as_elmt pm) BDiscard s)" by blast
  then show ?thesis by (intro exI conjI) (simp_all add: BDiscard del: spec_op.simps)
next
  case (BCompact cutoff rm des)
  then have "op_ok els (pm_as_elmt pm) dok (BCompact cutoff rm des) s" using assms(3) by simp
  from compact_step [OF assms(1,2) this] obtain b' f' where "fb_check_compact lib pm f b cutoff rm (Inr des) = Some (Inr (True, b', f'))"
      "backend_inv lib els hrep drep f' b' (spec_op els (pm_as_elmt pm) (BCompact cutoff rm des) s)" by blast
  then show ?thesis by (intro exI conjI) (simp_all add: BCompact unwrap_def del: spec_op.simps)
qed

lemma ops_run:
  assumes "croaring_ok lib els"
  shows "backend_inv lib els hrep drep f b s \<Longrightarrow> ops_ok els (pm_as_elmt pm) dok ops s \<Longrightarrow>
    \<exists>b' f'. run_backend_ops lib pm ops (b, f) = Some (b', f') \<and> backend_inv lib els hrep drep f' b' (fold (spec_op els (pm_as_elmt pm)) ops s)"
proof (induction ops arbitrary: f b s)
  case (Cons op ops)
  have ok: "op_ok els (pm_as_elmt pm) dok op s" "ops_ok els (pm_as_elmt pm) dok ops (spec_op els (pm_as_elmt pm) op s)"
    using Cons.prems(2) by (simp_all only: ops_ok.simps)
  obtain b1 f1 where "run_backend_op lib pm op (b, f) = Some (b1, f1)" "backend_inv lib els hrep drep f1 b1 (spec_op els (pm_as_elmt pm) op s)"
    using op_step [OF assms Cons.prems(1) ok(1)] by blast
  then show ?case using Cons.IH [of f1 b1] ok(2) by simp
qed simp

end

section \<open>A new backend\<close>

lemma open_new_fixed_file:
  assumes "f p = None"
  shows "aof_open rd f p (FixedSize n) v = Some (Inr (AppendOnlyFile p (FixedSize n) v None [] 0 0, f (p \<mapsto> [])))"
  using assms by (simp add: aof_open_def fs_touch_def fs_len_def fs_read_def)

lemma with_extension_names:
  "with_extension (join_path dir pmmr_hash_file) ''tmp'' = join_path dir ''pmmr_hash.tmp''"
  "with_extension (join_path dir pmmr_data_file) ''tmp'' = join_path dir ''pmmr_data.tmp''"
  by (simp_all add: with_extension_def join_path_def file_names)

lemma new_fixed_rep:
  assumes "f p = Some []" and "eof_codec wr rd valid" and "0 < n"
  shows "fixed_file wr rd valid n v f (AppendOnlyFile p (FixedSize n) v None [] 0 0) [] 0 []"
  using assms by (simp add: fixed_file_def fixed_rep_def core_rep_def)

lemma prune_list_open_new:
  assumes "croaring_ok lib els" and "f fp = None"
  shows "\<exists>pl. prune_list_open lib f fp = Some (Inr pl) \<and> prune_list_ok els pl \<and> pl_path pl = Some fp \<and> els (pl_bitmap pl) = {}"
proof -
  note ok = croaring_okD [OF assms(1)]
  have nn: "no_nesting (els (rb_new lib))" by (simp add: no_nesting_def ok)
  obtain pl where pl: "prune_list_new lib (Some fp) (rb_new lib) = Some pl" "prune_list_ok els pl" "pl_path pl = Some fp"
      "pruned (els (pl_bitmap pl)) = prune_closure (pruned (els (rb_new lib)))"
    using prune_list_new_ok [OF assms(1) nn, of "Some fp"] by (auto simp: ok)
  have "pruned (els (pl_bitmap pl)) = {}"
    using pl(4) pruned_rolled_up_fixed [of "{}"] by (simp add: ok pruned_def rolled_up_def no_nesting_def)
  then have "els (pl_bitmap pl) = {}" using root_pruned by blast
  then show ?thesis
    using pl(1-3) init_caches_ok [OF assms(1) pl(2)] assms(2) by (simp add: prune_list_open_def read_or_new_def fs_exists_def ok)
qed

abbreviation hash_file_rep :: "protocol_version \<Rightarrow> hash file_rep" where
  "hash_file_rep v \<equiv> fixed_file hash_write hash_read (\<lambda>_ h. length h = 32) 32 v"

abbreviation hash_file_ok :: "protocol_version \<Rightarrow> hash list \<Rightarrow> hash \<Rightarrow> bool" where
  "hash_file_ok v \<equiv> \<lambda>cur h. length h = 32 \<and> length (enc hash_write v h) = 32"

lemma new_backend:
  assumes lib: "croaring_ok lib els" and cd: "eof_codec (pm_write pm) (pm_read pm) valid" and n: "pm_elmt_size pm = Some n" "0 < n"
    and fresh: "\<forall>nm. f (join_path dir nm) = None"
  shows "\<exists>b f'. fb_new lib pm f dir True v None = Some (Inr (b, f')) \<and>
    backend_inv lib els (hash_file_rep v) (fixed_file (pm_write pm) (pm_read pm) valid n v) f' b empty_spec"
proof -
  let ?p = "join_path dir"
  define f' where "f' = (f (?p pmmr_hash_file \<mapsto> [])) (?p pmmr_data_file \<mapsto> [])"
  have f': "f' (?p pmmr_prun_file) = None" "f' (?p pmmr_leaf_file) = None" "f' (?p pmmr_hash_file) = Some []" "f' (?p pmmr_data_file) = Some []"
    using fresh by (simp_all add: f'_def file_names)
  obtain pl where pl: "prune_list_open lib f' (?p pmmr_prun_file) = Some (Inr pl)" "prune_list_ok els pl"
      "pl_path pl = Some (?p pmmr_prun_file)" "els (pl_bitmap pl) = {}"
    using prune_list_open_new [OF lib, of f' "?p pmmr_prun_file"] f'(1) by blast
  define b where "b = \<lparr> fb_data_dir = dir, fb_prunable = True, fb_hash_file = AppendOnlyFile (?p pmmr_hash_file) (FixedSize 32) v None [] 0 0,
    fb_data_file = AppendOnlyFile (?p pmmr_data_file) (FixedSize n) v None [] 0 0,
    fb_leaf_set = \<lparr> ls_path = ?p pmmr_leaf_file, ls_bitmap = rb_new lib, ls_bitmap_bak = rb_new lib \<rparr>, fb_prune_list = pl \<rparr>"
  have df: "aof_open (pm_read pm) (f (?p pmmr_hash_file \<mapsto> [])) (?p pmmr_data_file) (FixedSize n) v =
      Some (Inr (AppendOnlyFile (?p pmmr_data_file) (FixedSize n) v None [] 0 0, f'))"
    using open_new_fixed_file [of "f (?p pmmr_hash_file \<mapsto> [])" "?p pmmr_data_file"] fresh by (simp add: file_names f'_def)
  have run: "fb_new lib pm f dir True v None = Some (Inr (b, f'))"
    using fresh pl(1) f'(2)
    by (simp add: fb_new_def n(1) open_new_fixed_file hash_len_def df leaf_set_open_def
        read_or_new_def fs_exists_def b_def)
  have "fb_settled els (hash_file_rep v) (fixed_file (pm_write pm) (pm_read pm) valid n v) f' b [] []"
    using pl(2,4) f'(3,4) new_fixed_rep [OF _ hash_codec.eof_codec_axioms, of f' "?p pmmr_hash_file" 32 v] new_fixed_rep [OF _ cd n(2), of f' "?p pmmr_data_file" v]
    by (simp add: fb_settled_def b_def kept_hashes_def kept_data_def named_paths_def paths_def size_paths_def tmp_path_def
        with_extension_names pl(3) sets_ok_def croaring_okD(1) [OF lib] Let_def)
  from settled_inv [where v = empty_view, unfolded empty_view_def, simplified, OF this, of "{}" lib]
  have "backend_inv lib els (hash_file_rep v) (fixed_file (pm_write pm) (pm_read pm) valid n v) f' b empty_spec"
    using pl(4) f'(1) pruned_rolled_up_fixed [of "{}"]
    by (simp add: b_def croaring_okD(1) [OF lib] empty_spec_def empty_view_def pruned_def rolled_up_def no_nesting_def read_or_new_def fs_exists_def)
  then show ?thesis using run by blast
qed

interpretation fixed_backend: backend_ops_files "hash_file_rep v" "hash_file_ok v" "pm_write pm" "pm_read pm"
  "fixed_file (pm_write pm) (pm_read pm) valid n v" "\<lambda>cur x. valid v x \<and> length (enc (pm_write pm) v x) = n" pm
  for v and pm :: "('t, 'e) pmmrable" and valid n
  by unfold_locales (simp_all add: enc_def hash_write_def write_fixed_bytes_def)

section \<open>Properties\<close>

text \<open>C2: The file backend is the list it stands for. Open a backend for elements of fixed size in an empty directory and
  run any sequence of appends, removals, rewinds, \<open>sync\<close>s, \<open>discard\<close>s and compactions that the specification
  allows: every call returns without panic or error, and afterwards the data and the hash of every leaf are the ones the specification
  has, or are absent when the leaf is spent; every hash whose parent is not pruned, and the hash of every peak, is read
  from the file; the number of unspent leaves and, after \<open>sync\<close>, \<open>discard\<close> or compaction, the unpruned size are right.
  So compaction, which rewrites the files and the prune list, is not visible to the readers.\<close>

theorem file_backend_refines:
  assumes "croaring_ok lib els" and "eof_codec (pm_write pm) (pm_read pm) valid" and "pm_elmt_size pm = Some n" and "0 < n"
    and "\<forall>nm. f (join_path dir nm) = None"
    and "ops_ok els (pm_as_elmt pm) (\<lambda>_ x. valid v x \<and> length (enc (pm_write pm) v x) = n) ops empty_spec"
    and "s = fold (spec_op els (pm_as_elmt pm)) ops empty_spec"
  shows "\<exists>b0 f0 b f'. fb_new lib pm f dir True v None = Some (Inr (b0, f0)) \<and> run_backend_ops lib pm ops (b0, f0) = Some (b, f') \<and>
    (\<forall>i < length (rv_data (bs_now s)). let pos = insertion_to_pmmr_index i in
      fb_get_data lib pm b pos = Some (if Suc pos \<in> rv_unspent (bs_now s) then Some (rv_data (bs_now s) ! i) else None) \<and>
      fb_get_hash lib b pos = Some (if Suc pos \<in> rv_unspent (bs_now s) then Some (rv_hashes (bs_now s) ! pos) else None)) \<and>
    (\<forall>pos < length (rv_hashes (bs_now s)). fst (family pos) \<notin> prune_closure ((\<lambda>x. x - 1) ` bs_pruned s) \<longrightarrow>
      fb_get_from_file lib b pos = Some (Some (rv_hashes (bs_now s) ! pos))) \<and>
    (\<forall>pos\<in>set (peaks (length (rv_hashes (bs_now s)))). fb_get_peak_from_file lib b pos = Some (Some (rv_hashes (bs_now s) ! pos))) \<and>
    fb_n_unpruned_leaves lib f' b = Some (card (rv_unspent (bs_now s))) \<and>
    (bs_clean s \<longrightarrow> fb_unpruned_size lib f' b = Some (length (rv_hashes (bs_now s))))"
proof -
  obtain b0 f0 where new: "fb_new lib pm f dir True v None = Some (Inr (b0, f0))"
      "backend_inv lib els (hash_file_rep v) (fixed_file (pm_write pm) (pm_read pm) valid n v) f0 b0 empty_spec"
    using new_backend [OF assms(1-5)] by blast
  obtain b f' where run: "run_backend_ops lib pm ops (b0, f0) = Some (b, f')"
      "backend_inv lib els (hash_file_rep v) (fixed_file (pm_write pm) (pm_read pm) valid n v) f' b s"
    using fixed_backend.ops_run [OF assms(1) new(2) assms(6)] unfolding assms(7) by blast
  show ?thesis
    using new(1) run(1) fixed_backend.reads [OF assms(1) run(2)] unfolding Let_def by blast
qed

definition u64_elements :: "(u64, u64) pmmrable" where
  "u64_elements = \<lparr> pm_as_elmt = (\<lambda>x. x), pm_elmt_size = Some 8, pm_write = u64_write, pm_read = read_u64 \<rparr>"

definition sample_ops :: "(u64, nat list) backend_op list" where
  "sample_ops = [BAppend 5 [replicate 32 1], BAppend 6 [replicate 32 2, replicate 32 3], BAppend 7 [replicate 32 4], BSync,
     BRemove 0, BRemove 1, BCompact 3 [] [], BAppend 8 [replicate 32 5, replicate 32 6, replicate 32 7], BDiscard]"

theorem file_backend_refines_witness:
  "\<exists>b0 f0 b f'. fb_new list_bitmap u64_elements Map.empty ''d'' True 1 None = Some (Inr (b0, f0)) \<and>
     run_backend_ops list_bitmap u64_elements sample_ops (b0, f0) = Some (b, f') \<and>
     fb_get_data list_bitmap u64_elements b 3 = Some (Some 7) \<and> fb_get_data list_bitmap u64_elements b 0 = Some None \<and>
     fb_n_unpruned_leaves list_bitmap f' b = Some 1 \<and> fb_unpruned_size list_bitmap f' b = Some 4"
proof -
  let ?ok = "\<lambda>_ x. True \<and> length (enc (pm_write u64_elements) 1 x) = 8"
  define s where "s = fold (spec_op set (pm_as_elmt u64_elements)) sample_ops empty_spec"
  have ins: "insertion_to_pmmr_index (Suc 0) = 1" "insertion_to_pmmr_index 0 = 0" "insertion_to_pmmr_index 2 = 3"
      "insertion_to_pmmr_index (Suc (Suc 0)) = 3" "insertion_to_pmmr_index (Suc (Suc (Suc 0))) = 4"
      "insertion_to_pmmr_index (Suc (Suc (Suc (Suc 0)))) = 7"
    by code_simp+
  have ok: "ops_ok set (pm_as_elmt u64_elements) ?ok sample_ops empty_spec"
    by (simp add: sample_ops_def empty_spec_def empty_view_def u64_elements_def enc_def u64_write_def ins)
  have s: "rv_data (bs_now s) = [5, 6, 7]" "rv_unspent (bs_now s) = {4}" "length (rv_hashes (bs_now s)) = 4" "bs_clean s"
    by (auto simp: s_def sample_ops_def empty_spec_def empty_view_def u64_elements_def)
  from file_backend_refines [OF croaring_ok_list _ _ _ _ ok s_def, of Map.empty "''d''"]
  obtain b0 f0 b f' where r: "fb_new list_bitmap u64_elements Map.empty ''d'' True 1 None = Some (Inr (b0, f0))"
      "run_backend_ops list_bitmap u64_elements sample_ops (b0, f0) = Some (b, f')"
      "\<And>i. i < 3 \<Longrightarrow> fb_get_data list_bitmap u64_elements b (insertion_to_pmmr_index i) =
        Some (if Suc (insertion_to_pmmr_index i) \<in> {4} then Some ([5, 6, 7] ! i) else None)"
      "fb_n_unpruned_leaves list_bitmap f' b = Some (card {4 :: nat})" "fb_unpruned_size list_bitmap f' b = Some 4"
    using u64_codec.eof_codec_axioms s by (auto simp: u64_elements_def Let_def)
  show ?thesis using r(1,2,4,5) r(3) [of 0] r(3) [of 2] by (auto simp: ins)
qed

end
