(* ===== verification/Spec2Isabelle.thy ===== *)
theory Spec2Isabelle
  imports Merkle_Proof Consensus Util Chain_Store Cuckoo_Cycle Backend_Ops
begin

text \<open>
  A verification library for grin, a node of the Mimblewimble protocol (the Rust sources under \<open>src/\<close>).

  \<^bold>\<open>The program and its parts.\<close> A node keeps a chain of blocks whose outputs, range proofs and kernels are leaves of
  Merkle mountain ranges. Transactions and blocks arrive in the binary format of \<open>core/src/ser.rs\<close>, are checked
  against the consensus rules, the balance of their Pedersen commitments and the proof of work, and are stored: blocks and
  indexes in a key-value store, the ranges in append-only files that are pruned and compacted as outputs are spent.
  The theories follow these parts, each on the ones it calls:

  \<^item> \<open>Grin_Prelude\<close>: machine integers as words, \<open>Result\<close> as the sum \<open>'e + 'a\<close> with \<open>rbind\<close> for the question
    mark, loops with early return, lemmas on lists and words that the other theories share.
  \<^item> \<open>Pmmr_Pos\<close>: the position arithmetic of \<open>core/src/core/pmmr/pmmr.rs\<close> (\<open>peak_map_height\<close>, \<open>peaks\<close>, \<open>family\<close>,
    \<open>family_branch\<close>, \<open>insertion_to_pmmr_index\<close>, \<open>bintree_range\<close>, and others), against nodes given by their rightmost
    leaf and height.
  \<^item> \<open>Pmmr\<close>: \<open>PMMR\<close> with \<open>push\<close>, \<open>root\<close>, \<open>rewind\<close>, \<open>prune\<close>, \<open>validate\<close> over a backend. The locale
    \<open>mmr_backend\<close> states what the range needs of it; it is interpreted on the in-memory backend of \<open>vec_backend.rs\<close>.
  \<^item> \<open>Merkle_Proof\<close>: \<open>merkle_proof.rs\<close>, verification and construction of proofs; soundness gives a collision of the hash.
  \<^item> \<open>Ser\<close>: readers, writers and the composite types of \<open>ser.rs\<close>; the locale \<open>codec\<close> (what is written is read back,
    with any rest of the input) and its extension \<open>eof_codec\<close> are interpreted on every type that has such a format.
  \<^item> \<open>Consensus\<close>, \<open>Util\<close>: \<open>consensus.rs\<close> and \<open>global.rs\<close> (difficulty adjustment, header versions, weights, chain
    parameters), and \<open>hex.rs\<close>, \<open>rate_counter.rs\<close> and the stop state of \<open>util\<close>.
  \<^item> \<open>Committed\<close>, \<open>Transaction\<close>, \<open>Cut_Through\<close>, \<open>Block\<close>: \<open>committed.rs\<close>, \<open>block_sums.rs\<close>, \<open>transaction.rs\<close>, \<open>block.rs\<close>,
    \<open>compact_block.rs\<close>, \<open>id.rs\<close>: formats, validation, cut-through, aggregation, hydration. secp256k1 is the record
    \<open>secp_lib\<close> with the hypothesis \<open>homomorphic\<close>.
  \<^item> \<open>Pow_Types\<close>, \<open>Cuckoo\<close>, \<open>Cuckoo_Cycle\<close>: \<open>core/src/pow\<close>: packed proofs and difficulty, siphash, the five verifiers, the
    Cuckatoo solver, and what the verifiers accept. blake2b is a parameter.
  \<^item> \<open>Kv_Store\<close>, \<open>Linked_List\<close>, \<open>Chain_Store\<close>: \<open>store/src/lmdb.rs\<close>, \<open>chain/src/linked_list.rs\<close>, \<open>chain/src/store.rs\<close>.
    LMDB (crate heed) is the record \<open>heed_lib\<close> with the hypothesis \<open>heed_ok\<close>.
  \<^item> \<open>Store_Files\<close>, \<open>Prune_List\<close>, \<open>Leaf_Set\<close>, \<open>Append_File\<close>, \<open>File_Backend\<close>, \<open>Backend_Ops\<close>: \<open>store/src/lib.rs\<close>,
    \<open>prune_list.rs\<close>, \<open>leaf_set.rs\<close>, \<open>types.rs\<close> and \<open>pmmr.rs\<close> of \<open>store/src\<close>. Files are a map from paths to bytes. The bitmaps of the crate
    croaring are the record \<open>croaring\<close> with the hypothesis \<open>croaring_ok\<close>, which reads a bitmap as a set of numbers. The locale
    \<open>element_file\<close> is the contract of a file of elements, interpreted on files of fixed (\<open>ff\<close>) and of variable (\<open>vf\<close>)
    element size; \<open>backend_files\<close> and \<open>backend_ops_files\<close> are the client of two such files, interpreted in
    \<open>fixed_backend\<close>.

  \<^bold>\<open>Correspondence.\<close> Definitions have the names of the functions they translate, with a prefix where several types have a
  method of the same name (\<open>fb_\<close> for \<open>PMMRBackend\<close>, \<open>aof_\<close> for \<open>AppendOnlyFile\<close>, \<open>data_\<close> for \<open>DataFile\<close>, \<open>cs_\<close> for the
  chain store, \<open>vec_\<close> for \<open>VecBackend\<close>, \<open>kf_\<close>, \<open>tx_\<close>, \<open>body_\<close>, \<open>blk_\<close>, \<open>cbody_\<close>). Structs are records, enums datatypes, a
  method that mutates \<open>self\<close> returns the new record. \<open>None\<close> of an outer option is a panic or a loop that does not end.

  \<^bold>\<open>What is shown.\<close> For the positions and the ranges: the arithmetic agrees with the tree, the range computes the hashes and
  the root of its leaves under every sequence of operations, proofs are complete and sound, \<open>validate\<close> is sound. For the
  formats: round trips, canonical kernels, rejection of unsorted lists. For the rules: bounds and response of the difficulty
  adjustment, the schedule of versions, balance of what validation accepts, cut-through as a multiset operation, aggregation
  keeps the balance, hydration restores the block. For the proof of work: the verifiers accept exactly proofs that are one
  cycle, and end (one of them may not, which is a finding). For the stores: iteration ends and is complete, the index of
  recent kernels refines plain lists, blocks and headers read back. For the files: the prune list is closed under rolling up
  siblings, its shifts count what compaction removed, leaf sets rewind, files refine lists, and the backend refines the
  list of its hashes and data with the set of unspent leaves: whatever the sequence of appends, removals, rewinds, syncs,
  discards and compactions, no call fails, and readers cannot tell that the files were compacted.

  \<^bold>\<open>Bounds.\<close> Consensus, formats and proof of work compute on words of the width of the source and wrap as a release build
  does. Positions of the ranges are natural numbers. The prune list and the leaf set cast positions to 32 bits; the casts
  are written out (\<open>as_u32\<close>, \<open>pos1_u32\<close>), and the theorems ask for ranges of at most \<open>2 ^ 30\<close> positions, which keeps every
  sibling and parent the climbs look at below \<open>2 ^ 32\<close>. Loops without a structural measure are \<open>partial_function (option)\<close>; that they return is part of the
  theorems. No fuel is used.

  \<^bold>\<open>Not modelled.\<close> Failing disks, threads and locks. The transaction hash sets, segments and the pipeline
  (\<open>chain/src/txhashset\<close>, \<open>pipe.rs\<close>, \<open>chain.rs\<close>) apart from the update of the block sums: they run over locks, several databases and
  the file backends at once. The pool, the peer-to-peer layer, the servers and the API: sockets, threads and
  adapters. Wallet code (\<open>keychain\<close>, \<open>libtx\<close>): calls into secp256k1. Genesis data, configuration, logging and the terminal.
\<close>

end
